(* ===== verification/Rust_Base.thy ===== *)
theory Rust_Base
  imports Main "HOL-Library.Word"
begin

text \<open>
  The vocabulary shared by every component: Rust's machine integers as words, its \<open>char\<close> and
  \<open>str\<close> as code points and lists of them, panics as the left injection of a sum, and the
  few generic facts on sums, lists and words that the component theories use.
\<close>

section \<open>Types\<close>

type_synonym u8 = "8 word"
type_synonym u16 = "16 word"
type_synonym u32 = "32 word"
type_synonym u128 = "128 word"
type_synonym usize = "64 word"

text \<open>A Rust \<open>char\<close> is a Unicode scalar value; a \<open>str\<close> is a sequence of them.\<close>

type_synonym rchar = nat
type_synonym rstr = "rchar list"

definition scalar_value :: "rchar \<Rightarrow> bool" where
  "scalar_value c \<longleftrightarrow> c < 0xD800 \<or> (0xE000 \<le> c \<and> c < 0x110000)"

abbreviation valid_str :: "rstr \<Rightarrow> bool" where
  "valid_str s \<equiv> list_all scalar_value s"

definition str :: "string \<Rightarrow> rstr" where
  "str = map of_char"

section \<open>Panics\<close>

text \<open>
  A panic carries the message of its site: the literal of the \<open>panic!\<close>, \<open>expect\<close> or
  \<open>assert!\<close>, without the values a format string would insert.
\<close>

datatype panic = Panic string

type_synonym 'a result = "panic + 'a"

text \<open>Sequencing: the first panic ends the computation.\<close>

definition and_then :: "'e + 'a \<Rightarrow> ('a \<Rightarrow> 'e + 'b) \<Rightarrow> 'e + 'b" where
  "and_then m f = (case m of Inl e \<Rightarrow> Inl e | Inr x \<Rightarrow> f x)"

lemma and_then_simps [simp]:
  "and_then (Inl e) f = Inl e"
  "and_then (Inr x) f = f x"
  by (simp_all add: and_then_def)

lemma and_then_cong [fundef_cong]:
  "m = m' \<Longrightarrow> (\<And>x. m' = Inr x \<Longrightarrow> f x = g x) \<Longrightarrow> and_then m f = and_then m' g"
  by (cases m') auto

lemma and_then_eq_Inr [simp]:
  "and_then m f = Inr y \<longleftrightarrow> (\<exists>x. m = Inr x \<and> f x = Inr y)"
  by (cases m) auto

lemma and_then_eq_Inl:
  "and_then m f = Inl e \<longleftrightarrow> m = Inl e \<or> (\<exists>x. m = Inr x \<and> f x = Inl e)"
  by (cases m) auto

definition expect_some :: "string \<Rightarrow> 'a option \<Rightarrow> 'a result" where
  "expect_some msg x = (case x of None \<Rightarrow> Inl (Panic msg) | Some v \<Rightarrow> Inr v)"

lemma expect_some_simps [simp]:
  "expect_some msg None = Inl (Panic msg)"
  "expect_some msg (Some v) = Inr v"
  by (simp_all add: expect_some_def)

lemma expect_some_eq_Inr [simp]: "expect_some msg x = Inr v \<longleftrightarrow> x = Some v"
  by (cases x) auto

section \<open>Machine words\<close>

lemma unat_of_nat_small: "n < 2 ^ LENGTH('a) \<Longrightarrow> unat (of_nat n :: 'a::len word) = n"
  by (simp add: unat_of_nat)

lemma of_nat_eq_0_small: "n < 2 ^ LENGTH('a) \<Longrightarrow> (of_nat n :: 'a::len word) = 0 \<longleftrightarrow> n = 0"
  by (auto simp: word_of_nat_eq_0_iff dest: nat_dvd_not_less [rotated])

text \<open>A cast between widths keeps the low bits, so a narrowing one keeps a small number.\<close>

lemma unat_ucast_mod: "unat (ucast (w :: 'a::len word) :: 'b::len word) = unat w mod 2 ^ LENGTH('b)"
  by (simp add: unsigned_ucast_eq take_bit_eq_mod)

lemma unat_ucast_small:
  "unat (w :: 'a::len word) < 2 ^ LENGTH('b) \<Longrightarrow> unat (ucast w :: 'b::len word) = unat w"
  by (simp add: unat_ucast_mod)

lemma usize_to_u32: "(ucast (of_nat n :: usize) :: u32) = of_nat n"
  by (rule word_unat_eq_iff [THEN iffD2]) (simp add: unat_ucast_mod unat_of_nat mod_mod_cancel)

text \<open>The cast \<open>n as u8\<close>.\<close>

definition as_u8 :: "nat \<Rightarrow> u8" where
  "as_u8 n = of_nat n"

lemma unat_as_u8: "unat (as_u8 n) = n mod 256"
  by (simp add: as_u8_def unat_of_nat)

lemma unat_as_u8_small [simp]: "n < 256 \<Longrightarrow> unat (as_u8 n) = n"
  by (simp add: unat_as_u8)

lemma as_u8_unat [simp]: "as_u8 (unat b) = b"
  by (simp add: as_u8_def)

section \<open>Printing\<close>

text \<open>What a piece of code has printed, and the panic that ended it, if one did.\<close>

type_synonym written = "rstr \<times> unit result"

definition with_newline :: "rstr \<Rightarrow> rstr" where
  "with_newline s = s @ [10]"

definition then_write :: "written \<Rightarrow> written \<Rightarrow> written" where
  "then_write a b = (case a of (s, Inl p) \<Rightarrow> (s, Inl p) | (s, Inr _) \<Rightarrow> (s @ fst b, snd b))"

lemma then_write_Inr [simp]: "then_write (s, Inr u) b = (s @ fst b, snd b)"
  by (simp add: then_write_def)

lemma then_write_Inl [simp]: "then_write (s, Inl p) b = (s, Inl p)"
  by (simp add: then_write_def)

end
