(* ===== verification/Symbols.thy ===== *)
theory Symbols
  imports Rust_Base
begin

text \<open>
  \<^verbatim>\<open>lib/proc_macro/src/symbol.rs\<close>: interned strings. A symbol is a non-zero 32-bit handle
  into the table of names; \<open>intern\<close> finds or adds a name, \<open>as_str\<close> reads it back.
\<close>

section \<open>The table and its operations\<close>

type_synonym symbol = u32

record symbol_table =
  names :: "rstr list"
  index :: "(rstr \<rightharpoonup> symbol) option"

definition empty_symbols :: symbol_table where
  "empty_symbols = \<lparr>names = [], index = None\<rparr>"

text \<open>
  The name is pushed before the new handle is checked, so a table that overflowed keeps it:
  the state is returned with a panic as well.
\<close>

definition intern :: "rstr \<Rightarrow> symbol_table \<Rightarrow> symbol result \<times> symbol_table" where
  "intern text st =
     (let idx = (case index st of None \<Rightarrow> Map.empty | Some m \<Rightarrow> m)
      in case idx text of
        Some symbol \<Rightarrow> (Inr symbol, st\<lparr>index := Some idx\<rparr>)
      | None \<Rightarrow>
          (let ns = names st @ [text]; symbol = (of_nat (length ns) :: u32)
           in if symbol = 0
              then (Inl (Panic ''symbol table overflow''), st\<lparr>names := ns, index := Some idx\<rparr>)
              else (Inr symbol, st\<lparr>names := ns, index := Some (idx(text \<mapsto> symbol))\<rparr>)))"

definition as_str :: "symbol_table \<Rightarrow> symbol \<Rightarrow> rstr result" where
  "as_str st s =
     (if unat s - 1 < length (names st) then Inr (names st ! (unat s - 1))
      else Inl (Panic ''index out of bounds''))"

section \<open>The interface a table of interned names offers\<close>

text \<open>
  The clients of interning compare tokens by their handles and read their text back: they
  rely on a handle meaning the text it was made from, now and after any later \<open>intern\<close>.
\<close>

locale interner =
  fixes invar :: "'st \<Rightarrow> bool"
    and handle :: "'h \<Rightarrow> bool"
    and intern :: "'t \<Rightarrow> 'st \<Rightarrow> ('e + 'h) \<times> 'st"
    and text_of :: "'st \<Rightarrow> 'h \<Rightarrow> 'e + 't"
  assumes invar_intern: "invar st \<Longrightarrow> intern t st = (Inr h, st') \<Longrightarrow> invar st'"
    and handle_intern: "invar st \<Longrightarrow> intern t st = (Inr h, st') \<Longrightarrow> handle h"
    and text_intern: "invar st \<Longrightarrow> intern t st = (Inr h, st') \<Longrightarrow> text_of st' h = Inr t"
    and text_stable: "invar st \<Longrightarrow> text_of st h = Inr t \<Longrightarrow> intern t' st = (r, st')
      \<Longrightarrow> text_of st' h = Inr t"
    and known_handle: "invar st \<Longrightarrow> handle h \<Longrightarrow> text_of st h = Inr t
      \<Longrightarrow> intern t st = (r, st') \<Longrightarrow> r = Inr h"
begin

text \<open>Two names interned one after the other have the same handle iff they are the same text.\<close>

lemma handle_eq_iff:
  assumes "invar st" "intern t st = (Inr h, st')" "intern u st' = (Inr k, st'')"
  shows "h = k \<longleftrightarrow> t = u"
proof -
  have inv': "invar st'" and t: "text_of st' h = Inr t" and h: "handle h"
    using assms invar_intern text_intern handle_intern by blast+
  have "text_of st'' h = Inr t" using text_stable [OF inv' t assms(3)] .
  moreover have "text_of st'' k = Inr u" using text_intern [OF inv' assms(3)] .
  moreover have "Inr k = (Inr h :: 'e + 'h)" if "t = u"
    using known_handle [OF inv' h t] assms(3) that by blast
  ultimately show ?thesis by auto
qed

text \<open>A name keeps its handle and its text over any further sequence of interned names.\<close>

primrec intern_all :: "'t list \<Rightarrow> 'st \<Rightarrow> 'st option" where
  "intern_all [] st = Some st"
| "intern_all (t # ts) st = (case intern t st of (Inl e, st') \<Rightarrow> None | (Inr h, st') \<Rightarrow> intern_all ts st')"

lemma intern_all_keeps:
  "invar st \<Longrightarrow> text_of st h = Inr t \<Longrightarrow> intern_all ts st = Some st'
    \<Longrightarrow> invar st' \<and> text_of st' h = Inr t"
proof (induction ts arbitrary: st)
  case Nil
  then show ?case by simp
next
  case (Cons a ts)
  obtain r st1 where r: "intern a st = (r, st1)" by (cases "intern a st")
  with Cons.prems obtain k where k: "r = Inr k" and rest: "intern_all ts st1 = Some st'"
    by (cases r) auto
  have "invar st1" using invar_intern Cons.prems(1) r k by blast
  moreover have "text_of st1 h = Inr t" using text_stable [OF Cons.prems(1,2) r] .
  ultimately show ?case using Cons.IH rest by blast
qed

end

section \<open>The table provides it\<close>

definition index_of :: "symbol_table \<Rightarrow> rstr \<Rightarrow> symbol option" where
  "index_of st = (case index st of None \<Rightarrow> Map.empty | Some m \<Rightarrow> m)"

text \<open>
  The index holds exactly the names of the list, each under its position counted from one,
  and no name is in the list twice.
\<close>

definition symbols_ok :: "symbol_table \<Rightarrow> bool" where
  "symbols_ok st \<longleftrightarrow> length (names st) < 2 ^ 32 \<and>
     (\<forall>t s. index_of st t = Some s \<longleftrightarrow> s \<noteq> 0 \<and> unat s - 1 < length (names st) \<and> names st ! (unat s - 1) = t)"

lemma intern_unfold:
  "intern text st = (case index_of st text of
      Some symbol \<Rightarrow> (Inr symbol, st\<lparr>index := Some (index_of st)\<rparr>)
    | None \<Rightarrow>
        (let ns = names st @ [text]; symbol = (of_nat (length ns) :: u32)
         in if symbol = 0
            then (Inl (Panic ''symbol table overflow''), st\<lparr>names := ns, index := Some (index_of st)\<rparr>)
            else (Inr symbol, st\<lparr>names := ns, index := Some ((index_of st)(text \<mapsto> symbol))\<rparr>)))"
  unfolding intern_def index_of_def Let_def by (rule refl)

lemma index_of_simps [simp]:
  "index_of (st\<lparr>index := Some m\<rparr>) = m"
  "index_of (st\<lparr>names := ns, index := Some m\<rparr>) = m"
  by (simp_all add: index_of_def)

lemma symbols_ok_empty [simp]: "symbols_ok empty_symbols"
  by (simp add: symbols_ok_def empty_symbols_def index_of_def)

lemma new_symbol:
  fixes n :: nat
  assumes "n < 2 ^ 32" "(of_nat (Suc n) :: u32) \<noteq> 0"
  shows "unat (of_nat (Suc n) :: u32) = Suc n" and "Suc n < 2 ^ 32"
proof -
  have "\<not> 2 ^ 32 dvd Suc n"
    using assms(2) word_of_nat_eq_0_iff [where 'a = 32, of "Suc n"] by simp
  then have "Suc n \<noteq> 2 ^ 32" by (metis dvd_refl)
  with assms(1) show less: "Suc n < 2 ^ 32" by linarith
  then show "unat (of_nat (Suc n) :: u32) = Suc n"
    by (intro unat_of_nat_small) simp
qed

lemma symbols_okD:
  assumes "symbols_ok st" "index_of st t = Some s"
  shows "s \<noteq> 0" "unat s - 1 < length (names st)" "names st ! (unat s - 1) = t"
  using assms by (auto simp: symbols_ok_def)

text \<open>A successful \<open>intern\<close> found the name or added it at the end.\<close>

lemma intern_cases:
  assumes "symbols_ok st" "intern t st = (r, st')"
  obtains (known) s where "index_of st t = Some s" "r = Inr s" "st' = st\<lparr>index := Some (index_of st)\<rparr>"
  | (new) s where "index_of st t = None" "r = Inr s" "unat s = Suc (length (names st))"
      "Suc (length (names st)) < 2 ^ 32"
      "st' = st\<lparr>names := names st @ [t], index := Some ((index_of st)(t \<mapsto> s))\<rparr>"
  | (full) "index_of st t = None" "r = Inl (Panic ''symbol table overflow'')"
      "Suc (length (names st)) = 2 ^ 32"
      "st' = st\<lparr>names := names st @ [t], index := Some (index_of st)\<rparr>"
proof (cases "index_of st t")
  case (Some s)
  with assms(2) known show thesis by (simp add: intern_unfold Let_def)
next
  case None
  have len: "length (names st) < 2 ^ 32" using assms(1) by (simp add: symbols_ok_def)
  show thesis
  proof (cases "(of_nat (Suc (length (names st))) :: u32) = 0")
    case True
    then have "2 ^ 32 dvd Suc (length (names st))"
      using word_of_nat_eq_0_iff [where 'a = 32, of "Suc (length (names st))"] by simp
    with len have "Suc (length (names st)) = 2 ^ 32"
      by (metis Suc_leI dvd_imp_le le_antisym zero_less_Suc)
    with True None assms(2) full show thesis by (simp add: intern_unfold Let_def)
  next
    case False
    then show thesis
      using new_symbol [OF len False] None assms(2)
      by (intro new [of "of_nat (Suc (length (names st)))"]) (simp_all add: intern_unfold Let_def del: of_nat_Suc)
  qed
qed

lemma symbols_ok_intern:
  assumes "symbols_ok st" "intern t st = (Inr s, st')"
  shows "symbols_ok st'"
  using assms
proof (cases rule: intern_cases)
  case known
  then show ?thesis using assms(1) by (simp add: symbols_ok_def)
next
  case (new k)
  have old: "index_of st u = Some v \<longleftrightarrow> v \<noteq> 0 \<and> unat v - 1 < length (names st) \<and> names st ! (unat v - 1) = u"
    for u v using assms(1) by (simp add: symbols_ok_def)
  have "((index_of st)(t \<mapsto> k)) u = Some v \<longleftrightarrow>
      v \<noteq> 0 \<and> unat v - 1 < Suc (length (names st)) \<and> (names st @ [t]) ! (unat v - 1) = u" for u v
  proof (cases "v = k")
    case True
    have "k \<noteq> 0" using new by auto
    then show ?thesis using True new old [of u k] by auto
  next
    case False
    then have "unat v \<noteq> Suc (length (names st))" using new by (metis word_unat_eq_iff)
    then have "unat v - 1 \<noteq> length (names st)" if "v \<noteq> 0"
      using that by (simp add: unat_eq_zero [symmetric] del: unat_eq_0)
    then show ?thesis using False new old [of u v] old [of t v] by (auto simp: nth_append)
  qed
  then show ?thesis using new by (simp add: symbols_ok_def)
qed simp

interpretation symbols: interner symbols_ok "\<lambda>s. s \<noteq> 0" intern as_str
proof
  fix st t h st'
  assume ok: "symbols_ok st" and i: "intern t st = (Inr h, st')"
  show "symbols_ok st'" using symbols_ok_intern [OF ok i] .
  show "h \<noteq> 0" using ok i by (cases rule: intern_cases) (auto dest: symbols_okD [OF ok])
  show "as_str st' h = Inr t"
    using ok i by (cases rule: intern_cases) (auto simp: as_str_def dest: symbols_okD [OF ok])
next
  fix st h t t' r st'
  assume "symbols_ok st" "as_str st h = Inr t" and i: "intern t' st = (r, st')"
  then show "as_str st' h = Inr t"
    by (cases rule: intern_cases [OF _ i]) (auto simp: as_str_def nth_append split: if_splits)
next
  fix st h t r st'
  assume ok: "symbols_ok st" and h: "h \<noteq> 0" "as_str st h = Inr t" and i: "intern t st = (r, st')"
  have "index_of st t = Some h" using ok h by (auto simp: symbols_ok_def as_str_def split: if_splits)
  then show "r = Inr h" using i by (simp add: intern_unfold Let_def)
qed

section \<open>Properties\<close>

text \<open>
  C34. A handle means its text: two names interned one after the other, and any names interned
  after them, leave both handles reading back as the text they were made from, and the handles
  are equal exactly when the texts are.
\<close>

theorem symbols_compare_as_text:
  assumes "symbols_ok st" "intern t st = (Inr h, st1)" "intern u st1 = (Inr k, st2)"
  shows "as_str st2 h = Inr t \<and> as_str st2 k = Inr u \<and> (h = k \<longleftrightarrow> t = u) \<and> symbols_ok st2"
proof -
  have ok: "symbols_ok st1" using symbols.invar_intern [OF assms(1,2)] .
  show ?thesis
    using symbols.handle_eq_iff [OF assms] symbols.text_intern [OF assms(1,2)]
      symbols.text_stable [OF ok symbols.text_intern [OF assms(1,2)] assms(3)] symbols.text_intern [OF ok assms(3)]
      symbols.invar_intern [OF ok assms(3)] by simp
qed

theorem symbols_compare_as_text_witness:
  "let st1 = snd (intern (str ''ab'') empty_symbols); st2 = snd (intern (str ''c'') st1)
   in as_str st2 1 = Inr (str ''ab'') \<and> as_str st2 2 = Inr (str ''c'') \<and> symbols_ok st2"
proof -
  let ?st1 = "snd (intern (str ''ab'') empty_symbols)"
  have 1: "intern (str ''ab'') empty_symbols = (Inr 1, ?st1)"
    by (simp add: intern_def empty_symbols_def)
  have 2: "intern (str ''c'') ?st1 = (Inr 2, snd (intern (str ''c'') ?st1))"
    by (simp add: intern_def empty_symbols_def str_def)
  show ?thesis
    using symbols_compare_as_text [OF symbols_ok_empty 1 2] by (simp only: Let_def simp_thms)
qed

end
