(* ===== verification/Unicode_Text.thy ===== *)
theory Unicode_Text
  imports Rust_Base
begin

text \<open>
  What the crate uses of Rust's text types: UTF-8 (\<open>str::as_bytes\<close>, \<open>String::from_utf8\<close>,
  \<open>utf8_chunks\<close>) and the classification of characters. The Unicode property tables of the
  standard library are a parameter; what the library decides without them (every ASCII
  character) is written out.
\<close>

section \<open>UTF-8\<close>

definition utf8_char :: "rchar \<Rightarrow> u8 list" where
  "utf8_char c =
     (if c < 0x80 then [as_u8 c]
      else if c < 0x800 then [as_u8 (0xC0 + c div 64), as_u8 (0x80 + c mod 64)]
      else if c < 0x10000 then
        [as_u8 (0xE0 + c div 4096), as_u8 (0x80 + c div 64 mod 64), as_u8 (0x80 + c mod 64)]
      else
        [as_u8 (0xF0 + c div 262144), as_u8 (0x80 + c div 4096 mod 64),
         as_u8 (0x80 + c div 64 mod 64), as_u8 (0x80 + c mod 64)])"

definition utf8 :: "rstr \<Rightarrow> u8 list" where
  "utf8 s = concat (map utf8_char s)"

definition continuation :: "u8 \<Rightarrow> bool" where
  "continuation b \<longleftrightarrow> 0x80 \<le> unat b \<and> unat b < 0xC0"

text \<open>The second byte of a three or four byte sequence, by its first byte.\<close>

definition second_of_three :: "nat \<Rightarrow> u8 \<Rightarrow> bool" where
  "second_of_three x b \<longleftrightarrow> continuation b \<and> (x = 0xE0 \<longrightarrow> 0xA0 \<le> unat b) \<and> (x = 0xED \<longrightarrow> unat b < 0xA0)"

definition second_of_four :: "nat \<Rightarrow> u8 \<Rightarrow> bool" where
  "second_of_four x b \<longleftrightarrow> continuation b \<and> (x = 0xF0 \<longrightarrow> 0x90 \<le> unat b) \<and> (x = 0xF4 \<longrightarrow> unat b < 0x90)"

definition utf8_head :: "u8 list \<Rightarrow> (rchar \<times> u8 list) option" where
  "utf8_head bs = (case bs of [] \<Rightarrow> None | a # bs \<Rightarrow>
     (let x = unat a in
      if x < 0x80 then Some (x, bs)
      else if x < 0xC2 then None
      else if x < 0xE0 then
        (case bs of b # r \<Rightarrow>
           if continuation b then Some ((x - 0xC0) * 64 + (unat b - 0x80), r) else None
         | _ \<Rightarrow> None)
      else if x < 0xF0 then
        (case bs of b # c # r \<Rightarrow>
           if second_of_three x b \<and> continuation c
           then Some ((x - 0xE0) * 4096 + (unat b - 0x80) * 64 + (unat c - 0x80), r) else None
         | _ \<Rightarrow> None)
      else if x < 0xF5 then
        (case bs of b # c # d # r \<Rightarrow>
           if second_of_four x b \<and> continuation c \<and> continuation d
           then Some ((x - 0xF0) * 262144 + (unat b - 0x80) * 4096 + (unat c - 0x80) * 64 + (unat d - 0x80), r)
           else None
         | _ \<Rightarrow> None)
      else None))"

lemma utf8_head_length: "utf8_head bs = Some (c, r) \<Longrightarrow> length r < length bs"
  by (auto simp: utf8_head_def Let_def split: list.splits if_splits)

function from_utf8 :: "u8 list \<Rightarrow> rstr option" where
  "from_utf8 bs =
     (if bs = [] then Some []
      else case utf8_head bs of None \<Rightarrow> None | Some (c, r) \<Rightarrow> map_option (Cons c) (from_utf8 r))"
  by pat_completeness auto
termination
  by (relation "measure length") (auto dest: utf8_head_length)

declare from_utf8.simps [simp del]

lemma from_utf8_Nil [simp]: "from_utf8 [] = Some []"
  by (subst from_utf8.simps) simp

lemma utf8_simps [simp]:
  "utf8 [] = []" "utf8 (c # s) = utf8_char c @ utf8 s" "utf8 (s @ t) = utf8 s @ utf8 t"
  by (simp_all add: utf8_def)

text \<open>The base-64 digits of a code point.\<close>

lemma base64_digits:
  fixes c :: nat
  shows "c = c div 64 * 64 + c mod 64"
    and "c = c div 4096 * 4096 + c div 64 mod 64 * 64 + c mod 64"
    and "c = c div 262144 * 262144 + c div 4096 mod 64 * 4096 + c div 64 mod 64 * 64 + c mod 64"
proof -
  have 2: "c div 64 = c div 4096 * 64 + c div 64 mod 64"
    using div_mult_mod_eq [of "c div 64" 64] by (simp add: div_mult2_eq [symmetric])
  have 3: "c div 4096 = c div 262144 * 64 + c div 4096 mod 64"
    using div_mult_mod_eq [of "c div 4096" 64] by (simp add: div_mult2_eq [symmetric])
  show 1: "c = c div 64 * 64 + c mod 64" by simp
  show "c = c div 4096 * 4096 + c div 64 mod 64 * 64 + c mod 64" using 1 2 by linarith
  then show "c = c div 262144 * 262144 + c div 4096 mod 64 * 4096 + c div 64 mod 64 * 64 + c mod 64"
    using 3 by linarith
qed

lemma base64_compose:
  fixes p q u v :: nat
  assumes "u < 64"
  shows "(p * 64 + u) div 64 = p" "(p * 64 + u) mod 64 = u"
    and "q < 64 \<Longrightarrow> (p * 4096 + q * 64 + u) div 4096 = p"
    and "(p * 4096 + q * 64 + u) div 64 = p * 64 + q"
    and "(p * 4096 + q * 64 + u) mod 64 = u"
    and "q < 64 \<Longrightarrow> v < 64 \<Longrightarrow> (p * 262144 + v * 4096 + q * 64 + u) div 262144 = p"
    and "q < 64 \<Longrightarrow> (p * 262144 + v * 4096 + q * 64 + u) div 4096 = p * 64 + v"
    and "q < 64 \<Longrightarrow> (p * 262144 + v * 4096 + q * 64 + u) div 64 mod 64 = q"
    and "(p * 262144 + v * 4096 + q * 64 + u) mod 64 = u"
proof -
  have compose: "(m * k + i) div k = m" "(m * k + i) mod k = i" if "i < k" for m k i :: nat
    using that by auto
  show "(p * 64 + u) div 64 = p" "(p * 64 + u) mod 64 = u" using compose assms by blast+
  show "(p * 4096 + q * 64 + u) div 4096 = p" if "q < 64"
    using compose [of "q * 64 + u" 4096 p] that assms by (simp add: add.assoc)
  show "(p * 4096 + q * 64 + u) div 64 = p * 64 + q" "(p * 4096 + q * 64 + u) mod 64 = u"
    using compose [of u 64 "p * 64 + q"] assms by (simp_all add: algebra_simps)
  show "(p * 262144 + v * 4096 + q * 64 + u) div 262144 = p" if "q < 64" "v < 64"
    using compose [of "v * 4096 + q * 64 + u" 262144 p] that assms by (simp add: add.assoc)
  show "(p * 262144 + v * 4096 + q * 64 + u) div 4096 = p * 64 + v" if "q < 64"
    using compose [of "q * 64 + u" 4096 "p * 64 + v"] that assms by (simp add: algebra_simps)
  have "(p * 262144 + v * 4096 + q * 64 + u) div 64 = (p * 64 + v) * 64 + q"
    and 1: "(p * 262144 + v * 4096 + q * 64 + u) mod 64 = u"
    using compose [of u 64 "(p * 64 + v) * 64 + q"] assms by (simp_all add: algebra_simps)
  then show "(p * 262144 + v * 4096 + q * 64 + u) div 64 mod 64 = q" if "q < 64"
    using compose(2) [OF that, of "p * 64 + v"] by (simp only:)
  show "(p * 262144 + v * 4096 + q * 64 + u) mod 64 = u" by (rule 1)
qed

lemma utf8_head_utf8_char:
  assumes "scalar_value c"
  shows "utf8_head (utf8_char c @ r) = Some (c, r)"
proof -
  define q1 q2 q3 where "q1 = c mod 64" and "q2 = c div 64 mod 64" and "q3 = c div 4096 mod 64"
  have q: "q1 < 64" "q2 < 64" "q3 < 64" by (simp_all add: q1_def q2_def q3_def)
  consider "c < 0x80" | "0x80 \<le> c" "c < 0x800" | "0x800 \<le> c" "c < 0x10000" | "0x10000 \<le> c" "c < 0x110000"
    using assms unfolding scalar_value_def by linarith
  then show ?thesis
  proof cases
    case 1
    then show ?thesis by (simp add: utf8_char_def utf8_head_def Let_def)
  next
    case 2
    define p where "p = c div 64"
    have c: "c = p * 64 + q1" using base64_digits(1) [of c] by (simp add: p_def q1_def)
    then have "2 \<le> p" "p < 32" using 2 q by linarith+
    moreover have "utf8_char c = [as_u8 (0xC0 + p), as_u8 (0x80 + q1)]"
      using 2 by (simp add: utf8_char_def p_def q1_def)
    ultimately show ?thesis
      using q(1) by (simp add: utf8_head_def Let_def continuation_def) (simp add: c)
  next
    case 3
    define p where "p = c div 4096"
    have c: "c = p * 4096 + q2 * 64 + q1"
      using base64_digits(2) [of c] by (simp add: p_def q1_def q2_def)
    then have "p < 16" "p = 0 \<Longrightarrow> 32 \<le> q2" "p = 13 \<Longrightarrow> q2 < 32"
      using 3 q assms unfolding scalar_value_def by linarith+
    moreover have "utf8_char c = [as_u8 (0xE0 + p), as_u8 (0x80 + q2), as_u8 (0x80 + q1)]"
      using 3 by (simp add: utf8_char_def p_def q1_def q2_def)
    ultimately show ?thesis
      using q(1,2) by (simp add: utf8_head_def Let_def continuation_def second_of_three_def) (simp add: c)
  next
    case 4
    define p where "p = c div 262144"
    have c: "c = p * 262144 + q3 * 4096 + q2 * 64 + q1"
      using base64_digits(3) [of c] by (simp add: p_def q1_def q2_def q3_def)
    then have "p < 5" "p = 0 \<Longrightarrow> 16 \<le> q3" "p = 4 \<Longrightarrow> q3 < 16" using 4 q by linarith+
    moreover have "utf8_char c
        = [as_u8 (0xF0 + p), as_u8 (0x80 + q3), as_u8 (0x80 + q2), as_u8 (0x80 + q1)]"
      using 4 by (simp add: utf8_char_def p_def q1_def q2_def q3_def)
    ultimately show ?thesis
      using q by (simp add: utf8_head_def Let_def continuation_def second_of_four_def) (simp add: c)
  qed
qed

text \<open>Conversely a decoded character was encoded by the bytes it took, and is a scalar value.\<close>

lemma utf8_char_utf8_head:
  assumes "utf8_head bs = Some (c, r)"
  shows "scalar_value c" and "bs = utf8_char c @ r"
proof -
  obtain a bs' where bs: "bs = a # bs'" using assms by (cases bs) (auto simp: utf8_head_def)
  define x where "x = unat a"
  have a: "a = as_u8 x" by (simp add: x_def)
  have "scalar_value c \<and> bs = utf8_char c @ r"
  proof -
    consider "x < 0x80" | "0xC2 \<le> x" "x < 0xE0" | "0xE0 \<le> x" "x < 0xF0" | "0xF0 \<le> x" "x < 0xF5"
      using assms by (fastforce simp: bs utf8_head_def Let_def x_def split: if_splits)
    then show ?thesis
    proof cases
      case 1
      then have "c = x" "bs' = r" using assms by (auto simp: bs utf8_head_def Let_def x_def)
      then show ?thesis using 1 by (simp add: bs a utf8_char_def scalar_value_def)
    next
      case 2
      then obtain b where b: "bs' = b # r" "continuation b" "c = (x - 0xC0) * 64 + (unat b - 0x80)"
        using assms by (auto simp: bs utf8_head_def Let_def x_def split: list.splits if_splits)
      define p q where "p = x - 0xC0" and "q = unat b - 0x80"
      have pq: "x = 0xC0 + p" "b = as_u8 (0x80 + q)" "p < 32" "2 \<le> p" "q < 64" "c = p * 64 + q"
        using 2 b by (auto simp: p_def q_def continuation_def)
      then show ?thesis by (simp add: bs a b(1) utf8_char_def scalar_value_def)
    next
      case 3
      then obtain b d where b: "bs' = b # d # r" "second_of_three x b" "continuation d"
        "c = (x - 0xE0) * 4096 + (unat b - 0x80) * 64 + (unat d - 0x80)"
        using assms by (auto simp: bs utf8_head_def Let_def x_def split: list.splits if_splits)
      define p q u where "p = x - 0xE0" and "q = unat b - 0x80" and "u = unat d - 0x80"
      have pq: "x = 0xE0 + p" "b = as_u8 (0x80 + q)" "d = as_u8 (0x80 + u)" "p < 16" "q < 64" "u < 64"
        "p = 0 \<Longrightarrow> 32 \<le> q" "p = 13 \<Longrightarrow> q < 32" "c = p * 4096 + q * 64 + u"
        using 3 b by (auto simp: p_def q_def u_def continuation_def second_of_three_def)
      then have "c div 4096 = p" "c div 64 mod 64 = q" "c mod 64 = u"
        using base64_compose(3-5) [where p = p and q = q and u = u] base64_compose(2) by simp_all
      moreover have "0x800 \<le> c" "c < 0x10000" using pq by (cases "p = 0"; simp)+
      moreover have "c < 0xD800 \<or> 0xE000 \<le> c"
      proof -
        consider "p \<le> 12" | "p = 13" | "14 \<le> p" by linarith
        then show ?thesis using pq by cases linarith+
      qed
      ultimately show ?thesis by (simp add: bs a b(1) pq(1-3) utf8_char_def scalar_value_def)
    next
      case 4
      then obtain b d e where b: "bs' = b # d # e # r" "second_of_four x b" "continuation d" "continuation e"
        "c = (x - 0xF0) * 262144 + (unat b - 0x80) * 4096 + (unat d - 0x80) * 64 + (unat e - 0x80)"
        using assms by (auto simp: bs utf8_head_def Let_def x_def split: list.splits if_splits)
      define p q u v where "p = x - 0xF0" and "q = unat b - 0x80" and "u = unat d - 0x80" and "v = unat e - 0x80"
      have pq: "x = 0xF0 + p" "b = as_u8 (0x80 + q)" "d = as_u8 (0x80 + u)" "e = as_u8 (0x80 + v)"
        "p < 5" "q < 64" "u < 64" "v < 64" "p = 0 \<Longrightarrow> 16 \<le> q" "p = 4 \<Longrightarrow> q < 16"
        "c = p * 262144 + q * 4096 + u * 64 + v"
        using 4 b by (auto simp: p_def q_def u_def v_def continuation_def second_of_four_def)
      then have "c div 262144 = p" "c div 4096 mod 64 = q" "c div 64 mod 64 = u" "c mod 64 = v"
        using pq(6-8) base64_compose(6-9) [where p = p and v = q and q = u and u = v] base64_compose(1,2) by simp_all
      moreover have "0x10000 \<le> c" using pq by (cases "p = 0"; simp)
      moreover have "c < 0x110000"
      proof (cases "p = 4")
        case False
        then have "p \<le> 3" using pq(5) by simp
        then show ?thesis using pq(6-8,11) by linarith
      qed (use pq in linarith)
      ultimately show ?thesis by (simp add: bs a b(1) pq(1-4) utf8_char_def scalar_value_def)
    qed
  qed
  then show "scalar_value c" and "bs = utf8_char c @ r" by blast+
qed

lemma utf8_char_nonempty [simp]: "utf8_char c \<noteq> []"
  by (simp add: utf8_char_def)

lemma from_utf8_step:
  "bs \<noteq> [] \<Longrightarrow> from_utf8 bs =
     (case utf8_head bs of None \<Rightarrow> None | Some (c, r) \<Rightarrow> map_option (Cons c) (from_utf8 r))"
  by (subst from_utf8.simps) simp

lemma from_utf8_utf8 [simp]: "valid_str s \<Longrightarrow> from_utf8 (utf8 s) = Some s"
  by (induction s) (simp_all add: from_utf8_step utf8_head_utf8_char)

lemma utf8_from_utf8: "from_utf8 bs = Some s \<Longrightarrow> valid_str s \<and> utf8 s = bs"
proof (induction bs arbitrary: s rule: from_utf8.induct)
  case (1 bs)
  show ?case
  proof (cases "bs = []")
    case False
    with "1.prems" obtain c r s' where
      "utf8_head bs = Some (c, r)" "from_utf8 r = Some s'" "s = c # s'"
      by (auto simp: from_utf8_step split: option.splits)
    then show ?thesis using "1.IH" [OF False] utf8_char_utf8_head [of bs c r] by auto
  qed (use "1.prems" in simp)
qed

lemma utf8_inject: "valid_str s \<Longrightarrow> valid_str t \<Longrightarrow> utf8 s = utf8 t \<longleftrightarrow> s = t"
  by (metis from_utf8_utf8 option.inject)

text \<open>The ASCII part of UTF-8 is the identity, and multi-byte sequences hold no ASCII byte.\<close>

lemma utf8_ascii: "list_all (\<lambda>c. c < 0x80) s \<Longrightarrow> utf8 s = map as_u8 s"
  by (induction s) (auto simp: utf8_char_def)

lemma length_utf8: "length s \<le> length (utf8 s)"
  by (induction s) (auto simp: utf8_char_def)

section \<open>Chunks\<close>

text \<open>
  \<open>utf8_chunks\<close>: the longest valid prefix and the invalid sequence after it, again and again.
  An invalid sequence is the longest run of bytes that begins some character but does not
  complete one, or a single byte that begins none.
\<close>

definition invalid_length :: "u8 list \<Rightarrow> nat" where
  "invalid_length bs = (case bs of [] \<Rightarrow> 0 | a # bs \<Rightarrow>
     (let x = unat a in
      if 0xE0 \<le> x \<and> x < 0xF0 then
        (case bs of b # _ \<Rightarrow> if second_of_three x b then 2 else 1 | [] \<Rightarrow> 1)
      else if 0xF0 \<le> x \<and> x < 0xF5 then
        (case bs of b # bs' \<Rightarrow>
           if second_of_four x b then (case bs' of c # _ \<Rightarrow> if continuation c then 3 else 2 | [] \<Rightarrow> 2) else 1
         | [] \<Rightarrow> 1)
      else 1))"

fun valid_prefix :: "nat \<Rightarrow> u8 list \<Rightarrow> rstr \<times> u8 list" where
  "valid_prefix 0 bs = ([], bs)"
| "valid_prefix (Suc n) bs =
     (case utf8_head bs of
        None \<Rightarrow> ([], bs)
      | Some (c, r) \<Rightarrow> (let (s, rest) = valid_prefix n r in (c # s, rest)))"

lemma valid_prefix_length: "length (snd (valid_prefix n bs)) \<le> length bs"
proof (induction n arbitrary: bs)
  case (Suc n)
  show ?case
  proof (cases "utf8_head bs")
    case (Some p)
    then obtain c r where p: "utf8_head bs = Some (c, r)" by (cases p) auto
    then show ?thesis
      using Suc.IH [of r] utf8_head_length [OF p] by (auto simp: Let_def split: prod.splits)
  qed simp
qed simp

lemma invalid_length_pos: "bs \<noteq> [] \<Longrightarrow> 0 < invalid_length bs"
  by (cases bs) (auto simp: invalid_length_def Let_def split: list.splits)

function utf8_chunks :: "u8 list \<Rightarrow> (rstr \<times> u8 list) list" where
  "utf8_chunks bs =
     (if bs = [] then []
      else let (s, rest) = valid_prefix (length bs) bs; n = invalid_length rest
           in if rest = [] then [(s, [])] else (s, take n rest) # utf8_chunks (drop n rest))"
  by pat_completeness auto
termination
proof (relation "measure length")
  fix bs s rest n and p :: "rstr \<times> u8 list"
  assume p: "p = valid_prefix (length bs) bs" "(s, rest) = p" "n = invalid_length rest" "rest \<noteq> []"
  then have "length rest \<le> length bs" using valid_prefix_length [of "length bs" bs] by (metis snd_conv)
  moreover have "length (drop n rest) < length rest" using p(3,4) invalid_length_pos [of rest] by simp
  ultimately show "(drop n rest, bs) \<in> measure length" by simp
qed simp

declare utf8_chunks.simps [simp del]

section \<open>Characters\<close>

text \<open>The characters the code names, by their code points.\<close>

abbreviation (input) c_squote :: rchar where "c_squote \<equiv> 39"
abbreviation (input) c_dquote :: rchar where "c_dquote \<equiv> 34"
abbreviation (input) c_backslash :: rchar where "c_backslash \<equiv> 92"
abbreviation (input) c_hash :: rchar where "c_hash \<equiv> 35"
abbreviation (input) c_slash :: rchar where "c_slash \<equiv> 47"
abbreviation (input) c_star :: rchar where "c_star \<equiv> 42"
abbreviation (input) c_newline :: rchar where "c_newline \<equiv> 10"
abbreviation (input) c_return :: rchar where "c_return \<equiv> 13"
abbreviation (input) c_tab :: rchar where "c_tab \<equiv> 9"
abbreviation (input) c_space :: rchar where "c_space \<equiv> 32"
abbreviation (input) c_underscore :: rchar where "c_underscore \<equiv> 95"
abbreviation (input) c_dot :: rchar where "c_dot \<equiv> 46"
abbreviation (input) c_plus :: rchar where "c_plus \<equiv> 43"
abbreviation (input) c_minus :: rchar where "c_minus \<equiv> 45"
abbreviation (input) c_lbrace :: rchar where "c_lbrace \<equiv> 123"
abbreviation (input) c_rbrace :: rchar where "c_rbrace \<equiv> 125"
abbreviation (input) c_lparen :: rchar where "c_lparen \<equiv> 40"
abbreviation (input) c_rparen :: rchar where "c_rparen \<equiv> 41"
abbreviation (input) c_lbracket :: rchar where "c_lbracket \<equiv> 91"
abbreviation (input) c_rbracket :: rchar where "c_rbracket \<equiv> 93"
abbreviation (input) c_0 :: rchar where "c_0 \<equiv> 48"
abbreviation (input) c_b :: rchar where "c_b \<equiv> 98"
abbreviation (input) c_c :: rchar where "c_c \<equiv> 99"
abbreviation (input) c_e :: rchar where "c_e \<equiv> 101"
abbreviation (input) c_E :: rchar where "c_E \<equiv> 69"
abbreviation (input) c_f :: rchar where "c_f \<equiv> 102"
abbreviation (input) c_i :: rchar where "c_i \<equiv> 105"
abbreviation (input) c_n :: rchar where "c_n \<equiv> 110"
abbreviation (input) c_o :: rchar where "c_o \<equiv> 111"
abbreviation (input) c_r :: rchar where "c_r \<equiv> 114"
abbreviation (input) c_t :: rchar where "c_t \<equiv> 116"
abbreviation (input) c_u :: rchar where "c_u \<equiv> 117"
abbreviation (input) c_x :: rchar where "c_x \<equiv> 120"

text \<open>The property tables of the standard library, for characters beyond ASCII.\<close>

record unicode =
  alphabetic_table :: "rchar \<Rightarrow> bool"
  numeric_table :: "rchar \<Rightarrow> bool"
  white_space_table :: "rchar \<Rightarrow> bool"
  grapheme_extend_table :: "rchar \<Rightarrow> bool"
  printable_table :: "rchar \<Rightarrow> bool"

text \<open>Tables that hold nothing beyond ASCII, for concrete inputs.\<close>

definition ascii_only :: unicode where
  "ascii_only = \<lparr>alphabetic_table = (\<lambda>_. False), numeric_table = (\<lambda>_. False), white_space_table = (\<lambda>_. False),
     grapheme_extend_table = (\<lambda>_. False), printable_table = (\<lambda>_. False)\<rparr>"

definition ascii_alphabetic :: "rchar \<Rightarrow> bool" where
  "ascii_alphabetic c \<longleftrightarrow> (65 \<le> c \<and> c \<le> 90) \<or> (97 \<le> c \<and> c \<le> 122)"

definition ascii_digit :: "rchar \<Rightarrow> bool" where
  "ascii_digit c \<longleftrightarrow> 48 \<le> c \<and> c \<le> 57"

definition ascii_hexdigit :: "rchar \<Rightarrow> bool" where
  "ascii_hexdigit c \<longleftrightarrow> ascii_digit c \<or> (65 \<le> c \<and> c \<le> 70) \<or> (97 \<le> c \<and> c \<le> 102)"

definition ascii_alphanumeric :: "rchar \<Rightarrow> bool" where
  "ascii_alphanumeric c \<longleftrightarrow> ascii_alphabetic c \<or> ascii_digit c"

definition is_alphabetic :: "unicode \<Rightarrow> rchar \<Rightarrow> bool" where
  "is_alphabetic u c \<longleftrightarrow> ascii_alphabetic c \<or> (0x7F < c \<and> alphabetic_table u c)"

definition is_numeric :: "unicode \<Rightarrow> rchar \<Rightarrow> bool" where
  "is_numeric u c \<longleftrightarrow> ascii_digit c \<or> (0x7F < c \<and> numeric_table u c)"

definition is_alphanumeric :: "unicode \<Rightarrow> rchar \<Rightarrow> bool" where
  "is_alphanumeric u c \<longleftrightarrow> is_alphabetic u c \<or> is_numeric u c"

definition is_whitespace :: "unicode \<Rightarrow> rchar \<Rightarrow> bool" where
  "is_whitespace u c \<longleftrightarrow> c = c_space \<or> (9 \<le> c \<and> c \<le> 13) \<or> (0x7F < c \<and> white_space_table u c)"

definition grapheme_extend :: "unicode \<Rightarrow> rchar \<Rightarrow> bool" where
  "grapheme_extend u c \<longleftrightarrow> 0x7F < c \<and> grapheme_extend_table u c"

definition is_printable :: "unicode \<Rightarrow> rchar \<Rightarrow> bool" where
  "is_printable u c \<longleftrightarrow> (0x20 \<le> c \<and> c < 0x7F) \<or> (0x7F < c \<and> printable_table u c)"

text \<open>\<open>char::to_digit\<close> for the radices up to sixteen that the code uses.\<close>

definition to_digit :: "nat \<Rightarrow> rchar \<Rightarrow> nat option" where
  "to_digit radix c =
     (let d = (if ascii_digit c then Some (c - 48)
               else if 97 \<le> c \<and> c \<le> 102 then Some (c - 87)
               else if 65 \<le> c \<and> c \<le> 70 then Some (c - 55) else None)
      in case d of None \<Rightarrow> None | Some n \<Rightarrow> if n < radix then Some n else None)"

text \<open>\<open>to_string\<close> of an unsigned integer, and its lower-case hexadecimal form.\<close>

definition digit_char :: "nat \<Rightarrow> rchar" where
  "digit_char d = (if d < 10 then 48 + d else 87 + d)"

fun radix_digits :: "nat \<Rightarrow> nat \<Rightarrow> rstr" where
  "radix_digits r n =
     (if r < 2 \<or> n < r then [digit_char n] else radix_digits r (n div r) @ [digit_char (n mod r)])"

declare radix_digits.simps [simp del]

abbreviation decimal :: "nat \<Rightarrow> rstr" where
  "decimal \<equiv> radix_digits 10"

abbreviation hexadecimal :: "nat \<Rightarrow> rstr" where
  "hexadecimal \<equiv> radix_digits 16"

text \<open>A signed integer prints its sign and its magnitude.\<close>

definition decimal_int :: "int \<Rightarrow> rstr" where
  "decimal_int i = (if i < 0 then c_minus # decimal (nat (- i)) else decimal (nat i))"

lemma radix_digits_nonempty [simp]: "radix_digits r n \<noteq> []"
  by (subst radix_digits.simps) simp

lemma decimal_digits: "list_all ascii_digit (decimal n)"
proof (induction "10::nat" n rule: radix_digits.induct)
  case (1 n)
  then show ?case
    by (subst radix_digits.simps) (auto simp: digit_char_def ascii_digit_def)
qed

lemma ascii_digit_lt: "ascii_digit c \<Longrightarrow> c < 0x80"
  by (simp add: ascii_digit_def)

lemma ascii_digit_to_digit: "to_digit 10 c \<noteq> None \<longleftrightarrow> ascii_digit c"
  by (auto simp: to_digit_def ascii_digit_def Let_def)

lemma ascii_alphabetic_scalar: "c < 0x80 \<Longrightarrow> scalar_value c"
  by (simp add: scalar_value_def)

end
