(* ===== verification/Escape.thy ===== *)
theory Escape
  imports Unicode_Text
begin

text \<open>
  \<^verbatim>\<open>lib/proc_macro/src/escape.rs\<close>: the escaped text of a string, character or byte literal.
  The reference is \<open>unescape\<close>, the meaning Rust gives to the body of such a literal: escaping
  and reading back gives the bytes again, and the text never closes its own literal.
\<close>

section \<open>The code\<close>

record escape_options =
  escape_single_quote :: bool
  escape_double_quote :: bool
  escape_nonascii :: bool

text \<open>The standard library's \<open>u8::escape_ascii\<close> and \<open>char::escape_debug\<close>.\<close>

definition escape_ascii :: "u8 \<Rightarrow> rstr" where
  "escape_ascii byte =
     (let b = unat byte in
      if b = c_tab then [c_backslash, c_t]
      else if b = c_return then [c_backslash, c_r]
      else if b = c_newline then [c_backslash, c_n]
      else if b = c_backslash \<or> b = c_squote \<or> b = c_dquote then [c_backslash, b]
      else if 0x20 \<le> b \<and> b < 0x7F then [b]
      else [c_backslash, c_x, digit_char (b div 16), digit_char (b mod 16)])"

definition escape_unicode :: "rchar \<Rightarrow> rstr" where
  "escape_unicode c = [c_backslash, c_u, c_lbrace] @ hexadecimal c @ [c_rbrace]"

definition escape_debug :: "unicode \<Rightarrow> rchar \<Rightarrow> rstr" where
  "escape_debug u c =
     (if c = 0 then [c_backslash, c_0]
      else if c = c_tab then [c_backslash, c_t]
      else if c = c_return then [c_backslash, c_r]
      else if c = c_newline then [c_backslash, c_n]
      else if c = c_backslash \<or> c = c_dquote \<or> c = c_squote then [c_backslash, c]
      else if grapheme_extend u c then escape_unicode c
      else if is_printable u c then [c]
      else escape_unicode c)"

definition escape_single_byte :: "u8 \<Rightarrow> escape_options \<Rightarrow> rstr \<Rightarrow> rstr" where
  "escape_single_byte byte opt repr =
     (if byte = 0 then repr @ [c_backslash, c_0]
      else if (unat byte = c_squote \<and> \<not> escape_single_quote opt)
           \<or> (unat byte = c_dquote \<and> \<not> escape_double_quote opt) then repr @ [unat byte]
      else repr @ escape_ascii byte)"

definition escape_single_char :: "unicode \<Rightarrow> rchar \<Rightarrow> escape_options \<Rightarrow> rstr \<Rightarrow> rstr" where
  "escape_single_char u ch opt repr =
     (if (ch = c_squote \<and> \<not> escape_single_quote opt) \<or> (ch = c_dquote \<and> \<not> escape_double_quote opt)
      then repr @ [ch] else repr @ escape_debug u ch)"

definition escape_chunk :: "unicode \<Rightarrow> escape_options \<Rightarrow> rstr \<times> u8 list \<Rightarrow> rstr \<Rightarrow> rstr" where
  "escape_chunk u opt chunk repr =
     fold (\<lambda>byte. escape_single_byte byte opt) (snd chunk)
       (fold (\<lambda>ch. escape_single_char u ch opt) (fst chunk) repr)"

definition escape_bytes :: "unicode \<Rightarrow> u8 list \<Rightarrow> escape_options \<Rightarrow> rstr" where
  "escape_bytes u bytes opt =
     (if escape_nonascii opt then fold (\<lambda>byte. escape_single_byte byte opt) bytes []
      else fold (escape_chunk u opt) (utf8_chunks bytes) [])"

section \<open>What a literal's body means\<close>

fun hex_until_brace :: "nat \<Rightarrow> rstr \<Rightarrow> (nat \<times> rstr) option" where
  "hex_until_brace n [] = None"
| "hex_until_brace n (c # r) =
     (if c = c_rbrace then Some (n, r)
      else case to_digit 16 c of None \<Rightarrow> None | Some d \<Rightarrow> hex_until_brace (16 * n + d) r)"

definition unescape_head :: "rstr \<Rightarrow> (u8 list \<times> rstr) option" where
  "unescape_head s = (case s of [] \<Rightarrow> None | c # r \<Rightarrow>
     if c \<noteq> c_backslash then Some (utf8_char c, r)
     else case r of [] \<Rightarrow> None | e # r \<Rightarrow>
       if e = c_0 then Some ([0], r)
       else if e = c_t then Some ([9], r)
       else if e = c_n then Some ([10], r)
       else if e = c_r then Some ([13], r)
       else if e = c_backslash \<or> e = c_squote \<or> e = c_dquote then Some ([as_u8 e], r)
       else if e = c_x then (case r of h # l # r \<Rightarrow>
           (case (to_digit 16 h, to_digit 16 l) of (Some a, Some b) \<Rightarrow> Some ([as_u8 (16 * a + b)], r) | _ \<Rightarrow> None)
         | _ \<Rightarrow> None)
       else if e = c_u then (case r of b # r \<Rightarrow>
           if b = c_lbrace then map_option (\<lambda>(n, r). (utf8_char n, r)) (hex_until_brace 0 r) else None
         | _ \<Rightarrow> None)
       else None)"

lemma hex_until_brace_length: "hex_until_brace n s = Some (m, r) \<Longrightarrow> length r < length s"
  by (induction n s rule: hex_until_brace.induct) (auto split: if_splits option.splits)

lemma unescape_head_length: "unescape_head s = Some (bs, r) \<Longrightarrow> length r < length s"
  by (auto simp: unescape_head_def dest!: hex_until_brace_length split: list.splits if_splits option.splits)

function unescape :: "rstr \<Rightarrow> u8 list option" where
  "unescape s = (if s = [] then Some [] else
     case unescape_head s of None \<Rightarrow> None | Some (bs, r) \<Rightarrow> map_option ((@) bs) (unescape r))"
  by pat_completeness auto
termination by (relation "measure length") (auto dest: unescape_head_length)

declare unescape.simps [simp del]

text \<open>Reading the text up to a quote \<open>q\<close> never meets it: a backslash takes the next character.\<close>

fun unquoted :: "rchar \<Rightarrow> rstr \<Rightarrow> bool" where
  "unquoted q [] = True"
| "unquoted q (c # r) =
     (if c = c_backslash then (case r of [] \<Rightarrow> False | _ # r' \<Rightarrow> unquoted q r') else c \<noteq> q \<and> unquoted q r)"

section \<open>Pieces\<close>

text \<open>The text pushed for one byte or character, and what such a piece is to read back as.\<close>

definition byte_piece :: "escape_options \<Rightarrow> u8 \<Rightarrow> rstr" where
  "byte_piece opt b = escape_single_byte b opt []"

definition char_piece :: "unicode \<Rightarrow> escape_options \<Rightarrow> rchar \<Rightarrow> rstr" where
  "char_piece u opt c = escape_single_char u c opt []"

lemma fold_bytes: "fold (\<lambda>byte. escape_single_byte byte opt) bs repr = repr @ concat (map (byte_piece opt) bs)"
  by (induction bs arbitrary: repr) (simp_all add: byte_piece_def escape_single_byte_def)

lemma fold_chars: "fold (\<lambda>ch. escape_single_char u ch opt) s repr = repr @ concat (map (char_piece u opt) s)"
  by (induction s arbitrary: repr) (simp_all add: char_piece_def escape_single_char_def)

lemma fold_chunks: "fold (escape_chunk u opt) cs repr =
    repr @ concat (map (\<lambda>(s, bs). concat (map (char_piece u opt) s) @ concat (map (byte_piece opt) bs)) cs)"
  by (induction cs arbitrary: repr) (auto simp: escape_chunk_def fold_bytes fold_chars)

lemmas escape_folds = fold_bytes fold_chars fold_chunks

definition piece :: "rstr \<Rightarrow> u8 list \<Rightarrow> bool" where
  "piece p bs \<longleftrightarrow> p \<noteq> [] \<and> (\<forall>rest. unescape_head (p @ rest) = Some (bs, rest))"

lemma unescape_piece: "piece p bs \<Longrightarrow> unescape (p @ rest) = map_option ((@) bs) (unescape rest)"
  by (subst unescape.simps) (simp add: piece_def)

lemma unescape_pieces:
  "\<forall>x\<in>set xs. piece (f x) (g x) \<Longrightarrow>
    unescape (concat (map f xs) @ rest) = map_option ((@) (concat (map g xs))) (unescape rest)"
  by (induction xs; cases "unescape rest") (auto simp: unescape_piece)

lemma unescape_Nil [simp]: "unescape [] = Some []"
  by (subst unescape.simps) simp

text \<open>Digits.\<close>

lemma digit_char_less: "d < 16 \<Longrightarrow> to_digit 16 (digit_char d) = Some d"
  by (auto simp: to_digit_def digit_char_def ascii_digit_def Let_def)

lemma digit_char_plain: "d < 16 \<Longrightarrow> digit_char d \<notin> {c_backslash, c_squote, c_dquote, c_rbrace, c_newline, c_return}"
  by (auto simp: digit_char_def)

lemma hexadecimal_digits: "c \<in> set (hexadecimal n) \<Longrightarrow> \<exists>d<16. c = digit_char d"
proof (induction "16::nat" n rule: radix_digits.induct)
  case (1 n)
  show ?case
  proof (cases "n < 16")
    case True
    then show ?thesis using "1.prems" by (subst (asm) radix_digits.simps) auto
  next
    case False
    then have "c = digit_char (n mod 16) \<or> c \<in> set (hexadecimal (n div 16))"
      using "1.prems" by (subst (asm) radix_digits.simps) auto
    then show ?thesis using "1.hyps" False by (auto intro: exI [of _ "n mod 16"])
  qed
qed

lemma hex_until_brace_hexadecimal:
  "\<exists>k. \<forall>m r. hex_until_brace m (hexadecimal n @ r) = hex_until_brace (m * 16 ^ k + n) r"
proof (induction "16::nat" n rule: radix_digits.induct)
  case (1 n)
  have digit: "hex_until_brace m (digit_char d # r) = hex_until_brace (16 * m + d) r" if "d < 16" for m d r
    using digit_char_less [OF that] digit_char_plain [OF that] by simp
  show ?case
  proof (cases "n < 16")
    case True
    then have "hexadecimal n = [digit_char n]" by (subst radix_digits.simps) simp
    then show ?thesis using digit [OF True] by (intro exI [of _ 1]) (simp add: mult.commute)
  next
    case False
    then obtain k where k: "\<And>m r. hex_until_brace m (hexadecimal (n div 16) @ r) = hex_until_brace (m * 16 ^ k + n div 16) r"
      using 1 by auto
    have "hexadecimal n = hexadecimal (n div 16) @ [digit_char (n mod 16)]"
      using False by (subst radix_digits.simps) simp
    then have "hex_until_brace m (hexadecimal n @ r) = hex_until_brace (m * 16 ^ Suc k + n) r" for m r
      using k digit [of "n mod 16"] by (simp add: algebra_simps)
    then show ?thesis by blast
  qed
qed

lemma hex_until_brace_back: "hex_until_brace 0 (hexadecimal n @ c_rbrace # r) = Some (n, r)"
proof -
  obtain k where "\<forall>m r. hex_until_brace m (hexadecimal n @ r) = hex_until_brace (m * 16 ^ k + n) r"
    using hex_until_brace_hexadecimal by blast
  from this [rule_format, of 0 "c_rbrace # r"] show ?thesis by simp
qed

lemma piece_escape_unicode: "piece (escape_unicode c) (utf8_char c)"
  by (simp add: piece_def escape_unicode_def unescape_head_def hex_until_brace_back)

lemma piece_char: "piece (char_piece u opt c) (utf8_char c)"
proof -
  have plain: "piece [c] (utf8_char c)" if "c \<noteq> c_backslash" using that by (simp add: piece_def unescape_head_def)
  have esc: "piece [c_backslash, e] [as_u8 d]"
    if "(e, d) \<in> {(c_0, 0), (c_t, 9), (c_r, 13), (c_n, 10), (c_backslash, c_backslash), (c_squote, c_squote), (c_dquote, c_dquote)}"
    for e d using that by (auto simp: piece_def unescape_head_def as_u8_def)
  have one: "utf8_char d = [as_u8 d]" if "d < 0x80" for d using that by (simp add: utf8_char_def)
  show ?thesis
    using plain piece_escape_unicode [of c] esc [of c_0 0] esc [of c_t 9] esc [of c_r 13] esc [of c_n 10]
      esc [of c c] one
    by (auto simp: char_piece_def escape_single_char_def escape_debug_def)
qed

lemma piece_byte: "piece (byte_piece opt b) [b]"
proof -
  have lt: "unat b < 256" using unsigned_less [of b, where ?'a = nat] by simp
  have hex: "piece [c_backslash, c_x, digit_char (unat b div 16), digit_char (unat b mod 16)] [b]"
    using lt by (simp add: piece_def unescape_head_def digit_char_less)
  have as: "as_u8 n = b" if "unat b = n" for n using that by auto
  have plain: "piece [unat b] [b]" if "unat b < 0x7F" "unat b \<noteq> c_backslash"
    using that by (simp add: piece_def unescape_head_def utf8_char_def)
  have esc: "piece [c_backslash, e] [b]"
    if "(e, unat b) \<in> {(c_0, 0), (c_t, 9), (c_r, 13), (c_n, 10), (c_backslash, c_backslash), (c_squote, c_squote), (c_dquote, c_dquote)}"
    for e using that by (auto simp: piece_def unescape_head_def dest!: as intro: as simp: as_u8_def)
  show ?thesis
    using plain hex esc [of c_0] esc [of c_t] esc [of c_r] esc [of c_n] esc [of "unat b"]
    by (auto simp: byte_piece_def escape_single_byte_def escape_ascii_def Let_def)
qed

text \<open>The chunks of a byte string are its parts, in order.\<close>

lemma valid_prefix_split: "valid_prefix n bs = (s, rest) \<Longrightarrow> valid_str s \<and> utf8 s @ rest = bs"
proof (induction n arbitrary: bs s)
  case (Suc n)
  then show ?case
    by (force simp: Let_def dest: utf8_char_utf8_head split: option.splits prod.splits)
qed simp

lemma utf8_chunks_parts:
  "concat (map (\<lambda>(s, inv). utf8 s @ inv) (utf8_chunks bs)) = bs"
proof (induction bs rule: utf8_chunks.induct)
  case (1 bs)
  show ?case
  proof (cases "bs = []")
    case False
    obtain s rest where p: "valid_prefix (length bs) bs = (s, rest)" by fastforce
    have "utf8 s @ rest = bs" using valid_prefix_split [OF p] by simp
    with 1 [OF False p [symmetric] refl refl] False p show ?thesis
      by (subst utf8_chunks.simps) (auto simp: Let_def)
  qed (simp add: utf8_chunks.simps)
qed

lemma valid_prefix_all: "valid_str s \<Longrightarrow> length s \<le> n \<Longrightarrow> valid_prefix n (utf8 s) = (s, [])"
proof (induction s arbitrary: n)
  case Nil
  then show ?case by (cases n) (simp_all add: utf8_head_def)
next
  case (Cons c s)
  then obtain m where m: "n = Suc m" by (cases n) auto
  have "valid_prefix m (utf8 s) = (s, [])" using Cons.IH [of m] Cons.prems m by simp
  then show ?case using m Cons.prems(1) by (simp add: utf8_head_utf8_char)
qed

lemma utf8_chunks_valid: "valid_str s \<Longrightarrow> s \<noteq> [] \<Longrightarrow> utf8_chunks (utf8 s) = [(s, [])]"
  using valid_prefix_all [of s "length (utf8 s)"] length_utf8 [of s]
  by (subst utf8_chunks.simps) (cases s, simp_all add: Let_def)

text \<open>The text of a valid string is escaped character by character.\<close>

lemma escape_bytes_utf8:
  assumes "valid_str s" "\<not> escape_nonascii opt"
  shows "escape_bytes u (utf8 s) opt = concat (map (char_piece u opt) s)"
proof (cases "s = []")
  case True
  then show ?thesis using assms by (simp add: escape_bytes_def utf8_chunks.simps)
next
  case False
  then show ?thesis using assms by (simp add: escape_bytes_def utf8_chunks_valid escape_chunk_def escape_folds)
qed

section \<open>Quotes\<close>

lemma unquoted_plain: "\<forall>c\<in>set p. c \<noteq> c_backslash \<and> c \<noteq> q \<Longrightarrow> unquoted q (p @ rest) = unquoted q rest"
  by (induction p) auto

lemma unquoted_unicode:
  "q = c_squote \<or> q = c_dquote \<Longrightarrow> unquoted q (escape_unicode c @ rest) = unquoted q rest"
proof -
  assume q: "q = c_squote \<or> q = c_dquote"
  have "\<forall>d\<in>set (c_lbrace # hexadecimal c @ [c_rbrace]). d \<noteq> c_backslash \<and> d \<noteq> q"
    using q hexadecimal_digits [of _ c] digit_char_plain by fastforce
  from unquoted_plain [OF this, of rest] show ?thesis by (simp add: escape_unicode_def)
qed

text \<open>The quote an escape option is for.\<close>

definition guards :: "escape_options \<Rightarrow> rchar \<Rightarrow> bool" where
  "guards opt q \<longleftrightarrow> (q = c_squote \<and> escape_single_quote opt) \<or> (q = c_dquote \<and> escape_double_quote opt)"

lemma unquoted_char: "guards opt q \<Longrightarrow> unquoted q (char_piece u opt c @ rest) = unquoted q rest"
  using unquoted_unicode [of q c rest]
  by (auto simp: guards_def char_piece_def escape_single_char_def escape_debug_def)

lemma unquoted_byte: "guards opt q \<Longrightarrow> unquoted q (byte_piece opt b @ rest) = unquoted q rest"
proof -
  assume g: "guards opt q"
  have "unat b < 256" using unsigned_less [of b, where ?'a = nat] by simp
  then have "unat b div 16 < 16" by (simp add: less_mult_imp_div_less)
  then have d: "digit_char (unat b div 16) \<notin> {c_backslash, q}" "digit_char (unat b mod 16) \<notin> {c_backslash, q}"
    using digit_char_plain [of "unat b div 16"] digit_char_plain [of "unat b mod 16"] g
    by (auto simp: guards_def)
  show ?thesis
    using g d by (auto simp: guards_def byte_piece_def escape_single_byte_def escape_ascii_def Let_def)
qed

lemma unquoted_pieces:
  assumes "\<And>x rest. unquoted q (f x @ rest) = unquoted q rest"
  shows "unquoted q (concat (map f xs) @ rest) = unquoted q rest"
  by (induction xs) (simp_all add: assms)

text \<open>What an escaped text is made of.\<close>

lemma escape_bytes_pieces:
  "\<exists>xs. escape_bytes u bs opt = concat (map (case_sum (char_piece u opt) (byte_piece opt)) xs)
     \<and> concat (map (case_sum utf8_char (\<lambda>b. [b])) xs) = bs"
proof (cases "escape_nonascii opt")
  case True
  then show ?thesis
    by (intro exI [of _ "map Inr bs"]) (simp add: escape_bytes_def escape_folds o_def)
next
  case False
  define split where "split = (\<lambda>(s, inv). map Inl s @ map Inr inv :: (rchar + u8) list)"
  have chars: "concat (map (case_sum (char_piece u opt) (byte_piece opt)) (split c)) =
      (\<lambda>(s, inv). concat (map (char_piece u opt) s) @ concat (map (byte_piece opt) inv)) c" for c
    by (cases c) (simp add: split_def o_def)
  have bytes: "concat (map (case_sum utf8_char (\<lambda>b. [b])) (split c)) = (\<lambda>(s, inv). utf8 s @ inv) c" for c
    by (cases c) (simp add: split_def o_def utf8_def)
  have "concat (map (case_sum (char_piece u opt) (byte_piece opt)) (concat (map split cs))) =
      concat (map (\<lambda>(s, inv). concat (map (char_piece u opt) s) @ concat (map (byte_piece opt) inv)) cs)" for cs
    by (induction cs) (simp_all add: chars)
  moreover have "concat (map (case_sum utf8_char (\<lambda>b. [b])) (concat (map split cs))) =
      concat (map (\<lambda>(s, inv). utf8 s @ inv) cs)" for cs
    by (induction cs) (simp_all add: bytes)
  ultimately show ?thesis
    using False utf8_chunks_parts [of bs]
    by (intro exI [of _ "concat (map split (utf8_chunks bs))"]) (simp add: escape_bytes_def escape_folds)
qed

text \<open>
  What a way of escaping promises: each item's text is read back as its bytes, and no quote it
  guards against stands bare in it. Then so it is of a whole text.
\<close>

locale escaping =
  fixes out :: "'a \<Rightarrow> rstr"
    and val :: "'a \<Rightarrow> u8 list"
    and guarded :: "rchar \<Rightarrow> bool"
  assumes reads_back: "piece (out x) (val x)"
    and stays_closed: "guarded q \<Longrightarrow> unquoted q (out x @ rest) = unquoted q rest"
begin

lemma text_denotes: "unescape (concat (map out xs)) = Some (concat (map val xs))"
  using unescape_pieces [of xs out val "[]"] reads_back by simp

lemma text_unquoted: "guarded q \<Longrightarrow> unquoted q (concat (map out xs))"
  using unquoted_pieces [of q out xs "[]"] stays_closed by simp

end

interpretation pieces: escaping "case_sum (char_piece u opt) (byte_piece opt)" "case_sum utf8_char (\<lambda>b. [b])" "guards opt" for u opt
  by unfold_locales (auto simp: piece_char piece_byte unquoted_char unquoted_byte split: sum.splits)

lemma unescape_escape: "unescape (escape_bytes u bs opt) = Some bs"
  using escape_bytes_pieces [of u bs opt] pieces.text_denotes [of u opt] by metis

lemma unquoted_escape: "guards opt q \<Longrightarrow> unquoted q (escape_bytes u bs opt)"
  using escape_bytes_pieces [of u bs opt] pieces.text_unquoted [of opt q u] by metis

section \<open>Properties\<close>

text \<open>
  C25. Escaping loses nothing: the body of the literal means exactly the bytes that were escaped,
  valid UTF-8 or not, under every choice of options.
\<close>

theorem unescape_escape_bytes: "unescape (escape_bytes u bs opt) = Some bs"
  by (rule unescape_escape)

text \<open>
  An escaped text never closes the literal it is put in: no quote the options guard against
  stands in it without a backslash before it.
\<close>

theorem escape_bytes_unquoted:
  assumes "guards opt q"
  shows "unquoted q (escape_bytes u bs opt)"
  using assms by (rule unquoted_escape)

definition string_options :: escape_options where
  "string_options = \<lparr>escape_single_quote = False, escape_double_quote = True, escape_nonascii = False\<rparr>"

theorem escape_bytes_unquoted_witness:
  "guards string_options c_dquote \<and> unquoted c_dquote (escape_bytes ascii_only [34, 0xFF, 92] string_options)"
  using escape_bytes_unquoted [of string_options c_dquote ascii_only "[34, 0xFF, 92]"]
  by (simp add: guards_def string_options_def)

end
