(* ===== verification/Spans.thy ===== *)
theory Spans
  imports Symbols Unicode_Text
begin

text \<open>
  \<^verbatim>\<open>lib/proc_macro/src/span.rs\<close>: source positions. A span is a non-zero 32-bit handle, its
  index counted from one, into the table of definitions of the running invocation. The compiler
  defines the first entries and the table is frozen; \<open>located_at\<close>, \<open>start\<close> and \<open>end\<close>
  push entries of the macro's own.
\<close>

section \<open>State\<close>

type_synonym span = u32

datatype source_file = SourceFile (file_path: rstr) (file_is_real: bool)

text \<open>A half-open range \<open>start..end\<close> is the pair of its ends.\<close>

record real_span =
  rs_file :: source_file
  rs_lines :: "usize \<times> usize"
  rs_ofs :: "usize \<times> usize"
  rs_context :: usize

record span_table =
  spans :: "real_span option list"
  spans_complete :: bool

definition empty_spans :: span_table where
  "empty_spans = \<lparr>spans = [], spans_complete = False\<rparr>"

section \<open>Definitions by the compiler\<close>

text \<open>The loop of \<open>define\<close>: \<open>while lh.len() <= idx \<lbrace> lh.push(None) \<rbrace>\<close>.\<close>

function push_none :: "nat \<Rightarrow> real_span option list \<Rightarrow> real_span option list" where
  "push_none i lh = (if length lh \<le> i then push_none i (lh @ [None]) else lh)"
  by pat_completeness auto
termination by (relation "measure (\<lambda>(i, lh). Suc i - length lh)") auto

declare push_none.simps [simp del]

definition define_span ::
  "usize \<Rightarrow> span option \<Rightarrow> source_file \<Rightarrow> usize \<times> usize \<Rightarrow> usize \<times> usize \<Rightarrow> span_table \<Rightarrow> span_table result" where
  "define_span i parent file lines ofs st =
     (if spans_complete st then Inl (Panic ''assertion failed: !SPANS_COMPLETE'')
      else Inr (st\<lparr>spans := (push_none (unat i) (spans st))
        [unat i := Some \<lparr>rs_file = file, rs_lines = lines, rs_ofs = ofs, rs_context = i\<rparr>]\<rparr>))"

definition freeze_definitions :: "span_table \<Rightarrow> span_table" where
  "freeze_definitions st = st\<lparr>spans_complete := True\<rparr>"

definition reset_definitions :: "span_table \<Rightarrow> span_table" where
  "reset_definitions st = st\<lparr>spans := [], spans_complete := False\<rparr>"

section \<open>Handles\<close>

definition from_raw :: "usize \<Rightarrow> span result" where
  "from_raw i = (let n = (ucast i :: u32) + 1
     in if n = 0 then Inl (Panic ''span index overflow'') else Inr n)"

definition span_index :: "span \<Rightarrow> usize" where
  "span_index s = ucast s - 1"

definition entry :: "span_table \<Rightarrow> span \<Rightarrow> real_span option result" where
  "entry st s =
     (if \<not> spans_complete st then Inl (Panic ''assertion failed: SPANS_COMPLETE'')
      else Inr (let i = unat (span_index s) in if i < length (spans st) then spans st ! i else None))"

definition to_raw :: "span_table \<Rightarrow> span \<Rightarrow> usize result" where
  "to_raw st s = and_then (entry st s) (\<lambda>e.
     Inr (case e of Some v \<Rightarrow> rs_context v | None \<Rightarrow> span_index s))"

definition real_of :: "span_table \<Rightarrow> span \<Rightarrow> real_span result" where
  "real_of st s = and_then (entry st s) (\<lambda>e. case e of
       Some v \<Rightarrow> Inr v
     | None \<Rightarrow> and_then (from_raw 1) (\<lambda>c. and_then (entry st c) (\<lambda>e. case e of
           Some v \<Rightarrow> Inr v
         | None \<Rightarrow> Inl (Panic ''Undefined span''))))"

text \<open>
  \<open>lh.push(Some(v)); Span::from_raw(lh.len() - 1)\<close>, the tail \<open>derived\<close> and
  \<open>located_at\<close> share. The entry stays when the index overflows.
\<close>

definition push_span :: "real_span \<Rightarrow> span_table \<Rightarrow> span result \<times> span_table" where
  "push_span v st = (let lh = spans st @ [Some v]
     in (from_raw (of_nat (length lh - 1)), st\<lparr>spans := lh\<rparr>))"

definition derived :: "span \<Rightarrow> usize \<Rightarrow> usize \<Rightarrow> span_table \<Rightarrow> span result \<times> span_table" where
  "derived s line ofs st = (case real_of st s of
       Inl p \<Rightarrow> (Inl p, st)
     | Inr parent \<Rightarrow> push_span \<lparr>rs_file = rs_file parent, rs_lines = (line, line), rs_ofs = (ofs, ofs),
         rs_context = rs_context parent\<rparr> st)"

section \<open>Operations of the macro\<close>

text \<open>\<open>is_available\<close> is the flag the host sets while a macro runs.\<close>

definition require_available :: "bool \<Rightarrow> unit result" where
  "require_available available =
     (if available then Inr ()
      else Inl (Panic ''procedural macro API is used outside of a procedural macro''))"

definition call_site :: "bool \<Rightarrow> span result" where
  "call_site available = and_then (require_available available) (\<lambda>_. from_raw 1)"

definition mixed_site :: "bool \<Rightarrow> span result" where
  "mixed_site available = and_then (require_available available) (\<lambda>_. from_raw 0)"

definition located_at :: "span \<Rightarrow> span \<Rightarrow> span_table \<Rightarrow> span result \<times> span_table" where
  "located_at s other st = (case and_then (to_raw st s) (\<lambda>context. and_then (real_of st other) (\<lambda>at. Inr (context, at))) of
       Inl p \<Rightarrow> (Inl p, st)
     | Inr (context, at) \<Rightarrow> push_span \<lparr>rs_file = rs_file at, rs_lines = rs_lines at, rs_ofs = rs_ofs at,
         rs_context = context\<rparr> st)"

definition resolved_at :: "span \<Rightarrow> span \<Rightarrow> span_table \<Rightarrow> span result \<times> span_table" where
  "resolved_at s other st = located_at other s st"

definition source_text :: "span \<Rightarrow> rstr option" where
  "source_text s = None"

definition source_file_of :: "span_table \<Rightarrow> span \<Rightarrow> source_file result" where
  "source_file_of st s = and_then (real_of st s) (\<lambda>v. Inr (rs_file v))"

definition span_start :: "span \<Rightarrow> span_table \<Rightarrow> span result \<times> span_table" where
  "span_start s st = (case real_of st s of
       Inl p \<Rightarrow> (Inl p, st)
     | Inr v \<Rightarrow> derived s (fst (rs_lines v)) (fst (rs_ofs v)) st)"

definition span_end :: "span \<Rightarrow> span_table \<Rightarrow> span result \<times> span_table" where
  "span_end s st = (case real_of st s of
       Inl p \<Rightarrow> (Inl p, st)
     | Inr v \<Rightarrow> derived s (snd (rs_lines v)) (snd (rs_ofs v)) st)"

definition span_line :: "span_table \<Rightarrow> span \<Rightarrow> usize result" where
  "span_line st s = and_then (real_of st s) (\<lambda>v. Inr (fst (rs_lines v)))"

definition span_column :: "span_table \<Rightarrow> span \<Rightarrow> usize result" where
  "span_column st s = and_then (real_of st s) (\<lambda>v. Inr (fst (rs_ofs v) + 1))"

definition span_file :: "span_table \<Rightarrow> span \<Rightarrow> rstr result" where
  "span_file st s = and_then (real_of st s) (\<lambda>v. Inr (file_path (rs_file v)))"

definition local_file :: "span_table \<Rightarrow> span \<Rightarrow> rstr option result" where
  "local_file st s =
     (if \<not> spans_complete st then Inl (Panic ''assertion failed: SPANS_COMPLETE'')
      else let i = unat (span_index s)
        in if i < length (spans st)
           then Inr (case spans st ! i of Some v \<Rightarrow> Some (file_path (rs_file v)) | None \<Rightarrow> None)
           else Inl (Panic ''Undefined span''))"

text \<open>The \<open>Debug\<close> form, with which diagnostics name a span.\<close>

definition span_debug :: "span_table \<Rightarrow> span \<Rightarrow> rstr result" where
  "span_debug st s = and_then (real_of st s) (\<lambda>v. Inr (
     file_path (rs_file v) @ str '':'' @ decimal (unat (fst (rs_lines v)))
     @ str '':'' @ decimal (unat (fst (rs_ofs v) + 1)) @ str '': '' @ decimal (unat (snd (rs_lines v)))
     @ str '':'' @ decimal (unat (snd (rs_ofs v) + 1)) @ str '' (#'' @ decimal (unat (rs_context v)) @ str '')''))"

section \<open>Handles and entries\<close>

lemma unat_span_index: "s \<noteq> 0 \<Longrightarrow> unat (span_index s) = unat s - 1"
proof -
  assume "s \<noteq> 0"
  then have pos: "0 < unat s" by (simp add: unat_gt_0)
  have "unat (ucast s :: usize) = unat s"
    using unsigned_less [of s, where ?'a = nat] by (intro unat_ucast_small) simp
  moreover have "(1::usize) \<le> ucast s" using pos calculation by (simp add: word_le_nat_alt)
  ultimately show ?thesis by (simp add: span_index_def unat_sub)
qed

lemma from_raw_Inr:
  assumes "from_raw (of_nat n) = Inr s" "n < 2 ^ 32"
  shows "s \<noteq> 0" "unat (span_index s) = n" "Suc n < 2 ^ 32"
proof -
  from assms have s: "s = of_nat (Suc n)" "s \<noteq> 0"
    by (auto simp: from_raw_def Let_def usize_to_u32 add.commute split: if_splits)
  have "unat s = Suc n" "Suc n < 2 ^ 32" using new_symbol [OF assms(2)] s by simp_all
  then show "s \<noteq> 0" "unat (span_index s) = n" "Suc n < 2 ^ 32"
    using s(2) unat_span_index [OF s(2)] by simp_all
qed

lemma from_raw_small:
  assumes "Suc n < 2 ^ 32"
  obtains s where "from_raw (of_nat n) = Inr s" "s \<noteq> 0" "unat (span_index s) = n"
proof -
  have "(of_nat (Suc n) :: u32) \<noteq> 0"
    using assms of_nat_eq_0_small [where 'a = 32, of "Suc n"] by (simp del: of_nat_Suc)
  then have "from_raw (of_nat n) = Inr (of_nat (Suc n))"
    by (simp add: from_raw_def Let_def usize_to_u32 add.commute)
  then show thesis using that from_raw_Inr [of n] assms by simp
qed

lemma from_raw_numerals [simp]: "from_raw 1 = Inr 2" "from_raw 0 = Inr 1"
  by (simp_all add: from_raw_def)

text \<open>The entry a handle reads, when the table is frozen.\<close>

abbreviation entry_is :: "span_table \<Rightarrow> span \<Rightarrow> real_span \<Rightarrow> bool" where
  "entry_is st s v \<equiv> entry st s = Inr (Some v)"

lemma entry_is_iff:
  "entry_is st s v \<longleftrightarrow> spans_complete st \<and> unat (span_index s) < length (spans st)
     \<and> spans st ! unat (span_index s) = Some v"
  by (auto simp: entry_def Let_def)

lemma entry_is_reads:
  assumes "entry_is st s v"
  shows "real_of st s = Inr v" "to_raw st s = Inr (rs_context v)"
  using assms by (simp_all add: real_of_def to_raw_def)

text \<open>A pushed entry is read by the handle returned for it, and leaves the others alone.\<close>

lemma push_span_new:
  assumes "push_span v st = (Inr s, st')" "spans_complete st" "length (spans st) < 2 ^ 32"
  shows "entry_is st' s v" "unat (span_index s) = length (spans st)" "s \<noteq> 0"
    "st' = st\<lparr>spans := spans st @ [Some v]\<rparr>" "length (spans st') < 2 ^ 32"
proof -
  have f: "from_raw (of_nat (length (spans st))) = Inr s" and st': "st' = st\<lparr>spans := spans st @ [Some v]\<rparr>"
    using assms(1) by (auto simp: push_span_def Let_def)
  show "s \<noteq> 0" and i: "unat (span_index s) = length (spans st)"
    using from_raw_Inr [OF f assms(3)] by simp_all
  show "entry_is st' s v" using i st' assms(2) by (simp add: entry_is_iff)
  show "st' = st\<lparr>spans := spans st @ [Some v]\<rparr>" by (rule st')
  show "length (spans st') < 2 ^ 32" using from_raw_Inr(3) [OF f assms(3)] st' by simp
qed

lemma push_span_keeps:
  assumes "push_span v st = (r, st')" "entry_is st s w"
  shows "entry_is st' s w"
  using assms by (auto simp: push_span_def Let_def entry_is_iff nth_append)

text \<open>The three operations that push, as one: they read, then push or change nothing.\<close>

lemma derived_cases:
  assumes "derived s l k st = (r, st')"
  obtains (push) v where "real_of st s = Inr v"
      "push_span \<lparr>rs_file = rs_file v, rs_lines = (l, l), rs_ofs = (k, k), rs_context = rs_context v\<rparr> st = (r, st')"
    | (panic) p where "real_of st s = Inl p" "r = Inl p" "st' = st"
  using assms by (cases "real_of st s") (simp_all add: derived_def)

lemma span_start_unfold:
  "real_of st s = Inr v \<Longrightarrow> span_start s st = push_span \<lparr>rs_file = rs_file v,
     rs_lines = (fst (rs_lines v), fst (rs_lines v)), rs_ofs = (fst (rs_ofs v), fst (rs_ofs v)),
     rs_context = rs_context v\<rparr> st"
  by (simp add: span_start_def derived_def)

lemma span_end_unfold:
  "real_of st s = Inr v \<Longrightarrow> span_end s st = push_span \<lparr>rs_file = rs_file v,
     rs_lines = (snd (rs_lines v), snd (rs_lines v)), rs_ofs = (snd (rs_ofs v), snd (rs_ofs v)),
     rs_context = rs_context v\<rparr> st"
  by (simp add: span_end_def derived_def)

lemma located_at_unfold:
  "to_raw st s = Inr c \<Longrightarrow> real_of st other = Inr v \<Longrightarrow> located_at s other st =
     push_span \<lparr>rs_file = rs_file v, rs_lines = rs_lines v, rs_ofs = rs_ofs v, rs_context = c\<rparr> st"
  by (simp add: located_at_def)

section \<open>What a macro does to the table\<close>

inductive span_step :: "span_table \<Rightarrow> span_table \<Rightarrow> bool" where
  step_located: "located_at s other st = (Inr t, st') \<Longrightarrow> s \<noteq> 0
      \<Longrightarrow> unat (span_index s) < length (spans st) \<Longrightarrow> span_step st st'"
| step_start: "span_start s st = (Inr t, st') \<Longrightarrow> span_step st st'"
| step_end: "span_end s st = (Inr t, st') \<Longrightarrow> span_step st st'"

lemma span_step_push:
  assumes "span_step st st'"
  obtains v t s w where "push_span v st = (Inr t, st')"
    "real_of st s = Inr w" "rs_context v = rs_context w"
  | v t s where "push_span v st = (Inr t, st')" "s \<noteq> 0" "unat (span_index s) < length (spans st)"
    "to_raw st s = Inr (rs_context v)"
  using assms
proof cases
  case (step_located s other t)
  then obtain c w where "to_raw st s = Inr c" "real_of st other = Inr w"
    by (auto simp: located_at_def and_then_def split: sum.splits)
  with step_located show thesis
    by (intro that(2) [of "\<lparr>rs_file = rs_file w, rs_lines = rs_lines w, rs_ofs = rs_ofs w, rs_context = c\<rparr>" t s])
      (simp_all add: located_at_unfold)
next
  case (step_start s t)
  then obtain w where "real_of st s = Inr w" by (auto simp: span_start_def split: sum.splits)
  with step_start show thesis
    by (intro that(1) [of "\<lparr>rs_file = rs_file w, rs_lines = (fst (rs_lines w), fst (rs_lines w)),
        rs_ofs = (fst (rs_ofs w), fst (rs_ofs w)), rs_context = rs_context w\<rparr>" t s w])
      (simp_all add: span_start_unfold)
next
  case (step_end s t)
  then obtain w where "real_of st s = Inr w" by (auto simp: span_end_def split: sum.splits)
  with step_end show thesis
    by (intro that(1) [of "\<lparr>rs_file = rs_file w, rs_lines = (snd (rs_lines w), snd (rs_lines w)),
        rs_ofs = (snd (rs_ofs w), snd (rs_ofs w)), rs_context = rs_context w\<rparr>" t s w])
      (simp_all add: span_end_unfold)
qed

section \<open>Tables that only grow\<close>

text \<open>
  A table whose steps keep every reading keeps it over any run of steps, and an invariant of the
  steps holds in every state the macro can reach.
\<close>

locale growing_table =
  fixes step :: "'st \<Rightarrow> 'st \<Rightarrow> bool" and reads :: "'st \<Rightarrow> 'k \<Rightarrow> 'v \<Rightarrow> bool" and invar :: "'st \<Rightarrow> bool"
  assumes step_reads: "step st st' \<Longrightarrow> reads st k v \<Longrightarrow> reads st' k v"
    and step_invar: "invar st \<Longrightarrow> step st st' \<Longrightarrow> invar st'"
begin

lemma run_reads: "step\<^sup>*\<^sup>* st st' \<Longrightarrow> reads st k v \<Longrightarrow> reads st' k v"
  by (induction rule: rtranclp_induct) (blast intro: step_reads)+

lemma run_invar: "step\<^sup>*\<^sup>* st st' \<Longrightarrow> invar st \<Longrightarrow> invar st'"
  by (induction rule: rtranclp_induct) (blast intro: step_invar)+

end

text \<open>
  The invariant: every entry's context is an index the compiler defined (below \<open>n\<close>), so is
  every index without an entry, the call site among them.
\<close>

definition spans_known :: "nat \<Rightarrow> span_table \<Rightarrow> bool" where
  "spans_known n st \<longleftrightarrow> spans_complete st \<and> 1 < n \<and> n \<le> length (spans st) \<and> length (spans st) < 2 ^ 32
     \<and> (\<forall>i < length (spans st). case spans st ! i of None \<Rightarrow> i < n | Some v \<Rightarrow> unat (rs_context v) < n)"

lemma spans_known_to_raw:
  assumes "spans_known n st" "s \<noteq> 0" "unat (span_index s) < length (spans st)"
  obtains c where "to_raw st s = Inr c" "unat c < n"
proof -
  have "case spans st ! unat (span_index s) of None \<Rightarrow> unat (span_index s) < n | Some v \<Rightarrow> unat (rs_context v) < n"
    using assms(1,3) by (simp add: spans_known_def)
  moreover have "entry st s = Inr (spans st ! unat (span_index s))"
    using assms(1,3) by (simp add: spans_known_def entry_def Let_def)
  ultimately show thesis using that by (auto simp: to_raw_def split: option.splits)
qed

lemma real_of_context:
  assumes "spans_known n st" "real_of st s = Inr v"
  shows "unat (rs_context v) < n"
proof -
  have "unat (rs_context v) < n" if "entry_is st k v" for k
    using assms(1) that by (auto simp: spans_known_def entry_is_iff split: option.splits)
  then show ?thesis using assms(2) by (auto simp: real_of_def split: option.splits)
qed

lemma spans_known_push:
  assumes "spans_known n st" "push_span v st = (Inr t, st')" "unat (rs_context v) < n"
  shows "spans_known n st'"
proof -
  have len: "length (spans st') < 2 ^ 32" and st': "st' = st\<lparr>spans := spans st @ [Some v]\<rparr>"
    using push_span_new [OF assms(2)] assms(1) by (simp_all add: spans_known_def)
  then show ?thesis using assms(1,3) by (auto simp: spans_known_def nth_append less_Suc_eq)
qed

lemma spans_known_step:
  assumes "spans_known n st" "span_step st st'"
  shows "spans_known n st'"
  using assms(2)
proof (cases rule: span_step_push)
  case (1 v t s w)
  then show ?thesis using spans_known_push assms(1) real_of_context by metis
next
  case (2 v t s)
  obtain c where c: "to_raw st s = Inr c" "unat c < n"
    using spans_known_to_raw [OF assms(1) 2(2,3)] .
  then show ?thesis using spans_known_push [OF assms(1) 2(1)] 2(4) by simp
qed

interpretation spans: growing_table span_step entry_is "spans_known n" for n
proof
  fix st st' k v
  assume step: "span_step st st'" and e: "entry_is st k v"
  from step show "entry_is st' k v"
    by (cases rule: span_step_push) (rule push_span_keeps, assumption, rule e)+
next
  fix st st'
  assume "spans_known n st" "span_step st st'"
  then show "spans_known n st'" by (rule spans_known_step)
qed

interpretation interned: growing_table
  "\<lambda>st st'. symbols_ok st \<and> (\<exists>t h. intern t st = (Inr h, st'))" "\<lambda>st h t. as_str st h = Inr t" symbols_ok
  by unfold_locales (auto dest: symbols.text_stable symbols.invar_intern)

text \<open>What \<open>define\<close> leaves in the table.\<close>

lemma push_none_eq: "push_none i lh = lh @ replicate (Suc i - length lh) None"
proof (induction i lh rule: push_none.induct)
  case (1 i lh)
  show ?case
  proof (cases "length lh \<le> i")
    case True
    then have "Suc i - length lh = Suc (Suc i - length (lh @ [None]))" by simp
    then show ?thesis using 1 [OF True] True by (subst push_none.simps) simp
  qed (subst push_none.simps, simp)
qed

lemma define_span_nth:
  assumes "define_span i parent file lines ofs st = Inr st'"
  shows "length (spans st') = max (length (spans st)) (Suc (unat i))"
    and "\<not> spans_complete st'"
    and "spans st' ! unat i = Some \<lparr>rs_file = file, rs_lines = lines, rs_ofs = ofs, rs_context = i\<rparr>"
    and "k \<noteq> unat i \<Longrightarrow> k < length (spans st) \<Longrightarrow> spans st' ! k = spans st ! k"
    and "k \<noteq> unat i \<Longrightarrow> length (spans st) \<le> k \<Longrightarrow> k < length (spans st') \<Longrightarrow> spans st' ! k = None"
  using assms by (auto simp: define_span_def push_none_eq nth_append split: if_splits)

text \<open>The tables the compiler's definitions lead to: every entry has its own index as context.\<close>

inductive compiler_table :: "span_table \<Rightarrow> bool" where
  ct_reset: "compiler_table (reset_definitions st)"
| ct_define: "compiler_table st \<Longrightarrow> define_span i parent file lines ofs st = Inr st' \<Longrightarrow> compiler_table st'"

lemma compiler_table_contexts:
  "compiler_table st \<Longrightarrow> i < length (spans st) \<Longrightarrow> spans st ! i = Some v \<Longrightarrow> unat (rs_context v) = i"
proof (induction arbitrary: i v rule: compiler_table.induct)
  case (ct_reset st)
  then show ?case by (simp add: reset_definitions_def)
next
  case (ct_define st k parent sf lines ofs st')
  note d = define_span_nth [OF ct_define.hyps(2)]
  show ?case
  proof (cases "i = unat k")
    case True
    then show ?thesis using d(3) ct_define.prems by auto
  next
    case False
    then have "i < length (spans st)" using d(5) [of i] ct_define.prems by (cases "i < length (spans st)") auto
    then show ?thesis using d(4) [OF False] ct_define.IH ct_define.prems by simp
  qed
qed

lemma compiler_table_known:
  assumes "compiler_table st" "1 < length (spans st)" "length (spans st) < 2 ^ 32"
  shows "spans_known (length (spans st)) (freeze_definitions st)"
  using assms compiler_table_contexts [OF assms(1)]
  by (auto simp: spans_known_def freeze_definitions_def split: option.splits)

section \<open>Properties\<close>

text \<open>
  A span the compiler defined answers with the compiler's own index and definition, whatever
  further spans the macro derives.
\<close>

theorem defined_span_echoes:
  assumes "define_span i parent file lines ofs st = Inr st1" "Suc (unat i) < 2 ^ 32"
    "span_step\<^sup>*\<^sup>* (freeze_definitions st1) st2"
  shows "\<exists>s. from_raw i = Inr s \<and> to_raw st2 s = Inr i
    \<and> real_of st2 s = Inr \<lparr>rs_file = file, rs_lines = lines, rs_ofs = ofs, rs_context = i\<rparr>"
proof -
  obtain s where s: "from_raw i = Inr s" "unat (span_index s) = unat i"
    using from_raw_small [OF assms(2)] by auto
  have "entry_is (freeze_definitions st1) s \<lparr>rs_file = file, rs_lines = lines, rs_ofs = ofs, rs_context = i\<rparr>"
    using define_span_nth(1,3) [OF assms(1)] s(2) by (simp add: entry_is_iff freeze_definitions_def)
  from spans.run_reads [OF assms(3) this] show ?thesis using s(1) by (auto simp: entry_is_reads)
qed

theorem defined_span_echoes_witness:
  "\<exists>s st1 st2. define_span 2 None (SourceFile (str ''a.rs'') True) (7, 7) (0, 5) empty_spans = Inr st1
    \<and> span_start 3 (freeze_definitions st1) = (Inr 4, st2) \<and> from_raw 2 = Inr s \<and> to_raw st2 s = Inr 2"
proof -
  let ?v = "\<lparr>rs_file = SourceFile (str ''a.rs'') True, rs_lines = (7, 7), rs_ofs = (0, 5), rs_context = 2\<rparr>"
  let ?st1 = "\<lparr>spans = [None, None, Some ?v], spans_complete = False\<rparr>"
  let ?st2 = "\<lparr>spans = [None, None, Some ?v, Some (?v\<lparr>rs_ofs := (0, 0)\<rparr>)], spans_complete = True\<rparr>"
  have 1: "define_span 2 None (SourceFile (str ''a.rs'') True) (7, 7) (0, 5) empty_spans = Inr ?st1"
    by code_simp
  have 2: "span_start 3 (freeze_definitions ?st1) = (Inr 4, ?st2)" by code_simp
  have "span_step\<^sup>*\<^sup>* (freeze_definitions ?st1) ?st2" using step_start [OF 2] by (rule r_into_rtranclp)
  then obtain s where "from_raw 2 = Inr s" "to_raw ?st2 s = Inr 2"
    using defined_span_echoes [OF 1] by force
  with 1 2 show ?thesis by blast
qed

lemma push_span_ex:
  assumes "spans_complete st" "Suc (length (spans st)) < 2 ^ 32"
  shows "\<exists>a st'. push_span x st = (Inr a, st') \<and> real_of st' a = Inr x \<and> to_raw st' a = Inr (rs_context x)
    \<and> (\<forall>k w. entry_is st k w \<longrightarrow> entry_is st' k w)"
proof -
  obtain a where "from_raw (of_nat (length (spans st))) = Inr a" using from_raw_small [OF assms(2)] .
  then have p: "push_span x st = (Inr a, st\<lparr>spans := spans st @ [Some x]\<rparr>)" by (simp add: push_span_def)
  have "length (spans st) < 2 ^ 32" using assms(2) by linarith
  from entry_is_reads [OF push_span_new(1) [OF p assms(1) this]] push_span_keeps [OF p] p show ?thesis by blast
qed

text \<open>
  \<open>start\<close> and \<open>end\<close> of a span are the empty ranges at its two ends, in its file and its
  resolution context; they are sent back as the span they come from, and deriving them leaves
  every span there was as it was.
\<close>

theorem start_and_end:
  assumes "real_of st s = Inr v" "spans_complete st" "Suc (length (spans st)) < 2 ^ 32"
  shows "(\<exists>a st1. span_start s st = (Inr a, st1)
      \<and> real_of st1 a = Inr \<lparr>rs_file = rs_file v, rs_lines = (fst (rs_lines v), fst (rs_lines v)),
          rs_ofs = (fst (rs_ofs v), fst (rs_ofs v)), rs_context = rs_context v\<rparr>
      \<and> to_raw st1 a = Inr (rs_context v) \<and> (\<forall>k w. entry_is st k w \<longrightarrow> entry_is st1 k w))
    \<and> (\<exists>b st2. span_end s st = (Inr b, st2)
      \<and> real_of st2 b = Inr \<lparr>rs_file = rs_file v, rs_lines = (snd (rs_lines v), snd (rs_lines v)),
          rs_ofs = (snd (rs_ofs v), snd (rs_ofs v)), rs_context = rs_context v\<rparr>
      \<and> to_raw st2 b = Inr (rs_context v) \<and> (\<forall>k w. entry_is st k w \<longrightarrow> entry_is st2 k w))"
  using push_span_ex [OF assms(2,3), of "\<lparr>rs_file = rs_file v, rs_lines = (fst (rs_lines v), fst (rs_lines v)),
      rs_ofs = (fst (rs_ofs v), fst (rs_ofs v)), rs_context = rs_context v\<rparr>"]
    push_span_ex [OF assms(2,3), of "\<lparr>rs_file = rs_file v, rs_lines = (snd (rs_lines v), snd (rs_lines v)),
      rs_ofs = (snd (rs_ofs v), snd (rs_ofs v)), rs_context = rs_context v\<rparr>"]
  unfolding span_start_unfold [OF assms(1)] span_end_unfold [OF assms(1)]
  by (simp only: real_span.select_convs simp_thms)

text \<open>
  C36. \<open>a.located_at(b)\<close>, which is \<open>b.resolved_at(a)\<close>, has the position of \<open>b\<close> and the
  resolution context of \<open>a\<close>.
\<close>

theorem located_at_laws:
  assumes "to_raw st a = Inr c" "real_of st b = Inr v" "Suc (length (spans st)) < 2 ^ 32"
  shows "resolved_at b a st = located_at a b st \<and> (\<exists>s st'. located_at a b st = (Inr s, st')
    \<and> to_raw st' s = Inr c
    \<and> source_file_of st' s = source_file_of st b \<and> span_line st' s = span_line st b
    \<and> span_column st' s = span_column st b \<and> span_file st' s = span_file st b
    \<and> (\<forall>k w. entry_is st k w \<longrightarrow> entry_is st' k w))"
proof -
  have "spans_complete st" using assms(1) by (auto simp: to_raw_def entry_def split: if_splits)
  from push_span_ex [OF this assms(3), of "\<lparr>rs_file = rs_file v, rs_lines = rs_lines v, rs_ofs = rs_ofs v, rs_context = c\<rparr>"]
  obtain s st' where "located_at a b st = (Inr s, st')" "to_raw st' s = Inr c"
    "real_of st' s = Inr \<lparr>rs_file = rs_file v, rs_lines = rs_lines v, rs_ofs = rs_ofs v, rs_context = c\<rparr>"
    "\<forall>k w. entry_is st k w \<longrightarrow> entry_is st' k w"
    unfolding located_at_unfold [OF assms(1,2)] real_span.select_convs by blast
  then show ?thesis
    using assms(2) by (simp add: resolved_at_def source_file_of_def span_line_def span_column_def span_file_def)
qed

text \<open>
  C35. Whatever spans the macro derives, every span of the table is sent back under an index the
  compiler defined: no index of the macro's own ever reaches the compiler.
\<close>

theorem spans_sent_are_known:
  assumes "compiler_table st" "1 < length (spans st)" "length (spans st) < 2 ^ 32"
    "span_step\<^sup>*\<^sup>* (freeze_definitions st) st'" "s \<noteq> 0" "unat (span_index s) < length (spans st')"
  shows "\<exists>c. to_raw st' s = Inr c \<and> unat c < length (spans st)"
proof -
  have "spans_known (length (spans st)) st'"
    using spans.run_invar [OF assms(4) compiler_table_known [OF assms(1,2,3)]] .
  from spans_known_to_raw [OF this assms(5,6)] show ?thesis by blast
qed

text \<open>Witnesses: a table of three definitions, the mixed site without one of its own.\<close>

definition sample_spans :: span_table where
  "sample_spans = \<lparr>spans = [None, Some \<lparr>rs_file = SourceFile (str ''a.rs'') True, rs_lines = (7, 9), rs_ofs = (0, 5), rs_context = 1\<rparr>,
     Some \<lparr>rs_file = SourceFile (str ''b.rs'') True, rs_lines = (3, 3), rs_ofs = (2, 4), rs_context = 2\<rparr>], spans_complete = True\<rparr>"

theorem start_and_end_witness: "\<exists>a st1. span_start 3 sample_spans = (Inr a, st1) \<and> to_raw st1 a = Inr 2"
proof -
  have "real_of sample_spans 3 = Inr \<lparr>rs_file = SourceFile (str ''b.rs'') True, rs_lines = (3, 3), rs_ofs = (2, 4), rs_context = 2\<rparr>"
    by code_simp
  from start_and_end [OF this] show ?thesis by (auto simp: sample_spans_def)
qed

theorem located_at_laws_witness:
  "\<exists>s st'. located_at 1 3 sample_spans = (Inr s, st') \<and> to_raw st' s = Inr 0 \<and> span_line st' s = Inr 3"
proof -
  have 1: "to_raw sample_spans 1 = Inr 0" by code_simp
  have 2: "real_of sample_spans 3 = Inr \<lparr>rs_file = SourceFile (str ''b.rs'') True, rs_lines = (3, 3), rs_ofs = (2, 4), rs_context = 2\<rparr>"
    by code_simp
  have 3: "span_line sample_spans 3 = Inr 3" by code_simp
  from located_at_laws [OF 1 2] 3 show ?thesis by (auto simp: sample_spans_def)
qed

theorem spans_sent_are_known_witness:
  "\<exists>st' c. span_start 2 sample_spans = (Inr 4, st') \<and> to_raw st' 4 = Inr c \<and> unat c < 3"
proof -
  let ?d1 = "define_span 1 None (SourceFile (str ''a.rs'') True) (7, 9) (0, 5)"
  let ?d2 = "define_span 2 None (SourceFile (str ''b.rs'') True) (3, 3) (2, 4)"
  let ?st = "sample_spans\<lparr>spans_complete := False\<rparr>"
  let ?st' = "snd (span_start 2 sample_spans)"
  have a: "?d1 (reset_definitions empty_spans) = Inr (\<lparr>spans = take 2 (spans ?st), spans_complete = False\<rparr>)" by code_simp
  have b: "?d2 (\<lparr>spans = take 2 (spans ?st), spans_complete = False\<rparr>) = Inr ?st" by code_simp
  have "compiler_table ?st" using ct_define [OF ct_define [OF ct_reset a] b] .
  moreover have f: "freeze_definitions ?st = sample_spans" by (simp add: freeze_definitions_def sample_spans_def)
  moreover have 2: "span_start 2 sample_spans = (Inr 4, ?st')" "unat (span_index 4) = 3" "length (spans ?st') = 4"
    "length (spans ?st) = 3" by code_simp+
  moreover have "span_step\<^sup>*\<^sup>* sample_spans ?st'" using step_start [OF 2(1)] by (rule r_into_rtranclp)
  ultimately have "\<exists>c. to_raw ?st' 4 = Inr c \<and> unat c < length (spans ?st)"
    by (intro spans_sent_are_known) simp_all
  with 2 show ?thesis by force
qed

end
