(* ===== verification/Tokens.thy ===== *)
theory Tokens
  imports Spans Escape
begin

text \<open>
  \<^verbatim>\<open>lib/proc_macro/src/token_tree.rs\<close>: the trees a macro works on. A symbol stands here for
  the text it interns (theory Symbols shows the two compare alike), a span for its handle. The
  type of streams is a parameter of groups and trees: the value of the stream in this layer, a
  handle into the store of \<^verbatim>\<open>lib.rs\<close> in the other.
\<close>

section \<open>Data\<close>

datatype delimiter = Parenthesis | Brace | Bracket | NoDelimiter

datatype spacing = Alone | Joint

record delim_span =
  open_span :: span
  close_span :: span
  entire_span :: span

definition delim_span_from_single :: "span \<Rightarrow> delim_span" where
  "delim_span_from_single sp = \<lparr>open_span = sp, close_span = sp, entire_span = sp\<rparr>"

datatype 's group = Group (delimiter: delimiter) (group_stream: 's) (group_spans: delim_span) (fragment: u16)

record ident =
  id_sym :: rstr
  id_raw :: bool
  id_span :: span

record punct =
  punct_ch :: u8
  punct_joint :: bool
  punct_span :: span

datatype lit_kind =
    LByte | LChar | LInteger | LFloat | LStr | LStrRaw u8 | LByteStr | LByteStrRaw u8 | LCStr | LCStrRaw u8
  | LErrWithGuar

record literal =
  lit_kind :: lit_kind
  lit_symbol :: rstr
  lit_suffix :: "rstr option"
  lit_span :: span

datatype 's token_tree = TGroup "'s group" | TIdent ident | TPunct punct | TLiteral literal

section \<open>Groups\<close>

definition group_new :: "bool \<Rightarrow> delimiter \<Rightarrow> 's \<Rightarrow> 's group result" where
  "group_new available d s =
     and_then (call_site available) (\<lambda>sp. Inr (Group d s (delim_span_from_single sp) 0))"

definition group_span :: "'s group \<Rightarrow> span" where
  "group_span g = entire_span (group_spans g)"

definition group_set_span :: "span \<Rightarrow> 's group \<Rightarrow> 's group" where
  "group_set_span sp g = Group (delimiter g) (group_stream g) (delim_span_from_single sp) (fragment g)"

definition group_span_open :: "'s group \<Rightarrow> span" where
  "group_span_open g = open_span (group_spans g)"

definition group_span_close :: "'s group \<Rightarrow> span" where
  "group_span_close g = close_span (group_spans g)"

section \<open>Identifiers\<close>

definition ident_char :: "unicode \<Rightarrow> rchar \<Rightarrow> bool" where
  "ident_char u c \<longleftrightarrow> c = c_underscore \<or> is_alphanumeric u c"

definition validate_ident :: "unicode \<Rightarrow> rstr \<Rightarrow> unit result" where
  "validate_ident u string =
     (if string = [] then Inl (Panic ''Ident is not allowed to be empty; use Option<Ident>'')
      else if list_all (\<lambda>digit. 48 \<le> unat digit \<and> unat digit \<le> 57) (utf8 string)
      then Inl (Panic ''Ident cannot be a number; use Literal instead'')
      else let first = hd string; chars = tl string
        in if first \<noteq> c_underscore \<and> \<not> is_alphabetic u first \<or> \<not> list_all (ident_char u) chars
           then Inl (Panic ''is not a valid Ident'') else Inr ())"

definition ident_from_name :: "rstr \<Rightarrow> bool \<Rightarrow> span \<Rightarrow> ident" where
  "ident_from_name name raw sp = \<lparr>id_sym = name, id_raw = raw, id_span = sp\<rparr>"

definition ident_new :: "unicode \<Rightarrow> rstr \<Rightarrow> span \<Rightarrow> ident result" where
  "ident_new u string sp =
     and_then (validate_ident u string) (\<lambda>_. Inr \<lparr>id_sym = string, id_raw = False, id_span = sp\<rparr>)"

definition ident_new_raw :: "unicode \<Rightarrow> rstr \<Rightarrow> span \<Rightarrow> ident result" where
  "ident_new_raw u string sp =
     and_then (validate_ident u string) (\<lambda>_. Inr \<lparr>id_sym = string, id_raw = True, id_span = sp\<rparr>)"

definition ident_set_span :: "span \<Rightarrow> ident \<Rightarrow> ident" where
  "ident_set_span sp i = i\<lparr>id_span := sp\<rparr>"

definition ident_display :: "ident \<Rightarrow> rstr" where
  "ident_display i = (if id_raw i then str ''r#'' else []) @ id_sym i"

section \<open>Punctuation\<close>

definition legal_chars :: "rchar list" where
  "legal_chars = str ''=<>!~+-*/%^&|@.,;:#$?'' @ [c_squote]"

definition punct_from_char :: "rchar \<Rightarrow> spacing \<Rightarrow> span \<Rightarrow> punct" where
  "punct_from_char c spacing sp = \<lparr>punct_ch = as_u8 c, punct_joint = (spacing = Joint), punct_span = sp\<rparr>"

definition punct_new :: "bool \<Rightarrow> rchar \<Rightarrow> spacing \<Rightarrow> punct result" where
  "punct_new available c spacing =
     (if c \<notin> set legal_chars then Inl (Panic ''unsupported character'')
      else and_then (call_site available) (\<lambda>sp. Inr (punct_from_char c spacing sp)))"

definition punct_as_char :: "punct \<Rightarrow> rchar" where
  "punct_as_char p = unat (punct_ch p)"

definition punct_spacing :: "punct \<Rightarrow> spacing" where
  "punct_spacing p = (if punct_joint p then Joint else Alone)"

definition punct_set_span :: "span \<Rightarrow> punct \<Rightarrow> punct" where
  "punct_set_span sp p = p\<lparr>punct_span := sp\<rparr>"

definition punct_display :: "punct \<Rightarrow> rstr" where
  "punct_display p = [punct_as_char p]"

definition punct_eq_char :: "punct \<Rightarrow> rchar \<Rightarrow> bool" where
  "punct_eq_char p rhs \<longleftrightarrow> punct_as_char p = rhs"

definition char_eq_punct :: "rchar \<Rightarrow> punct \<Rightarrow> bool" where
  "char_eq_punct c rhs \<longleftrightarrow> c = punct_as_char rhs"

section \<open>Trees\<close>

definition literal_set_span :: "span \<Rightarrow> literal \<Rightarrow> literal" where
  "literal_set_span sp l = l\<lparr>lit_span := sp\<rparr>"

fun tree_span :: "'s token_tree \<Rightarrow> span" where
  "tree_span (TGroup v) = group_span v"
| "tree_span (TIdent v) = id_span v"
| "tree_span (TPunct v) = punct_span v"
| "tree_span (TLiteral v) = lit_span v"

fun tree_set_span :: "span \<Rightarrow> 's token_tree \<Rightarrow> 's token_tree" where
  "tree_set_span sp (TGroup v) = TGroup (group_set_span sp v)"
| "tree_set_span sp (TIdent v) = TIdent (ident_set_span sp v)"
| "tree_set_span sp (TPunct v) = TPunct (punct_set_span sp v)"
| "tree_set_span sp (TLiteral v) = TLiteral (literal_set_span sp v)"

section \<open>Properties\<close>

text \<open>Setting a span is read back; it changes nothing else.\<close>

lemma tree_span_set [simp]:
  "tree_span (tree_set_span sp t) = sp"
  "tree_set_span sp (tree_set_span sp' t) = tree_set_span sp t"
  by (cases t; simp add: group_span_def group_set_span_def ident_set_span_def punct_set_span_def
      literal_set_span_def delim_span_from_single_def)+

text \<open>What \<open>validate_ident\<close> accepts.\<close>

lemma utf8_digits: "list_all (\<lambda>b. 48 \<le> unat b \<and> unat b \<le> 57) (utf8_char c) \<Longrightarrow> ascii_digit c"
proof (cases "c < 0x80")
  case True
  assume "list_all (\<lambda>b. 48 \<le> unat b \<and> unat b \<le> 57) (utf8_char c)"
  with True show ?thesis by (simp add: utf8_char_def ascii_digit_def)
next
  case False
  assume "list_all (\<lambda>b. 48 \<le> unat b \<and> unat b \<le> 57) (utf8_char c)"
  moreover have "0x80 + c mod 64 < 256" "0x80 \<le> 0x80 + c mod 64"
    using mod_less_divisor [of 64 c] by linarith+
  then have "unat (as_u8 (0x80 + c mod 64)) > 57" by simp
  ultimately show ?thesis using False by (auto simp: utf8_char_def split: if_splits)
qed

lemma utf8_all_digits:
  "list_all (\<lambda>b. 48 \<le> unat b \<and> unat b \<le> 57) (utf8 s) \<longleftrightarrow> list_all ascii_digit s"
proof (induction s)
  case (Cons c s)
  moreover have "ascii_digit c \<Longrightarrow> list_all (\<lambda>b. 48 \<le> unat b \<and> unat b \<le> 57) (utf8_char c)"
    by (simp add: ascii_digit_def utf8_char_def)
  ultimately show ?case using utf8_digits [of c] by auto
qed simp

text \<open>
  \<open>Ident::new\<close> accepts exactly the identifiers: a first character that is alphabetic or an
  underscore, then alphanumeric characters or underscores. The separate test for numbers only
  chooses the message.
\<close>

theorem validate_ident_iff:
  "validate_ident u s = Inr () \<longleftrightarrow>
     (\<exists>c r. s = c # r \<and> (c = c_underscore \<or> is_alphabetic u c) \<and> list_all (ident_char u) r)"
proof (cases s)
  case (Cons c r)
  have "\<not> list_all ascii_digit (c # r)" if "c = c_underscore \<or> is_alphabetic u c"
    using that by (auto simp: ascii_digit_def is_alphabetic_def ascii_alphabetic_def)
  then show ?thesis using Cons by (auto simp: validate_ident_def utf8_all_digits Let_def dest: utf8_digits)
qed (simp add: validate_ident_def)

text \<open>
  \<open>Punct::new\<close> keeps the character and spacing it is given, and refuses every character
  whose cast to a byte would lose it.
\<close>

theorem punct_new_reads_back:
  "case punct_new available c spacing of
     Inr p \<Rightarrow> available \<and> c \<in> set legal_chars \<and> punct_as_char p = c \<and> punct_spacing p = spacing
       \<and> punct_display p = [c] \<and> punct_eq_char p c \<and> char_eq_punct c p
   | Inl (Panic msg) \<Rightarrow> msg = (if c \<in> set legal_chars
       then ''procedural macro API is used outside of a procedural macro'' else ''unsupported character'')"
proof -
  have "c < 128" if "c \<in> set legal_chars"
    using that by (auto simp: legal_chars_def str_def)
  then show ?thesis
    by (cases spacing) (auto simp: punct_new_def call_site_def require_available_def punct_from_char_def
        punct_as_char_def punct_spacing_def punct_display_def punct_eq_char_def char_eq_punct_def)
qed

end
