(* ===== verification/Literals.thy ===== *)
theory Literals
  imports Tokens
begin

text \<open>
  \<^verbatim>\<open>lib/proc_macro/src/token_tree.rs\<close>, \<open>impl Literal\<close>: building a literal from a value,
  writing it, and splitting a spelling into kind, body and suffix. Positions in a spelling count
  characters: every character the code stops at is ASCII, so they stand for the byte positions
  the code slices at.
\<close>

unbundle bit_operations_syntax

section \<open>Construction from values\<close>

definition literal_new :: "bool \<Rightarrow> lit_kind \<Rightarrow> rstr \<Rightarrow> rstr option \<Rightarrow> literal result" where
  "literal_new available kind val suffix = and_then (call_site available) (\<lambda>sp.
     Inr \<lparr>lit_kind = kind, lit_symbol = val, lit_suffix = suffix, lit_span = sp\<rparr>)"

text \<open>The integer types the two macros are instantiated at, with the suffix \<open>stringify!\<close> gives.\<close>

datatype int_type = U8 | U16 | U32 | U64 | U128 | Usize | I8 | I16 | I32 | I64 | I128 | Isize

fun int_suffix :: "int_type \<Rightarrow> rstr" where
  "int_suffix U8 = str ''u8''" | "int_suffix U16 = str ''u16''" | "int_suffix U32 = str ''u32''"
| "int_suffix U64 = str ''u64''" | "int_suffix U128 = str ''u128''" | "int_suffix Usize = str ''usize''"
| "int_suffix I8 = str ''i8''" | "int_suffix I16 = str ''i16''" | "int_suffix I32 = str ''i32''"
| "int_suffix I64 = str ''i64''" | "int_suffix I128 = str ''i128''" | "int_suffix Isize = str ''isize''"

definition int_suffixed :: "bool \<Rightarrow> int_type \<Rightarrow> int \<Rightarrow> literal result" where
  "int_suffixed available ty n = literal_new available LInteger (decimal_int n) (Some (int_suffix ty))"

definition int_unsuffixed :: "bool \<Rightarrow> int_type \<Rightarrow> int \<Rightarrow> literal result" where
  "int_unsuffixed available ty n = literal_new available LInteger (decimal_int n) None"

text \<open>Floats are their bit patterns; how the standard library prints a finite one is a parameter.\<close>

definition f32_is_finite :: "32 word \<Rightarrow> bool" where
  "f32_is_finite n \<longleftrightarrow> drop_bit 23 n AND 0xFF \<noteq> 0xFF"

definition f64_is_finite :: "64 word \<Rightarrow> bool" where
  "f64_is_finite n \<longleftrightarrow> drop_bit 52 n AND 0x7FF \<noteq> 0x7FF"

definition f32_unsuffixed :: "(32 word \<Rightarrow> rstr) \<Rightarrow> bool \<Rightarrow> 32 word \<Rightarrow> literal result" where
  "f32_unsuffixed show_f32 available n =
     (if \<not> f32_is_finite n then Inl (Panic ''Invalid float literal'')
      else let repr = show_f32 n;
               repr = (if c_dot \<notin> set repr then repr @ str ''.0'' else repr)
        in literal_new available LFloat repr None)"

definition f32_suffixed :: "(32 word \<Rightarrow> rstr) \<Rightarrow> bool \<Rightarrow> 32 word \<Rightarrow> literal result" where
  "f32_suffixed show_f32 available n =
     (if \<not> f32_is_finite n then Inl (Panic ''Invalid float literal'')
      else literal_new available LFloat (show_f32 n) (Some (str ''f32'')))"

definition f64_unsuffixed :: "(64 word \<Rightarrow> rstr) \<Rightarrow> bool \<Rightarrow> 64 word \<Rightarrow> literal result" where
  "f64_unsuffixed show_f64 available n =
     (if \<not> f64_is_finite n then Inl (Panic ''Invalid float literal'')
      else let repr = show_f64 n;
               repr = (if c_dot \<notin> set repr then repr @ str ''.0'' else repr)
        in literal_new available LFloat repr None)"

definition f64_suffixed :: "(64 word \<Rightarrow> rstr) \<Rightarrow> bool \<Rightarrow> 64 word \<Rightarrow> literal result" where
  "f64_suffixed show_f64 available n =
     (if \<not> f64_is_finite n then Inl (Panic ''Invalid float literal'')
      else literal_new available LFloat (show_f64 n) (Some (str ''f64'')))"

definition lit_string :: "unicode \<Rightarrow> bool \<Rightarrow> rstr \<Rightarrow> literal result" where
  "lit_string u available string =
     (let escape = \<lparr>escape_single_quote = False, escape_double_quote = True, escape_nonascii = False\<rparr>;
          repr = escape_bytes u (utf8 string) escape
      in literal_new available LStr repr None)"

definition lit_character :: "unicode \<Rightarrow> bool \<Rightarrow> rchar \<Rightarrow> literal result" where
  "lit_character u available ch =
     (let escape = \<lparr>escape_single_quote = True, escape_double_quote = False, escape_nonascii = False\<rparr>;
          repr = escape_bytes u (utf8_char ch) escape
      in literal_new available LChar repr None)"

definition lit_byte_character :: "unicode \<Rightarrow> bool \<Rightarrow> u8 \<Rightarrow> literal result" where
  "lit_byte_character u available byte =
     (let escape = \<lparr>escape_single_quote = True, escape_double_quote = False, escape_nonascii = True\<rparr>;
          repr = escape_bytes u [byte] escape
      in literal_new available LByte repr None)"

definition lit_byte_string :: "unicode \<Rightarrow> bool \<Rightarrow> u8 list \<Rightarrow> literal result" where
  "lit_byte_string u available bytes =
     (let escape = \<lparr>escape_single_quote = False, escape_double_quote = True, escape_nonascii = True\<rparr>;
          repr = escape_bytes u bytes escape
      in literal_new available LByteStr repr None)"

text \<open>A \<open>CStr\<close> is its bytes before the terminating zero.\<close>

definition lit_c_string :: "unicode \<Rightarrow> bool \<Rightarrow> u8 list \<Rightarrow> literal result" where
  "lit_c_string u available string =
     (let escape = \<lparr>escape_single_quote = False, escape_double_quote = True, escape_nonascii = False\<rparr>;
          repr = escape_bytes u string escape
      in literal_new available LCStr repr None)"

section \<open>Writing a literal\<close>

definition get_hashes_str :: "u8 \<Rightarrow> rstr" where
  "get_hashes_str num = take (unat num) (replicate 256 c_hash)"

definition stringify_parts :: "literal \<Rightarrow> rstr list" where
  "stringify_parts l =
     (let symbol = lit_symbol l; suffix = (case lit_suffix l of Some suffix \<Rightarrow> suffix | None \<Rightarrow> []) in
      case lit_kind l of
        LByte \<Rightarrow> [[c_b, c_squote], symbol, [c_squote], suffix]
      | LChar \<Rightarrow> [[c_squote], symbol, [c_squote], suffix]
      | LStr \<Rightarrow> [[c_dquote], symbol, [c_dquote], suffix]
      | LStrRaw n \<Rightarrow> (let hashes = get_hashes_str n in [[c_r], hashes, [c_dquote], symbol, [c_dquote], hashes, suffix])
      | LByteStr \<Rightarrow> [[c_b, c_dquote], symbol, [c_dquote], suffix]
      | LByteStrRaw n \<Rightarrow>
          (let hashes = get_hashes_str n in [[c_b, c_r], hashes, [c_dquote], symbol, [c_dquote], hashes, suffix])
      | LCStr \<Rightarrow> [[c_c, c_dquote], symbol, [c_dquote], suffix]
      | LCStrRaw n \<Rightarrow>
          (let hashes = get_hashes_str n in [[c_c, c_r], hashes, [c_dquote], symbol, [c_dquote], hashes, suffix])
      | LInteger \<Rightarrow> [symbol, suffix]
      | LFloat \<Rightarrow> [symbol, suffix]
      | LErrWithGuar \<Rightarrow> [symbol, suffix])"

definition literal_display :: "literal \<Rightarrow> rstr" where
  "literal_display l = concat (stringify_parts l)"

section \<open>Splitting a spelling\<close>

text \<open>\<open>str::rfind\<close> of a character and of a string, and \<open>[T]::get\<close>.\<close>

fun rfind_char :: "rchar \<Rightarrow> rstr \<Rightarrow> nat option" where
  "rfind_char q [] = None"
| "rfind_char q (c # s) =
     (case rfind_char q s of Some i \<Rightarrow> Some (Suc i) | None \<Rightarrow> if c = q then Some 0 else None)"

fun rfind_str :: "rstr \<Rightarrow> rstr \<Rightarrow> nat option" where
  "rfind_str p [] = (if p = [] then Some 0 else None)"
| "rfind_str p (c # s) =
     (case rfind_str p s of Some i \<Rightarrow> Some (Suc i)
      | None \<Rightarrow> if take (length p) (c # s) = p then Some 0 else None)"

definition get_at :: "'a list \<Rightarrow> nat \<Rightarrow> 'a option" where
  "get_at xs i = (if i < length xs then Some (xs ! i) else None)"

definition starts_with :: "rstr \<Rightarrow> rstr \<Rightarrow> bool" where
  "starts_with s p \<longleftrightarrow> take (length p) s = p"

definition quoted :: "rstr \<Rightarrow> nat \<Rightarrow> rchar \<Rightarrow> (nat \<times> nat) option" where
  "quoted src prefix quote =
     (if length src < prefix + 2 \<or> src ! prefix \<noteq> quote then None
      else case rfind_char quote src of None \<Rightarrow> None
        | Some close \<Rightarrow> if close \<le> prefix then None else Some (prefix + 1, close))"

definition raw_quoted :: "rstr \<Rightarrow> nat \<Rightarrow> (u8 \<times> nat \<times> nat) option" where
  "raw_quoted src prefix =
     (let rest = drop prefix src;
          hashes = length (takeWhile (\<lambda>b. b = c_hash) rest);
          open_at = prefix + hashes
      in if get_at src open_at \<noteq> Some c_dquote then None
         else let terminator = c_dquote # replicate hashes c_hash
           in case rfind_str terminator src of None \<Rightarrow> None
             | Some close \<Rightarrow> if close \<le> open_at then None else Some (as_u8 hashes, open_at + 1, close))"

definition make_literal :: "span \<Rightarrow> lit_kind \<Rightarrow> rstr \<Rightarrow> rstr \<Rightarrow> literal" where
  "make_literal sp kind body suffix = \<lparr>lit_kind = kind, lit_symbol = body,
     lit_suffix = (if suffix = [] then None else Some suffix), lit_span = sp\<rparr>"

text \<open>The loops \<open>while i < bytes.len() && p(bytes[i]) \<lbrace> i += 1 \<rbrace>\<close>.\<close>

function scan_while :: "(rchar \<Rightarrow> bool) \<Rightarrow> rstr \<Rightarrow> nat \<Rightarrow> nat" where
  "scan_while p bytes i = (if i < length bytes \<and> p (bytes ! i) then scan_while p bytes (i + 1) else i)"
  by pat_completeness auto
termination by (relation "measure (\<lambda>(p, bytes, i). length bytes - i)") auto

declare scan_while.simps [simp del]

definition suffix_chars :: "rstr \<Rightarrow> bool" where
  "suffix_chars suffix \<longleftrightarrow> list_all (\<lambda>b. b = c_underscore \<or> ascii_alphanumeric b) suffix"

text \<open>The fraction and the exponent after the integer part, which ends at \<open>i\<close>.\<close>

definition number_fraction :: "rstr \<Rightarrow> nat \<Rightarrow> bool \<times> nat" where
  "number_fraction bytes i =
     (if i < length bytes \<and> bytes ! i = c_dot \<and> (i + 1 = length bytes \<or> ascii_digit (bytes ! (i + 1)))
      then (True, scan_while (\<lambda>b. b = c_underscore \<or> ascii_digit b) bytes (i + 1)) else (False, i))"

definition number_exponent :: "rstr \<Rightarrow> bool \<times> nat \<Rightarrow> bool \<times> nat" where
  "number_exponent bytes = (\<lambda>(float, i).
     if i < length bytes \<and> (bytes ! i = c_e \<or> bytes ! i = c_E) then
       (let j = i + 1;
            digits = (if j < length bytes \<and> (bytes ! j = c_plus \<or> bytes ! j = c_minus) then j + 1 else j);
            j = scan_while (\<lambda>b. b = c_underscore \<or> ascii_digit b) bytes digits
        in if list_ex ascii_digit (take (j - digits) (drop digits bytes)) then (True, j) else (float, i))
     else (float, i))"

definition number_spelling :: "rstr \<Rightarrow> span \<Rightarrow> literal option" where
  "number_spelling src sp =
     (let first = hd src;
          radix = (if length src > 1 \<and> first = c_0 then src ! 1 else 0);
          is_radix = (radix = c_x \<or> radix = c_o \<or> radix = c_b);
          digit = (\<lambda>b. if radix = c_x then ascii_hexdigit b else ascii_digit b);
          i = scan_while (\<lambda>b. b = c_underscore \<or> digit b) src (if is_radix then 2 else 0);
          (float, i) = (if \<not> is_radix then number_exponent src (number_fraction src i) else (False, i));
          suffix = drop i src
      in if \<not> suffix_chars suffix then None
         else Some (make_literal sp (if float then LFloat else LInteger) (take i src) suffix))"

definition quoted_spelling :: "rstr \<Rightarrow> (lit_kind \<times> nat \<times> nat \<times> nat) option" where
  "quoted_spelling src =
     (let plain = (\<lambda>prefix quote kind. map_option (\<lambda>(s, e). (kind, s, e, e + 1)) (quoted src prefix quote));
          raw = (\<lambda>prefix kind. map_option (\<lambda>(n, s, e). (kind n, s, e, e + 1 + unat n)) (raw_quoted src prefix));
          first = hd src
      in if first = c_squote then plain 0 c_squote LChar
         else if first = c_dquote then plain 0 c_dquote LStr
         else if starts_with src [c_b, c_squote] then plain 1 c_squote LByte
         else if starts_with src [c_b, c_dquote] then plain 1 c_dquote LByteStr
         else if starts_with src [c_c, c_dquote] then plain 1 c_dquote LCStr
         else if starts_with src [c_b, c_r] then raw 2 LByteStrRaw
         else if starts_with src [c_c, c_r] then raw 2 LCStrRaw
         else if starts_with src [c_r] then raw 1 LStrRaw
         else None)"

definition from_spelling :: "rstr \<Rightarrow> span \<Rightarrow> literal option" where
  "from_spelling src sp =
     (if src = [] then None
      else if ascii_digit (hd src) then number_spelling src sp
      else case quoted_spelling src of None \<Rightarrow> None
        | Some (kind, start, end_at, after) \<Rightarrow>
            let suffix = drop after src
            in if \<not> suffix_chars suffix then None
               else Some (make_literal sp kind (take (end_at - start) (drop start src)) suffix))"

section \<open>Searching from the end\<close>

lemma rfind_char_Some:
  "rfind_char q s = Some i \<Longrightarrow> i < length s \<and> s ! i = q"
  by (induction s arbitrary: i) (auto split: option.splits if_splits)

lemma rfind_char_None: "rfind_char q s = None \<longleftrightarrow> q \<notin> set s"
  by (induction s) (auto split: option.splits)

lemma rfind_char_last [simp]: "q \<notin> set t \<Longrightarrow> rfind_char q (s @ q # t) = Some (length s)"
proof (induction s)
  case Nil
  then show ?case using rfind_char_None [of q t] by simp
qed simp

lemma rfind_str_Some:
  "rfind_str p s = Some i \<Longrightarrow> i \<le> length s \<and> take (length p) (drop i s) = p"
proof (induction s arbitrary: i)
  case Nil
  then show ?case by (auto split: if_splits)
next
  case (Cons c s)
  then show ?case by (fastforce split: option.splits if_splits)
qed

lemma rfind_str_absent: "p \<noteq> [] \<Longrightarrow> hd p \<notin> set s \<Longrightarrow> rfind_str p s = None"
proof (induction s)
  case (Cons c s)
  then show ?case by (cases p) auto
qed simp

lemma rfind_str_last [simp]:
  assumes "q \<notin> set p" "q \<notin> set t"
  shows "rfind_str (q # p) (s @ q # p @ t) = Some (length s)"
proof (induction s)
  case Nil
  have "rfind_str (q # p) (p @ t) = None" using assms by (intro rfind_str_absent) auto
  then show ?case by simp
qed simp

lemma scan_while_eq: "scan_while p bytes i = i + length (takeWhile p (drop i bytes))"
proof (induction p bytes i rule: scan_while.induct)
  case (1 p bytes i)
  show ?case
  proof (cases "i < length bytes \<and> p (bytes ! i)")
    case True
    then have "drop i bytes = bytes ! i # drop (i + 1) bytes" by (simp add: Cons_nth_drop_Suc)
    then show ?thesis using 1 True by (subst scan_while.simps) simp
  next
    case False
    then have "takeWhile p (drop i bytes) = []"
      by (cases "i < length bytes") (auto simp: Cons_nth_drop_Suc [symmetric])
    then show ?thesis using False by (subst scan_while.simps) auto
  qed
qed

section \<open>A spelling is written back\<close>

text \<open>A quoted spelling is its prefix, quote, body, quote and suffix.\<close>

lemma parts_append:
  assumes "s \<le> e" "e \<le> after"
  shows "take s src @ take (e - s) (drop s src) @ take (after - e) (drop e src) @ drop after src = src"
proof -
  have "take (e - s) (drop s src) @ drop e src = drop s src"
    using assms(1) append_take_drop_id [of "e - s" "drop s src"] by simp
  moreover have "take (after - e) (drop e src) @ drop after src = drop e src"
    using assms(2) append_take_drop_id [of "after - e" "drop e src"] by simp
  ultimately show ?thesis by (metis append_take_drop_id)
qed

lemma quoted_Some:
  assumes "quoted src prefix quote = Some (s, e)"
  shows "s = Suc prefix" "prefix < e" "take s src = take prefix src @ [quote]"
    "take (Suc e - e) (drop e src) = [quote]" "e < length src"
proof -
  have q: "rfind_char quote src = Some e" "src ! prefix = quote" "prefix + 2 \<le> length src"
    "s = Suc prefix" "prefix < e"
    using assms by (auto simp: quoted_def split: if_splits option.splits)
  from rfind_char_Some [OF q(1)] have e: "e < length src" "src ! e = quote" by simp_all
  show "s = Suc prefix" "prefix < e" "e < length src" using q e by simp_all
  show "take s src = take prefix src @ [quote]" using q by (simp add: take_Suc_conv_app_nth)
  show "take (Suc e - e) (drop e src) = [quote]"
    using e by (simp add: Cons_nth_drop_Suc [symmetric])
qed

lemma replicate_takeWhile: "takeWhile (\<lambda>b. b = c) xs = replicate (length (takeWhile (\<lambda>b. b = c) xs)) c"
  by (induction xs) auto

lemma raw_quoted_Some:
  assumes "raw_quoted src prefix = Some (n, s, e)"
  obtains h where "n = as_u8 h" "s = Suc (prefix + h)" "prefix + h < e"
    "take s src = take prefix src @ replicate h c_hash @ [c_dquote]"
    "take (Suc e + h - e) (drop e src) = c_dquote # replicate h c_hash" "e < length src"
proof -
  define h where "h = length (takeWhile (\<lambda>b. b = c_hash) (drop prefix src))"
  have r: "get_at src (prefix + h) = Some c_dquote" "rfind_str (c_dquote # replicate h c_hash) src = Some e"
    "n = as_u8 h" "s = Suc (prefix + h)" "prefix + h < e"
    using assms by (auto simp: raw_quoted_def h_def Let_def split: if_splits option.splits)
  from rfind_str_Some [OF r(2)] have e: "e \<le> length src" "take (Suc h) (drop e src) = c_dquote # replicate h c_hash"
    by simp_all
  have o: "prefix + h < length src" "src ! (prefix + h) = c_dquote"
    using r(1) by (auto simp: get_at_def split: if_splits)
  have "take h (drop prefix src) = takeWhile (\<lambda>b. b = c_hash) (drop prefix src)"
    unfolding h_def by (rule takeWhile_eq_take [symmetric])
  also have "\<dots> = replicate h c_hash" unfolding h_def by (rule replicate_takeWhile)
  finally have "take (prefix + h) src = take prefix src @ replicate h c_hash" by (simp add: take_add)
  then have "take s src = take prefix src @ replicate h c_hash @ [c_dquote]"
    using o r(4) by (simp add: take_Suc_conv_app_nth)
  moreover have "e < length src" using e by (cases "e = length src") auto
  ultimately show thesis using that r(3-5) e(2) by (simp add: Suc_diff_le)
qed

lemma get_hashes_str_eq: "get_hashes_str n = replicate (unat n) c_hash"
  using unsigned_less [of n, where ?'a = nat] by (simp add: get_hashes_str_def)

lemma quoted_whole:
  assumes "quoted src prefix quote = Some (s, e)"
  shows "take prefix src @ [quote] @ take (e - s) (drop s src) @ [quote] @ drop (Suc e) src = src"
  using quoted_Some [OF assms] parts_append [of s e "Suc e" src] by simp

lemma raw_quoted_whole:
  assumes "raw_quoted src prefix = Some (n, s, e)" "suffix_chars (drop (Suc (e + unat n)) src)"
  shows "take prefix src @ get_hashes_str n @ [c_dquote] @ take (e - s) (drop s src) @ [c_dquote]
    @ get_hashes_str n @ drop (Suc (e + unat n)) src = src"
proof -
  obtain h where h: "n = as_u8 h" "s = Suc (prefix + h)" "prefix + h < e"
    "take s src = take prefix src @ replicate h c_hash @ [c_dquote]"
    "take (Suc e + h - e) (drop e src) = c_dquote # replicate h c_hash" "e < length src"
    using raw_quoted_Some [OF assms(1)] .
  have close: "drop e src = (c_dquote # replicate h c_hash) @ drop (Suc e + h) src"
    using h(5) append_take_drop_id [of "Suc e + h - e" "drop e src"] by (simp add: add.commute)
  have "unat n = h"
  proof (rule ccontr)
    assume "unat n \<noteq> h"
    then have "unat n < h" using h(1) by (simp add: unat_as_u8 mod_less_eq_dividend nat_less_le)
    then have "drop (Suc (e + unat n)) src = c_hash # drop (Suc (unat n)) (replicate h c_hash) @ drop (Suc e + h) src"
      using arg_cong [OF close, of "drop (Suc (unat n))"]
      by (simp add: add.commute drop_replicate Suc_diff_Suc [symmetric])
    then show False using assms(2) by (simp add: suffix_chars_def ascii_alphanumeric_def ascii_alphabetic_def ascii_digit_def)
  qed
  then show ?thesis
    using h parts_append [of s e "Suc e + h" src] by (simp add: get_hashes_str_eq)
qed

lemma display_make:
  "literal_display (make_literal sp LChar body suffix) = [c_squote] @ body @ [c_squote] @ suffix"
  "literal_display (make_literal sp LStr body suffix) = [c_dquote] @ body @ [c_dquote] @ suffix"
  "literal_display (make_literal sp LByte body suffix) = [c_b, c_squote] @ body @ [c_squote] @ suffix"
  "literal_display (make_literal sp LByteStr body suffix) = [c_b, c_dquote] @ body @ [c_dquote] @ suffix"
  "literal_display (make_literal sp LCStr body suffix) = [c_c, c_dquote] @ body @ [c_dquote] @ suffix"
  "literal_display (make_literal sp (LStrRaw n) body suffix) =
     [c_r] @ get_hashes_str n @ [c_dquote] @ body @ [c_dquote] @ get_hashes_str n @ suffix"
  "literal_display (make_literal sp (LByteStrRaw n) body suffix) =
     [c_b, c_r] @ get_hashes_str n @ [c_dquote] @ body @ [c_dquote] @ get_hashes_str n @ suffix"
  "literal_display (make_literal sp (LCStrRaw n) body suffix) =
     [c_c, c_r] @ get_hashes_str n @ [c_dquote] @ body @ [c_dquote] @ get_hashes_str n @ suffix"
  "literal_display (make_literal sp LInteger body suffix) = body @ suffix"
  "literal_display (make_literal sp LFloat body suffix) = body @ suffix"
  by (simp_all add: literal_display_def stringify_parts_def make_literal_def Let_def)

lemma quoted_spelling_whole:
  assumes "quoted_spelling src = Some (kind, s, e, after)" "suffix_chars (drop after src)"
  shows "literal_display (make_literal sp kind (take (e - s) (drop s src)) (drop after src)) = src"
proof -
  show ?thesis
  proof (cases "hd src = c_squote \<or> hd src = c_dquote")
    case True
    then obtain q where q: "q = hd src" "q = c_squote \<or> q = c_dquote" by blast
    with assms(1) have k: "quoted src 0 q = Some (s, e)" "after = Suc e" "kind = (if q = c_squote then LChar else LStr)"
      by (auto simp: quoted_spelling_def Let_def split: if_splits)
    show ?thesis using quoted_whole [OF k(1)] k(2,3) q(2) by (auto simp: display_make)
  next
    case False
    show ?thesis
    proof (cases "\<exists>p q. starts_with src [p, q] \<and> (p, q) \<in> {(c_b, c_squote), (c_b, c_dquote), (c_c, c_dquote)}")
      case True
      then obtain p q where pq: "starts_with src [p, q]" "(p, q) \<in> {(c_b, c_squote), (c_b, c_dquote), (c_c, c_dquote)}" by blast
      then have tk: "take (Suc 0) src = [p]" by (cases src) (auto simp: starts_with_def)
      from pq False assms(1) have k: "quoted src 1 q = Some (s, e)" "after = Suc e"
        "kind = (if q = c_squote then LByte else if p = c_b then LByteStr else LCStr)"
        by (auto simp: quoted_spelling_def starts_with_def Let_def split: if_splits)
      show ?thesis using quoted_whole [OF k(1)] k(2,3) pq(2) tk by (auto simp: display_make)
    next
      case raw: False
      with assms(1) False obtain n prefix where k: "raw_quoted src prefix = Some (n, s, e)" "after = Suc (e + unat n)"
        "(take prefix src, kind) \<in> {([c_b, c_r], LByteStrRaw n), ([c_c, c_r], LCStrRaw n), ([c_r], LStrRaw n)}"
        by (auto simp: quoted_spelling_def starts_with_def Let_def numeral_2_eq_2 split: if_splits)
      show ?thesis using raw_quoted_whole [OF k(1)] k(2,3) assms(2) by (auto simp: display_make)
    qed
  qed
qed

section \<open>A literal's text is split as it was put together\<close>

definition suffix_ok :: "rstr option \<Rightarrow> bool" where
  "suffix_ok suffix \<longleftrightarrow> (case suffix of None \<Rightarrow> True | Some s \<Rightarrow> s \<noteq> [] \<and> suffix_chars s)"

definition suffix_text :: "rstr option \<Rightarrow> rstr" where
  "suffix_text suffix = (case suffix of Some s \<Rightarrow> s | None \<Rightarrow> [])"

lemma suffix_ok_chars: "suffix_ok s \<Longrightarrow> suffix_chars (suffix_text s)"
  by (cases s) (simp_all add: suffix_ok_def suffix_text_def suffix_chars_def)

lemma suffix_no_quote:
  assumes "suffix_chars s"
  shows "c_squote \<notin> set s" "c_dquote \<notin> set s" "c_hash \<notin> set s"
  using assms by (auto simp: suffix_chars_def list_all_iff ascii_alphanumeric_def ascii_alphabetic_def ascii_digit_def)

lemma quoted_make:
  assumes "q \<notin> set suffix" "length pre = n"
  shows "quoted (pre @ q # body @ q # suffix) n q = Some (Suc n, Suc (n + length body))"
  using rfind_char_last [of q suffix "pre @ q # body"] assms by (simp add: quoted_def nth_append)

lemma raw_quoted_make:
  assumes "c_dquote \<notin> set suffix" "length pre = n" "h < 256"
  shows "raw_quoted (pre @ replicate h c_hash @ c_dquote # body @ c_dquote # replicate h c_hash @ suffix) n =
    Some (as_u8 h, Suc (n + h), Suc (n + h + length body))"
proof -
  let ?t = "pre @ replicate h c_hash @ c_dquote # body @ c_dquote # replicate h c_hash @ suffix"
  have "rfind_str (c_dquote # replicate h c_hash) ?t = Some (length (pre @ replicate h c_hash @ c_dquote # body))"
    using rfind_str_last [of c_dquote "replicate h c_hash" suffix "pre @ replicate h c_hash @ c_dquote # body"] assms
    by simp
  moreover have "length (takeWhile (\<lambda>b. b = c_hash) (drop n ?t)) = h"
    using assms by (simp add: takeWhile_append)
  ultimately show ?thesis
    using assms by (simp add: raw_quoted_def Let_def get_at_def nth_append)
qed

lemmas spelling_defs = from_spelling_def quoted_spelling_def starts_with_def ascii_digit_def Let_def

lemma from_spelling_quoted:
  assumes "suffix_chars suffix" "(pre, q, kind) \<in> {([], c_squote, LChar), ([], c_dquote, LStr), ([c_b], c_squote, LByte),
    ([c_b], c_dquote, LByteStr), ([c_c], c_dquote, LCStr)}"
  shows "from_spelling (pre @ q # body @ q # suffix) sp = Some (make_literal sp kind body suffix)"
proof -
  have "quoted (pre @ q # body @ q # suffix) (length pre) q = Some (Suc (length pre), Suc (length pre + length body))"
    using assms suffix_no_quote [OF assms(1)] by (intro quoted_make) auto
  then show ?thesis using assms by (auto simp: spelling_defs)
qed

lemma from_spelling_raw:
  assumes "suffix_chars suffix" "(pre, kind) \<in> {([c_b, c_r], LByteStrRaw n), ([c_c, c_r], LCStrRaw n), ([c_r], LStrRaw n)}"
  shows "from_spelling (pre @ get_hashes_str n @ c_dquote # body @ c_dquote # get_hashes_str n @ suffix) sp =
    Some (make_literal sp kind body suffix)"
proof -
  have n: "unat n < 256" using unsigned_less [of n, where ?'a = nat] by simp
  have r: "raw_quoted (pre @ get_hashes_str n @ c_dquote # body @ c_dquote # get_hashes_str n @ suffix) (length pre) =
      Some (n, Suc (length pre + unat n), Suc (length pre + unat n + length body))"
    using raw_quoted_make [OF suffix_no_quote(2) [OF assms(1)] refl n] by (simp add: get_hashes_str_eq)
  show ?thesis using r assms by (auto simp: spelling_defs get_hashes_str_eq numeral_2_eq_2)
qed

text \<open>Numbers.\<close>

lemma takeWhile_stops: "list_all p xs \<Longrightarrow> (ys = [] \<or> \<not> p (hd ys)) \<Longrightarrow> takeWhile p (xs @ ys) = xs"
  by (induction xs) (cases ys, auto)

lemma number_spelling_decimal:
  assumes "list_all ascii_digit ds" "ds \<noteq> []" "suffix_chars suffix" "suffix = [] \<or> hd suffix \<in> {c_i, c_u}"
  shows "number_spelling (ds @ suffix) sp = Some (make_literal sp LInteger ds suffix)"
proof -
  let ?t = "ds @ suffix"
  have stop: "suffix = [] \<or> \<not> (hd suffix = c_underscore \<or> ascii_digit (hd suffix))"
    using assms(4) by (auto simp: ascii_digit_def)
  have digits: "list_all (\<lambda>b. b = c_underscore \<or> ascii_digit b) ds" using assms(1) by (auto simp: list_all_iff)
  have scan: "scan_while (\<lambda>b. b = c_underscore \<or> ascii_digit b) ?t 0 = length ds"
    using takeWhile_stops [OF digits stop] by (simp add: scan_while_eq)
  have at: "?t ! length ds = hd suffix" if "suffix \<noteq> []" using that by (simp add: hd_conv_nth nth_append)
  have second: "?t ! Suc 0 \<notin> {c_x, c_o, c_b}" if "Suc 0 < length ?t"
  proof (cases "Suc 0 < length ds")
    case True
    then have "ascii_digit (?t ! Suc 0)" using assms(1) by (simp add: nth_append list_all_length)
    then show ?thesis by (auto simp: ascii_digit_def)
  next
    case False
    then have "length ds = Suc 0" using assms(2) by (cases ds) auto
    then show ?thesis using at that assms(4) by auto
  qed
  define radix where "radix = (if length ?t > 1 \<and> hd ?t = c_0 then ?t ! 1 else 0)"
  have radix: "radix \<noteq> c_x" "radix \<noteq> c_o" "radix \<noteq> c_b" using second by (auto simp: radix_def)
  have "number_fraction ?t (length ds) = (False, length ds)"
    using at assms(4) by (cases "suffix = []") (auto simp: number_fraction_def)
  moreover have "number_exponent ?t (False, length ds) = (False, length ds)"
    using at assms(4) by (cases "suffix = []") (auto simp: number_exponent_def)
  ultimately show ?thesis
    using scan assms(3) radix unfolding number_spelling_def Let_def radix_def [symmetric] by simp
qed

lemma from_spelling_whole:
  assumes "from_spelling src sp = Some l"
  shows "literal_display l = src \<and> lit_span l = sp"
proof (cases "ascii_digit (hd src)")
  case True
  with assms have "number_spelling src sp = Some l" by (simp add: from_spelling_def split: if_splits)
  then obtain kind i where "l = make_literal sp kind (take i src) (drop i src)" "kind = LFloat \<or> kind = LInteger"
    unfolding number_spelling_def Let_def by (auto split: if_splits prod.splits)
  then show ?thesis by (auto simp: display_make) (simp_all add: make_literal_def)
next
  case False
  with assms obtain kind s e after where q: "quoted_spelling src = Some (kind, s, e, after)"
    "suffix_chars (drop after src)" "l = make_literal sp kind (take (e - s) (drop s src)) (drop after src)"
    by (auto simp: from_spelling_def Let_def split: if_splits option.splits)
  then show ?thesis using quoted_spelling_whole [OF q(1,2)] by (simp add: make_literal_def)
qed

lemma from_spelling_back:
  assumes "lit_kind l \<notin> {LInteger, LFloat, LErrWithGuar}" "suffix_ok (lit_suffix l)"
  shows "from_spelling (literal_display l) (lit_span l) = Some l"
proof -
  define suffix where "suffix = suffix_text (lit_suffix l)"
  have chars: "suffix_chars suffix" using suffix_ok_chars [OF assms(2)] by (simp add: suffix_def)
  have l: "l = make_literal (lit_span l) (lit_kind l) (lit_symbol l) suffix"
    using assms(2) by (cases "lit_suffix l") (simp_all add: make_literal_def suffix_def suffix_text_def suffix_ok_def)
  have "from_spelling (literal_display (make_literal sp k body suffix)) sp = Some (make_literal sp k body suffix)"
    if "k \<notin> {LInteger, LFloat, LErrWithGuar}" for sp k body
    using that
    by (cases k) (simp_all add: display_make
        from_spelling_quoted [OF chars, of "[]" c_squote LChar, simplified]
        from_spelling_quoted [OF chars, of "[]" c_dquote LStr, simplified]
        from_spelling_quoted [OF chars, of "[c_b]" c_squote LByte, simplified]
        from_spelling_quoted [OF chars, of "[c_b]" c_dquote LByteStr, simplified]
        from_spelling_quoted [OF chars, of "[c_c]" c_dquote LCStr, simplified]
        from_spelling_raw [OF chars, of "[c_r]" "LStrRaw n" n for n, simplified]
        from_spelling_raw [OF chars, of "[c_b, c_r]" "LByteStrRaw n" n for n, simplified]
        from_spelling_raw [OF chars, of "[c_c, c_r]" "LCStrRaw n" n for n, simplified])
  from this [OF assms(1)] l show ?thesis by metis
qed

lemma int_literals_back:
  assumes "int_suffixed True ty n = Inr l" "int_unsuffixed True ty n = Inr k"
  shows "from_spelling (literal_display l) 2 = (if n < 0 then None else Some l)
    \<and> from_spelling (literal_display k) 2 = (if n < 0 then None else Some k)"
proof -
  have l: "l = make_literal 2 LInteger (decimal_int n) (int_suffix ty)" and k: "k = make_literal 2 LInteger (decimal_int n) []"
    using assms by (cases ty; auto simp: int_suffixed_def int_unsuffixed_def literal_new_def call_site_def
      require_available_def make_literal_def str_def)+
  have suffix: "suffix_chars (int_suffix ty)" "hd (int_suffix ty) \<in> {c_i, c_u}"
    by (cases ty; simp add: suffix_chars_def str_def ascii_alphanumeric_def ascii_alphabetic_def ascii_digit_def)+
  show ?thesis
  proof (cases "n < 0")
    case True
    then show ?thesis by (simp add: l k display_make decimal_int_def spelling_defs)
  next
    case False
    then have d: "list_all ascii_digit (decimal_int n)" "decimal_int n \<noteq> []" by (simp_all add: decimal_int_def decimal_digits)
    then have "ascii_digit (hd (decimal_int n @ s))" for s by (cases "decimal_int n") auto
    then show ?thesis
      using False d number_spelling_decimal [OF d suffix(1)] number_spelling_decimal [OF d, of "[]"] suffix(2)
      by (simp add: l k display_make from_spelling_def suffix_chars_def)
  qed
qed

section \<open>Properties\<close>

text \<open>
  C24. Splitting a spelling loses nothing: the literal it gives is written back as exactly the
  text it was made from, whatever its kind, hashes, body and suffix, and has the given span.
\<close>

theorem from_spelling_display:
  assumes "from_spelling src sp = Some l"
  shows "literal_display l = src \<and> lit_span l = sp"
  using from_spelling_whole [OF assms] .

theorem from_spelling_display_witness:
  "\<exists>l. from_spelling (str ''0x1f_u8'') 3 = Some l \<and> literal_display l = str ''0x1f_u8''"
proof -
  have "from_spelling (str ''0x1f_u8'') 3 =
      Some \<lparr>lit_kind = LInteger, lit_symbol = str ''0x1f_'', lit_suffix = Some (str ''u8''), lit_span = 3\<rparr>"
    by code_simp
  from from_spelling_display [OF this] this show ?thesis by blast
qed

text \<open>
  Conversely the text of a quoted literal splits into the literal again, raw or not, whatever
  its body contains, when its suffix is a word.
\<close>

theorem quoted_spelling_round_trip:
  assumes "lit_kind l \<notin> {LInteger, LFloat, LErrWithGuar}" "suffix_ok (lit_suffix l)"
  shows "from_spelling (literal_display l) (lit_span l) = Some l"
  using from_spelling_back [OF assms] .

theorem quoted_spelling_round_trip_witness:
  "let l = \<lparr>lit_kind = LStrRaw 1, lit_symbol = [c_dquote, 97], lit_suffix = Some (str ''x''), lit_span = 3\<rparr>
   in from_spelling (literal_display l) 3 = Some l"
  using quoted_spelling_round_trip [of "\<lparr>lit_kind = LStrRaw 1, lit_symbol = [c_dquote, 97], lit_suffix = Some (str ''x''), lit_span = 3\<rparr>"]
  by (simp add: suffix_ok_def suffix_chars_def str_def ascii_alphanumeric_def ascii_alphabetic_def)

text \<open>
  The text of an integer literal the constructors make splits into the same literal, with the
  type as its suffix; a negative one is no single literal.
\<close>

theorem int_literals_round_trip:
  assumes "int_suffixed True ty n = Inr l" "int_unsuffixed True ty n = Inr k"
  shows "from_spelling (literal_display l) 2 = (if n < 0 then None else Some l)
    \<and> from_spelling (literal_display k) 2 = (if n < 0 then None else Some k)"
  using int_literals_back [OF assms] .

theorem int_literals_round_trip_witness:
  "\<exists>l. int_suffixed True U16 513 = Inr l \<and> from_spelling (literal_display l) 2 = Some l"
proof -
  obtain l k where lk: "int_suffixed True U16 513 = Inr l" "int_unsuffixed True U16 513 = Inr k"
    by (simp add: int_suffixed_def int_unsuffixed_def literal_new_def call_site_def require_available_def)
  from int_literals_round_trip [OF lk] lk show ?thesis by auto
qed

end
