(* ===== verification/Trees.thy ===== *)
theory Trees
  imports Literals
begin

text \<open>
  Streams as values, and the text of trees: the \<open>Display\<close> and \<open>Debug\<close> of
  \<^verbatim>\<open>lib/proc_macro/src/token_tree.rs\<close> and of \<open>TokenStream\<close> in \<^verbatim>\<open>lib.rs\<close>. A stream is the
  trees of its slot and the joins the compiler handed over with them; theory Streams shows the
  handles of the program to denote such values.
\<close>

section \<open>Streams\<close>

datatype stream = Stream (trees: "stream token_tree list") (hidden: "u8 list")

definition empty_stream :: stream where
  "empty_stream = Stream [] []"

definition from_trees :: "stream token_tree list \<Rightarrow> stream" where
  "from_trees ts = Stream ts []"

text \<open>A stream of no trees has no slot, so no joins either.\<close>

definition from_received :: "stream token_tree list \<Rightarrow> u8 list \<Rightarrow> stream" where
  "from_received ts hs = (if ts = [] then empty_stream else Stream ts hs)"

text \<open>The measure of the recursions over streams.\<close>

abbreviation trees_size :: "stream token_tree list \<Rightarrow> nat" where
  "trees_size ts \<equiv> size_list (size_token_tree size) ts"

lemma size_group_stream [simp]: "size_group size g = size (group_stream g) + 1"
  by (cases g) simp

lemma trees_smaller: "trees_size (trees s) < size s"
  by (cases s) simp

text \<open>\<open>trees\<close> of a handle, and \<open>is_empty\<close>.\<close>

definition stream_is_empty :: "stream \<Rightarrow> bool" where
  "stream_is_empty s \<longleftrightarrow> trees s = []"

section \<open>Display\<close>

text \<open>The delimiters \<open>TokenStream\<close> and \<open>Group\<close> write; a group's own ends in a space when it is invisible.\<close>

definition stream_delimiters :: "delimiter \<Rightarrow> rstr \<times> rstr" where
  "stream_delimiters d = (case d of
     Parenthesis \<Rightarrow> (str ''('', str '')'') | Brace \<Rightarrow> (str ''{'', str ''}'')
   | Bracket \<Rightarrow> (str ''['', str '']'') | NoDelimiter \<Rightarrow> ([], []))"

text \<open>The loop of \<open>TokenStream::fmt\<close>: \<open>first\<close> is \<open>i == 0\<close>, \<open>joint\<close> what the last tree left.\<close>

function stream_display :: "stream \<Rightarrow> rstr"
  and trees_display :: "bool \<Rightarrow> bool \<Rightarrow> stream token_tree list \<Rightarrow> rstr" where
  "stream_display (Stream ts hs) = trees_display True False ts"
| "trees_display first joint [] = []"
| "trees_display first joint (token # ts) =
     (if \<not> first \<and> \<not> joint then [c_space] else []) @
     (case token of
        TGroup g \<Rightarrow>
          (if stream_is_empty (group_stream g)
           then fst (stream_delimiters (delimiter g)) @ [c_space] @ snd (stream_delimiters (delimiter g))
           else fst (stream_delimiters (delimiter g)) @ [c_space] @ stream_display (group_stream g)
             @ [c_space] @ snd (stream_delimiters (delimiter g))) @ trees_display False False ts
      | TIdent i \<Rightarrow> ident_display i @ trees_display False False ts
      | TPunct p \<Rightarrow> [punct_as_char p] @ trees_display False (punct_spacing p = Joint) ts
      | TLiteral l \<Rightarrow> literal_display l @ trees_display False False ts)"
  by pat_completeness auto
termination by (relation "measure (case_sum size (\<lambda>(_, _, ts). trees_size ts))") auto

definition group_display :: "stream group \<Rightarrow> rstr" where
  "group_display g =
     (case delimiter g of Parenthesis \<Rightarrow> str ''('' | Brace \<Rightarrow> str ''{'' | Bracket \<Rightarrow> str ''['' | NoDelimiter \<Rightarrow> [])
     @ stream_display (group_stream g)
     @ (case delimiter g of Parenthesis \<Rightarrow> str '')'' | Brace \<Rightarrow> str ''}'' | Bracket \<Rightarrow> str '']''
        | NoDelimiter \<Rightarrow> str '' '')"

fun tree_display :: "stream token_tree \<Rightarrow> rstr" where
  "tree_display (TGroup v) = group_display v"
| "tree_display (TIdent v) = ident_display v"
| "tree_display (TPunct v) = punct_display v"
| "tree_display (TLiteral v) = literal_display v"

section \<open>Debug\<close>

text \<open>The standard library's \<open>Debug\<close> of strings, characters and options, and its builders.\<close>

definition str_debug :: "unicode \<Rightarrow> rstr \<Rightarrow> rstr" where
  "str_debug u s = [c_dquote] @ concat (map (\<lambda>c. if c = c_squote then [c] else escape_debug u c) s) @ [c_dquote]"

definition char_debug :: "unicode \<Rightarrow> rchar \<Rightarrow> rstr" where
  "char_debug u c = [c_squote] @ (if c = c_dquote then [c] else escape_debug u c) @ [c_squote]"

definition option_debug :: "('a \<Rightarrow> rstr) \<Rightarrow> 'a option \<Rightarrow> rstr" where
  "option_debug show_it x = (case x of None \<Rightarrow> str ''None'' | Some v \<Rightarrow> str ''Some('' @ show_it v @ str '')'')"

fun separated :: "rstr list \<Rightarrow> rstr" where
  "separated [] = []"
| "separated [x] = x"
| "separated (x # xs) = x @ str '', '' @ separated xs"

definition debug_struct :: "string \<Rightarrow> (string \<times> rstr) list \<Rightarrow> rstr" where
  "debug_struct name fs =
     str name @ str '' { '' @ separated (map (\<lambda>(k, v). str k @ str '': '' @ v) fs) @ str '' }''"

definition debug_list :: "rstr list \<Rightarrow> rstr" where
  "debug_list entries = str ''['' @ separated entries @ str '']''"

fun delimiter_debug :: "delimiter \<Rightarrow> rstr" where
  "delimiter_debug Parenthesis = str ''Parenthesis''"
| "delimiter_debug Brace = str ''Brace''"
| "delimiter_debug Bracket = str ''Bracket''"
| "delimiter_debug NoDelimiter = str ''None''"

fun spacing_debug :: "spacing \<Rightarrow> rstr" where
  "spacing_debug Alone = str ''Alone''"
| "spacing_debug Joint = str ''Joint''"

fun lit_kind_debug :: "lit_kind \<Rightarrow> rstr" where
  "lit_kind_debug LByte = str ''Byte''"
| "lit_kind_debug LChar = str ''Char''"
| "lit_kind_debug LInteger = str ''Integer''"
| "lit_kind_debug LFloat = str ''Float''"
| "lit_kind_debug LStr = str ''Str''"
| "lit_kind_debug (LStrRaw n) = str ''StrRaw('' @ decimal (unat n) @ str '')''"
| "lit_kind_debug LByteStr = str ''ByteStr''"
| "lit_kind_debug (LByteStrRaw n) = str ''ByteStrRaw('' @ decimal (unat n) @ str '')''"
| "lit_kind_debug LCStr = str ''CStr''"
| "lit_kind_debug (LCStrRaw n) = str ''CStrRaw('' @ decimal (unat n) @ str '')''"
| "lit_kind_debug LErrWithGuar = str ''ErrWithGuar''"

definition ident_debug :: "unicode \<Rightarrow> ident \<Rightarrow> rstr" where
  "ident_debug u i = debug_struct ''Ident'' [(''ident'', str_debug u (ident_display i))]"

definition punct_debug :: "unicode \<Rightarrow> punct \<Rightarrow> rstr" where
  "punct_debug u p = debug_struct ''Punct''
     [(''ch'', char_debug u (punct_as_char p)), (''spacing'', spacing_debug (punct_spacing p))]"

definition literal_debug :: "unicode \<Rightarrow> literal \<Rightarrow> rstr" where
  "literal_debug u l = debug_struct ''Literal''
     [(''kind'', lit_kind_debug (lit_kind l)), (''symbol'', str_debug u (lit_symbol l)),
      (''suffix'', option_debug (str_debug u) (lit_suffix l))]"

function stream_debug :: "unicode \<Rightarrow> stream \<Rightarrow> rstr"
  and trees_debug :: "unicode \<Rightarrow> stream token_tree list \<Rightarrow> rstr list" where
  "stream_debug u (Stream ts hs) = str ''TokenStream '' @ debug_list (trees_debug u ts)"
| "trees_debug u [] = []"
| "trees_debug u (token # ts) =
     (case token of
        TGroup g \<Rightarrow> debug_struct ''Group'' [(''delimiter'', delimiter_debug (delimiter g)),
          (''stream'', stream_debug u (group_stream g))] # trees_debug u ts
      | TIdent i \<Rightarrow> ident_debug u i # trees_debug u ts
      | TPunct p \<Rightarrow> punct_debug u p # trees_debug u ts
      | TLiteral l \<Rightarrow> literal_debug u l # trees_debug u ts)"
  by pat_completeness auto
termination by (relation "measure (case_sum (\<lambda>(_, s). size s) (\<lambda>(_, ts). trees_size ts))") auto

definition group_debug :: "unicode \<Rightarrow> stream group \<Rightarrow> rstr" where
  "group_debug u g = debug_struct ''Group'' [(''delimiter'', delimiter_debug (delimiter g)),
     (''stream'', stream_debug u (group_stream g))]"

fun tree_debug :: "unicode \<Rightarrow> stream token_tree \<Rightarrow> rstr" where
  "tree_debug u (TGroup v) = group_debug u v"
| "tree_debug u (TIdent v) = ident_debug u v"
| "tree_debug u (TPunct v) = punct_debug u v"
| "tree_debug u (TLiteral v) = literal_debug u v"

section \<open>Comparison\<close>

text \<open>\<open>tt_eq\<close>, with which the crate's tests compare trees: everything but spans and fragments.\<close>

function (sequential) tt_eq :: "stream token_tree \<Rightarrow> stream token_tree \<Rightarrow> bool"
  and tt_eq_zip :: "stream token_tree list \<Rightarrow> stream token_tree list \<Rightarrow> bool" where
  "tt_eq (TGroup a) (TGroup b) =
     (if delimiter a \<noteq> delimiter b then False
      else if length (trees (group_stream a)) \<noteq> length (trees (group_stream b)) then False
      else tt_eq_zip (trees (group_stream a)) (trees (group_stream b)))"
| "tt_eq (TIdent a) (TIdent b) = (id_raw a = id_raw b \<and> id_sym a = id_sym b)"
| "tt_eq (TPunct a) (TPunct b) = (punct_ch a = punct_ch b \<and> punct_joint a = punct_joint b)"
| "tt_eq (TLiteral a) (TLiteral b) =
     (lit_kind a = lit_kind b \<and> lit_symbol a = lit_symbol b \<and> lit_suffix a = lit_suffix b)"
| "tt_eq _ _ = False"
| "tt_eq_zip (a # as) (b # bs) = (if \<not> tt_eq a b then False else tt_eq_zip as bs)"
| "tt_eq_zip _ _ = True"
  by pat_completeness auto
termination
  using trees_smaller
  by (relation "measure (case_sum (\<lambda>(a, _). size_token_tree size a) (\<lambda>(as, _). trees_size as))")
    (auto simp: less_Suc_eq)

end
