(* ===== verification/Lexer.thy ===== *)
theory Lexer
  imports Trees
begin

text \<open>
  \<^verbatim>\<open>lib/proc_macro/src/lex.rs\<close>, \<open>TokenStream::from_str\<close>: the text of a stream, read into
  tokens. One definition per branch of the loop, in the order of the source; each takes the
  character stream where the branch starts and returns the tokens it pushes and the stream it
  leaves. A \<open>break\<close> of the main loop is taken only where \<open>consume\<close> has returned nothing,
  so it leaves a complete stream, at which the loop ends as well.
\<close>

section \<open>The character stream\<close>

record char_stream =
  cs_inner :: rstr
  cs_cur :: "rchar option"

definition char_stream_new :: "rstr \<Rightarrow> char_stream" where
  "char_stream_new i = \<lparr>cs_inner = i, cs_cur = Some c_space\<rparr>"

definition consume :: "char_stream \<Rightarrow> char_stream" where
  "consume it = (case cs_inner it of
     [] \<Rightarrow> it\<lparr>cs_cur := None\<rparr> | c # r \<Rightarrow> \<lparr>cs_inner = r, cs_cur = Some c\<rparr>)"

definition is_complete :: "char_stream \<Rightarrow> bool" where
  "is_complete it \<longleftrightarrow> cs_cur it = None"

definition next_char :: "char_stream \<Rightarrow> rchar option" where
  "next_char it = (case cs_inner it of [] \<Rightarrow> None | c # _ \<Rightarrow> Some c)"

section \<open>Errors\<close>

text \<open>
  A run fails with a \<open>LexError\<close>, with a panic, or by never returning. Messages are the code's,
  less the backquotes and the backslash around an escape's letter.
\<close>

datatype lex_fail = LexError string | LexPanic panic | LexDiverges

type_synonym 'a lexed = "lex_fail + 'a"

definition lex_error_display :: "string \<Rightarrow> rstr" where
  "lex_error_display inner = str inner"

definition lex_error_debug :: "string \<Rightarrow> rstr" where
  "lex_error_debug inner = str ''LexError('' @ str inner @ str '')''"

definition err :: "string \<Rightarrow> 'a lexed" where
  "err s = Inl (LexError s)"

definition panicking :: "'a result \<Rightarrow> 'a lexed" where
  "panicking r = (case r of Inl p \<Rightarrow> Inl (LexPanic p) | Inr x \<Rightarrow> Inr x)"

definition current :: "char_stream \<Rightarrow> rchar lexed" where
  "current it = panicking (expect_some ''CharStream::cur called with no current'' (cs_cur it))"

text \<open>\<open>some_else!(it.consume() => return err(msg))\<close>\<close>

definition consume_or :: "string \<Rightarrow> char_stream \<Rightarrow> (rchar \<times> char_stream) lexed" where
  "consume_or msg it = (let it = consume it in case cs_cur it of None \<Rightarrow> err msg | Some c \<Rightarrow> Inr (c, it))"

lemma consume_or_Inr:
  "consume_or msg it = Inr (c, it') \<longleftrightarrow> cs_inner it = c # cs_inner it' \<and> cs_cur it' = Some c"
  by (auto simp: consume_or_def consume_def err_def split: list.splits)

lemma consume_or_shorter [simp]:
  "consume_or msg it = Inr p \<Longrightarrow> length (cs_inner (snd p)) < length (cs_inner it)"
  by (cases p) (auto simp: consume_or_Inr)

text \<open>How much is left to read: it decreases whenever a current character is consumed.\<close>

definition left :: "char_stream \<Rightarrow> nat" where
  "left it = length (cs_inner it) + (case cs_cur it of None \<Rightarrow> 0 | Some _ \<Rightarrow> 1)"

lemma left_consume: "cs_cur it = Some c \<Longrightarrow> left (consume it) < left it"
  by (auto simp: left_def consume_def split: list.splits)

section \<open>Helpers\<close>

definition spelled :: "bool \<Rightarrow> rstr \<Rightarrow> literal lexed" where
  "spelled available t = and_then (panicking (call_site available)) (\<lambda>sp.
     case from_spelling t sp of None \<Rightarrow> err ''Malformed literal'' | Some l \<Rightarrow> Inr l)"

definition push_literal :: "bool \<Rightarrow> rstr \<times> char_stream \<Rightarrow> (stream token_tree list \<times> char_stream) lexed" where
  "push_literal available = (\<lambda>(spelling, it).
     and_then (spelled available spelling) (\<lambda>l. Inr ([TLiteral l], it)))"

definition mk_ident :: "bool \<Rightarrow> rstr \<Rightarrow> stream token_tree lexed" where
  "mk_ident available name =
     and_then (panicking (call_site available)) (\<lambda>sp. Inr (TIdent (ident_from_name name False sp)))"

definition mk_punct :: "bool \<Rightarrow> rchar \<Rightarrow> spacing \<Rightarrow> stream token_tree lexed" where
  "mk_punct available c sep =
     and_then (panicking (call_site available)) (\<lambda>sp. Inr (TPunct (punct_from_char c sep sp)))"

definition push_ident :: "bool \<Rightarrow> rstr \<times> char_stream \<Rightarrow> (stream token_tree list \<times> char_stream) lexed" where
  "push_ident available = (\<lambda>(name, it). and_then (mk_ident available name) (\<lambda>t. Inr ([t], it)))"

definition ident_more :: "unicode \<Rightarrow> rchar \<Rightarrow> bool" where
  "ident_more u c \<longleftrightarrow> c = c_underscore \<or> is_alphanumeric u c \<or> ascii_digit c"

function ident_loop :: "unicode \<Rightarrow> char_stream \<Rightarrow> rstr \<Rightarrow> rstr \<times> char_stream" where
  "ident_loop u it s = (case cs_cur it of
     None \<Rightarrow> (s, it)
   | Some c \<Rightarrow> if ident_more u c then ident_loop u (consume it) (s @ [c]) else (s, it))"
  by pat_completeness auto
termination by (relation "measure (\<lambda>(u, it, s). left it)") (auto simp: left_consume)

declare ident_loop.simps [simp del]

definition get_ident :: "unicode \<Rightarrow> char_stream \<Rightarrow> rstr \<Rightarrow> (rstr \<times> char_stream) lexed" where
  "get_ident u it s = and_then (current it) (\<lambda>_. Inr (ident_loop u it s))"

definition punctuation_chars :: "rchar list" where
  "punctuation_chars = str ''~!@#$%^&*-=+|;:,<.>/?'' @ [c_squote]"

definition starts_punctuation :: "char_stream \<Rightarrow> rchar \<Rightarrow> bool" where
  "starts_punctuation it c =
     (if c = c_slash \<and> (next_char it = Some c_slash \<or> next_char it = Some c_star) then False
      else c \<in> set punctuation_chars)"

section \<open>Lifetimes and character literals\<close>

text \<open>The loop of a \<open>\u\<close> escape: up to the closing brace.\<close>

function brace_loop :: "char_stream \<Rightarrow> rstr \<Rightarrow> (rstr \<times> char_stream) lexed" where
  "brace_loop it spelling = and_then (consume_or ''Unterminated u escape'' it) (\<lambda>(d, it).
     if d = c_rbrace then Inr (spelling @ [d], it) else brace_loop it (spelling @ [d]))"
  by pat_completeness auto
termination by (relation "measure (\<lambda>(it, s). length (cs_inner it))") (auto dest: consume_or_shorter)

declare brace_loop.simps [simp del]

text \<open>\<open>for _ in 0 .. n\<close>: hexadecimal digits of a \<open>\x\<close> escape.\<close>

fun hex_digits :: "string \<Rightarrow> string \<Rightarrow> nat \<Rightarrow> char_stream \<Rightarrow> rstr \<Rightarrow> (rstr \<times> char_stream) lexed" where
  "hex_digits eof bad 0 it spelling = Inr (spelling, it)"
| "hex_digits eof bad (Suc n) it spelling = and_then (consume_or eof it) (\<lambda>(d, it).
     if to_digit 16 d = None then err bad else hex_digits eof bad n it (spelling @ [d]))"

definition simple_escapes :: "rchar list" where
  "simple_escapes = [c_0, c_n, c_r, c_t, c_backslash, c_squote, c_dquote]"

definition char_escape :: "char_stream \<Rightarrow> rstr \<Rightarrow> (rstr \<times> char_stream) lexed" where
  "char_escape it spelling =
     and_then (consume_or ''Unterminated char literal'' it) (\<lambda>(escaped, it).
       let spelling = spelling @ [escaped] in
       if escaped \<in> set simple_escapes then Inr (spelling, it)
       else if escaped = c_u then brace_loop it spelling
       else if escaped = c_x then
         hex_digits ''Unterminated x escape'' ''Invalid hex digit in x escape'' 2 it spelling
       else err ''Unknown escape in char literal'')"

definition lex_char :: "char_stream \<Rightarrow> rchar \<Rightarrow> (rstr \<times> char_stream) lexed" where
  "lex_char it c =
     and_then (if c = c_backslash then char_escape it [c_squote, c] else Inr ([c_squote, c], it)) (\<lambda>(spelling, it).
     let it = consume it in
       case cs_cur it of
         Some c \<Rightarrow> if c = c_squote then Inr (spelling @ [c_squote], consume it)
                   else err ''Multiple characters in char literal''
       | None \<Rightarrow> err ''Unterminated char literal'')"

definition lex_lifetime ::
  "unicode \<Rightarrow> bool \<Rightarrow> char_stream \<Rightarrow> (stream token_tree list \<times> char_stream) lexed" where
  "lex_lifetime u available it =
     and_then (get_ident u it []) (\<lambda>(name, it).
     and_then (mk_punct available c_squote Joint) (\<lambda>p.
     and_then (mk_ident available name) (\<lambda>i. Inr ([p, i], it))))"

definition lex_quote ::
  "unicode \<Rightarrow> bool \<Rightarrow> char_stream \<Rightarrow> (stream token_tree list \<times> char_stream) lexed" where
  "lex_quote u available it =
     and_then (consume_or ''Unterminated char literal'' it) (\<lambda>(c, it).
       if (is_alphabetic u c \<or> c = c_underscore)
          \<and> (case next_char it of Some x \<Rightarrow> x \<noteq> c_squote | None \<Rightarrow> True)
       then lex_lifetime u available it
       else and_then (lex_char it c) (push_literal available))"

section \<open>Comments\<close>

text \<open>
  \<open>while it.consume() != Some('\n') \<lbrace> \<rbrace>\<close>: not returning is the value None. At the end of the
  text \<open>consume\<close> keeps returning nothing.
\<close>

partial_function (option) line_comment :: "char_stream \<Rightarrow> char_stream option" where
  "line_comment it = (let it = consume it in if cs_cur it = Some c_newline then Some it else line_comment it)"

text \<open>It returns exactly when a newline follows, and computes by this recursion.\<close>

fun skip_line :: "rstr \<Rightarrow> char_stream option" where
  "skip_line [] = None"
| "skip_line (c # r) = (if c = c_newline then Some \<lparr>cs_inner = r, cs_cur = Some c\<rparr> else skip_line r)"

lemma line_comment_Some:
  assumes "line_comment it = Some it'"
  shows "skip_line (cs_inner it) = Some it'"
proof (rule line_comment.raw_induct [OF _ assms])
  fix f :: "char_stream \<Rightarrow> char_stream option" and it it'
  assume "\<And>x y. f x = Some y \<Longrightarrow> skip_line (cs_inner x) = Some y"
    "(let it = consume it in if cs_cur it = Some c_newline then Some it else f it) = Some it'"
  then show "skip_line (cs_inner it) = Some it'"
    by (cases "cs_inner it") (fastforce simp: Let_def consume_def split: if_splits)+
qed

lemma skip_line_Some: "skip_line (cs_inner it) = Some it' \<Longrightarrow> line_comment it = Some it'"
proof (induction "cs_inner it" arbitrary: it)
  case (Cons c r)
  have it: "consume it = \<lparr>cs_inner = r, cs_cur = Some c\<rparr>" using Cons.hyps(2) [symmetric] by (simp add: consume_def)
  have "skip_line r = Some it' \<Longrightarrow> line_comment (consume it) = Some it'" using Cons.hyps(1) it by simp
  then show ?case
    using Cons.hyps(2) [symmetric] Cons.prems it by (subst line_comment.simps) (simp split: if_splits)
qed simp

lemma line_comment_skip [code]: "line_comment it = skip_line (cs_inner it)"
  using line_comment_Some skip_line_Some by (metis not_Some_eq)

lemma consume_shrinks: "length (cs_inner (consume it)) \<le> length (cs_inner it)"
  by (simp add: consume_def split: list.splits)

lemma consume_expect_shorter:
  "panicking (expect_some m (cs_cur (consume it))) = Inr c \<Longrightarrow>
    length (cs_inner (consume it)) < length (cs_inner it)
    \<and> length (cs_inner (consume (consume (consume it)))) < length (cs_inner it)"
  using consume_shrinks [of "consume (consume it)"] consume_shrinks [of "consume it"]
  by (auto simp: consume_def [of it] panicking_def expect_some_def split: list.splits option.splits)

text \<open>The body of the loop of a block comment: what one \<open>consume\<close> leads to.\<close>

function block_comment :: "u32 \<Rightarrow> char_stream \<Rightarrow> char_stream lexed" where
  "block_comment level it = and_then
     (panicking (expect_some ''Unexpected EOF in block comment'' (cs_cur (consume it)))) (\<lambda>c.
     let it = consume it in
     if c = c_star \<and> next_char it = Some c_slash then
       (let it = consume (consume it); level = level - 1
        in if level = 0 then Inr it else block_comment level it)
     else if c = c_slash \<and> next_char it = Some c_star then
       block_comment (level + 1) (consume (consume it))
     else block_comment level it)"
  by pat_completeness auto
termination
  by (relation "measure (\<lambda>(level, it). length (cs_inner it))") (auto simp: Let_def dest!: consume_expect_shorter)

declare block_comment.simps [simp del]

definition lex_line_comment :: "char_stream \<Rightarrow> (stream token_tree list \<times> char_stream) lexed" where
  "lex_line_comment it = (case line_comment it of None \<Rightarrow> Inl LexDiverges | Some it \<Rightarrow> Inr ([], it))"

definition lex_block_comment :: "char_stream \<Rightarrow> (stream token_tree list \<times> char_stream) lexed" where
  "lex_block_comment it = and_then (block_comment 1 (consume it)) (\<lambda>it. Inr ([], it))"

section \<open>Raw strings\<close>

text \<open>\<open>while c == '#'\<close> after the prefix; \<open>c\<close> is the current character.\<close>

function hash_loop :: "char_stream \<Rightarrow> nat \<Rightarrow> (nat \<times> char_stream) lexed" where
  "hash_loop it hashes =
     (if cs_cur it = Some c_hash
      then and_then (consume_or ''rawstr eof'' it) (\<lambda>(c, it). hash_loop it (hashes + 1))
      else Inr (hashes, it))"
  by pat_completeness auto
termination by (relation "measure (\<lambda>(it, n). length (cs_inner it))") (auto dest: consume_or_shorter)

declare hash_loop.simps [simp del]

text \<open>\<open>while hashes < req_hashes\<close> after a quote in the body, with the last character read.\<close>

fun count_hashes :: "nat \<Rightarrow> nat \<Rightarrow> rchar \<Rightarrow> char_stream \<Rightarrow> (nat \<times> rchar \<times> char_stream) lexed" where
  "count_hashes 0 hashes c it = Inr (hashes, c, it)"
| "count_hashes (Suc k) hashes c it = and_then (consume_or ''rawstr eof'' it) (\<lambda>(c, it).
     if c \<noteq> c_hash then Inr (hashes, c, it) else count_hashes k (hashes + 1) c it)"

lemma count_hashes_shorter:
  "count_hashes k hashes c it = Inr (n, d, it') \<Longrightarrow> length (cs_inner it') \<le> length (cs_inner it)"
proof (induction k hashes c it rule: count_hashes.induct)
  case (2 k hashes c it)
  then show ?case by (force dest: consume_or_shorter split: if_splits)
qed simp

function raw_loop :: "nat \<Rightarrow> char_stream \<Rightarrow> rstr \<Rightarrow> (rstr \<times> char_stream) lexed" where
  "raw_loop req it rawstr = and_then (consume_or ''Rawstr eof'' it) (\<lambda>(c, it).
     if c = c_dquote then
       and_then (count_hashes req 0 c it) (\<lambda>(hashes, c, it).
         if hashes \<noteq> req then raw_loop req it (rawstr @ [c_dquote] @ replicate hashes c_hash @ [c])
         else Inr (rawstr, it))
     else raw_loop req it (rawstr @ [c]))"
  by pat_completeness auto
termination
  by (relation "measure (\<lambda>(req, it, s). length (cs_inner it))")
    (auto dest!: consume_or_shorter count_hashes_shorter)

declare raw_loop.simps [simp del]

text \<open>The hashes pushed when no string follows: all but the last are joint.\<close>

fun push_hashes :: "bool \<Rightarrow> nat \<Rightarrow> stream token_tree list lexed" where
  "push_hashes available 0 = Inr []"
| "push_hashes available (Suc n) =
     and_then (mk_punct available c_hash (if n = 0 then Alone else Joint)) (\<lambda>t.
     and_then (push_hashes available n) (\<lambda>ts. Inr (t # ts)))"

text \<open>\<open>Ident::new\<close>, with its validation.\<close>

definition mk_new_ident :: "unicode \<Rightarrow> bool \<Rightarrow> rstr \<Rightarrow> stream token_tree lexed" where
  "mk_new_ident u available name =
     and_then (panicking (call_site available)) (\<lambda>sp.
     and_then (panicking (ident_new u name sp)) (\<lambda>i. Inr (TIdent i)))"

definition lex_not_raw ::
  "unicode \<Rightarrow> bool \<Rightarrow> rstr \<Rightarrow> nat \<Rightarrow> char_stream \<Rightarrow> (stream token_tree list \<times> char_stream) lexed" where
  "lex_not_raw u available ident_str hashes it =
     and_then (if hashes = 0
       then and_then (get_ident u it ident_str) (push_ident available)
       else and_then (mk_new_ident u available ident_str) (\<lambda>t. Inr ([t], it))) (\<lambda>(ts, it).
     and_then (push_hashes available hashes) (\<lambda>hs. Inr (ts @ hs, it)))"

definition lex_raw ::
  "unicode \<Rightarrow> bool \<Rightarrow> rstr \<Rightarrow> char_stream \<Rightarrow> (stream token_tree list \<times> char_stream) lexed" where
  "lex_raw u available ident_str it =
     (let it = consume it in
      if cs_cur it = None then and_then (mk_new_ident u available ident_str) (\<lambda>t. Inr ([t], it))
      else and_then (hash_loop it 0) (\<lambda>(hashes, it).
        if cs_cur it \<noteq> Some c_dquote then lex_not_raw u available ident_str hashes it
        else and_then (raw_loop hashes it []) (\<lambda>(rawstr, it).
          let it = consume it;
              spelling = ident_str @ replicate hashes c_hash @ [c_dquote] @ rawstr @ [c_dquote] @ replicate hashes c_hash
          in push_literal available (spelling, it))))"

section \<open>Byte characters and strings\<close>

definition byte_escape :: "char_stream \<Rightarrow> rstr \<Rightarrow> (rstr \<times> char_stream) lexed" where
  "byte_escape it spelling =
     and_then (consume_or ''Unterminated byte character literal'' it) (\<lambda>(c, it).
       let spelling = spelling @ [c] in
       if c \<in> set simple_escapes then Inr (spelling, it)
       else if c = c_x then
         hex_digits ''Unterminated byte character literal'' ''Invalid hex digit in byte character literal'' 2 it spelling
       else err ''Invalid escape in byte character literal'')"

definition lex_byte_char ::
  "bool \<Rightarrow> bool \<Rightarrow> char_stream \<Rightarrow> (stream token_tree list \<times> char_stream) lexed" where
  "lex_byte_char available is_byte it =
     (if \<not> is_byte then and_then (mk_ident available [c_c]) (\<lambda>t. Inr ([t], it))
      else and_then (consume_or ''Unterminated byte character literal'' it) (\<lambda>(c, it).
        and_then (if c = c_backslash then byte_escape it [c_b, c_squote, c]
          else if c \<le> 0x7F \<and> c \<noteq> c_newline \<and> c \<noteq> c_return then Inr ([c_b, c_squote, c], it)
          else err ''Invalid byte character literal'') (\<lambda>(spelling, it).
        let it = consume it in
          case cs_cur it of
            Some c \<Rightarrow> if c = c_squote then push_literal available (spelling @ [c_squote], consume it)
                      else err ''Multiple characters in byte character literal''
          | None \<Rightarrow> err ''Unterminated byte character literal'')))"

text \<open>A backslash at the end of a line takes the white space after it.\<close>

function space_loop :: "unicode \<Rightarrow> char_stream \<Rightarrow> rstr \<Rightarrow> (rstr \<times> char_stream) lexed" where
  "space_loop u it spelling =
     (if (case next_char it of Some c \<Rightarrow> is_whitespace u c | None \<Rightarrow> False)
      then and_then (consume_or ''str eof'' it) (\<lambda>(c, it). space_loop u it (spelling @ [c]))
      else Inr (spelling, it))"
  by pat_completeness auto
termination by (relation "measure (\<lambda>(u, it, s). length (cs_inner it))") (auto dest: consume_or_shorter)

declare space_loop.simps [simp del]

definition string_escape :: "unicode \<Rightarrow> char_stream \<Rightarrow> rstr \<Rightarrow> (rstr \<times> char_stream) lexed" where
  "string_escape u it spelling =
     and_then (consume_or ''str eof'' it) (\<lambda>(escaped, it).
       let spelling = spelling @ [escaped] in
       if escaped \<in> set simple_escapes then Inr (spelling, it)
       else if escaped = c_x then hex_digits ''str eof'' ''Invalid hex digit in x escape'' 2 it spelling
       else if escaped = c_u then brace_loop it spelling
       else if escaped = c_newline \<or> escaped = c_return then space_loop u it spelling
       else err ''Unknown escape in string'')"

text \<open>What a piece of the lexer reads: the characters it takes leave the last one current.\<close>

definition reads :: "char_stream \<Rightarrow> rstr \<Rightarrow> char_stream \<Rightarrow> bool" where
  "reads it s it' \<longleftrightarrow> cs_inner it = s @ cs_inner it' \<and> cs_cur it' = (if s = [] then cs_cur it else Some (last s))"

text \<open>A piece that copies what it reads to the end of the spelling.\<close>

definition copies :: "char_stream \<Rightarrow> rstr \<Rightarrow> rstr \<times> char_stream \<Rightarrow> bool" where
  "copies it spelling r \<longleftrightarrow> (\<exists>s. fst r = spelling @ s \<and> reads it s (snd r))"

lemma reads_refl [simp]: "reads it [] it"
  by (simp add: reads_def)

lemma reads_trans: "reads it s it1 \<Longrightarrow> reads it1 t it2 \<Longrightarrow> reads it (s @ t) it2"
  by (auto simp: reads_def)

lemma reads_consume_or: "consume_or msg it = Inr (c, it') \<Longrightarrow> reads it [c] it'"
  by (simp add: reads_def consume_or_Inr)

lemma copies_refl [simp]: "copies it s (s, it)"
  by (simp add: copies_def)

lemma copies_step: "consume_or msg it = Inr (c, it1) \<Longrightarrow> copies it1 (s @ [c]) r \<Longrightarrow> copies it s r"
  using reads_trans [OF reads_consume_or] by (fastforce simp: copies_def)

lemma copies_shorter: "copies it s (s', it') \<Longrightarrow> length (cs_inner it') \<le> length (cs_inner it)"
  by (auto simp: copies_def reads_def)

lemma copies_trans: "copies it s (s1, it1) \<Longrightarrow> copies it1 s1 r \<Longrightarrow> copies it s r"
  using reads_trans by (fastforce simp: copies_def)

lemma err_not_Inr [simp]: "err m \<noteq> Inr x"
  by (simp add: err_def)

lemma copies_brace_loop: "brace_loop it s = Inr r \<Longrightarrow> copies it s r"
proof (induction it s rule: brace_loop.induct)
  case (1 it s)
  then show ?case
    by (subst (asm) (2) brace_loop.simps) (force intro: copies_step split: if_splits)
qed

lemma copies_hex_digits: "hex_digits eof bad n it s = Inr r \<Longrightarrow> copies it s r"
  by (induction eof bad n it s rule: hex_digits.induct) (force intro: copies_step split: if_splits)+

lemma copies_space_loop: "space_loop u it s = Inr r \<Longrightarrow> copies it s r"
proof (induction u it s rule: space_loop.induct)
  case (1 u it s)
  then show ?case
    by (subst (asm) (2) space_loop.simps) (force intro: copies_step split: if_splits)
qed

lemma copies_char_escape: "char_escape it s = Inr r \<Longrightarrow> copies it s r"
  by (auto simp: char_escape_def Let_def intro: copies_step dest: copies_brace_loop copies_hex_digits split: if_splits)

lemma copies_byte_escape: "byte_escape it s = Inr r \<Longrightarrow> copies it s r"
  by (auto simp: byte_escape_def Let_def intro: copies_step dest: copies_hex_digits split: if_splits)

lemma copies_string_escape: "string_escape u it s = Inr r \<Longrightarrow> copies it s r"
  by (auto simp: string_escape_def Let_def intro: copies_step split: if_splits
      dest: copies_brace_loop copies_hex_digits copies_space_loop)

function string_loop :: "unicode \<Rightarrow> char_stream \<Rightarrow> rstr \<Rightarrow> (rstr \<times> char_stream) lexed" where
  "string_loop u it spelling = and_then (consume_or ''str eof'' it) (\<lambda>(c, it).
     let spelling = spelling @ [c] in
     if c = c_dquote then Inr (spelling, consume it)
     else if c = c_backslash then
       and_then (string_escape u it spelling) (\<lambda>(spelling, it). string_loop u it spelling)
     else string_loop u it spelling)"
  by pat_completeness auto
termination
  by (relation "measure (\<lambda>(u, it, s). length (cs_inner it))")
    (auto simp: Let_def dest!: consume_or_shorter copies_string_escape copies_shorter)

declare string_loop.simps [simp del]

text \<open>
  A \<open>b\<close>, \<open>c\<close>, \<open>r\<close> or double quote: a literal with a prefix, or an identifier that starts with it.
\<close>

definition lex_after_prefix :: "unicode \<Rightarrow> bool \<Rightarrow> rchar option \<Rightarrow> rchar \<Rightarrow> char_stream
    \<Rightarrow> (stream token_tree list \<times> char_stream) lexed" where
  "lex_after_prefix u available prefix c it =
     (let is_byte = (prefix = Some c_b);
          prefix_text = (case prefix of Some p \<Rightarrow> [p] | None \<Rightarrow> []) in
      if c = c_r then
        (let ident_str = (if prefix = Some c_b then [c_b, c_r] else if prefix = Some c_c then [c_c, c_r] else [c_r])
         in lex_raw u available ident_str it)
      else if c = c_squote then lex_byte_char available is_byte it
      else if c = c_dquote then
        and_then (string_loop u it (if prefix = Some c_b then [c_b, c_dquote] else if prefix = Some c_c then [c_c, c_dquote]
          else [c_dquote])) (push_literal available)
      else and_then (get_ident u it prefix_text) (push_ident available))"

definition lex_prefixed ::
  "unicode \<Rightarrow> bool \<Rightarrow> char_stream \<Rightarrow> rchar \<Rightarrow> (stream token_tree list \<times> char_stream) lexed" where
  "lex_prefixed u available it c =
     (if c = c_b \<or> c = c_c then
        (let prefix = c; it = consume it in
         case cs_cur it of
           None \<Rightarrow> and_then (mk_ident available [prefix]) (\<lambda>t. Inr ([t], it))
         | Some c \<Rightarrow> lex_after_prefix u available (Some prefix) c it)
      else lex_after_prefix u available None c it)"

section \<open>Numbers\<close>

function digit_run :: "char_stream \<Rightarrow> rstr \<Rightarrow> rstr \<times> char_stream" where
  "digit_run it spelling = (case cs_cur it of
     None \<Rightarrow> (spelling, it)
   | Some ch \<Rightarrow> if ch = c_underscore \<or> ascii_digit ch then digit_run (consume it) (spelling @ [ch]) else (spelling, it))"
  by pat_completeness auto
termination by (relation "measure (\<lambda>(it, s). left it)") (auto simp: left_consume)

declare digit_run.simps [simp del]

function exponent_run :: "char_stream \<Rightarrow> rstr \<Rightarrow> bool \<Rightarrow> rstr \<times> char_stream \<times> bool" where
  "exponent_run it spelling has_digit = (case cs_cur it of
     None \<Rightarrow> (spelling, it, has_digit)
   | Some ch \<Rightarrow>
       if ch = c_underscore then exponent_run (consume it) (spelling @ [ch]) has_digit
       else if ascii_digit ch then exponent_run (consume it) (spelling @ [ch]) True
       else (spelling, it, has_digit))"
  by pat_completeness auto
termination by (relation "measure (\<lambda>(it, s, b). left it)") (auto simp: left_consume)

declare exponent_run.simps [simp del]

definition float_exponent :: "char_stream \<Rightarrow> rstr \<Rightarrow> (rstr \<times> char_stream) lexed" where
  "float_exponent it spelling = (case cs_cur it of
     None \<Rightarrow> Inr (spelling, it)
   | Some e \<Rightarrow>
       if e = c_e \<or> e = c_E then
         (let spelling = spelling @ [e]; it = consume it;
              (spelling, it) = (case cs_cur it of
                  Some s \<Rightarrow> if s = c_plus \<or> s = c_minus then (spelling @ [s], consume it) else (spelling, it)
                | None \<Rightarrow> (spelling, it));
              (spelling, it, has_digit) = exponent_run it spelling False
          in if \<not> has_digit then err ''Missing digits in float exponent'' else Inr (spelling, it))
       else Inr (spelling, it))"

definition float_suffix :: "unicode \<Rightarrow> char_stream \<Rightarrow> rstr \<Rightarrow> (rstr \<times> char_stream) lexed" where
  "float_suffix u it spelling = (case cs_cur it of
     None \<Rightarrow> Inr (spelling, it)
   | Some ch \<Rightarrow>
       if ch = c_f then and_then (get_ident u it []) (\<lambda>(suffix, it).
         if suffix = str ''f32'' \<or> suffix = str ''f64'' then Inr (spelling @ suffix, it)
         else err ''Unexpected float suffix'')
       else if ch = c_underscore \<or> is_alphabetic u ch then err ''Unexpected float suffix''
       else Inr (spelling, it))"

definition float_part :: "unicode \<Rightarrow> char_stream \<Rightarrow> rstr \<Rightarrow> (rstr \<times> char_stream) lexed" where
  "float_part u it spelling =
     (let (spelling, it) = (if cs_cur it = Some c_dot then digit_run (consume it) (spelling @ [c_dot]) else (spelling, it))
      in and_then (float_exponent it spelling) (\<lambda>(spelling, it). float_suffix u it spelling))"

definition int_suffixes :: "rstr list" where
  "int_suffixes = [str ''u8'', str ''i8'', str ''u16'', str ''i16'', str ''u32'', str ''i32'',
     str ''u64'', str ''i64'', str ''u128'', str ''i128'', str ''usize'', str ''isize'']"

function int_loop :: "unicode \<Rightarrow> nat \<Rightarrow> char_stream \<Rightarrow> rstr \<Rightarrow> (rstr \<times> char_stream) lexed" where
  "int_loop u base it spelling = (case cs_cur it of
     None \<Rightarrow> Inr (spelling, it)
   | Some c \<Rightarrow>
       if c = c_underscore then int_loop u base (consume it) (spelling @ [c])
       else if c = c_u \<or> c = c_i then and_then (get_ident u it []) (\<lambda>(s, it).
         if s \<in> set int_suffixes then Inr (spelling @ s, it) else err ''Unexpected integer suffix'')
       else if to_digit base c \<noteq> None then int_loop u base (consume it) (spelling @ [c])
       else if base = 10 \<and> (c = c_dot \<or> c = c_e \<or> c = c_E \<or> c = c_f) then
         (if c = c_dot \<and> (case next_char it of
              Some n \<Rightarrow> n = c_dot \<or> n = c_underscore \<or> is_alphabetic u n | None \<Rightarrow> False)
          then Inr (spelling, it) else float_part u it spelling)
       else Inr (spelling, it))"
  by pat_completeness auto
termination by (relation "measure (\<lambda>(u, b, it, s). left it)") (auto simp: left_consume)

declare int_loop.simps [simp del]

definition lex_number ::
  "unicode \<Rightarrow> bool \<Rightarrow> char_stream \<Rightarrow> rchar \<Rightarrow> (stream token_tree list \<times> char_stream) lexed" where
  "lex_number u available it c =
     (let leading_zero = (c = c_0) in
      if leading_zero then
        (let it = consume it in
         case cs_cur it of
           None \<Rightarrow> push_literal available ([c_0], it)
         | Some x \<Rightarrow>
             (let (spelling, it, base) =
                (if x = c_x then ([c_0, c_x], consume it, 16)
                 else if x = c_o then ([c_0, c_o], consume it, 8)
                 else if x = c_b then ([c_0, c_b], consume it, 2)
                 else ([c_0], it, 10))
              in and_then (current it) (\<lambda>_. and_then (int_loop u base it spelling) (push_literal available))))
      else and_then (current it) (\<lambda>_. and_then (int_loop u 10 it []) (push_literal available)))"

section \<open>Punctuation\<close>

definition syms :: "u8 list list" where
  "syms = map (\<lambda>s. map as_u8 (str s))
    [''!'', ''!='', ''#'', ''$'', ''%'', ''%='', ''&'', ''&&'', ''&='', ''('', '')'', ''*'', ''*='',
     ''+'', ''+='', '','', ''-'', ''-='', ''->'', ''.'', ''..'', ''...'', ''/'', ''/='', '':'', ''::'', '';'',
     ''<'', ''<-'', ''<<'', ''<<='', ''<='', ''='', ''=='', ''=>'', ''>'', ''>='', ''>>'', ''>>='',
     ''?'', ''@'', ''['', '']'', ''^'', ''^='', ''{'', ''|'', ''|='', ''||'', ''}'', ''~'']"

text \<open>The table's bytes, evaluated once.\<close>

lemma syms_eval [code]:
  "syms = [[33], [33, 61], [35], [36], [37], [37, 61], [38], [38, 38], [38, 61], [40], [41], [42], [42, 61],
    [43], [43, 61], [44], [45], [45, 61], [45, 62], [46], [46, 46], [46, 46, 46], [47], [47, 61], [58], [58, 58], [59],
    [60], [60, 45], [60, 60], [60, 60, 61], [60, 61], [61], [61, 61], [61, 62], [62], [62, 61], [62, 62], [62, 62, 61],
    [63], [64], [91], [93], [94], [94, 61], [123], [124], [124, 61], [124, 124], [125], [126]]"
  by code_simp

text \<open>\<open>iter().position(|v| v[ofs] == b)\<close>; a table entry too short is an index out of bounds.\<close>

fun position_at :: "nat \<Rightarrow> u8 \<Rightarrow> u8 list list \<Rightarrow> nat option lexed" where
  "position_at ofs b [] = Inr None"
| "position_at ofs b (v # vs) =
     (if length v \<le> ofs then Inl (LexPanic (Panic ''index out of bounds''))
      else if v ! ofs = b then Inr (Some 0)
      else and_then (position_at ofs b vs) (\<lambda>i. Inr (map_option Suc i)))"

text \<open>\<open>while end < len && table[end][ofs] == b \<lbrace> end += 1 \<rbrace>\<close>\<close>

function grow_end :: "u8 list list \<Rightarrow> nat \<Rightarrow> u8 \<Rightarrow> nat \<Rightarrow> nat lexed" where
  "grow_end table ofs b end_at =
     (if end_at < length table then
        (if length (table ! end_at) \<le> ofs then Inl (LexPanic (Panic ''index out of bounds''))
         else if table ! end_at ! ofs = b then grow_end table ofs b (end_at + 1) else Inr end_at)
      else Inr end_at)"
  by pat_completeness auto
termination by (relation "measure (\<lambda>(table, ofs, b, e). length table - e)") auto

declare grow_end.simps [simp del]

text \<open>The loop that lengthens the symbol; \<open>c\<close> is the last character read.\<close>

function sym_loop :: "nat \<Rightarrow> nat \<Rightarrow> nat \<Rightarrow> char_stream \<Rightarrow> rchar \<Rightarrow> (nat \<times> nat \<times> char_stream \<times> rchar) lexed" where
  "sym_loop start end_at ofs it c =
     (let table = take (end_at - start) (drop start syms) in
      if ofs \<noteq> length (table ! 0) then Inl (LexPanic (Panic ''assertion failed: ofs == syms[0].len()''))
      else let it = consume it in
        case cs_cur it of
          None \<Rightarrow> Inr (start, ofs, it, c)
        | Some c \<Rightarrow>
            and_then (position_at ofs (as_u8 c) (drop 1 table)) (\<lambda>pos. case pos of
              None \<Rightarrow> Inr (start, ofs, it, c)
            | Some s \<Rightarrow>
                (let start = start + (s + 1) in
                 and_then (grow_end table ofs (as_u8 c) (start + 1)) (\<lambda>end_at.
                   sym_loop start end_at (ofs + 1) it c))))"
  by pat_completeness auto
termination
  by (relation "measure (\<lambda>(s, e, ofs, it, c). length (cs_inner it))")
    (auto simp: consume_def split: list.splits)

declare sym_loop.simps [simp del]

text \<open>The punctuation of one symbol: joint to the next, the last as the text goes on.\<close>

fun push_sym :: "bool \<Rightarrow> char_stream \<Rightarrow> rchar \<Rightarrow> u8 list \<Rightarrow> stream token_tree list lexed" where
  "push_sym available it c [] = Inr []"
| "push_sym available it c (punct # rest) =
     (let sep = (if rest \<noteq> [] \<or> (\<not> is_complete it \<and> starts_punctuation it c) then Joint else Alone) in
      and_then (mk_punct available (unat punct) sep) (\<lambda>t.
      and_then (push_sym available it c rest) (\<lambda>ts. Inr (t # ts))))"

definition lex_punct ::
  "bool \<Rightarrow> char_stream \<Rightarrow> rchar \<Rightarrow> (stream token_tree list \<times> char_stream) lexed" where
  "lex_punct available it c =
     and_then (position_at 0 (as_u8 c) syms) (\<lambda>pos. case pos of
       None \<Rightarrow> err ''Unknown operator''
     | Some start \<Rightarrow>
         and_then (grow_end syms 0 (as_u8 c) (start + 1)) (\<lambda>end_at.
         and_then (sym_loop start end_at 1 it c) (\<lambda>(start, ofs, it, c).
           if length (syms ! start) \<noteq> ofs then Inl (LexPanic (Panic ''assertion failed: SYMS[start].len() == ofs''))
           else and_then (push_sym available it c (syms ! start)) (\<lambda>ts. Inr (ts, it)))))"

section \<open>One turn of the main loop\<close>

definition lex_one ::
  "unicode \<Rightarrow> bool \<Rightarrow> char_stream \<Rightarrow> rchar \<Rightarrow> (stream token_tree list \<times> char_stream) lexed" where
  "lex_one u available it c =
     (if is_whitespace u c then Inr ([], consume it)
      else if c = c_squote then lex_quote u available it
      else if c = c_slash \<and> next_char it = Some c_slash then lex_line_comment it
      else if c = c_slash \<and> next_char it = Some c_star then lex_block_comment it
      else if c = c_b \<or> c = c_c \<or> c = c_r \<or> c = c_dquote then lex_prefixed u available it c
      else if is_alphabetic u c \<or> c = c_underscore then and_then (get_ident u it []) (push_ident available)
      else if ascii_digit c then lex_number u available it c
      else if c \<le> 0xFF then lex_punct available it c
      else err ''Unexpected character'')"

end
