(* ===== verification/Lexing.thy ===== *)
theory Lexing
  imports Lexer
begin

text \<open>
  What one turn of the lexer does to its input: every branch of \<open>lex_one\<close> takes a piece off the
  front of the text and pushes tokens that spell that piece, or nothing for white space and
  comments. The main loop, defined here, therefore terminates and loses no character.
\<close>

section \<open>The text ahead\<close>

definition ahead :: "char_stream \<Rightarrow> rstr" where
  "ahead it = (case cs_cur it of None \<Rightarrow> [] | Some c \<Rightarrow> c # cs_inner it)"

text \<open>At the end of the text nothing is current only when nothing is left.\<close>

definition cs_ok :: "char_stream \<Rightarrow> bool" where
  "cs_ok it \<longleftrightarrow> (cs_cur it = None \<longrightarrow> cs_inner it = [])"

lemma ahead_new [simp]: "ahead (char_stream_new s) = c_space # s"
  by (simp add: ahead_def char_stream_new_def)

lemma ahead_consume [simp]: "ahead (consume it) = cs_inner it"
  by (simp add: ahead_def consume_def split: list.splits)

lemma ahead_current: "cs_cur it = Some c \<Longrightarrow> ahead it = c # cs_inner it"
  by (simp add: ahead_def)

lemma ahead_reads: "reads it s it' \<Longrightarrow> cs_cur it = Some c \<Longrightarrow> c # cs_inner it = butlast (c # s) @ ahead it'"
  by (cases s rule: rev_cases) (auto simp: reads_def ahead_def)

lemma reads_then_consume: "reads it s it' \<Longrightarrow> cs_inner it = s @ ahead (consume it')"
  by (simp add: reads_def)

lemma current_Inr [simp]: "current it = Inr c \<longleftrightarrow> cs_cur it = Some c"
  by (auto simp: current_def panicking_def expect_some_def split: option.splits)

lemma panicking_Inr [simp]: "panicking r = Inr x \<longleftrightarrow> r = Inr x"
  by (auto simp: panicking_def split: sum.splits)

lemma panicking_value [simp]: "panicking (Inr x) = Inr x"
  by (simp add: panicking_def)

lemma consume_current: "cs_cur (consume it) = Some c \<Longrightarrow> cs_inner it = c # cs_inner (consume it)"
  by (auto simp: consume_def split: list.splits)

lemma next_char_current: "next_char it = Some c \<longleftrightarrow> cs_cur (consume it) = Some c"
  by (auto simp: next_char_def consume_def split: list.splits)

section \<open>Pieces\<close>

definition spell :: "stream token_tree list \<Rightarrow> rstr" where
  "spell ts = concat (map tree_display ts)"

text \<open>The lexer pushes no groups.\<close>

fun is_leaf :: "stream token_tree \<Rightarrow> bool" where
  "is_leaf (TGroup g) = False"
| "is_leaf (TIdent i) = True"
| "is_leaf (TPunct p) = True"
| "is_leaf (TLiteral l) = True"

text \<open>
  Where a block comment ends, told of the text alone: what follows \<^verbatim>\<open>/*\<close> up to the
  \<^verbatim>\<open>*/\<close> that closes it, nested comments counted in 32 bits as in the source. The lexer does not
  look at the character after a nested \<^verbatim>\<open>/*\<close> or \<^verbatim>\<open>*/\<close>, so two markers that touch are not
  counted as Rust counts them.
\<close>

definition marker :: "rstr \<Rightarrow> bool" where
  "marker s \<longleftrightarrow> take 2 s = [c_star, c_slash] \<or> take 2 s = [c_slash, c_star]"

inductive comment_tail :: "u32 \<Rightarrow> rstr \<Rightarrow> bool" where
  comment_close: "comment_tail 1 [c_star, c_slash]"
| comment_end: "comment_tail n p \<Longrightarrow> n \<noteq> 0 \<Longrightarrow> comment_tail (n + 1) (c_star # c_slash # x # p)"
| comment_start: "comment_tail (n + 1) p \<Longrightarrow> comment_tail n (c_slash # c_star # x # p)"
| comment_char: "comment_tail n p \<Longrightarrow> \<not> marker (c # p) \<Longrightarrow> comment_tail n (c # p)"

text \<open>
  A piece \<open>p\<close> of the text, the tokens pushed for it, and the text after it: one white space
  character; a line comment, up to the newline; a block comment, up to the end that closes it; or
  exactly the spelling of the tokens. The one piece that is not spelled by its tokens is an operator
  of two characters whose second is above U+00FF: the code casts it to a byte before it
  looks it up.
\<close>

inductive token_piece :: "unicode \<Rightarrow> stream token_tree list \<Rightarrow> rstr \<Rightarrow> rstr \<Rightarrow> bool" for u where
  piece_space: "is_whitespace u c \<Longrightarrow> token_piece u [] [c] rest"
| piece_line: "c_newline \<notin> set p \<Longrightarrow> token_piece u [] (c_slash # c_slash # p) (c_newline # rest)"
| piece_block: "comment_tail 1 p \<Longrightarrow> token_piece u [] (c_slash # c_star # p) rest"
| piece_text: "spell ts = p \<Longrightarrow> p \<noteq> [] \<Longrightarrow> list_all is_leaf ts \<Longrightarrow> token_piece u ts p rest"
| piece_wide: "punct_as_char a = c \<Longrightarrow> punct_ch b = as_u8 d \<Longrightarrow> 256 \<le> d \<Longrightarrow> token_piece u [TPunct a, TPunct b] [c, d] rest"

lemma token_piece_nonempty: "token_piece u ts p rest \<Longrightarrow> p \<noteq> []"
  by (induction rule: token_piece.induct) auto

text \<open>What a branch has to show: it takes a piece off the text ahead.\<close>

definition takes :: "unicode \<Rightarrow> rstr \<Rightarrow> stream token_tree list \<times> char_stream \<Rightarrow> bool" where
  "takes u s r \<longleftrightarrow> (\<exists>p. s = p @ ahead (snd r) \<and> token_piece u (fst r) p (ahead (snd r)))"

text \<open>The same for a branch that copies the text into a spelling: \<open>done\<close> is copied already.\<close>

definition writes :: "rstr \<Rightarrow> char_stream \<Rightarrow> rstr \<times> char_stream \<Rightarrow> bool" where
  "writes copied it r \<longleftrightarrow> (\<exists>w. fst r = copied @ w \<and> ahead it = w @ ahead (snd r))"

lemma writes_refl [simp]: "writes s it (s, it)"
  by (simp add: writes_def)

lemma writes_consume: "cs_cur it = Some c \<Longrightarrow> writes (s @ [c]) (consume it) r \<Longrightarrow> writes s it r"
  by (auto simp: writes_def ahead_current)

lemma writes_trans: "writes s it (s1, it1) \<Longrightarrow> writes s1 it1 r \<Longrightarrow> writes s it r"
  by (auto simp: writes_def)

lemma writes_copies_consume:
  assumes "cs_cur it = Some c" "copies it (s @ [c]) (s', it')"
  shows "writes s it (s', consume it')"
  using assms reads_then_consume by (fastforce simp: writes_def copies_def ahead_current)

lemma spelled_Inr: "spelled available s = Inr l \<Longrightarrow> literal_display l = s"
  by (auto simp: spelled_def dest: from_spelling_whole split: option.splits)

lemma takes_text: "s = p @ ahead it' \<Longrightarrow> spell ts = p \<Longrightarrow> p \<noteq> [] \<Longrightarrow> list_all is_leaf ts \<Longrightarrow> takes u s (ts, it')"
  by (auto simp: takes_def intro: piece_text)

lemma takes_push_literal:
  assumes "push_literal available (w, it') = Inr r" "s = w @ ahead it'"
  shows "takes u s r"
proof -
  obtain l where l: "spelled available w = Inr l" "r = ([TLiteral l], it')"
    using assms(1) by (auto simp: push_literal_def)
  have "w \<noteq> []" using l(1) by (auto simp: spelled_def from_spelling_def)
  then show ?thesis
    using assms(2) l spelled_Inr [OF l(1)] by (auto simp: spell_def intro!: takes_text)
qed

lemma spell_simps [simp]: "spell [] = []" "spell (t # ts) = tree_display t @ spell ts" "spell (ts @ ts') = spell ts @ spell ts'"
  by (simp_all add: spell_def)

lemma mk_ident_Inr: "mk_ident available name = Inr t \<Longrightarrow> tree_display t = name \<and> is_leaf t"
  by (auto simp: mk_ident_def ident_display_def ident_from_name_def)

lemma mk_new_ident_Inr: "mk_new_ident u available name = Inr t \<Longrightarrow> tree_display t = name \<and> is_leaf t"
  by (auto simp: mk_new_ident_def ident_new_def ident_display_def)

lemma mk_punct_Inr: "mk_punct available c sep = Inr t \<Longrightarrow> c < 256 \<Longrightarrow> tree_display t = [c] \<and> is_leaf t"
  by (auto simp: mk_punct_def punct_display_def punct_as_char_def punct_from_char_def)

lemma takes_push_ident: "push_ident available (w, it') = Inr r \<Longrightarrow> s = w @ ahead it' \<Longrightarrow> w \<noteq> [] \<Longrightarrow> takes u s r"
  by (auto simp: push_ident_def dest!: mk_ident_Inr intro!: takes_text)

section \<open>Identifiers and numbers\<close>

lemma writes_ident_loop: "writes s it (ident_loop u it s)"
proof (induction u it s rule: ident_loop.induct)
  case (1 u it s)
  then show ?case
    by (subst ident_loop.simps) (auto intro: writes_consume split: option.splits)
qed

lemma writes_get_ident: "get_ident u it s = Inr r \<Longrightarrow> writes s it r"
  using writes_ident_loop [of s it u] by (auto simp: get_ident_def)

lemma writes_digit_run: "writes s it (digit_run it s)"
proof (induction it s rule: digit_run.induct)
  case (1 it s)
  then show ?case
    by (subst digit_run.simps) (auto intro: writes_consume split: option.splits)
qed

lemma writes_exponent_run: "exponent_run it s b = (s', it', b') \<Longrightarrow> writes s it (s', it')"
proof (induction it s b rule: exponent_run.induct)
  case (1 it s b)
  from "1.prems" show ?case
    by (subst (asm) exponent_run.simps)
      (auto intro: writes_consume dest: "1.IH" split: option.splits if_splits)
qed

lemma writes_float_exponent:
  assumes "float_exponent it s = Inr r"
  shows "writes s it r"
proof (cases "cs_cur it = Some c_e \<or> cs_cur it = Some c_E")
  case True
  then obtain e where e: "cs_cur it = Some e" "e = c_e \<or> e = c_E" by blast
  define p where "p = (case cs_cur (consume it) of
      Some z \<Rightarrow> if z = c_plus \<or> z = c_minus then (s @ [e] @ [z], consume (consume it)) else (s @ [e], consume it)
    | None \<Rightarrow> (s @ [e], consume it))"
  have sign: "writes (s @ [e]) (consume it) p"
    by (auto simp: p_def split: option.splits intro: writes_consume)
  obtain s1 it1 where p: "p = (s1, it1)" by fastforce
  obtain s2 it2 b where x: "exponent_run it1 s1 False = (s2, it2, b)" by (metis prod_cases3)
  have "r = (s2, it2)"
    using assms e p x unfolding p_def float_exponent_def Let_def
    by (auto split: if_splits option.splits)
  then show ?thesis
    using writes_consume [OF e(1)] writes_trans [OF sign [unfolded p]] writes_exponent_run [OF x] by blast
next
  case False
  with assms show ?thesis by (auto simp: float_exponent_def split: option.splits)
qed

lemma writes_float_suffix: "float_suffix u it s = Inr r \<Longrightarrow> writes s it r"
  by (auto simp: float_suffix_def writes_def split: option.splits if_splits dest!: writes_get_ident)

lemma writes_float_part:
  assumes "float_part u it s = Inr r"
  shows "writes s it r"
proof -
  define p where "p = (if cs_cur it = Some c_dot then digit_run (consume it) (s @ [c_dot]) else (s, it))"
  have dot: "writes s it p" using writes_consume [OF _ writes_digit_run] by (simp add: p_def)
  obtain s1 it1 where p: "p = (s1, it1)" by fastforce
  then obtain s2 it2 where "float_exponent it1 s1 = Inr (s2, it2)" "float_suffix u it2 s2 = Inr r"
    using assms unfolding float_part_def p_def [symmetric] by auto
  then show ?thesis
    using writes_trans [OF dot [unfolded p] writes_trans [OF writes_float_exponent writes_float_suffix]] by blast
qed

lemma writes_int_loop: "int_loop u base it s = Inr r \<Longrightarrow> writes s it r"
proof (induction u base it s rule: int_loop.induct)
  case (1 u base it s)
  from "1.prems" show ?case
    by (subst (asm) int_loop.simps)
      (auto simp: writes_float_part intro: writes_consume dest: "1.IH" split: option.splits if_splits,
        auto simp: writes_def dest!: writes_get_ident)
qed

section \<open>Strings\<close>

lemma reads_string_loop:
  "string_loop u it s = Inr (s', it') \<Longrightarrow> \<exists>w. s' = s @ w \<and> cs_inner it = w @ ahead it'"
proof (induction u it s rule: string_loop.induct)
  case (1 u it s)
  from "1.prems" obtain c it1 where c: "consume_or ''str eof'' it = Inr (c, it1)"
    by (subst (asm) string_loop.simps) auto
  then have inner: "cs_inner it = c # cs_inner it1" by (simp add: consume_or_Inr)
  consider "c = c_dquote" | "c \<noteq> c_dquote" "c = c_backslash" | "c \<noteq> c_dquote" "c \<noteq> c_backslash" by blast
  then show ?case
  proof cases
    case 1
    then show ?thesis using "1.prems" c inner by (subst (asm) string_loop.simps) (auto simp: Let_def)
  next
    case 2
    then obtain s2 it2 where e: "string_escape u it1 (s @ [c]) = Inr (s2, it2)"
      "string_loop u it2 s2 = Inr (s', it')"
      using "1.prems" c by (subst (asm) string_loop.simps) (auto simp: Let_def)
    from copies_string_escape [OF e(1)] have "\<exists>w. s2 = s @ c # w \<and> cs_inner it1 = w @ cs_inner it2"
      by (auto simp: copies_def reads_def)
    moreover have "\<exists>w. s' = s2 @ w \<and> cs_inner it2 = w @ ahead it'"
      using "1.IH"(1) [OF c refl refl] 2 e by simp
    ultimately show ?thesis using inner by auto
  next
    case 3
    then have "string_loop u it1 (s @ [c]) = Inr (s', it')"
      using "1.prems" c by (subst (asm) string_loop.simps) (auto simp: Let_def)
    then show ?thesis using "1.IH"(2) [OF c refl refl] 3 inner by auto
  qed
qed

lemma replicate_diff: "Suc n \<le> m \<Longrightarrow> replicate (m - n) c = c # replicate (m - Suc n) c"
  by (simp add: replicate_Suc [symmetric] Suc_diff_Suc del: replicate_Suc)

lemma reads_count_hashes:
  "count_hashes k n c it = Inr (m, d, it') \<Longrightarrow>
    (m = n + k \<and> reads it (replicate k c_hash) it')
    \<or> (n \<le> m \<and> m < n + k \<and> reads it (replicate (m - n) c_hash @ [d]) it')"
proof (induction k n c it rule: count_hashes.induct)
  case (2 k n c it)
  from "2.prems" obtain e it1 where e: "consume_or ''rawstr eof'' it = Inr (e, it1)" by auto
  note r = reads_trans [OF reads_consume_or [OF e]]
  show ?case
  proof (cases "e = c_hash")
    case True
    then have "count_hashes k (n + 1) e it1 = Inr (m, d, it')" using "2.prems" e by simp
    from "2.IH" [OF e refl _ this] True show ?thesis
      using r [of "replicate k c_hash" it'] r [of "replicate (m - (n + 1)) c_hash @ [d]" it']
      by (auto simp: replicate_diff)
  next
    case False
    then show ?thesis using "2.prems" e reads_consume_or [OF e] by auto
  qed
qed simp

lemma reads_raw_loop:
  "raw_loop req it s = Inr (s', it') \<Longrightarrow>
    \<exists>w. s' = s @ w \<and> reads it (w @ c_dquote # replicate req c_hash) it'"
proof (induction req it s rule: raw_loop.induct)
  case (1 req it s)
  from "1.prems" obtain c it1 where c: "consume_or ''Rawstr eof'' it = Inr (c, it1)"
    by (subst (asm) raw_loop.simps) auto
  note r = reads_trans [OF reads_consume_or [OF c]]
  show ?case
  proof (cases "c = c_dquote")
    case False
    then have "raw_loop req it1 (s @ [c]) = Inr (s', it')"
      using "1.prems" c by (subst (asm) raw_loop.simps) auto
    from "1.IH"(2) [OF c refl False this] r show ?thesis by fastforce
  next
    case True
    then obtain n d it2 where n: "count_hashes req 0 c it1 = Inr (n, d, it2)"
      and rest: "(if n \<noteq> req then raw_loop req it2 (s @ [c_dquote] @ replicate n c_hash @ [d]) else Inr (s, it2)) = Inr (s', it')"
      using "1.prems" c by (subst (asm) raw_loop.simps) auto
    show ?thesis
    proof (cases "n = req")
      case eq: True
      then have "reads it1 (replicate req c_hash) it2" using reads_count_hashes [OF n] by auto
      then show ?thesis using r True rest eq by fastforce
    next
      case neq: False
      then have "reads it1 (replicate n c_hash @ [d]) it2" using reads_count_hashes [OF n] by auto
      then have r2: "reads it (c_dquote # replicate n c_hash @ [d]) it2" using r True by fastforce
      have "raw_loop req it2 (s @ [c_dquote] @ replicate n c_hash @ [d]) = Inr (s', it')" using rest neq by simp
      from "1.IH"(1) [OF c refl True n refl refl neq this] reads_trans [OF r2] show ?thesis by fastforce
    qed
  qed
qed

lemma ahead_hash_loop: "hash_loop it n = Inr (m, it') \<Longrightarrow> n \<le> m \<and> ahead it = replicate (m - n) c_hash @ ahead it'"
proof (induction it n rule: hash_loop.induct)
  case (1 it n)
  show ?case
  proof (cases "cs_cur it = Some c_hash")
    case True
    with "1.prems" obtain c it1 where c: "consume_or ''rawstr eof'' it = Inr (c, it1)" "hash_loop it1 (n + 1) = Inr (m, it')"
      by (subst (asm) hash_loop.simps) auto
    from "1.IH" [OF True c(1) refl c(2)] have ih: "n + 1 \<le> m" "ahead it1 = replicate (m - (n + 1)) c_hash @ ahead it'" by auto
    have "ahead it = c_hash # ahead it1" using True c(1) by (simp add: ahead_def consume_or_Inr)
    with ih show ?thesis by (auto simp: replicate_Suc [symmetric] Suc_diff_Suc simp del: replicate_Suc)
  next
    case False
    then show ?thesis using "1.prems" by (subst (asm) hash_loop.simps) auto
  qed
qed

lemma spell_push_hashes: "push_hashes available n = Inr ts \<Longrightarrow> spell ts = replicate n c_hash \<and> list_all is_leaf ts"
  by (induction n arbitrary: ts) (auto dest!: mk_punct_Inr)

lemma takes_lex_raw:
  assumes "lex_raw u available p it = Inr r" "p \<noteq> []"
  shows "takes u (p @ cs_inner it) r"
proof (cases "cs_cur (consume it) = None")
  case True
  then obtain t where t: "mk_new_ident u available p = Inr t" "r = ([t], consume it)"
    using assms(1) by (auto simp: lex_raw_def)
  then show ?thesis using assms(2) mk_new_ident_Inr [OF t(1)] by (auto intro: takes_text)
next
  case False
  then obtain h it2 where h: "hash_loop (consume it) 0 = Inr (h, it2)"
    and rest: "(if cs_cur it2 \<noteq> Some c_dquote then lex_not_raw u available p h it2
       else and_then (raw_loop h it2 []) (\<lambda>(raw, it3). push_literal available
         (p @ replicate h c_hash @ [c_dquote] @ raw @ [c_dquote] @ replicate h c_hash, consume it3))) = Inr r"
    using assms(1) unfolding lex_raw_def Let_def by auto
  have inner: "cs_inner it = replicate h c_hash @ ahead it2" using ahead_hash_loop [OF h] by simp
  show ?thesis
  proof (cases "cs_cur it2 = Some c_dquote")
    case True
    then obtain raw it3 where raw: "raw_loop h it2 [] = Inr (raw, it3)"
      "push_literal available (p @ replicate h c_hash @ [c_dquote] @ raw @ [c_dquote] @ replicate h c_hash, consume it3) = Inr r"
      using rest by auto
    have "reads it2 (raw @ c_dquote # replicate h c_hash) it3" using reads_raw_loop [OF raw(1)] by auto
    then show ?thesis using takes_push_literal [OF raw(2)] inner True by (simp add: reads_def ahead_current)
  next
    case False
    then obtain ts it3 hs where ts: "(if h = 0 then and_then (get_ident u it2 p) (push_ident available)
        else and_then (mk_new_ident u available p) (\<lambda>t. Inr ([t], it2))) = Inr (ts, it3)"
      "push_hashes available h = Inr hs" "r = (ts @ hs, it3)"
      using rest by (auto simp: lex_not_raw_def)
    have "p @ ahead it2 = spell ts @ ahead it3 \<and> (h \<noteq> 0 \<longrightarrow> it3 = it2 \<and> spell ts = p)" "spell ts \<noteq> []" "list_all is_leaf ts"
      using ts(1) assms(2) by (auto simp: push_ident_def writes_def dest!: writes_get_ident mk_ident_Inr mk_new_ident_Inr split: if_splits)
    then show ?thesis
      using ts(3) spell_push_hashes [OF ts(2)] inner by (cases "h = 0") (auto intro!: takes_text)
  qed
qed

section \<open>Characters\<close>

lemma takes_lex_byte_char:
  assumes "lex_byte_char available is_byte it = Inr r" "cs_cur it = Some c_squote"
  shows "takes u ((if is_byte then c_b else c_c) # ahead it) r"
proof (cases is_byte)
  case False
  then show ?thesis using assms by (auto simp: lex_byte_char_def dest!: mk_ident_Inr intro!: takes_text)
next
  case True
  obtain c it1 s it2 where c: "consume_or ''Unterminated byte character literal'' it = Inr (c, it1)"
    and s: "(if c = c_backslash then byte_escape it1 [c_b, c_squote, c]
          else if c \<le> 0x7F \<and> c \<noteq> c_newline \<and> c \<noteq> c_return then Inr ([c_b, c_squote, c], it1)
          else err ''Invalid byte character literal'') = Inr (s, it2)"
    and last: "(case cs_cur (consume it2) of
        Some c \<Rightarrow> if c = c_squote then push_literal available (s @ [c_squote], consume (consume it2))
                  else err ''Multiple characters in byte character literal''
      | None \<Rightarrow> err ''Unterminated byte character literal'') = Inr r"
    using assms(1) True unfolding lex_byte_char_def Let_def
    by (simp only: if_False not_True_eq_False and_then_eq_Inr split_paired_Ex case_prod_conv) blast
  have q: "cs_cur (consume it2) = Some c_squote" "push_literal available (s @ [c_squote], consume (consume it2)) = Inr r"
    using last by (auto split: option.splits if_splits)
  have "copies it1 [c_b, c_squote, c] (s, it2)" using s by (auto split: if_splits dest: copies_byte_escape)
  then have "c_b # c_squote # cs_inner it = s @ cs_inner it2"
    using c by (auto simp: copies_def reads_def consume_or_Inr)
  then show ?thesis
    using takes_push_literal [OF q(2)] consume_current [OF q(1)] True assms(2) by (simp add: ahead_current)
qed

lemma takes_lex_char:
  assumes "lex_char it c = Inr (s, it')" "push_literal available (s, it') = Inr r"
  shows "takes u (c_squote # c # cs_inner it) r"
proof -
  obtain s1 it1 where s: "(if c = c_backslash then char_escape it [c_squote, c] else Inr ([c_squote, c], it)) = Inr (s1, it1)"
    and last: "(case cs_cur (consume it1) of
        Some c \<Rightarrow> if c = c_squote then Inr (s1 @ [c_squote], consume (consume it1)) else err ''Multiple characters in char literal''
      | None \<Rightarrow> err ''Unterminated char literal'') = Inr (s, it')"
    using assms(1) unfolding lex_char_def Let_def
    by (simp only: and_then_eq_Inr split_paired_Ex case_prod_conv) blast
  have q: "cs_cur (consume it1) = Some c_squote" "s = s1 @ [c_squote]" "it' = consume (consume it1)"
    using last by (auto split: option.splits if_splits)
  have "copies it [c_squote, c] (s1, it1)" using s by (auto split: if_splits dest: copies_char_escape)
  then have "c_squote # c # cs_inner it = s1 @ cs_inner it1" by (auto simp: copies_def reads_def)
  then show ?thesis using takes_push_literal [OF assms(2)] consume_current [OF q(1)] q(2,3) by simp
qed

lemma takes_lex_quote:
  assumes "lex_quote u available it = Inr r" "cs_cur it = Some c_squote"
  shows "takes u (ahead it) r"
proof -
  obtain c it1 where c: "consume_or ''Unterminated char literal'' it = Inr (c, it1)"
    and rest: "(if (is_alphabetic u c \<or> c = c_underscore) \<and> (case next_char it1 of Some x \<Rightarrow> x \<noteq> c_squote | None \<Rightarrow> True)
       then lex_lifetime u available it1 else and_then (lex_char it1 c) (push_literal available)) = Inr r"
    using assms(1) by (auto simp: lex_quote_def)
  have it: "ahead it = c_squote # c # cs_inner it1" "ahead it1 = c # cs_inner it1"
    using assms(2) c by (simp_all add: ahead_current consume_or_Inr)
  show ?thesis
  proof (cases "lex_lifetime u available it1 = Inr r")
    case True
    then obtain name it2 p i where l: "get_ident u it1 [] = Inr (name, it2)" "mk_punct available c_squote Joint = Inr p"
      "mk_ident available name = Inr i" "r = ([p, i], it2)" by (auto simp: lex_lifetime_def)
    then show ?thesis
      using writes_get_ident [OF l(1)] mk_punct_Inr [OF l(2)] mk_ident_Inr [OF l(3)] it
      by (auto simp: writes_def intro!: takes_text)
  next
    case False
    then obtain s it2 where "lex_char it1 c = Inr (s, it2)" "push_literal available (s, it2) = Inr r"
      using rest by (auto split: if_splits)
    then show ?thesis using takes_lex_char it(1) by simp
  qed
qed

section \<open>Prefixes and numbers\<close>

lemma takes_lex_after_prefix:
  assumes "lex_after_prefix u available prefix c it = Inr r" "cs_cur it = Some c"
    "prefix = Some c_b \<or> prefix = Some c_c \<or> (prefix = None \<and> (c = c_r \<or> c = c_dquote))"
  shows "takes u ((case prefix of Some p \<Rightarrow> [p] | None \<Rightarrow> []) @ ahead it) r"
proof -
  let ?p = "case prefix of Some p \<Rightarrow> [p] | None \<Rightarrow> []"
  consider "c = c_r" | "c = c_squote" | "c = c_dquote" | "c \<notin> {c_r, c_squote, c_dquote}" by blast
  then show ?thesis
  proof cases
    case 1
    then have "lex_raw u available (?p @ [c_r]) it = Inr r"
      using assms(1,3) by (auto simp: lex_after_prefix_def Let_def)
    then show ?thesis using takes_lex_raw [of u available "?p @ [c_r]"] assms(2) 1 by (auto simp: ahead_current)
  next
    case 2
    then have p: "prefix = Some c_b \<or> prefix = Some c_c" using assms(3) by auto
    have "lex_byte_char available (prefix = Some c_b) it = Inr r"
      using assms(1) 2 by (simp add: lex_byte_char_def lex_after_prefix_def Let_def)
    from takes_lex_byte_char [OF this] p assms(2) 2 show ?thesis by auto
  next
    case 3
    then obtain s it' where s: "string_loop u it (?p @ [c_dquote]) = Inr (s, it')" "push_literal available (s, it') = Inr r"
      using assms(1,3) by (auto simp: lex_after_prefix_def Let_def)
    from reads_string_loop [OF s(1)] show ?thesis
      using takes_push_literal [OF s(2)] assms(2) 3 by (auto simp: ahead_current)
  next
    case 4
    then have p: "?p \<noteq> []" using assms(3) by auto
    obtain s it' where s: "get_ident u it ?p = Inr (s, it')" "push_ident available (s, it') = Inr r"
      using assms(1) 4 by (auto simp: lex_after_prefix_def Let_def)
    from writes_get_ident [OF s(1)] show ?thesis
      using takes_push_ident [OF s(2)] p by (auto simp: writes_def)
  qed
qed

lemma takes_lex_prefixed:
  assumes "lex_prefixed u available it c = Inr r" "cs_cur it = Some c" "c = c_b \<or> c = c_c \<or> c = c_r \<or> c = c_dquote"
  shows "takes u (ahead it) r"
proof (cases "c = c_b \<or> c = c_c")
  case True
  show ?thesis
  proof (cases "cs_cur (consume it)")
    case None
    then obtain t where "mk_ident available [c] = Inr t" "r = ([t], consume it)"
      using assms(1) True by (auto simp: lex_prefixed_def Let_def)
    then show ?thesis using assms(2) mk_ident_Inr by (auto simp: ahead_current intro!: takes_text)
  next
    case (Some d)
    then have "lex_after_prefix u available (Some c) d (consume it) = Inr r"
      using assms(1) True by (simp add: lex_prefixed_def Let_def)
    from takes_lex_after_prefix [OF this Some] True assms(2) show ?thesis by (auto simp: ahead_current)
  qed
next
  case False
  then have "lex_after_prefix u available None c it = Inr r" using assms(1) by (simp add: lex_prefixed_def)
  from takes_lex_after_prefix [OF this assms(2)] False assms(3) show ?thesis by auto
qed

lemma takes_int_loop:
  assumes "and_then (current it) (\<lambda>_. and_then (int_loop u base it s) (push_literal available)) = Inr r"
  shows "takes u (s @ ahead it) r"
proof -
  obtain s' it' where s: "int_loop u base it s = Inr (s', it')" "push_literal available (s', it') = Inr r"
    using assms by auto
  from writes_int_loop [OF s(1)] takes_push_literal [OF s(2)] show ?thesis by (auto simp: writes_def)
qed

lemma takes_lex_number:
  assumes "lex_number u available it c = Inr r" "cs_cur it = Some c"
  shows "takes u (ahead it) r"
proof (cases "c = c_0")
  case False
  then have "and_then (current it) (\<lambda>_. and_then (int_loop u 10 it []) (push_literal available)) = Inr r"
    using assms(1) by (simp add: lex_number_def)
  from takes_int_loop [OF this] show ?thesis by simp
next
  case zero: True
  show ?thesis
  proof (cases "cs_cur (consume it)")
    case None
    then have "push_literal available ([c_0], consume it) = Inr r" using assms(1) zero by (simp add: lex_number_def Let_def)
    from takes_push_literal [OF this] assms(2) zero show ?thesis by (simp add: ahead_current)
  next
    case (Some x)
    have zero_x: "ahead it = c_0 # x # ahead (consume (consume it))" "ahead it = c_0 # ahead (consume it)"
      using assms(2) zero consume_current [OF Some] by (simp_all add: ahead_current)
    define p where "p = (if x = c_x then ([c_0, c_x], consume (consume it), 16::nat)
                 else if x = c_o then ([c_0, c_o], consume (consume it), 8)
                 else if x = c_b then ([c_0, c_b], consume (consume it), 2)
                 else ([c_0], consume it, 10))"
    obtain s it' base where q: "p = (s, it', base)" by (metis prod_cases3)
    then have ahead: "ahead it = s @ ahead it'" using zero_x by (auto simp: p_def split: if_splits)
    have "and_then (current it') (\<lambda>_. and_then (int_loop u base it' s) (push_literal available)) = Inr r"
      using assms(1) zero Some q by (auto simp: lex_number_def Let_def p_def split: if_splits)
    from takes_int_loop [OF this] ahead show ?thesis by simp
  qed
qed

section \<open>Comments\<close>

lemma skip_line_takes:
  "skip_line s = Some it \<Longrightarrow> \<exists>p r. c_newline \<notin> set p \<and> s = p @ c_newline # r \<and> ahead it = c_newline # r"
proof (induction s)
  case (Cons c s)
  then show ?case
  proof (cases "c = c_newline")
    case True
    then show ?thesis using Cons.prems by (intro exI [of _ "[]"] exI [of _ s]) (auto simp: ahead_def)
  next
    case False
    then obtain p r where "c_newline \<notin> set p" "s = p @ c_newline # r" "ahead it = c_newline # r" using Cons by auto
    then show ?thesis using False by (intro exI [of _ "c # p"] exI [of _ r]) simp
  qed
qed simp

lemma takes_line_comment:
  assumes "lex_line_comment it = Inr r" "cs_cur it = Some c_slash" "next_char it = Some c_slash"
  shows "takes u (ahead it) r"
proof -
  obtain it' where it': "skip_line (cs_inner it) = Some it'" "r = ([], it')"
    using assms(1) by (auto simp: lex_line_comment_def line_comment_skip split: option.splits)
  obtain s where s: "cs_inner it = c_slash # s" using assms(3) by (auto simp: next_char_def split: list.splits)
  with it'(1) have "skip_line s = Some it'" by simp
  from skip_line_takes [OF this] obtain p q where
    p: "c_newline \<notin> set p" "s = p @ c_newline # q" "ahead it' = c_newline # q" by auto
  then have "ahead it = (c_slash # c_slash # p) @ ahead it'" using s assms(2) by (simp add: ahead_current)
  then show ?thesis using it'(2) p piece_line [OF p(1)] by (fastforce simp: takes_def)
qed

lemma comment_tail_nonempty: "comment_tail n p \<Longrightarrow> p \<noteq> []"
  by (induction rule: comment_tail.induct) auto

lemma consume_inner:
  "cs_inner it = c # r \<Longrightarrow> cs_inner (consume it) = r" "cs_inner it = c # d # r \<Longrightarrow> cs_inner (consume (consume it)) = r"
  "cs_inner it = c # d # x # r \<Longrightarrow> cs_inner (consume (consume (consume it))) = r"
  by (simp_all add: consume_def)

lemma next_char_inner: "next_char it = (case cs_inner it of [] \<Rightarrow> None | c # _ \<Rightarrow> Some c)"
  by (simp add: next_char_def)

text \<open>One turn of the loop of a block comment, by the text it reads.\<close>

lemma block_comment_turn:
  assumes "cs_inner it = c # r"
  shows "block_comment level it =
    (if c = c_star \<and> (\<exists>s. r = c_slash # s) then
       (if level = 1 then Inr (consume (consume (consume it))) else block_comment (level - 1) (consume (consume (consume it))))
     else if c = c_slash \<and> (\<exists>s. r = c_star # s) then block_comment (level + 1) (consume (consume (consume it)))
     else block_comment level (consume it))"
proof -
  have c: "cs_cur (consume it) = Some c" "cs_inner (consume it) = r" using assms by (simp_all add: consume_def)
  have n: "next_char (consume it) = Some d \<longleftrightarrow> (\<exists>s. r = d # s)" for d
    using c(2) by (auto simp: next_char_inner split: list.splits)
  have "level - 1 = 0 \<longleftrightarrow> level = 1" by simp
  then show ?thesis by (subst block_comment.simps) (simp only: c n Let_def expect_some_def panicking_def option.case sum.case and_then_simps)
qed

lemma marker_Cons:
  "marker (c # r) \<longleftrightarrow> (c = c_star \<and> (\<exists>s. r = c_slash # s)) \<or> (c = c_slash \<and> (\<exists>s. r = c_star # s))"
  by (cases r) (auto simp: marker_def)

lemma block_comment_takes:
  "block_comment level it = Inr it' \<Longrightarrow> \<exists>p. cs_inner it = p @ ahead it' \<and> comment_tail level p"
proof (induction "length (cs_inner it)" arbitrary: level it rule: less_induct)
  case less
  show ?case
  proof (cases "cs_inner it")
    case Nil
    then show ?thesis using less.prems by (subst (asm) block_comment.simps) (simp add: consume_def)
  next
    case inner: (Cons c r)
    let ?next = "consume (consume (consume it))"
    have skip: "\<exists>x. s = x # p @ ahead it'" if "cs_inner ?next = p @ ahead it'" "r = d # s" "p \<noteq> []" for p d s
      using that inner by (cases s) (auto simp: consume_def)
    have nested: "\<exists>p x. s = x # p @ ahead it' \<and> comment_tail level' p" if "block_comment level' ?next = Inr it'" "r = d # s" for level' d s
    proof -
      have "length (cs_inner ?next) < length (cs_inner it)" using inner that(2) by (cases s) (simp_all add: consume_def)
      from less.hyps [OF this that(1)] obtain p where "cs_inner ?next = p @ ahead it'" "comment_tail level' p" by auto
      then show ?thesis using skip [OF _ that(2)] comment_tail_nonempty by blast
    qed
    note step = block_comment_turn [OF inner, of level]
    consider s where "c = c_star" "r = c_slash # s" | s where "c = c_slash" "r = c_star # s" | "\<not> marker (c # r)"
      by (auto simp: marker_Cons)
    then show ?thesis
    proof cases
      case 1
      show ?thesis
      proof (cases "level = 1")
        case True
        then have "it' = ?next" using less.prems step 1 by simp
        then have "cs_inner it = [c_star, c_slash] @ ahead it'" using inner 1 consume_inner(2) [of it] by simp
        then show ?thesis using comment_close True by blast
      next
        case False
        then have "block_comment (level - 1) ?next = Inr it'" using less.prems step 1 by simp
        then obtain p x where "s = x # p @ ahead it'" "comment_tail (level - 1) p" using nested 1(2) by blast
        then show ?thesis using inner 1 False comment_end [of "level - 1" p x] by (intro exI [of _ "c_star # c_slash # x # p"]) simp
      qed
    next
      case 2
      then have "block_comment (level + 1) ?next = Inr it'" using less.prems step by simp
      then obtain p x where "s = x # p @ ahead it'" "comment_tail (level + 1) p" using nested 2(2) by blast
      then show ?thesis using inner 2 comment_start [of level p x] by (intro exI [of _ "c_slash # c_star # x # p"]) simp
    next
      case 3
      then have "block_comment level (consume it) = Inr it'" using less.prems step by (auto simp: marker_Cons)
      from less.hyps [OF _ this] inner obtain p where p: "r = p @ ahead it'" "comment_tail level p" by (auto simp: consume_def)
      then have "\<not> marker (c # p)" using 3 comment_tail_nonempty [OF p(2)] by (cases p) (auto simp: marker_Cons)
      then show ?thesis using inner p comment_char [of level p c] by (intro exI [of _ "c # p"]) simp
    qed
  qed
qed

text \<open>Conversely the loop stops at the end of a comment, so where it ends is unique.\<close>

lemma block_comment_tail:
  "comment_tail level p \<Longrightarrow> cs_inner it = p @ q \<Longrightarrow> \<exists>it'. block_comment level it = Inr it' \<and> ahead it' = q"
proof (induction level p arbitrary: it rule: comment_tail.induct)
  case comment_close
  then show ?case using block_comment_turn [of it c_star "c_slash # q" 1] consume_inner(2) [of it] by simp
next
  case (comment_end n p x)
  then have "n + 1 \<noteq> 1" by simp
  then show ?case
    using block_comment_turn [of it c_star "c_slash # x # p @ q" "n + 1"] comment_end.IH [of "consume (consume (consume it))"] comment_end.prems
    by (simp add: consume_inner)
next
  case (comment_start n p x)
  then show ?case
    using block_comment_turn [of it c_slash "c_star # x # p @ q" n] comment_start.IH [of "consume (consume (consume it))"] comment_start.prems
    by (simp add: consume_inner)
next
  case (comment_char n p c)
  have "\<not> marker (c # p @ q)"
    using comment_char.hyps(2) comment_tail_nonempty [OF comment_char.hyps(1)] by (cases p) (auto simp: marker_Cons)
  then show ?case
    using block_comment_turn [of it c "p @ q" n] comment_char.IH [of "consume it"] comment_char.prems
    by (auto simp: marker_Cons consume_inner)
qed

lemma comment_tail_unique: "comment_tail n p \<Longrightarrow> comment_tail n p' \<Longrightarrow> p @ q = p' @ q' \<Longrightarrow> p = p'"
  using block_comment_tail [of n p "char_stream_new (p @ q)" q] block_comment_tail [of n p' "char_stream_new (p' @ q')" q']
  by (auto simp: char_stream_new_def)

text \<open>
  Rust's nested comments, where no nested marker is followed by another at once: on these the lexer
  agrees.
\<close>

inductive rust_comment :: "nat \<Rightarrow> rstr \<Rightarrow> bool" where
  rust_close: "rust_comment 1 [c_star, c_slash]"
| rust_end: "rust_comment (Suc n) p \<Longrightarrow> \<not> marker p \<Longrightarrow> rust_comment (Suc (Suc n)) (c_star # c_slash # p)"
| rust_start: "rust_comment (Suc n) p \<Longrightarrow> \<not> marker p \<Longrightarrow> rust_comment n (c_slash # c_star # p)"
| rust_char: "rust_comment n p \<Longrightarrow> \<not> marker (c # p) \<Longrightarrow> rust_comment n (c # p)"

lemma comment_tail_skip:
  assumes "comment_tail n p" "\<not> marker p"
  shows "\<exists>x p'. p = x # p' \<and> comment_tail n p'"
  using assms by cases (auto simp: marker_Cons)

lemma rust_comment_tail:
  "rust_comment n p \<Longrightarrow> n + length p < 2 ^ 32 \<Longrightarrow> comment_tail (of_nat n) p"
proof (induction rule: rust_comment.induct)
  case rust_close
  show ?case using comment_close by simp
next
  case (rust_end n p)
  then have t: "comment_tail (of_nat (Suc n)) p" by simp
  have "(of_nat (Suc n) :: u32) \<noteq> 0"
    using rust_end.prems of_nat_eq_0_small [of "Suc n", where 'a = 32] by simp
  then show ?case
    using comment_tail_skip [OF t rust_end.hyps(2)] comment_end [of "of_nat (Suc n)"] by (auto simp: add.commute)
next
  case (rust_start n p)
  then have t: "comment_tail (of_nat n + 1) p" by (simp add: add.commute)
  then show ?case using comment_tail_skip [OF t rust_start.hyps(2)] comment_start [of "of_nat n"] by auto
next
  case (rust_char n p c)
  then show ?case using comment_char by simp
qed

lemma takes_block_comment:
  assumes "lex_block_comment it = Inr r" "cs_cur it = Some c_slash" "next_char it = Some c_star"
  shows "takes u (ahead it) r"
proof -
  obtain it' where it': "block_comment 1 (consume it) = Inr it'" "r = ([], it')"
    using assms(1) by (auto simp: lex_block_comment_def)
  obtain p where p: "cs_inner (consume it) = p @ ahead it'" "comment_tail 1 p"
    using block_comment_takes [OF it'(1)] by blast
  then have "ahead it = (c_slash # c_star # p) @ ahead it'"
    using assms(2,3) consume_current by (simp add: ahead_current next_char_current)
  then show ?thesis using it'(2) piece_block [OF p(2)] by (fastforce simp: takes_def)
qed

section \<open>Punctuation\<close>

lemma position_at_Some:
  "position_at ofs b vs = Inr (Some i) \<Longrightarrow> i < length vs \<and> ofs < length (vs ! i) \<and> vs ! i ! ofs = b"
  by (induction vs arbitrary: i) (auto split: if_splits simp: not_le)

lemma grow_end_Inr:
  "grow_end table ofs b e = Inr e' \<Longrightarrow> e \<le> e' \<and> e' \<le> max e (length table)
    \<and> (\<forall>i. e \<le> i \<and> i < e' \<longrightarrow> ofs < length (table ! i) \<and> table ! i ! ofs = b)"
proof (induction table ofs b e rule: grow_end.induct)
  case (1 table ofs b e)
  show ?case
  proof (cases "e < length table \<and> ofs < length (table ! e) \<and> table ! e ! ofs = b")
    case True
    then have "grow_end table ofs b (e + 1) = Inr e'" using "1.prems" by (subst (asm) grow_end.simps) auto
    with 1 True have "e + 1 \<le> e' \<and> e' \<le> max (e + 1) (length table)
        \<and> (\<forall>i. e + 1 \<le> i \<and> i < e' \<longrightarrow> ofs < length (table ! i) \<and> table ! i ! ofs = b)" by auto
    moreover have "i = e \<or> e + 1 \<le> i" if "e \<le> i" for i using that by auto
    ultimately show ?thesis using True by auto
  next
    case False
    then show ?thesis using "1.prems" by (subst (asm) grow_end.simps) (auto split: if_splits)
  qed
qed

lemma grow_end_done: "length table \<le> e \<Longrightarrow> grow_end table ofs b e = Inr e"
  by (subst grow_end.simps) simp

text \<open>Facts of the table: its length, no empty symbol, and no first byte runs far down it.\<close>

lemma length_syms: "length syms = 51"
  by (simp add: syms_def)

lemma syms_nonempty: "list_all (\<lambda>v. v \<noteq> []) syms"
  by (simp add: syms_def str_def)

lemma syms_value: "syms =
  [[33], [33, 61], [35], [36], [37], [37, 61], [38], [38, 38], [38, 61], [40], [41], [42], [42, 61],
   [43], [43, 61], [44], [45], [45, 61], [45, 62], [46], [46, 46], [46, 46, 46], [47], [47, 61], [58], [58, 58],
   [59], [60], [60, 45], [60, 60], [60, 60, 61], [60, 61], [61], [61, 61], [61, 62], [62], [62, 61], [62, 62],
   [62, 62, 61], [63], [64], [91], [93], [94], [94, 61], [123], [124], [124, 61], [124, 124], [125], [126]]"
  unfolding syms_def str_def by (simp add: as_u8_def)

fun every_other :: "'a list \<Rightarrow> 'a list" where
  "every_other (x # y # xs) = x # every_other xs"
| "every_other xs = xs"

lemma nth_every_other: "2 * i < length xs \<Longrightarrow> every_other xs ! i = xs ! (2 * i)"
proof (induction xs arbitrary: i rule: every_other.induct)
  case (1 x y xs)
  then show ?case by (cases i) auto
qed auto

lemma syms_runs: "list_all2 (\<lambda>v w. w ! 0 \<noteq> v ! 0) (take 25 syms) (every_other (drop 2 syms))"
  by (simp add: syms_value)

lemma syms_run: "s < 25 \<Longrightarrow> syms ! (2 * s + 2) ! 0 \<noteq> syms ! s ! 0"
  using list_all2_nthD [OF syms_runs, of s] by (simp add: length_syms nth_every_other add.commute)

lemma run_short:
  assumes "s < e" "e \<le> 51" "\<forall>i. s \<le> i \<and> i < e \<longrightarrow> syms ! i ! 0 = b"
  shows "e \<le> 2 * s + 2"
proof (rule ccontr)
  assume "\<not> e \<le> 2 * s + 2"
  then have "2 * s + 2 < e" "s < 25" using assms(2) by auto
  moreover have "syms ! (2 * s + 2) ! 0 \<noteq> syms ! s ! 0" using syms_run \<open>s < 25\<close> by simp
  moreover have "syms ! s ! 0 = b" using assms(1,3) by simp
  ultimately show False using assms(3) by auto
qed

text \<open>The entries between \<open>start\<close> and \<open>end\<close> all begin with the bytes read so far.\<close>

definition sym_range :: "nat \<Rightarrow> nat \<Rightarrow> rstr \<Rightarrow> bool" where
  "sym_range start end_at q \<longleftrightarrow> start < end_at \<and> end_at \<le> 51 \<and> end_at \<le> 2 * start + 2
     \<and> (\<forall>i. start \<le> i \<and> i < end_at \<longrightarrow> take (length q) (syms ! i) = map as_u8 q)"

lemma sym_range_table:
  assumes "sym_range start end_at q"
  shows "length (take (end_at - start) (drop start syms)) = end_at - start"
    and "i < end_at - start \<Longrightarrow> take (end_at - start) (drop start syms) ! i = syms ! (start + i)"
  using assms by (auto simp: sym_range_def length_syms)

lemma sym_range_single: "sym_range s (Suc s) q \<longleftrightarrow> s < 51 \<and> take (length q) (syms ! s) = map as_u8 q"
  by (auto simp: sym_range_def le_less_Suc_eq)

lemma sym_loop_takes:
  assumes "sym_range start end_at q" "sym_loop start end_at (length q) it c = Inr (start', ofs, it', c')"
  shows "\<exists>w. cs_inner it = w @ ahead it' \<and> take ofs (syms ! start') = map as_u8 (q @ w)"
  using assms
proof (induction start end_at "length q" it c arbitrary: q rule: sym_loop.induct)
  case (1 start end_at it c)
  define table where "table = take (end_at - start) (drop start syms)"
  note table = sym_range_table [OF "1.prems"(1), folded table_def]
  have range: "start < end_at" "end_at \<le> 2 * start + 2" "end_at \<le> 51"
    and pre: "\<And>i. start \<le> i \<Longrightarrow> i < end_at \<Longrightarrow> take (length q) (syms ! i) = map as_u8 q"
    using "1.prems"(1) by (auto simp: sym_range_def)
  have len: "length q = length (table ! 0)"
    using "1.prems"(2) by (subst (asm) sym_loop.simps) (auto simp: table_def Let_def split: if_splits)
  note step = sym_loop.simps [of start end_at "length q" it c, folded table_def, unfolded Let_def]
  show ?case
  proof (cases "cs_cur (consume it)")
    case None
    then have "start' = start" "ofs = length q" "it' = consume it" using "1.prems"(2) step len by auto
    then show ?thesis using pre [of start] range by (intro exI [of _ "[]"]) simp
  next
    case (Some d)
    then obtain pos where pos: "position_at (length q) (as_u8 d) (drop 1 table) = Inr pos"
      using "1.prems"(2) step len by (cases "position_at (length q) (as_u8 d) (drop 1 table)") auto
    show ?thesis
    proof (cases pos)
      case None
      then have "start' = start" "ofs = length q" "it' = consume it"
        using "1.prems"(2) step len Some pos by auto
      then show ?thesis using pre [of start] range by (intro exI [of _ "[]"]) simp
    next
      case (Some s)
      let ?s = "start + (s + 1)"
      have s: "s + 1 < length table" "length q < length (syms ! ?s)" "syms ! ?s ! length q = as_u8 d"
        using position_at_Some [of "length q" "as_u8 d" "drop 1 table" s] pos Some table
        by auto
      have g: "grow_end table (length q) (as_u8 d) (?s + 1) = Inr (?s + 1)"
        using range table(1) by (intro grow_end_done) auto
      have "take (Suc (length q)) (syms ! ?s) = map as_u8 (q @ [d])"
        using pre [of ?s] s table(1) range by (simp add: take_Suc_conv_app_nth)
      then have r: "sym_range ?s (?s + 1) (q @ [d])"
        using s(1) table(1) range by (simp add: sym_range_single)
      have loop: "sym_loop ?s (?s + 1) (length (q @ [d])) (consume it) d = Inr (start', ofs, it', c')"
        using "1.prems"(2) step len \<open>cs_cur (consume it) = Some d\<close> pos Some g by simp
      from "1.hyps" [OF table_def _ refl \<open>cs_cur (consume it) = Some d\<close> pos Some refl g _ r] loop len
      obtain w where "cs_inner (consume it) = w @ ahead it'" "take ofs (syms ! start') = map as_u8 ((q @ [d]) @ w)"
        by auto
      then show ?thesis
        using consume_current [OF \<open>cs_cur (consume it) = Some d\<close>] by (intro exI [of _ "d # w"]) simp
    qed
  qed
qed

lemma spell_puncts:
  "map punct_ch ps = map as_u8 s \<Longrightarrow> \<forall>d \<in> set s. d < 256 \<Longrightarrow> spell (map TPunct ps) = s"
proof (induction ps arbitrary: s)
  case (Cons p ps)
  then obtain c s' where "s = c # s'" "punct_ch p = as_u8 c" "map punct_ch ps = map as_u8 s'" by (auto simp: map_eq_Cons_conv)
  then show ?case using Cons by (auto simp: punct_display_def punct_as_char_def)
qed simp

lemma mk_punct_ch: "mk_punct available c sep = Inr t \<Longrightarrow> \<exists>p. t = TPunct p \<and> punct_ch p = as_u8 c"
  by (auto simp: mk_punct_def punct_from_char_def)

lemma push_sym_Inr: "push_sym available it c bs = Inr ts \<Longrightarrow> \<exists>ps. ts = map TPunct ps \<and> map punct_ch ps = bs"
proof (induction bs arbitrary: ts)
  case (Cons b bs)
  then obtain t ts' sep where t: "mk_punct available (unat b) sep = Inr t" "push_sym available it c bs = Inr ts'" "ts = t # ts'"
    by (auto simp: Let_def)
  obtain p where "t = TPunct p" "punct_ch p = b" using mk_punct_ch [OF t(1)] by auto
  moreover obtain ps where "ts' = map TPunct ps" "map punct_ch ps = bs" using Cons.IH [OF t(2)] by blast
  ultimately show ?case using t(3) by (intro exI [of _ "p # ps"]) simp
qed simp

text \<open>The group of symbols that start with the current character.\<close>

lemma first_symbols:
  assumes "position_at 0 (as_u8 c) syms = Inr (Some start)" "grow_end syms 0 (as_u8 c) (start + 1) = Inr end_at"
  shows "sym_range start end_at [c]"
proof -
  have s: "start < 51" "syms ! start ! 0 = as_u8 c" using position_at_Some [OF assms(1)] by (simp_all add: length_syms)
  have e: "start + 1 \<le> end_at" "end_at \<le> 51" "\<forall>i. start + 1 \<le> i \<and> i < end_at \<longrightarrow> syms ! i ! 0 = as_u8 c"
    using grow_end_Inr [OF assms(2)] s by (auto simp: length_syms)
  have all: "syms ! i ! 0 = as_u8 c" if "start \<le> i" "i < end_at" for i
    using that s(2) e(3) by (cases "i = start") auto
  have "syms ! i \<noteq> []" if "i < end_at" for i
    using syms_nonempty that e(2) by (simp add: list_all_length length_syms)
  then have "take 1 (syms ! i) = [as_u8 c]" if "start \<le> i" "i < end_at" for i
    using all [OF that] that(2) by (cases "syms ! i") (metis, simp)
  moreover have "end_at \<le> 2 * start + 2" using run_short [of start end_at] e all by auto
  ultimately show ?thesis using e by (auto simp: sym_range_def)
qed

text \<open>The loop always ends, after two characters at most: no assertion or index of the table fails.\<close>

lemma position_at_total: "list_all (\<lambda>v. ofs < length v) vs \<Longrightarrow> \<exists>pos. position_at ofs b vs = Inr pos"
  by (induction vs) auto

lemma grow_end_total: "list_all (\<lambda>v. ofs < length v) table \<Longrightarrow> \<exists>e'. grow_end table ofs b e = Inr e'"
proof (induction table ofs b e rule: grow_end.induct)
  case (1 table ofs b e)
  then show ?case by (subst grow_end.simps) (auto simp: list_all_length not_le)
qed

lemma position_at_first: "position_at ofs b vs = Inr (Some i) \<Longrightarrow> j < i \<Longrightarrow> vs ! j ! ofs \<noteq> b"
proof (induction vs arbitrary: i j)
  case (Cons v vs)
  then show ?case by (cases j) (auto split: if_splits)
qed simp

text \<open>
  Facts of the table: a symbol has one byte exactly where a new first byte starts, and a longer
  one than two follows a symbol with the same first two.
\<close>

lemma syms_firsts: "successively (\<lambda>w v. length v = 1 \<longleftrightarrow> w ! 0 \<noteq> v ! 0) syms"
  by (simp add: syms_value)

lemma syms_seconds: "successively (\<lambda>w v. 2 < length v \<longrightarrow> 1 < length w \<and> w ! 1 = v ! 1) syms"
  by (simp add: syms_value)

lemma syms_first: "s < 51 \<Longrightarrow> length (syms ! s) = 1 \<longleftrightarrow> s = 0 \<or> syms ! (s - 1) ! 0 \<noteq> syms ! s ! 0"
  using syms_firsts by (cases s) (simp_all add: successively_conv_nth length_syms, simp add: syms_value)

lemma syms_second:
  assumes "s < 51" "2 < length (syms ! s)"
  shows "1 < length (syms ! (s - 1)) \<and> syms ! (s - 1) ! 1 = syms ! s ! 1"
proof (cases s)
  case 0
  have "length (syms ! 0) = 1" by (simp add: syms_value)
  with 0 assms(2) show ?thesis by simp
next
  case (Suc k)
  then show ?thesis using assms syms_seconds by (simp add: successively_conv_nth length_syms)
qed

lemma syms_length: "s < 51 \<Longrightarrow> length (syms ! s) \<noteq> 0"
  using syms_nonempty by (simp add: list_all_length length_syms)

text \<open>The range of the first character: its first symbol has one byte, the others more.\<close>

lemma first_range:
  assumes "position_at 0 (as_u8 c) syms = Inr (Some start)" "grow_end syms 0 (as_u8 c) (start + 1) = Inr end_at"
  shows "length (syms ! start) = 1" and "start < i \<Longrightarrow> i < end_at \<Longrightarrow> 1 < length (syms ! i)"
proof -
  have s: "start < 51" "syms ! start ! 0 = as_u8 c" using position_at_Some [OF assms(1)] by (simp_all add: length_syms)
  have e: "end_at \<le> 51" "\<And>i. start + 1 \<le> i \<Longrightarrow> i < end_at \<Longrightarrow> syms ! i ! 0 = as_u8 c"
    using grow_end_Inr [OF assms(2)] s by (auto simp: length_syms)
  show "length (syms ! start) = 1"
    using syms_first [OF s(1)] position_at_first [OF assms(1), of "start - 1"] s(2) by (cases "start = 0") auto
  assume i: "start < i" "i < end_at"
  then have "syms ! i ! 0 = as_u8 c" "syms ! (i - 1) ! 0 = as_u8 c"
    using e(2) [of i] e(2) [of "i - 1"] s(2) by (cases "i - 1 = start"; simp)+
  then have "length (syms ! i) \<noteq> 1" using syms_first [of i] i e(1) by auto
  then show "1 < length (syms ! i)" using syms_length [of i] i e(1) by (cases "length (syms ! i)") auto
qed

lemma sym_loop_single:
  "start < 51 \<Longrightarrow> ofs = length (syms ! start) \<Longrightarrow> \<exists>it' c'. sym_loop start (start + 1) ofs it c = Inr (start, ofs, it', c')"
  by (subst sym_loop.simps) (auto simp: Let_def length_syms take_Suc_conv_app_nth split: option.splits)

lemma sym_loop_total:
  assumes "position_at 0 (as_u8 c) syms = Inr (Some start)" "grow_end syms 0 (as_u8 c) (start + 1) = Inr end_at"
  shows "\<exists>s ofs it' c'. sym_loop start end_at 1 it c = Inr (s, ofs, it', c') \<and> length (syms ! s) = ofs \<and> ofs \<le> 2"
proof -
  note range = first_range [OF assms]
  have sr: "sym_range start end_at [c]" using first_symbols [OF assms] .
  define table where "table = take (end_at - start) (drop start syms)"
  note table = sym_range_table [OF sr, folded table_def]
  have bounds: "start < end_at" "end_at \<le> 51" "end_at \<le> 2 * start + 2" using sr by (auto simp: sym_range_def)
  have zero: "length (table ! 0) = 1" using table(2) [of 0] bounds range(1) by simp
  note step = sym_loop.simps [of start end_at 1 it c, folded table_def, unfolded Let_def]
  show ?thesis
  proof (cases "cs_cur (consume it)")
    case None
    then show ?thesis using step zero range(1) by simp
  next
    case cur: (Some d)
    have longer: "1 < length v" if "v \<in> set (drop 1 table)" for v
    proof -
      obtain i where "i < length (drop 1 table)" "v = drop 1 table ! i" using \<open>v \<in> set (drop 1 table)\<close>
        by (metis in_set_conv_nth)
      then have i: "i + 1 < end_at - start" "v = syms ! (start + (i + 1))" using table by auto
      then show ?thesis using range(2) [of "start + (i + 1)"] by simp
    qed
    then obtain pos where pos: "position_at 1 (as_u8 d) (drop 1 table) = Inr pos"
      using position_at_total [of 1 "drop 1 table"] by (auto simp: list_all_iff)
    show ?thesis
    proof (cases pos)
      case None
      then show ?thesis using step zero range(1) cur pos by simp
    next
      case (Some k)
      let ?s = "start + (k + 1)"
      have at: "drop 1 table ! j = syms ! (start + (j + 1))" if "j + 1 < end_at - start" for j
        using table that by auto
      have k: "k + 1 < end_at - start" "1 < length (syms ! ?s)" "syms ! ?s ! 1 = as_u8 d"
        using position_at_Some [of 1 "as_u8 d" "drop 1 table" k] pos Some table(1) at [of k] by auto
      have "\<not> 2 < length (syms ! ?s)"
      proof
        assume "2 < length (syms ! ?s)"
        then have prev: "1 < length (syms ! (?s - 1))" "syms ! (?s - 1) ! 1 = as_u8 d"
          using syms_second [of ?s] k bounds by auto
        then have "k \<noteq> 0" using range(1) by (cases k) auto
        then have "drop 1 table ! (k - 1) = syms ! (?s - 1)" using at [of "k - 1"] k(1) by simp
        then show False
          using position_at_first [of 1 "as_u8 d" "drop 1 table" k "k - 1"] pos Some prev(2) \<open>k \<noteq> 0\<close> by simp
      qed
      then have len: "length (syms ! ?s) = 2" using k(2) by simp
      have g: "grow_end table 1 (as_u8 d) (?s + 1) = Inr (?s + 1)"
        using bounds k(1) table(1) by (intro grow_end_done) auto
      have "?s < 51" using k(1) bounds by linarith
      then obtain it' c' where "sym_loop ?s (?s + 1) 2 (consume it) d = Inr (?s, 2, it', c')"
        using sym_loop_single [of ?s 2 "consume it" d] len by auto
      then show ?thesis using step zero cur pos Some g len by (simp add: numeral_2_eq_2)
    qed
  qed
qed

lemma takes_lex_punct:
  assumes "lex_punct available it c = Inr r" "cs_cur it = Some c" "c \<le> 0xFF"
  shows "takes u (ahead it) r"
proof -
  obtain start end_at s ofs it' c' ts where p: "position_at 0 (as_u8 c) syms = Inr (Some start)"
    "grow_end syms 0 (as_u8 c) (start + 1) = Inr end_at" "sym_loop start end_at 1 it c = Inr (s, ofs, it', c')"
    "length (syms ! s) = ofs" "push_sym available it' c' (syms ! s) = Inr ts" "r = (ts, it')"
    using assms(1) by (auto simp: lex_punct_def split: option.splits if_splits)
  obtain w where w: "cs_inner it = w @ ahead it'" "take ofs (syms ! s) = map as_u8 ([c] @ w)"
    using sym_loop_takes [OF first_symbols [OF p(1,2)], of it c s ofs it' c'] p(3) by auto
  have syms: "syms ! s = map as_u8 (c # w)" using w(2) p(4) by simp
  then obtain ps where ps: "ts = map TPunct ps" "map punct_ch ps = map as_u8 (c # w)"
    using push_sym_Inr [OF p(5)] by metis
  have "ofs \<le> 2" using sym_loop_total [OF p(1,2), of it] p(3) by auto
  then have "length w \<le> 1" using syms p(4) by simp
  moreover have "ahead it = (c # w) @ ahead it'" using w(1) assms(2) by (simp add: ahead_current)
  moreover have "token_piece u ts (c # w) (ahead it')"
  proof (cases "\<exists>d. w = [d] \<and> 256 \<le> d")
    case True
    then obtain d where d: "w = [d]" "256 \<le> d" by blast
    then obtain a b where "ps = [a, b]" "punct_ch a = as_u8 c" "punct_ch b = as_u8 d" using ps(2) by auto
    then show ?thesis using piece_wide [of a c b d] d ps(1) assms(3) by (simp add: punct_as_char_def)
  next
    case False
    then have "\<forall>d \<in> set (c # w). d < 256" using \<open>length w \<le> 1\<close> assms(3) by (cases w) auto
    then have "spell ts = c # w" using ps by (auto simp: spell_puncts)
    then show ?thesis using ps(1) by (intro piece_text) (auto simp: list_all_iff)
  qed
  ultimately show ?thesis using p(6) by (auto simp: takes_def)
qed

section \<open>One turn\<close>

lemma takes_lex_ident:
  assumes "and_then (get_ident u it []) (push_ident available) = Inr r" "cs_cur it = Some c"
    "is_alphabetic u c \<or> c = c_underscore"
  shows "takes u (ahead it) r"
proof -
  obtain s it' where s: "get_ident u it [] = Inr (s, it')" "push_ident available (s, it') = Inr r" using assms(1) by auto
  have "ident_more u c" using assms(3) by (auto simp: ident_more_def is_alphanumeric_def)
  then have "writes [c] (consume it) (s, it')"
    using s(1) assms(2) writes_ident_loop [of "[c]" "consume it" u] by (simp add: get_ident_def ident_loop.simps [of u it])
  then show ?thesis using takes_push_ident [OF s(2)] assms(2) by (auto simp: writes_def ahead_current)
qed

text \<open>A branch of the turn takes a piece when each of its branches does.\<close>

definition taking :: "unicode \<Rightarrow> char_stream \<Rightarrow> (stream token_tree list \<times> char_stream) lexed \<Rightarrow> bool" where
  "taking u it m \<longleftrightarrow> (\<forall>r. m = Inr r \<longrightarrow> takes u (ahead it) r)"

lemma taking_if: "(b \<Longrightarrow> taking u it m) \<Longrightarrow> (\<not> b \<Longrightarrow> taking u it m') \<Longrightarrow> taking u it (if b then m else m')"
  by simp

lemma takes_lex_one:
  assumes "lex_one u available it c = Inr r" "cs_cur it = Some c"
  shows "takes u (ahead it) r"
proof -
  have "taking u it (Inr ([], consume it))" if "is_whitespace u c"
    using that assms(2) by (auto simp: taking_def takes_def ahead_current intro: piece_space)
  moreover have "taking u it (lex_quote u available it)" if "c = c_squote"
    using that assms(2) takes_lex_quote by (auto simp: taking_def)
  moreover have "taking u it (lex_line_comment it)" if "c = c_slash \<and> next_char it = Some c_slash"
    using that assms(2) takes_line_comment by (auto simp: taking_def)
  moreover have "taking u it (lex_block_comment it)" if "c = c_slash \<and> next_char it = Some c_star"
    using that assms(2) takes_block_comment by (auto simp: taking_def)
  moreover have "taking u it (lex_prefixed u available it c)" if "c = c_b \<or> c = c_c \<or> c = c_r \<or> c = c_dquote"
    unfolding taking_def using takes_lex_prefixed [OF _ assms(2) that] by blast
  moreover have "taking u it (and_then (get_ident u it []) (push_ident available))" if "is_alphabetic u c \<or> c = c_underscore"
    unfolding taking_def using takes_lex_ident [OF _ assms(2) that] by blast
  moreover have "taking u it (lex_number u available it c)"
    unfolding taking_def using takes_lex_number [OF _ assms(2)] by blast
  moreover have "taking u it (lex_punct available it c)" if "c \<le> 0xFF"
    unfolding taking_def using takes_lex_punct [OF _ assms(2) that] by blast
  moreover have "taking u it (err m)" for m by (simp add: taking_def)
  ultimately have "taking u it (lex_one u available it c)"
    unfolding lex_one_def by (intro taking_if) assumption+
  then show ?thesis using assms(1) by (simp add: taking_def)
qed

section \<open>The main loop\<close>

lemma takes_shorter: "takes u s (ts, it') \<Longrightarrow> length (ahead it') < length s"
  by (auto simp: takes_def dest: token_piece_nonempty)

lemma lex_one_shorter:
  "lex_one u available it c = Inr (ts, it') \<Longrightarrow> cs_cur it = Some c \<Longrightarrow> length (ahead it') < length (ahead it)"
  by (rule takes_shorter [OF takes_lex_one])

function lex_loop :: "unicode \<Rightarrow> bool \<Rightarrow> char_stream \<Rightarrow> stream token_tree list \<Rightarrow> stream token_tree list lexed" where
  "lex_loop u available it rv = (case cs_cur it of
     None \<Rightarrow> Inr rv
   | Some c \<Rightarrow> and_then (lex_one u available it c) (\<lambda>(ts, it). lex_loop u available it (rv @ ts)))"
  by pat_completeness auto
termination
  by (relation "measure (\<lambda>(u, a, it, rv). length (ahead it))") (auto dest: lex_one_shorter)

declare lex_loop.simps [simp del]

lemma token_piece_leaves: "token_piece u ts p rest \<Longrightarrow> list_all is_leaf ts"
  by (induction rule: token_piece.induct) (auto simp: list_all_iff)

text \<open>A text and its tokens, piece by piece and in order; \<open>rest\<close> is the text that follows.\<close>

inductive text_tokens :: "unicode \<Rightarrow> rstr \<Rightarrow> stream token_tree list \<Rightarrow> rstr \<Rightarrow> bool" for u rest where
  text_end: "text_tokens u rest [] []"
| text_piece: "token_piece u ts p (s @ rest) \<Longrightarrow> text_tokens u rest ts' s \<Longrightarrow> text_tokens u rest (ts @ ts') (p @ s)"

lemma text_tokens_leaves: "text_tokens u rest ts s \<Longrightarrow> list_all is_leaf ts"
  by (induction rule: text_tokens.induct) (auto dest: token_piece_leaves)

lemma lex_loop_tokens:
  "lex_loop u available it rv = Inr toks \<Longrightarrow> \<exists>ts. toks = rv @ ts \<and> text_tokens u [] ts (ahead it)"
proof (induction u available it rv rule: lex_loop.induct)
  case (1 u available it rv)
  show ?case
  proof (cases "cs_cur it")
    case None
    then show ?thesis using "1.prems" text_end by (subst (asm) lex_loop.simps) (simp add: ahead_def)
  next
    case (Some c)
    then obtain ts it' where one: "lex_one u available it c = Inr (ts, it')" "lex_loop u available it' (rv @ ts) = Inr toks"
      using "1.prems" by (subst (asm) lex_loop.simps) auto
    obtain ts' where "toks = rv @ ts @ ts'" "text_tokens u [] ts' (ahead it')"
      using "1.IH" [OF Some one(1) refl one(2)] by auto
    moreover obtain p where "ahead it = p @ ahead it'" "token_piece u ts p (ahead it')"
      using takes_lex_one [OF one(1) Some] by (auto simp: takes_def)
    ultimately show ?thesis using text_piece [of u ts p "ahead it'" "[]"] by auto
  qed
qed

end
