(* ===== verification/Grouping.thy ===== *)
theory Grouping
  imports Lexing
begin

text \<open>
  The second half of \<^verbatim>\<open>lib/proc_macro/src/lex.rs\<close>: the flat tokens of the lexer are grouped at
  their delimiters, and \<open>from_str\<close> runs both. Grouping is specified by its inverse, the
  flattening of trees: it gives the trees that flatten to the tokens, when there are any.
\<close>

section \<open>Grouping\<close>

definition delimiter_of :: "rchar \<Rightarrow> rchar \<Rightarrow> delimiter option" where
  "delimiter_of op cl =
     (if op = c_lparen \<and> cl = c_rparen then Some Parenthesis
      else if op = c_lbracket \<and> cl = c_rbracket then Some Bracket
      else if op = c_lbrace \<and> cl = c_rbrace then Some Brace
      else None)"

definition is_open :: "rchar \<Rightarrow> bool" where
  "is_open c \<longleftrightarrow> c = c_lparen \<or> c = c_lbracket \<or> c = c_lbrace"

definition is_close :: "rchar \<Rightarrow> bool" where
  "is_close c \<longleftrightarrow> c = c_rparen \<or> c = c_rbracket \<or> c = c_rbrace"

text \<open>
  The loop over the tokens: \<open>groups\<close> is the stack of open delimiters, innermost first, each with
  the trees before it.
\<close>

fun group_loop :: "bool \<Rightarrow> stream token_tree list \<Rightarrow> (rchar \<times> stream token_tree list) list
    \<Rightarrow> stream token_tree list \<Rightarrow> stream token_tree list lexed" where
  "group_loop available [] groups cur =
     (if groups = [] then Inr cur else err ''Unclosed delimiter'')"
| "group_loop available (TPunct punct # tokens) groups cur =
     (if is_open (punct_as_char punct) then group_loop available tokens ((punct_as_char punct, cur) # groups) []
      else if is_close (punct_as_char punct) then
        (case groups of
           [] \<Rightarrow> err ''Unexpected closing delimiter''
         | (op, parent) # groups \<Rightarrow>
             (case delimiter_of op (punct_as_char punct) of
                None \<Rightarrow> err ''Mismatched closing delimiter''
              | Some d \<Rightarrow> and_then (panicking (group_new available d (from_trees cur))) (\<lambda>g.
                  group_loop available tokens groups (parent @ [TGroup g]))))
      else group_loop available tokens groups (cur @ [TPunct punct]))"
| "group_loop available (token # tokens) groups cur = group_loop available tokens groups (cur @ [token])"

definition group_delimiters :: "bool \<Rightarrow> stream token_tree list \<Rightarrow> stream token_tree list lexed" where
  "group_delimiters available tokens = group_loop available tokens [] []"

definition stream_from_str :: "unicode \<Rightarrow> bool \<Rightarrow> rstr \<Rightarrow> stream lexed" where
  "stream_from_str u available src =
     and_then (lex_loop u available (char_stream_new src) []) (\<lambda>rv.
     and_then (group_delimiters available rv) (\<lambda>ts. Inr (from_trees ts)))"

text \<open>\<open>Literal::from_str\<close> of \<^verbatim>\<open>token_tree.rs\<close>: a leading minus, then a single literal token.\<close>

fun last_literal :: "stream token_tree list \<Rightarrow> literal lexed" where
  "last_literal [TLiteral rv] = Inr rv"
| "last_literal _ = err ''Wasn't a literal''"

definition literal_from_str_unsigned :: "unicode \<Rightarrow> bool \<Rightarrow> rstr \<Rightarrow> literal lexed" where
  "literal_from_str_unsigned u available v =
     and_then (stream_from_str u available v) (\<lambda>s. last_literal (trees s))"

definition literal_from_str :: "unicode \<Rightarrow> bool \<Rightarrow> rstr \<Rightarrow> literal lexed" where
  "literal_from_str u available v =
     (case v of
        [] \<Rightarrow> literal_from_str_unsigned u available v
      | c # rest \<Rightarrow>
          if c = c_minus then
            (if \<not> (case rest of [] \<Rightarrow> False | d # _ \<Rightarrow> ascii_digit d) then err ''Wasn't a literal''
             else and_then (literal_from_str_unsigned u available rest) (\<lambda>literal.
               case lit_kind literal of
                 LInteger \<Rightarrow> Inr (literal\<lparr>lit_symbol := c_minus # lit_symbol literal\<rparr>)
               | LFloat \<Rightarrow> Inr (literal\<lparr>lit_symbol := c_minus # lit_symbol literal\<rparr>)
               | _ \<Rightarrow> err ''Wasn't a literal''))
          else literal_from_str_unsigned u available v)"

section \<open>Flattening\<close>

datatype flat = Delim rchar | Leaf "stream token_tree"

definition flat_token :: "stream token_tree \<Rightarrow> flat" where
  "flat_token t = (case t of
     TPunct p \<Rightarrow> if is_open (punct_as_char p) \<or> is_close (punct_as_char p) then Delim (punct_as_char p) else Leaf t
   | _ \<Rightarrow> Leaf t)"

definition delimiter_chars :: "delimiter \<Rightarrow> rchar \<times> rchar" where
  "delimiter_chars d = (case d of Parenthesis \<Rightarrow> (c_lparen, c_rparen) | Bracket \<Rightarrow> (c_lbracket, c_rbracket)
     | _ \<Rightarrow> (c_lbrace, c_rbrace))"

function flatten :: "stream token_tree list \<Rightarrow> flat list" where
  "flatten [] = []"
| "flatten (TGroup g # ts) = Delim (fst (delimiter_chars (delimiter g))) # flatten (trees (group_stream g))
     @ Delim (snd (delimiter_chars (delimiter g))) # flatten ts"
| "flatten (TIdent i # ts) = Leaf (TIdent i) # flatten ts"
| "flatten (TPunct p # ts) = Leaf (TPunct p) # flatten ts"
| "flatten (TLiteral l # ts) = Leaf (TLiteral l) # flatten ts"
  by pat_completeness auto
termination
  using trees_smaller by (relation "measure trees_size") (auto simp: less_Suc_eq trans_less_add1)

text \<open>The trees the lexer makes: visible groups of its own at the call site, no loose delimiter.\<close>

function grouped :: "stream token_tree list \<Rightarrow> bool" where
  "grouped [] = True"
| "grouped (TGroup g # ts) \<longleftrightarrow>
     delimiter g \<noteq> NoDelimiter \<and> group_spans g = delim_span_from_single 2 \<and> fragment g = 0
     \<and> hidden (group_stream g) = [] \<and> grouped (trees (group_stream g)) \<and> grouped ts"
| "grouped (TIdent i # ts) \<longleftrightarrow> grouped ts"
| "grouped (TPunct p # ts) \<longleftrightarrow> \<not> is_open (punct_as_char p) \<and> \<not> is_close (punct_as_char p) \<and> grouped ts"
| "grouped (TLiteral l # ts) \<longleftrightarrow> grouped ts"
  by pat_completeness auto
termination
  using trees_smaller by (relation "measure trees_size") (auto simp: less_Suc_eq trans_less_add1)

lemma flatten_append [simp]: "flatten (ts @ us) = flatten ts @ flatten us"
  by (induction ts rule: flatten.induct) auto

lemma grouped_append [simp]: "grouped (ts @ us) \<longleftrightarrow> grouped ts \<and> grouped us"
  by (induction ts rule: grouped.induct) auto

lemma flat_token_simps [simp]:
  "flat_token (TIdent i) = Leaf (TIdent i)"
  "flat_token (TLiteral l) = Leaf (TLiteral l)"
  "flat_token (TGroup g) = Leaf (TGroup g)"
  "is_open (punct_as_char p) \<Longrightarrow> flat_token (TPunct p) = Delim (punct_as_char p)"
  "is_close (punct_as_char p) \<Longrightarrow> flat_token (TPunct p) = Delim (punct_as_char p)"
  "\<not> is_open (punct_as_char p) \<Longrightarrow> \<not> is_close (punct_as_char p) \<Longrightarrow> flat_token (TPunct p) = Leaf (TPunct p)"
  by (simp_all add: flat_token_def)

lemma flat_token_Delim:
  "flat_token t = Delim c \<longleftrightarrow> (\<exists>p. t = TPunct p \<and> punct_as_char p = c \<and> (is_open c \<or> is_close c))"
  by (auto simp: flat_token_def split: token_tree.splits)

lemma flat_token_Leaf:
  "flat_token t = Leaf t' \<longleftrightarrow> t' = t \<and> (\<forall>p. t = TPunct p \<longrightarrow> \<not> is_open (punct_as_char p) \<and> \<not> is_close (punct_as_char p))"
  by (auto simp: flat_token_def split: token_tree.splits)

lemma delimiter_of_chars:
  "delimiter_of op cl = Some d \<Longrightarrow> d \<noteq> NoDelimiter \<and> delimiter_chars d = (op, cl)"
  by (auto simp: delimiter_of_def delimiter_chars_def split: if_splits)

lemma delimiter_chars_of:
  "d \<noteq> NoDelimiter \<Longrightarrow> delimiter_of (fst (delimiter_chars d)) (snd (delimiter_chars d)) = Some d
    \<and> is_open (fst (delimiter_chars d)) \<and> is_close (snd (delimiter_chars d)) \<and> \<not> is_open (snd (delimiter_chars d))"
  by (cases d) (auto simp: delimiter_of_def delimiter_chars_def is_open_def is_close_def)

lemma group_new_available: "group_new True d s = Inr (Group d s (delim_span_from_single 2) 0)"
  by (simp add: group_new_def call_site_def require_available_def)

lemma group_new_Inr: "group_new available d s = Inr g \<Longrightarrow> g = Group d s (delim_span_from_single 2) 0"
  by (auto simp: group_new_def call_site_def require_available_def split: if_splits)

section \<open>Grouping inverts flattening\<close>

text \<open>What the stack stands for.\<close>

fun stack_flat :: "(rchar \<times> stream token_tree list) list \<Rightarrow> flat list" where
  "stack_flat [] = []"
| "stack_flat ((op, parent) # groups) = stack_flat groups @ flatten parent @ [Delim op]"

lemma group_loop_sound:
  "group_loop available tokens groups cur = Inr ts \<Longrightarrow> grouped cur \<Longrightarrow> \<forall>p \<in> snd ` set groups. grouped p \<Longrightarrow>
    grouped ts \<and> flatten ts = stack_flat groups @ flatten cur @ map flat_token tokens"
  if "\<forall>t \<in> set tokens. \<forall>g. t \<noteq> TGroup g"
  using that
proof (induction available tokens groups cur rule: group_loop.induct)
  case (1 available groups cur)
  then show ?case by (auto split: if_splits)
next
  case (2 available punct tokens groups cur)
  consider "is_open (punct_as_char punct)" | "\<not> is_open (punct_as_char punct)" "is_close (punct_as_char punct)"
    | "\<not> is_open (punct_as_char punct)" "\<not> is_close (punct_as_char punct)" by blast
  then show ?case
  proof cases
    case 1
    then show ?thesis using "2.IH"(1) "2.prems" by simp
  next
    case close: 2
    then obtain op parent groups' d g where g: "groups = (op, parent) # groups'"
      "delimiter_of op (punct_as_char punct) = Some d" "group_new available d (from_trees cur) = Inr g"
      "group_loop available tokens groups' (parent @ [TGroup g]) = Inr ts"
      using "2.prems"(1) by (auto split: list.splits option.splits)
    note g' = group_new_Inr [OF g(3)]
    have "grouped (parent @ [TGroup g])"
      using "2.prems"(2,3) g g' delimiter_of_chars [OF g(2)] by (simp add: from_trees_def)
    then show ?thesis
      using "2.IH"(2) [OF close(1) close(2) g(1) refl g(2) _ g(4)] "2.prems" g g' close delimiter_of_chars [OF g(2)]
      by (simp add: from_trees_def)
  next
    case 3
    then show ?thesis using "2.IH"(3) "2.prems" by simp
  qed
qed auto

lemma group_loop_complete:
  "grouped ts \<Longrightarrow> map flat_token tokens = flatten ts \<Longrightarrow>
    group_loop True (tokens @ rest) groups cur = group_loop True rest groups (cur @ ts)"
proof (induction ts arbitrary: tokens rest groups cur rule: flatten.induct)
  case 1
  then show ?case by simp
next
  case (2 g ts)
  obtain po mid pc tail where t: "tokens = po # mid @ pc # tail"
    "flat_token po = Delim (fst (delimiter_chars (delimiter g)))" "map flat_token mid = flatten (trees (group_stream g))"
    "flat_token pc = Delim (snd (delimiter_chars (delimiter g)))" "map flat_token tail = flatten ts"
    using "2.prems"(2) by (auto simp: map_eq_append_conv Cons_eq_map_conv map_eq_Cons_conv)
  then obtain p q where pq: "po = TPunct p" "punct_as_char p = fst (delimiter_chars (delimiter g))"
    "pc = TPunct q" "punct_as_char q = snd (delimiter_chars (delimiter g))" by (auto simp: flat_token_Delim)
  have g: "Group (delimiter g) (from_trees (trees (group_stream g))) (delim_span_from_single 2) 0 = g"
    using "2.prems"(1) by (cases g) (cases "group_stream g", auto simp: from_trees_def)
  have d: "delimiter g \<noteq> NoDelimiter" "grouped (trees (group_stream g))" "grouped ts" using "2.prems"(1) by auto
  note dc = delimiter_chars_of [OF d(1)]
  have "group_loop True (tokens @ rest) groups cur =
      group_loop True (mid @ pc # tail @ rest) ((fst (delimiter_chars (delimiter g)), cur) # groups) []"
    using t(1) pq dc by simp
  also have "\<dots> = group_loop True (pc # tail @ rest) ((fst (delimiter_chars (delimiter g)), cur) # groups) (trees (group_stream g))"
    using "2.IH"(1) [OF d(2) t(3)] by simp
  also have "\<dots> = group_loop True (tail @ rest) groups (cur @ [TGroup g])"
    using pq dc g by (simp add: group_new_available)
  also have "\<dots> = group_loop True rest groups (cur @ TGroup g # ts)"
    using "2.IH"(2) [OF d(3) t(5)] by simp
  finally show ?case .
next
  case (3 i ts)
  then obtain tail where "tokens = TIdent i # tail" "map flat_token tail = flatten ts"
    by (auto simp: map_eq_Cons_conv flat_token_Leaf)
  then show ?case using 3 by simp
next
  case (4 p ts)
  then obtain tail where "tokens = TPunct p # tail" "map flat_token tail = flatten ts"
    by (auto simp: map_eq_Cons_conv flat_token_Leaf)
  then show ?case using 4 by simp
next
  case (5 l ts)
  then obtain tail where "tokens = TLiteral l # tail" "map flat_token tail = flatten ts"
    by (auto simp: map_eq_Cons_conv flat_token_Leaf)
  then show ?case using 5 by simp
qed

lemma leaves_no_group: "list_all is_leaf ts \<Longrightarrow> \<forall>t \<in> set ts. \<forall>g. t \<noteq> TGroup g"
  by (auto simp: list_all_iff)

lemma group_delimiters_iff:
  assumes "list_all is_leaf tokens"
  shows "group_delimiters True tokens = Inr ts \<longleftrightarrow> grouped ts \<and> flatten ts = map flat_token tokens"
proof
  assume "group_delimiters True tokens = Inr ts"
  then show "grouped ts \<and> flatten ts = map flat_token tokens"
    using group_loop_sound [OF leaves_no_group [OF assms], of True "[]" "[]" ts] by (simp add: group_delimiters_def)
next
  assume "grouped ts \<and> flatten ts = map flat_token tokens"
  then show "group_delimiters True tokens = Inr ts"
    using group_loop_complete [of ts tokens "[]" "[]" "[]"] by (simp add: group_delimiters_def)
qed

lemma group_delimiters_sound:
  "list_all is_leaf tokens \<Longrightarrow> group_delimiters available tokens = Inr ts \<Longrightarrow>
    grouped ts \<and> flatten ts = map flat_token tokens"
  using group_loop_sound [OF leaves_no_group, of tokens available "[]" "[]" ts] by (simp add: group_delimiters_def)

section \<open>Properties\<close>

text \<open>
  C21. Grouping at delimiters is the inverse of flattening: it succeeds with \<open>ts\<close> exactly when
  \<open>ts\<close> are visible groups of the lexer's own that flatten to the given tokens, so it fails
  exactly when the delimiters do not match, and its result is unique.
\<close>

theorem group_delimiters_inverts:
  assumes "list_all is_leaf tokens"
  shows "group_delimiters True tokens = Inr ts \<longleftrightarrow> grouped ts \<and> flatten ts = map flat_token tokens"
  using group_delimiters_iff [OF assms] .

theorem group_delimiters_inverts_witness:
  "let p = (\<lambda>c. TPunct (punct_from_char c Alone 2)); i = TIdent (ident_from_name (str ''x'') False 2);
       g = TGroup (Group Parenthesis (Stream [i] []) (delim_span_from_single 2) 0)
   in group_delimiters True [p c_lparen, i, p c_rparen, i] = Inr [g, i]"
  using group_delimiters_inverts [of "[TPunct (punct_from_char c_lparen Alone 2), TIdent (ident_from_name (str ''x'') False 2),
      TPunct (punct_from_char c_rparen Alone 2), TIdent (ident_from_name (str ''x'') False 2)]"
      "[TGroup (Group Parenthesis (Stream [TIdent (ident_from_name (str ''x'') False 2)] []) (delim_span_from_single 2) 0),
        TIdent (ident_from_name (str ''x'') False 2)]"]
  by (simp add: Let_def delimiter_chars_def flat_token_def punct_as_char_def punct_from_char_def is_open_def is_close_def)

text \<open>
  C17. \<open>TokenStream::from_str\<close> drops and invents nothing: when it accepts a text, the text (after
  the blank the character stream starts from) is a sequence of pieces, each of them one white space
  character, a line comment up to its newline, a block comment up to the end that closes it with
  nested comments counted, or exactly the spelling of the tokens pushed for it, and the trees it
  returns flatten to these tokens in this order. Two pieces are not what Rust makes of them, and the
  pieces say so: the character after a nested comment's start or end is not looked at
  (\<open>comment_tail\<close>; \<open>rust_comment_tail\<close> shows the agreement where no two such markers touch), and the
  second character of an operator is compared by its low byte alone (\<open>piece_wide\<close>, which takes a
  character above U+00FF, so a text without one is spelled exactly).
\<close>

theorem from_str_lossless:
  assumes "stream_from_str u available src = Inr s"
  shows "\<exists>tokens. text_tokens u [] tokens (c_space # src) \<and> flatten (trees s) = map flat_token tokens
    \<and> grouped (trees s) \<and> hidden s = []"
proof -
  obtain tokens ts where t: "lex_loop u available (char_stream_new src) [] = Inr tokens"
    "group_delimiters available tokens = Inr ts" "s = from_trees ts"
    using assms by (auto simp: stream_from_str_def)
  have pieces: "text_tokens u [] tokens (c_space # src)" using lex_loop_tokens [OF t(1)] by auto
  from group_delimiters_sound [OF text_tokens_leaves [OF pieces] t(2)] pieces t(3) show ?thesis
    by (auto simp: from_trees_def)
qed

theorem from_str_lossless_witness:
  "\<exists>s tokens. stream_from_str ascii_only True (str ''f(x) /**/ += 1'') = Inr s \<and>
     text_tokens ascii_only [] tokens (c_space # str ''f(x) /**/ += 1'') \<and> length (flatten (trees s)) = 7"
proof -
  have "case stream_from_str ascii_only True (str ''f(x) /**/ += 1'') of Inr s \<Rightarrow> length (flatten (trees s)) = 7 | _ \<Rightarrow> False"
    by code_simp
  then obtain s where s: "stream_from_str ascii_only True (str ''f(x) /**/ += 1'') = Inr s" "length (flatten (trees s)) = 7"
    by (cases "stream_from_str ascii_only True (str ''f(x) /**/ += 1'')") auto
  from from_str_lossless [OF s(1)] s show ?thesis by blast
qed

end
