(* ===== verification/Lex_Rejects.thy ===== *)
theory Lex_Rejects
  imports Grouping
begin

text \<open>
  Which text makes the lexer fail, and how: for every message of a \<open>LexError\<close> of
  \<^verbatim>\<open>lib/proc_macro/src/lex.rs\<close> the form of the text at the token that is refused, told as a
  grammar of the text alone; and the proof that each branch of the lexer refuses only such texts.
\<close>

section \<open>Escapes\<close>

text \<open>The three readers of escapes, with their messages.\<close>

datatype escape_kind = CharEscape | ByteEscape | StringEscape

fun eof_message :: "escape_kind \<Rightarrow> string" where
  "eof_message CharEscape = ''Unterminated char literal''"
| "eof_message ByteEscape = ''Unterminated byte character literal''"
| "eof_message StringEscape = ''str eof''"

fun hex_eof_message :: "escape_kind \<Rightarrow> string" where
  "hex_eof_message CharEscape = ''Unterminated x escape''"
| "hex_eof_message k = eof_message k"

fun hex_message :: "escape_kind \<Rightarrow> string" where
  "hex_message ByteEscape = ''Invalid hex digit in byte character literal''"
| "hex_message k = ''Invalid hex digit in x escape''"

fun unknown_message :: "escape_kind \<Rightarrow> string" where
  "unknown_message CharEscape = ''Unknown escape in char literal''"
| "unknown_message ByteEscape = ''Invalid escape in byte character literal''"
| "unknown_message StringEscape = ''Unknown escape in string''"

fun escape_letters :: "escape_kind \<Rightarrow> rchar list" where
  "escape_letters CharEscape = c_x # c_u # simple_escapes"
| "escape_letters ByteEscape = c_x # simple_escapes"
| "escape_letters StringEscape = c_x # c_u # c_newline # c_return # simple_escapes"

abbreviation hex :: "rchar \<Rightarrow> bool" where
  "hex c \<equiv> to_digit 16 c \<noteq> None"

text \<open>The text behind a backslash: a whole escape, or the start of one that is refused.\<close>

inductive escape :: "unicode \<Rightarrow> escape_kind \<Rightarrow> rstr \<Rightarrow> bool" for u k where
  escape_simple: "c \<in> set simple_escapes \<Longrightarrow> escape u k [c]"
| escape_hex: "hex a \<Longrightarrow> hex b \<Longrightarrow> escape u k [c_x, a, b]"
| escape_unicode: "c_u \<in> set (escape_letters k) \<Longrightarrow> c_rbrace \<notin> set w \<Longrightarrow> escape u k (c_u # w @ [c_rbrace])"
| escape_line: "c \<in> {c_newline, c_return} \<Longrightarrow> c \<in> set (escape_letters k) \<Longrightarrow> list_all (is_whitespace u) w \<Longrightarrow> escape u k (c # w)"

inductive bad_escape :: "escape_kind \<Rightarrow> string \<Rightarrow> rstr \<Rightarrow> bool" for k where
  bad_eof: "bad_escape k (eof_message k) []"
| bad_letter: "c \<notin> set (escape_letters k) \<Longrightarrow> bad_escape k (unknown_message k) (c # rest)"
| bad_unicode: "c_u \<in> set (escape_letters k) \<Longrightarrow> c_rbrace \<notin> set w \<Longrightarrow> bad_escape k ''Unterminated u escape'' (c_u # w)"
| bad_hex_eof: "list_all hex w \<Longrightarrow> length w < 2 \<Longrightarrow> bad_escape k (hex_eof_message k) (c_x # w)"
| bad_hex: "list_all hex w \<Longrightarrow> length w < 2 \<Longrightarrow> \<not> hex c \<Longrightarrow> bad_escape k (hex_message k) (c_x # w @ c # rest)"

section \<open>Literals\<close>

text \<open>What stands between the quotes of a character or byte literal.\<close>

inductive one_char :: "unicode \<Rightarrow> escape_kind \<Rightarrow> rstr \<Rightarrow> bool" for u k where
  char_plain: "c \<noteq> c_backslash \<Longrightarrow> (k = ByteEscape \<Longrightarrow> c \<le> 0x7F \<and> c \<noteq> c_newline \<and> c \<noteq> c_return) \<Longrightarrow> one_char u k [c]"
| char_escaped: "escape u k e \<Longrightarrow> one_char u k (c_backslash # e)"

inductive string_body :: "unicode \<Rightarrow> rstr \<Rightarrow> bool" for u where
  body_end: "string_body u []"
| body_plain: "string_body u p \<Longrightarrow> c \<noteq> c_dquote \<Longrightarrow> c \<noteq> c_backslash \<Longrightarrow> string_body u (c # p)"
| body_escaped: "string_body u p \<Longrightarrow> escape u StringEscape e \<Longrightarrow> string_body u (c_backslash # e @ p)"

text \<open>
  The body of a raw string with \<open>n\<close> hashes; the character that ends a run of hashes too short is
  taken as it is.
\<close>

inductive raw_body :: "nat \<Rightarrow> rstr \<Rightarrow> bool" for n where
  raw_end: "raw_body n []"
| raw_plain: "raw_body n p \<Longrightarrow> c \<noteq> c_dquote \<Longrightarrow> raw_body n (c # p)"
| raw_quote: "raw_body n p \<Longrightarrow> k < n \<Longrightarrow> d \<noteq> c_hash \<Longrightarrow> raw_body n (c_dquote # replicate k c_hash @ d # p)"

abbreviation string_prefix :: "rstr \<Rightarrow> bool" where
  "string_prefix pre \<equiv> pre \<in> {[], [c_b], [c_c]}"

abbreviation raw_prefix :: "rstr \<Rightarrow> bool" where
  "raw_prefix pre \<equiv> pre \<in> {[c_r], [c_b, c_r], [c_c, c_r]}"

text \<open>Numbers: the digits, then a suffix, or a fraction and an exponent.\<close>

definition no_more :: "(rchar \<Rightarrow> bool) \<Rightarrow> rstr \<Rightarrow> bool" where
  "no_more P s \<longleftrightarrow> s = [] \<or> \<not> P (hd s)"

abbreviation number_char :: "rchar \<Rightarrow> bool" where
  "number_char c \<equiv> c = c_underscore \<or> ascii_digit c"

definition number_head :: "nat \<Rightarrow> rstr \<Rightarrow> bool" where
  "number_head base h \<longleftrightarrow> (\<exists>p w. h = p @ w \<and> list_all (\<lambda>c. c = c_underscore \<or> to_digit base c \<noteq> None) w
     \<and> (base, p) \<in> {(10, []), (16, [c_0, c_x]), (8, [c_0, c_o]), (2, [c_0, c_b])}
     \<and> (base = 10 \<longrightarrow> w \<noteq> [] \<and> ascii_digit (hd w)))"

definition fraction :: "rstr \<Rightarrow> bool" where
  "fraction f \<longleftrightarrow> f = [] \<or> (\<exists>d w. f = c_dot # d # w \<and> ascii_digit d \<and> list_all number_char w)"

definition exponent_start :: "rstr \<Rightarrow> bool" where
  "exponent_start x \<longleftrightarrow> (\<exists>e s. x = e # s \<and> e \<in> {c_e, c_E} \<and> s \<in> {[], [c_plus], [c_minus]})"

definition exponent :: "rstr \<Rightarrow> bool" where
  "exponent x \<longleftrightarrow> x = [] \<or> (\<exists>s w. x = s @ w \<and> exponent_start s \<and> list_all number_char w)"

text \<open>A run of identifier characters that goes on as far as it can.\<close>

definition word_run :: "unicode \<Rightarrow> rstr \<Rightarrow> rstr \<Rightarrow> bool" where
  "word_run u s rest \<longleftrightarrow> s \<noteq> [] \<and> list_all (ident_more u) s \<and> no_more (ident_more u) rest"

inductive number :: "rstr \<Rightarrow> bool" where
  number_int: "number_head base h \<Longrightarrow> number h"
| number_suffix: "number_head base h \<Longrightarrow> s \<in> set int_suffixes \<Longrightarrow> number (h @ s)"
| number_float: "number_head 10 h \<Longrightarrow> fraction f \<Longrightarrow> exponent x \<Longrightarrow> s \<in> {[], str ''f32'', str ''f64''} \<Longrightarrow> number (h @ f @ x @ s)"
| number_point: "number_head 10 h \<Longrightarrow> number (h @ [c_dot])"

section \<open>The texts that are refused\<close>

fun many_message :: "escape_kind \<Rightarrow> string" where
  "many_message ByteEscape = ''Multiple characters in byte character literal''"
| "many_message _ = ''Multiple characters in char literal''"

fun opens_with :: "escape_kind \<Rightarrow> rstr" where
  "opens_with ByteEscape = [c_b, c_squote]"
| "opens_with _ = [c_squote]"

text \<open>A quote that starts a lifetime.\<close>

definition lifetime :: "unicode \<Rightarrow> rstr \<Rightarrow> bool" where
  "lifetime u s \<longleftrightarrow> (\<exists>c t. s = c_squote # c # t \<and> (is_alphabetic u c \<or> c = c_underscore) \<and> (t = [] \<or> hd t \<noteq> c_squote))"

text \<open>\<open>rejects u m s\<close>: the token the text \<open>s\<close> starts with is refused with the message \<open>m\<close>.\<close>

inductive rejects :: "unicode \<Rightarrow> string \<Rightarrow> rstr \<Rightarrow> bool" for u where
  char_eof: "k \<noteq> StringEscape \<Longrightarrow> i = [] \<or> one_char u k i \<Longrightarrow> \<not> lifetime u (opens_with k @ i) \<Longrightarrow>
    rejects u (eof_message k) (opens_with k @ i)"
| char_escape: "k \<noteq> StringEscape \<Longrightarrow> bad_escape k m s \<Longrightarrow> rejects u m (opens_with k @ c_backslash # s)"
| char_many: "k \<noteq> StringEscape \<Longrightarrow> one_char u k i \<Longrightarrow> d \<noteq> c_squote \<Longrightarrow> \<not> lifetime u (opens_with k @ i @ d # rest) \<Longrightarrow>
    rejects u (many_message k) (opens_with k @ i @ d # rest)"
| char_byte: "0x7F < c \<or> c \<in> {c_newline, c_return} \<Longrightarrow> rejects u ''Invalid byte character literal'' (c_b # c_squote # c # rest)"
| char_malformed: "k \<noteq> StringEscape \<Longrightarrow> one_char u k i \<Longrightarrow> from_spelling (opens_with k @ i @ [c_squote]) 2 = None \<Longrightarrow>
    rejects u ''Malformed literal'' (opens_with k @ i @ c_squote # rest)"
| string_eof: "string_prefix pre \<Longrightarrow> string_body u p \<Longrightarrow> rejects u ''str eof'' (pre @ c_dquote # p)"
| string_escape: "string_prefix pre \<Longrightarrow> string_body u p \<Longrightarrow> bad_escape StringEscape m s \<Longrightarrow>
    rejects u m (pre @ c_dquote # p @ c_backslash # s)"
| string_malformed: "string_prefix pre \<Longrightarrow> string_body u p \<Longrightarrow> from_spelling (pre @ c_dquote # p @ [c_dquote]) 2 = None \<Longrightarrow>
    rejects u ''Malformed literal'' (pre @ c_dquote # p @ c_dquote # rest)"
| raw_hashes: "raw_prefix pre \<Longrightarrow> 0 < n \<Longrightarrow> rejects u ''rawstr eof'' (pre @ replicate n c_hash)"
| raw_eof: "raw_prefix pre \<Longrightarrow> raw_body n p \<Longrightarrow> rejects u ''Rawstr eof'' (pre @ replicate n c_hash @ c_dquote # p)"
| raw_short: "raw_prefix pre \<Longrightarrow> raw_body n p \<Longrightarrow> k < n \<Longrightarrow>
    rejects u ''rawstr eof'' (pre @ replicate n c_hash @ c_dquote # p @ c_dquote # replicate k c_hash)"
| raw_malformed: "raw_prefix pre \<Longrightarrow> raw_body n p \<Longrightarrow> w = pre @ replicate n c_hash @ c_dquote # p @ c_dquote # replicate n c_hash \<Longrightarrow>
    from_spelling w 2 = None \<Longrightarrow> rejects u ''Malformed literal'' (w @ rest)"
| number_bad_suffix: "number_head base h \<Longrightarrow> word_run u s rest \<Longrightarrow> hd s \<in> {c_u, c_i} \<Longrightarrow> s \<notin> set int_suffixes \<Longrightarrow>
    rejects u ''Unexpected integer suffix'' (h @ s @ rest)"
| number_no_exponent: "number_head 10 h \<Longrightarrow> fraction f \<Longrightarrow> exponent_start x \<Longrightarrow> list_all (\<lambda>c. c = c_underscore) w \<Longrightarrow>
    no_more number_char rest \<Longrightarrow> rejects u ''Missing digits in float exponent'' (h @ f @ x @ w @ rest)"
| number_bad_float: "number_head 10 h \<Longrightarrow> fraction f \<Longrightarrow> exponent x \<Longrightarrow> word_run u s rest \<Longrightarrow>
    is_alphabetic u (hd s) \<or> hd s = c_underscore \<Longrightarrow> s \<notin> {str ''f32'', str ''f64''} \<Longrightarrow>
    rejects u ''Unexpected float suffix'' (h @ f @ x @ s @ rest)"
| number_malformed: "number w \<Longrightarrow> from_spelling w 2 = None \<Longrightarrow> rejects u ''Malformed literal'' (w @ rest)"
| operator_unknown: "c \<le> 0xFF \<Longrightarrow> \<not> is_whitespace u c \<Longrightarrow> \<not> is_alphabetic u c \<Longrightarrow> \<not> ascii_digit c \<Longrightarrow>
    c \<notin> {c_squote, c_dquote, c_underscore} \<Longrightarrow> \<forall>v \<in> set syms. hd v \<noteq> as_u8 c \<Longrightarrow> rejects u ''Unknown operator'' (c # rest)"
| character_unexpected: "0xFF < c \<Longrightarrow> \<not> is_whitespace u c \<Longrightarrow> \<not> is_alphabetic u c \<Longrightarrow> rejects u ''Unexpected character'' (c # rest)"

section \<open>Outcomes\<close>

text \<open>What a branch returns satisfies \<open>Q\<close>; what it fails with is an error whose message satisfies \<open>R\<close>.\<close>

definition outcome :: "('a \<Rightarrow> bool) \<Rightarrow> (string \<Rightarrow> bool) \<Rightarrow> 'a lexed \<Rightarrow> bool" where
  "outcome Q R m \<longleftrightarrow> (\<forall>x. m = Inr x \<longrightarrow> Q x) \<and> (\<forall>e. m = Inl e \<longrightarrow> (\<exists>msg. e = LexError msg \<and> R msg))"

lemma outcome_simps [simp]: "outcome Q R (Inr x) \<longleftrightarrow> Q x" "outcome Q R (err msg) \<longleftrightarrow> R msg"
  by (simp_all add: outcome_def err_def)

lemma outcome_bind:
  "outcome Q R m \<Longrightarrow> (\<And>msg. R msg \<Longrightarrow> R' msg) \<Longrightarrow> (\<And>x. m = Inr x \<Longrightarrow> Q x \<Longrightarrow> outcome Q' R' (f x)) \<Longrightarrow> outcome Q' R' (and_then m f)"
  by (cases m) (auto simp: outcome_def)

lemma outcome_weaken: "outcome Q R m \<Longrightarrow> (\<And>x. Q x \<Longrightarrow> Q' x) \<Longrightarrow> (\<And>msg. R msg \<Longrightarrow> R' msg) \<Longrightarrow> outcome Q' R' m"
  by (auto simp: outcome_def)

lemma outcome_if: "(b \<Longrightarrow> outcome Q R m) \<Longrightarrow> (\<not> b \<Longrightarrow> outcome Q R m') \<Longrightarrow> outcome Q R (if b then m else m')"
  by simp

text \<open>A reader behind the current character: it copies a text of the form \<open>S\<close> into the spelling.\<close>

definition copied :: "(rstr \<Rightarrow> bool) \<Rightarrow> rstr \<Rightarrow> char_stream \<Rightarrow> rstr \<times> char_stream \<Rightarrow> bool" where
  "copied S s it r \<longleftrightarrow> (\<exists>w. S w \<and> fst r = s @ w \<and> reads it w (snd r))"

lemma consume_or_cases:
  "consume_or msg it = (case cs_inner it of [] \<Rightarrow> err msg | c # r \<Rightarrow> Inr (c, \<lparr>cs_inner = r, cs_cur = Some c\<rparr>))"
  by (simp add: consume_or_def consume_def split: list.splits)

lemma outcome_consume_or:
  assumes "cs_inner it = [] \<Longrightarrow> R msg" "\<And>c it'. cs_inner it = c # cs_inner it' \<Longrightarrow> cs_cur it' = Some c \<Longrightarrow> outcome Q R (f (c, it'))"
  shows "outcome Q R (and_then (consume_or msg it) f)"
proof (cases "cs_inner it")
  case Nil
  then show ?thesis using assms(1) by (simp add: consume_or_cases err_def outcome_def)
next
  case (Cons c r)
  then show ?thesis using assms(2) [of c "\<lparr>cs_inner = r, cs_cur = Some c\<rparr>"] by (simp add: consume_or_cases)
qed

lemma copied_refl: "S [] \<Longrightarrow> copied S s it (s, it)"
  by (auto simp: copied_def)

lemma copied_step:
  assumes "copied S' (s @ [c]) it1 r" "cs_inner it = c # cs_inner it1" "cs_cur it1 = Some c" "\<And>w. S' w \<Longrightarrow> S (c # w)"
  shows "copied S s it r"
proof -
  obtain w where w: "S' w" "fst r = s @ c # w" "reads it1 w (snd r)" using assms(1) by (auto simp: copied_def)
  then have "reads it (c # w) (snd r)" using assms(2,3) by (auto simp: reads_def)
  then show ?thesis using w assms(4) unfolding copied_def by blast
qed

lemma outcome_copied_step:
  assumes "outcome (copied S' (s @ [c]) it1) R' m" "cs_inner it = c # cs_inner it1" "cs_cur it1 = Some c"
    "\<And>w. S' w \<Longrightarrow> S (c # w)" "\<And>msg. R' msg \<Longrightarrow> R msg"
  shows "outcome (copied S s it) R m"
  using assms(1) by (rule outcome_weaken) (auto intro: copied_step assms)

section \<open>Readers of escapes\<close>

lemma outcome_brace_loop:
  "outcome (copied (\<lambda>w. \<exists>v. w = v @ [c_rbrace] \<and> c_rbrace \<notin> set v) s it)
     (\<lambda>m. m = ''Unterminated u escape'' \<and> c_rbrace \<notin> set (cs_inner it)) (brace_loop it s)"
proof (induction it s rule: brace_loop.induct)
  case (1 it s)
  show ?case
  proof (subst brace_loop.simps, rule outcome_consume_or, goal_cases)
    case (2 c it1)
    have c: "consume_or ''Unterminated u escape'' it = Inr (c, it1)" using 2 by (simp add: consume_or_Inr)
    show ?case
    proof (cases "c = c_rbrace")
      case True
      then show ?thesis using 2 by (auto simp: copied_def reads_def intro!: exI [of _ "[c_rbrace]"])
    next
      case False
      show ?thesis
        by (simp add: False, rule outcome_copied_step [OF "1.IH" [OF c refl False] 2]) (use False 2 in \<open>auto simp: Cons_eq_append_conv\<close>)
    qed
  qed simp
qed

definition short_hex :: "string \<Rightarrow> string \<Rightarrow> nat \<Rightarrow> string \<Rightarrow> rstr \<Rightarrow> bool" where
  "short_hex eof bad n m s \<longleftrightarrow> (\<exists>w. list_all hex w \<and> length w < n
     \<and> (m = eof \<and> s = w \<or> (\<exists>c rest. m = bad \<and> s = w @ c # rest \<and> \<not> hex c)))"

lemma short_hex_Cons: "short_hex eof bad n m s \<Longrightarrow> hex c \<Longrightarrow> short_hex eof bad (Suc n) m (c # s)"
  unfolding short_hex_def by (elim exE conjE, rule_tac x = "c # w" in exI) auto

lemma outcome_hex_digits:
  "outcome (copied (\<lambda>w. length w = n \<and> list_all hex w) s it) (\<lambda>m. short_hex eof bad n m (cs_inner it)) (hex_digits eof bad n it s)"
proof (induction eof bad n it s rule: hex_digits.induct)
  case (2 eof bad n it s)
  show ?case
  proof (subst hex_digits.simps, rule outcome_consume_or, goal_cases)
    case 1
    then show ?case by (auto simp: short_hex_def)
  next
    case (2 c it1)
    then have c: "consume_or eof it = Inr (c, it1)" by (simp add: consume_or_Inr)
    show ?case
    proof (cases "hex c")
      case True
      then have "to_digit 16 c \<noteq> None" by simp
      note ih = "2.IH" [OF c refl this]
      show ?thesis
        using True 2 by (auto intro!: outcome_copied_step [OF ih 2] dest: short_hex_Cons)
    next
      case False
      then show ?thesis using 2 by (auto simp: short_hex_def intro!: exI [of _ "[]"])
    qed
  qed
qed (simp add: copied_refl)

lemma outcome_space_loop:
  "outcome (copied (list_all (is_whitespace u)) s it) (\<lambda>m. False) (space_loop u it s)"
proof (induction u it s rule: space_loop.induct)
  case (1 u it s)
  show ?case
  proof (cases "cs_inner it")
    case Nil
    then show ?thesis by (subst space_loop.simps) (simp add: next_char_def copied_refl)
  next
    case (Cons c r)
    let ?it = "\<lparr>cs_inner = r, cs_cur = Some c\<rparr>"
    have n: "next_char it = Some c" and c: "consume_or ''str eof'' it = Inr (c, ?it)"
      using Cons by (simp_all add: next_char_def consume_or_cases)
    show ?thesis
    proof (cases "is_whitespace u c")
      case True
      then have "outcome (copied (list_all (is_whitespace u)) (s @ [c]) ?it) (\<lambda>m. False) (space_loop u ?it (s @ [c]))"
        using "1.IH" [OF _ c refl] n by simp
      from outcome_copied_step [OF this] Cons True show ?thesis
        by (subst space_loop.simps) (simp add: n c)
    next
      case False
      then show ?thesis by (subst space_loop.simps) (simp add: n copied_refl)
    qed
  qed
qed

text \<open>Behind the letter of an escape.\<close>

lemma outcome_letter:
  assumes "cs_inner it = c # cs_inner it1" "cs_cur it1 = Some c"
  shows "c \<in> set simple_escapes \<Longrightarrow> copied (escape u k) s it (s @ [c], it1)"
    and "c = c_u \<Longrightarrow> c_u \<in> set (escape_letters k) \<Longrightarrow>
      outcome (copied (escape u k) s it) (\<lambda>m. bad_escape k m (cs_inner it)) (brace_loop it1 (s @ [c]))"
    and "c = c_x \<Longrightarrow>
      outcome (copied (escape u k) s it) (\<lambda>m. bad_escape k m (cs_inner it)) (hex_digits (hex_eof_message k) (hex_message k) 2 it1 (s @ [c]))"
    and "c = c_newline \<or> c = c_return \<Longrightarrow> c \<in> set (escape_letters k) \<Longrightarrow>
      outcome (copied (escape u k) s it) (\<lambda>m. bad_escape k m (cs_inner it)) (space_loop u it1 (s @ [c]))"
    and "c \<notin> set (escape_letters k) \<Longrightarrow> bad_escape k (unknown_message k) (cs_inner it)"
proof -
  show "copied (escape u k) s it (s @ [c], it1)" if "c \<in> set simple_escapes"
    using that assms escape_simple by (auto simp: copied_def reads_def)
  show "outcome (copied (escape u k) s it) (\<lambda>m. bad_escape k m (cs_inner it)) (brace_loop it1 (s @ [c]))"
    if "c = c_u" "c_u \<in> set (escape_letters k)"
    using that assms escape_unicode bad_unicode
    by (intro outcome_copied_step [OF outcome_brace_loop assms]) auto
  show "outcome (copied (escape u k) s it) (\<lambda>m. bad_escape k m (cs_inner it)) (hex_digits (hex_eof_message k) (hex_message k) 2 it1 (s @ [c]))"
    if "c = c_x"
  proof (rule outcome_copied_step [OF outcome_hex_digits assms])
    fix w assume "length w = 2 \<and> list_all hex w"
    then obtain a b where "w = [a, b]" "hex a" "hex b" by (auto simp: numeral_2_eq_2 length_Suc_conv)
    then show "escape u k (c # w)" using that escape_hex by simp
  next
    fix m assume "short_hex (hex_eof_message k) (hex_message k) 2 m (cs_inner it1)"
    then show "bad_escape k m (cs_inner it)"
      using that assms(1) bad_hex_eof bad_hex unfolding short_hex_def by fastforce
  qed
  show "outcome (copied (escape u k) s it) (\<lambda>m. bad_escape k m (cs_inner it)) (space_loop u it1 (s @ [c]))"
    if "c = c_newline \<or> c = c_return" "c \<in> set (escape_letters k)"
    using that escape_line by (intro outcome_copied_step [OF outcome_space_loop assms]) auto
  show "bad_escape k (unknown_message k) (cs_inner it)" if "c \<notin> set (escape_letters k)"
    using bad_letter [OF that] assms(1) by simp
qed

lemma outcome_escapes:
  "outcome (copied (escape u CharEscape) s it) (\<lambda>m. bad_escape CharEscape m (cs_inner it)) (char_escape it s)"
  "outcome (copied (escape u ByteEscape) s it) (\<lambda>m. bad_escape ByteEscape m (cs_inner it)) (byte_escape it s)"
  "outcome (copied (escape u StringEscape) s it) (\<lambda>m. bad_escape StringEscape m (cs_inner it)) (string_escape u it s)"
proof -
  have eof: "bad_escape k (eof_message k) (cs_inner it)" if "cs_inner it = []" for k
    using bad_eof that by simp
  show "outcome (copied (escape u CharEscape) s it) (\<lambda>m. bad_escape CharEscape m (cs_inner it)) (char_escape it s)"
    unfolding char_escape_def Let_def
  proof (rule outcome_consume_or, goal_cases)
    case (2 c it1)
    note l = outcome_letter(1-4) [OF 2, where k = CharEscape and u = u and s = s, simplified]
      outcome_letter(5) [OF 2, where k = CharEscape, simplified]
    show ?case unfolding prod.case
      by (intro outcome_if; use l in \<open>auto simp: simple_escapes_def\<close>)
  qed (use eof [of CharEscape] in simp)
  show "outcome (copied (escape u ByteEscape) s it) (\<lambda>m. bad_escape ByteEscape m (cs_inner it)) (byte_escape it s)"
    unfolding byte_escape_def Let_def
  proof (rule outcome_consume_or, goal_cases)
    case (2 c it1)
    note l = outcome_letter(1-4) [OF 2, where k = ByteEscape and u = u and s = s, simplified]
      outcome_letter(5) [OF 2, where k = ByteEscape, simplified]
    show ?case unfolding prod.case
      by (intro outcome_if; use l in \<open>auto simp: simple_escapes_def\<close>)
  qed (use eof [of ByteEscape] in simp)
  show "outcome (copied (escape u StringEscape) s it) (\<lambda>m. bad_escape StringEscape m (cs_inner it)) (string_escape u it s)"
    unfolding string_escape_def Let_def
  proof (rule outcome_consume_or, goal_cases)
    case (2 c it1)
    note l = outcome_letter(1-4) [OF 2, where k = StringEscape and u = u and s = s, simplified]
      outcome_letter(5) [OF 2, where k = StringEscape, simplified]
    show ?case unfolding prod.case
      by (intro outcome_if; use l in \<open>auto simp: simple_escapes_def\<close>)
  qed (use eof [of StringEscape] in simp)
qed

section \<open>Readers of literals\<close>

definition string_read :: "unicode \<Rightarrow> rstr \<Rightarrow> char_stream \<Rightarrow> rstr \<times> char_stream \<Rightarrow> bool" where
  "string_read u s it r \<longleftrightarrow> (\<exists>p. string_body u p \<and> fst r = s @ p @ [c_dquote] \<and> cs_inner it = p @ c_dquote # ahead (snd r))"

definition string_refused :: "unicode \<Rightarrow> rstr \<Rightarrow> string \<Rightarrow> bool" where
  "string_refused u s m \<longleftrightarrow> (\<exists>p. string_body u p \<and> (m = ''str eof'' \<and> s = p
     \<or> (\<exists>t. s = p @ c_backslash # t \<and> bad_escape StringEscape m t)))"

lemma string_item:
  assumes "\<And>p. string_body u p \<Longrightarrow> string_body u (w @ p)" "cs_inner it = w @ cs_inner it1"
  shows "string_read u (s @ w) it1 r \<Longrightarrow> string_read u s it r"
    and "string_refused u (cs_inner it1) m \<Longrightarrow> string_refused u (cs_inner it) m"
  using assms unfolding string_read_def string_refused_def by (metis append.assoc)+

lemma outcome_string_loop: "outcome (string_read u s it) (string_refused u (cs_inner it)) (string_loop u it s)"
proof (induction u it s rule: string_loop.induct)
  case (1 u it s)
  show ?case
  proof (subst string_loop.simps, rule outcome_consume_or, goal_cases)
    case 1
    then show ?case using body_end by (auto simp: string_refused_def)
  next
    case (2 c it1)
    then have c: "consume_or ''str eof'' it = Inr (c, it1)" by (simp add: consume_or_Inr)
    consider "c = c_dquote" | "c \<noteq> c_dquote" "c = c_backslash" | "c \<noteq> c_dquote" "c \<noteq> c_backslash" by blast
    then show ?case
    proof cases
      case 1
      then show ?thesis using 2 body_end by (auto simp: string_read_def Let_def intro!: exI [of _ "[]"])
    next
      case esc: 2
      have "outcome (string_read u s it) (string_refused u (cs_inner it))
          (and_then (string_escape u it1 (s @ [c])) (\<lambda>(spelling, it). string_loop u it spelling))"
      proof (rule outcome_bind [OF outcome_escapes(3) [of u]], goal_cases)
        case (1 m)
        then show ?case unfolding string_refused_def
          by (intro exI [of _ "[]"] exI [of _ "cs_inner it1"] conjI disjI2) (simp_all add: body_end esc 2(1))
      next
        case (2 x)
        then obtain e it2 where e: "x = (s @ c # e, it2)" "escape u StringEscape e" "reads it1 e it2"
          by (cases x) (auto simp: copied_def)
        have "cs_inner it = (c # e) @ cs_inner it2" using e(3) \<open>cs_inner it = c # cs_inner it1\<close> by (simp add: reads_def)
        moreover have "string_body u ((c # e) @ p)" if "string_body u p" for p
          using body_escaped [OF that e(2)] esc(2) by simp
        ultimately have "outcome (string_read u s it) (string_refused u (cs_inner it)) (string_loop u it2 (s @ c # e))"
          using string_item [of u "c # e" it it2]
          by (intro outcome_weaken [OF "1.IH"(1) [OF c refl refl esc]]) (use 2 e in auto)
        then show ?case using e by simp
      qed
      then show ?thesis using esc by (simp add: Let_def)
    next
      case 3
      then have "string_body u ([c] @ p)" if "string_body u p" for p using body_plain [OF that] by simp
      then have "outcome (string_read u s it) (string_refused u (cs_inner it)) (string_loop u it1 (s @ [c]))"
        using string_item [of u "[c]" it it1] 2(1)
        by (intro outcome_weaken [OF "1.IH"(2) [OF c refl refl 3]]) auto
      then show ?thesis using 3 by (simp add: Let_def)
    qed
  qed
qed

text \<open>Raw strings.\<close>

lemma outcome_count_hashes:
  "outcome (\<lambda>(m, d, it'). m = n + k \<and> reads it (replicate k c_hash) it'
      \<or> (\<exists>j < k. m = n + j \<and> d \<noteq> c_hash \<and> reads it (replicate j c_hash @ [d]) it'))
    (\<lambda>msg. msg = ''rawstr eof'' \<and> (\<exists>j < k. cs_inner it = replicate j c_hash)) (count_hashes k n c it)"
proof (induction k n c it rule: count_hashes.induct)
  case (2 k n c it)
  show ?case
  proof (subst count_hashes.simps, rule outcome_consume_or, goal_cases)
    case 1
    then show ?case by auto
  next
    case (2 e it1)
    then have e: "consume_or ''rawstr eof'' it = Inr (e, it1)" by (simp add: consume_or_Inr)
    note r = reads_trans [OF reads_consume_or [OF e]]
    show ?case
    proof (cases "e = c_hash")
      case True
      have "outcome (\<lambda>(m, d, it'). m = n + Suc k \<and> reads it (replicate (Suc k) c_hash) it'
          \<or> (\<exists>j < Suc k. m = n + j \<and> d \<noteq> c_hash \<and> reads it (replicate j c_hash @ [d]) it'))
        (\<lambda>msg. msg = ''rawstr eof'' \<and> (\<exists>j < Suc k. cs_inner it = replicate j c_hash)) (count_hashes k (n + 1) e it1)"
      proof (rule outcome_weaken [OF "2.IH" [OF e refl]], goal_cases)
        case (2 x)
        then obtain m d it' where x: "x = (m, d, it')" by (cases x) auto
        from 2 consider "m = n + 1 + k" "reads it1 (replicate k c_hash) it'"
          | j where "j < k" "m = n + 1 + j" "d \<noteq> c_hash" "reads it1 (replicate j c_hash @ [d]) it'" by (auto simp: x)
        then show ?case
        proof cases
          case 1
          then show ?thesis using r True x by fastforce
        next
          case 2
          then have "Suc j < Suc k \<and> m = n + Suc j \<and> d \<noteq> c_hash \<and> reads it (replicate (Suc j) c_hash @ [d]) it'"
            using r [of "replicate j c_hash @ [d]" it'] True by simp
          then show ?thesis using x by blast
        qed
      next
        case (3 msg)
        then obtain j where "j < k" "cs_inner it1 = replicate j c_hash" by auto
        then show ?case using 2(1) 3 True by (intro conjI exI [of _ "Suc j"]) auto
      qed (use True in simp)
      then show ?thesis using True by simp
    next
      case False
      then show ?thesis using reads_consume_or [OF e] by (auto intro!: exI [of _ "0::nat"])
    qed
  qed
qed simp

definition raw_read :: "nat \<Rightarrow> rstr \<Rightarrow> char_stream \<Rightarrow> rstr \<times> char_stream \<Rightarrow> bool" where
  "raw_read n s it r \<longleftrightarrow> (\<exists>p. raw_body n p \<and> fst r = s @ p \<and> reads it (p @ c_dquote # replicate n c_hash) (snd r))"

definition raw_refused :: "nat \<Rightarrow> rstr \<Rightarrow> string \<Rightarrow> bool" where
  "raw_refused n s m \<longleftrightarrow> (\<exists>p. raw_body n p \<and> (m = ''Rawstr eof'' \<and> s = p
     \<or> (\<exists>k < n. m = ''rawstr eof'' \<and> s = p @ c_dquote # replicate k c_hash)))"

lemma raw_item:
  assumes "\<And>p. raw_body n p \<Longrightarrow> raw_body n (w @ p)" "reads it w it1"
  shows "raw_read n (s @ w) it1 r \<Longrightarrow> raw_read n s it r"
    and "raw_refused n (cs_inner it1) m \<Longrightarrow> raw_refused n (cs_inner it) m"
proof -
  assume "raw_read n (s @ w) it1 r"
  then obtain p where "raw_body n p" "fst r = s @ w @ p" "reads it1 (p @ c_dquote # replicate n c_hash) (snd r)"
    by (auto simp: raw_read_def)
  then have "raw_body n (w @ p)" "fst r = s @ w @ p" "reads it ((w @ p) @ c_dquote # replicate n c_hash) (snd r)"
    using assms(1) reads_trans [OF assms(2)] by auto
  then show "raw_read n s it r" unfolding raw_read_def by blast
next
  have "cs_inner it = w @ cs_inner it1" using assms(2) by (simp add: reads_def)
  then show "raw_refused n (cs_inner it1) m \<Longrightarrow> raw_refused n (cs_inner it) m"
    using assms(1) unfolding raw_refused_def by (metis append.assoc)
qed

lemma outcome_raw_loop: "outcome (raw_read n s it) (raw_refused n (cs_inner it)) (raw_loop n it s)"
proof (induction n it s rule: raw_loop.induct)
  case (1 n it s)
  show ?case
  proof (subst raw_loop.simps, rule outcome_consume_or, goal_cases)
    case 1
    then show ?case using raw_end by (auto simp: raw_refused_def)
  next
    case (2 c it1)
    then have c: "consume_or ''Rawstr eof'' it = Inr (c, it1)" by (simp add: consume_or_Inr)
    note r1 = reads_consume_or [OF c]
    show ?case
    proof (cases "c = c_dquote")
      case quote: True
      have "outcome (raw_read n s it) (raw_refused n (cs_inner it)) (and_then (count_hashes n 0 c it1) (\<lambda>(hashes, c, it).
         if hashes \<noteq> n then raw_loop n it (s @ [c_dquote] @ replicate hashes c_hash @ [c]) else Inr (s, it)))"
      proof (rule outcome_bind [OF outcome_count_hashes], goal_cases)
        case (1 m)
        then show ?case using 2(1) quote raw_end unfolding raw_refused_def by (intro exI [of _ "[]"]) auto
      next
        case count: (2 x)
        obtain h d it2 where x: "x = (h, d, it2)" by (cases x) auto
        have n: "count_hashes n 0 c it1 = Inr (h, d, it2)" using count x by simp
        show ?case
        proof (cases "h = n")
          case True
          then have "reads it1 (replicate n c_hash) it2" using count(2) x by auto
          then have "raw_read n s it (s, it2)"
            using reads_trans [OF r1] quote raw_end unfolding raw_read_def by (intro exI [of _ "[]"]) simp
          then show ?thesis using True x by simp
        next
          case False
          then have h: "h < n" "d \<noteq> c_hash" "reads it1 (replicate h c_hash @ [d]) it2" using count(2) x by auto
          let ?w = "c_dquote # replicate h c_hash @ [d]"
          have "reads it ?w it2" using reads_trans [OF r1 h(3)] quote by simp
          moreover have "raw_body n (?w @ p)" if "raw_body n p" for p using raw_quote [OF that h(1,2)] by simp
          ultimately have "outcome (raw_read n s it) (raw_refused n (cs_inner it)) (raw_loop n it2 (s @ [c_dquote] @ replicate h c_hash @ [d]))"
            using raw_item [of n ?w it it2]
            by (intro outcome_weaken [OF "1.IH"(1) [OF c refl quote n refl refl False]]) auto
          then show ?thesis using False x by simp
        qed
      qed
      then show ?thesis using quote by simp
    next
      case False
      then have "raw_body n ([c] @ p)" if "raw_body n p" for p using raw_plain [OF that] by simp
      then have "outcome (raw_read n s it) (raw_refused n (cs_inner it)) (raw_loop n it1 (s @ [c]))"
        using raw_item [of n "[c]" it it1] r1 by (intro outcome_weaken [OF "1.IH"(2) [OF c refl False]]) auto
      then show ?thesis using False by simp
    qed
  qed
qed

lemma outcome_hash_loop:
  "cs_cur it \<noteq> None \<Longrightarrow> outcome (\<lambda>(h, it'). n \<le> h \<and> ahead it = replicate (h - n) c_hash @ ahead it' \<and> cs_cur it' \<noteq> None)
     (\<lambda>m. m = ''rawstr eof'' \<and> (\<exists>k > 0. ahead it = replicate k c_hash)) (hash_loop it n)"
proof (induction it n rule: hash_loop.induct)
  case (1 it n)
  show ?case
  proof (cases "cs_cur it = Some c_hash")
    case True
    then have it: "ahead it = c_hash # cs_inner it" by (simp add: ahead_current)
    have "outcome (\<lambda>(h, it'). n \<le> h \<and> ahead it = replicate (h - n) c_hash @ ahead it' \<and> cs_cur it' \<noteq> None)
        (\<lambda>m. m = ''rawstr eof'' \<and> (\<exists>k > 0. ahead it = replicate k c_hash))
        (and_then (consume_or ''rawstr eof'' it) (\<lambda>(c, it). hash_loop it (n + 1)))"
    proof (rule outcome_consume_or, goal_cases)
      case 1
      then show ?case using it by (intro conjI exI [of _ "1::nat"]) auto
    next
      case (2 c it1)
      then have c: "consume_or ''rawstr eof'' it = Inr (c, it1)" by (simp add: consume_or_Inr)
      have it1: "ahead it = c_hash # ahead it1" using it 2 by (simp add: ahead_current)
      have "cs_cur it1 \<noteq> None" using 2 by simp
      from "1.IH" [OF True c refl this] show ?case unfolding prod.case
      proof (rule outcome_weaken, goal_cases)
        case (1 x)
        then show ?case using it1 by (auto simp: replicate_diff)
      next
        case (2 m)
        then obtain k where "ahead it1 = replicate k c_hash" by auto
        then show ?case using it1 2 by (intro conjI exI [of _ "Suc k"]) auto
      qed
    qed
    then show ?thesis using True by (subst hash_loop.simps) simp
  next
    case False
    then show ?thesis using 1 by (subst hash_loop.simps) simp
  qed
qed

section \<open>Branches\<close>

lemma and_then_assoc: "and_then (and_then m f) g = and_then m (\<lambda>x. and_then (f x) g)"
  by (cases m) simp_all

text \<open>A branch that refuses only texts it may, and one that never fails.\<close>

definition refuses :: "unicode \<Rightarrow> rstr \<Rightarrow> 'a lexed \<Rightarrow> bool" where
  "refuses u s m \<longleftrightarrow> outcome (\<lambda>_. True) (\<lambda>msg. rejects u msg s) m"

definition total :: "'a lexed \<Rightarrow> bool" where
  "total m \<longleftrightarrow> (\<exists>x. m = Inr x)"

lemma total_simps [simp]: "total (Inr x)"
  by (simp add: total_def)

lemma total_then: "total m \<Longrightarrow> (\<And>x. m = Inr x \<Longrightarrow> total (f x)) \<Longrightarrow> total (and_then m f)"
  by (auto simp: total_def)

lemma total_refuses: "total m \<Longrightarrow> refuses u s m"
  by (auto simp: total_def refuses_def)

lemma refuses_simps [simp]: "refuses u s (Inr x)" "refuses u s (err msg) \<longleftrightarrow> rejects u msg s"
  by (simp_all add: refuses_def)

lemma refuses_if: "(b \<Longrightarrow> refuses u s m) \<Longrightarrow> (\<not> b \<Longrightarrow> refuses u s m') \<Longrightarrow> refuses u s (if b then m else m')"
  by simp

lemma refuses_bind:
  "outcome Q R m \<Longrightarrow> (\<And>msg. R msg \<Longrightarrow> rejects u msg s) \<Longrightarrow> (\<And>x. m = Inr x \<Longrightarrow> Q x \<Longrightarrow> refuses u s (f x)) \<Longrightarrow> refuses u s (and_then m f)"
  unfolding refuses_def by (rule outcome_bind)

lemma refuses_total: "total m \<Longrightarrow> (\<And>x. m = Inr x \<Longrightarrow> refuses u s (f x)) \<Longrightarrow> refuses u s (and_then m f)"
  by (auto simp: total_def)

lemma call_site_True [simp]: "call_site True = Inr 2"
  by (simp add: call_site_def require_available_def)

lemma total_made [simp]: "total (mk_ident True name)" "total (mk_punct True c sep)" "total (push_ident True x)"
  by (cases x; simp add: mk_ident_def mk_punct_def push_ident_def)+

lemma total_get_ident: "cs_cur it \<noteq> None \<Longrightarrow> total (get_ident u it s)"
  by (auto simp: get_ident_def current_def)

lemma total_named: "cs_cur it \<noteq> None \<Longrightarrow> total (and_then (get_ident u it s) (push_ident True))"
  by (intro total_then total_get_ident) simp_all

lemma refuses_literal:
  assumes "from_spelling w 2 = None \<Longrightarrow> rejects u ''Malformed literal'' s"
  shows "refuses u s (push_literal True (w, it))"
  using assms by (cases "from_spelling w 2") (simp_all add: push_literal_def spelled_def refuses_def err_def outcome_def)

lemma total_push_hashes: "total (push_hashes True n)"
  by (induction n) (auto intro!: total_then)

lemma total_raw_name: "raw_prefix p \<Longrightarrow> total (mk_new_ident u True p)"
  by (auto simp: mk_new_ident_def ident_new_def validate_ident_def is_alphabetic_def ascii_alphabetic_def
      ident_char_def is_alphanumeric_def utf8_char_def)

lemma total_not_raw:
  assumes "raw_prefix p" "cs_cur it \<noteq> None"
  shows "total (lex_not_raw u True p h it)"
proof -
  have "total (and_then (mk_new_ident u True p) (\<lambda>t. Inr ([t], it)))"
    using total_raw_name [OF assms(1)] by (intro total_then) simp_all
  then have "total (if h = 0 then and_then (get_ident u it p) (push_ident True)
      else and_then (mk_new_ident u True p) (\<lambda>t. Inr ([t], it)))"
    using total_named [OF assms(2)] by simp
  then show ?thesis
    unfolding lex_not_raw_def by (intro total_then) (auto simp: total_push_hashes intro: total_then split: prod.splits)
qed

lemma refuses_lex_raw:
  assumes p: "raw_prefix p" and src: "s = p @ cs_inner it"
  shows "refuses u s (lex_raw u True p it)"
proof (cases "cs_cur (consume it) = None")
  case True
  then show ?thesis
    using total_raw_name [OF p] by (auto simp: lex_raw_def intro!: total_refuses total_then)
next
  case cur: False
  let ?body = "\<lambda>h it2. if cs_cur it2 \<noteq> Some c_dquote then lex_not_raw u True p h it2
       else and_then (raw_loop h it2 []) (\<lambda>(raw, it3). push_literal True
         (p @ replicate h c_hash @ [c_dquote] @ raw @ [c_dquote] @ replicate h c_hash, consume it3))"
  have "refuses u s (and_then (hash_loop (consume it) 0) (\<lambda>(h, it2). ?body h it2))"
  proof (rule refuses_bind [OF outcome_hash_loop [OF cur]], goal_cases)
    case (1 m)
    then show ?case using raw_hashes [OF p] src by auto
  next
    case (2 x)
    then obtain h it2 where x: "x = (h, it2)" "cs_inner it = replicate h c_hash @ ahead it2" "cs_cur it2 \<noteq> None" by auto
    show ?case
    proof (cases "cs_cur it2 = Some c_dquote")
      case False
      then show ?thesis using total_not_raw [OF p x(3)] x(1) by (simp add: total_refuses)
    next
      case True
      then have s2: "s = p @ replicate h c_hash @ c_dquote # cs_inner it2" using src x(2) by (simp add: ahead_current)
      have "refuses u s (and_then (raw_loop h it2 []) (\<lambda>(raw, it3). push_literal True
         (p @ replicate h c_hash @ [c_dquote] @ raw @ [c_dquote] @ replicate h c_hash, consume it3)))"
      proof (rule refuses_bind [OF outcome_raw_loop], goal_cases)
        case (1 m)
        then show ?case using s2 raw_eof [OF p] raw_short [OF p] unfolding raw_refused_def by auto
      next
        case (2 y)
        then obtain raw it3 where y: "y = (raw, it3)" "raw_body h raw" "cs_inner it2 = raw @ c_dquote # replicate h c_hash @ cs_inner it3"
          by (cases y) (auto simp: raw_read_def reads_def)
        show ?case using raw_malformed [OF p y(2) refl] s2 y
          by (auto intro!: refuses_literal)
      qed
      then show ?thesis using True x(1) by simp
    qed
  qed
  then show ?thesis unfolding lex_raw_def Let_def if_not_P [OF cur] by simp
qed

text \<open>Characters: what stands behind the character or escape.\<close>

lemma lifetime_simps [simp]: "\<not> lifetime u (c_b # s)" "\<not> lifetime u (c_squote # c_backslash # s)"
  by (auto simp: lifetime_def is_alphabetic_def ascii_alphabetic_def)

lemma refuses_lex_char:
  assumes "cs_cur it = Some c" "\<not> lifetime u (c_squote # c # cs_inner it)"
  shows "refuses u (c_squote # c # cs_inner it) (and_then (lex_char it c) (push_literal True))"
proof -
  let ?s = "c_squote # c # cs_inner it"
  let ?close = "\<lambda>(spelling, it). case cs_cur (consume it) of
         Some c \<Rightarrow> if c = c_squote then Inr (spelling @ [c_squote], consume (consume it)) else err ''Multiple characters in char literal''
       | None \<Rightarrow> err ''Unterminated char literal''"
  have closing: "refuses u ?s (and_then (?close (c_squote # i, it1)) (push_literal True))"
    if i: "one_char u CharEscape i" "?s = c_squote # i @ cs_inner it1" for i it1
  proof (cases "cs_inner it1")
    case Nil
    then show ?thesis using char_eof [of CharEscape i u] i assms(2) by (simp add: consume_def err_def refuses_def outcome_def)
  next
    case (Cons d r)
    then have d: "cs_cur (consume it1) = Some d" by (simp add: consume_def)
    show ?thesis
    proof (cases "d = c_squote")
      case True
      have "refuses u ?s (push_literal True (c_squote # i @ [c_squote], consume (consume it1)))"
        using char_malformed [of CharEscape u i r] i Cons True by (intro refuses_literal) simp
      then show ?thesis using d True by simp
    next
      case False
      then show ?thesis using d char_many [of CharEscape u i d r] i assms(2) Cons by (simp add: err_def refuses_def outcome_def)
    qed
  qed
  have "refuses u ?s (and_then (and_then (if c = c_backslash then char_escape it [c_squote, c] else Inr ([c_squote, c], it)) ?close) (push_literal True))"
  proof (cases "c = c_backslash")
    case False
    then show ?thesis using closing [of "[c]" it] char_plain [OF False, of CharEscape u] by simp
  next
    case True
    have "refuses u ?s (and_then (char_escape it [c_squote, c]) (\<lambda>x. and_then (?close x) (push_literal True)))"
    proof (rule refuses_bind [OF outcome_escapes(1) [of u]], goal_cases)
      case (1 m)
      then show ?case using char_escape [of CharEscape m "cs_inner it" u] True by simp
    next
      case (2 x)
      then obtain e it1 where e: "x = (c_squote # c_backslash # e, it1)" "escape u CharEscape e" "cs_inner it = e @ cs_inner it1"
        using True by (cases x) (auto simp: copied_def reads_def)
      then show ?case using closing [of "c_backslash # e" it1] char_escaped [OF e(2)] True by simp
    qed
    then show ?thesis using True by (simp add: and_then_assoc)
  qed
  then show ?thesis by (simp add: lex_char_def Let_def case_prod_unfold)
qed

lemma refuses_byte_char: "refuses u (c_b # c_squote # cs_inner it) (lex_byte_char True True it)"
proof -
  let ?s = "c_b # c_squote # cs_inner it"
  let ?close = "\<lambda>(spelling, it). case cs_cur (consume it) of
         Some c \<Rightarrow> if c = c_squote then push_literal True (spelling @ [c_squote], consume (consume it))
           else err ''Multiple characters in byte character literal''
       | None \<Rightarrow> err ''Unterminated byte character literal''"
  have closing: "refuses u ?s (?close (c_b # c_squote # i, it1))"
    if i: "one_char u ByteEscape i" "cs_inner it = i @ cs_inner it1" for i it1
  proof (cases "cs_inner it1")
    case Nil
    then show ?thesis using char_eof [of ByteEscape i u] i by (simp add: consume_def)
  next
    case (Cons d r)
    then have d: "cs_cur (consume it1) = Some d" by (simp add: consume_def)
    show ?thesis
    proof (cases "d = c_squote")
      case True
      have "refuses u ?s (push_literal True (c_b # c_squote # i @ [c_squote], consume (consume it1)))"
        using char_malformed [of ByteEscape u i r] i Cons True by (intro refuses_literal) simp
      then show ?thesis using d True by simp
    next
      case False
      then show ?thesis using d char_many [of ByteEscape u i d r] i Cons by simp
    qed
  qed
  have "refuses u ?s (and_then (consume_or ''Unterminated byte character literal'' it) (\<lambda>(c, it).
        and_then (if c = c_backslash then byte_escape it [c_b, c_squote, c]
          else if c \<le> 0x7F \<and> c \<noteq> c_newline \<and> c \<noteq> c_return then Inr ([c_b, c_squote, c], it)
          else err ''Invalid byte character literal'') ?close))"
    unfolding refuses_def
  proof (rule outcome_consume_or, goal_cases)
    case 1
    then show ?case using char_eof [of ByteEscape "[]" u] by simp
  next
    case (2 c it1)
    consider "c = c_backslash" | "c \<noteq> c_backslash" "c \<le> 0x7F \<and> c \<noteq> c_newline \<and> c \<noteq> c_return"
      | "c \<noteq> c_backslash" "\<not> (c \<le> 0x7F \<and> c \<noteq> c_newline \<and> c \<noteq> c_return)" by blast
    then have "refuses u ?s (and_then (if c = c_backslash then byte_escape it1 [c_b, c_squote, c]
          else if c \<le> 0x7F \<and> c \<noteq> c_newline \<and> c \<noteq> c_return then Inr ([c_b, c_squote, c], it1)
          else err ''Invalid byte character literal'') ?close)"
    proof cases
      case 1
      have "refuses u ?s (and_then (byte_escape it1 [c_b, c_squote, c]) ?close)"
      proof (rule refuses_bind [OF outcome_escapes(2) [of u]], goal_cases)
        case (1 m)
        then show ?case using char_escape [of ByteEscape m "cs_inner it1" u] \<open>c = c_backslash\<close> 2(1) by simp
      next
        case (2 x)
        then obtain e it2 where e: "x = (c_b # c_squote # c_backslash # e, it2)" "escape u ByteEscape e" "cs_inner it1 = e @ cs_inner it2"
          using \<open>c = c_backslash\<close> by (cases x) (auto simp: copied_def reads_def)
        then show ?case
          using closing [of "c_backslash # e" it2] char_escaped [OF e(2)] \<open>c = c_backslash\<close> \<open>cs_inner it = c # cs_inner it1\<close>
          by simp
      qed
      then show ?thesis using 1 by simp
    next
      case plain: 2
      then show ?thesis using closing [of "[c]" it1] char_plain [OF plain(1), of ByteEscape u] 2(1) by simp
    next
      case 3
      then have "rejects u ''Invalid byte character literal'' ?s" using char_byte [of c u "cs_inner it1"] 2(1) by auto
      then show ?thesis unfolding if_not_P [OF 3(1)] if_not_P [OF 3(2)] by (simp add: err_def refuses_def outcome_def)
    qed
    then show ?case by (simp add: refuses_def)
  qed
  then show ?thesis by (simp add: lex_byte_char_def Let_def case_prod_unfold)
qed

lemma refuses_lex_quote:
  assumes "cs_cur it = Some c_squote"
  shows "refuses u (ahead it) (lex_quote u True it)"
  unfolding lex_quote_def refuses_def
proof (rule outcome_consume_or, goal_cases)
  case 1
  then show ?case using char_eof [of CharEscape "[]" u] assms by (simp add: ahead_current lifetime_def)
next
  case (2 c it1)
  then have s: "ahead it = c_squote # c # cs_inner it1" using assms by (simp add: ahead_current)
  let ?named = "(is_alphabetic u c \<or> c = c_underscore) \<and> (case next_char it1 of Some x \<Rightarrow> x \<noteq> c_squote | None \<Rightarrow> True)"
  have "lifetime u (ahead it) \<longleftrightarrow> ?named"
    using s by (auto simp: lifetime_def next_char_def split: list.splits)
  moreover have "total (lex_lifetime u True it1)"
    unfolding lex_lifetime_def using total_get_ident [of it1 u "[]"] 2(2) by (auto intro!: total_then)
  ultimately show ?case
    using refuses_lex_char [OF 2(2), of u] s total_refuses [of "lex_lifetime u True it1" u "ahead it"]
    unfolding refuses_def prod.case by (intro outcome_if) simp_all
qed

text \<open>Prefixed literals and names.\<close>

lemma refuses_string:
  assumes pre: "string_prefix pre" and src: "s = pre @ c_dquote # cs_inner it"
  shows "refuses u s (and_then (string_loop u it (pre @ [c_dquote])) (push_literal True))"
proof (rule refuses_bind [OF outcome_string_loop], goal_cases)
  case (1 m)
  then show ?case using src string_eof [OF pre] string_escape [OF pre] unfolding string_refused_def by auto
next
  case (2 x)
  then obtain p it1 where x: "x = (pre @ c_dquote # p @ [c_dquote], it1)" "string_body u p" "cs_inner it = p @ c_dquote # ahead it1"
    by (cases x) (auto simp: string_read_def)
  then show ?case using string_malformed [OF pre x(2)] src by (auto intro!: refuses_literal)
qed

lemma refuses_after_prefix:
  assumes "cs_cur it = Some c" "prefix = Some c_b \<or> prefix = Some c_c \<or> (prefix = None \<and> (c = c_r \<or> c = c_dquote))"
    "s = (case prefix of Some p \<Rightarrow> [p] | None \<Rightarrow> []) @ ahead it"
  shows "refuses u s (lex_after_prefix u True prefix c it)"
proof -
  let ?p = "case prefix of Some p \<Rightarrow> [p] | None \<Rightarrow> []"
  have s: "s = ?p @ c # cs_inner it" using assms(1,3) by (simp add: ahead_current)
  consider "c = c_r" | "c = c_squote" | "c = c_dquote" | "c \<notin> {c_r, c_squote, c_dquote}" by blast
  then show ?thesis
  proof cases
    case 1
    then have "refuses u s (lex_raw u True (?p @ [c_r]) it)"
      using assms(2) s by (intro refuses_lex_raw) auto
    then show ?thesis using 1 assms(2) by (auto simp: lex_after_prefix_def Let_def)
  next
    case 2
    have "total (lex_byte_char True False it)" by (auto simp: lex_byte_char_def intro: total_then)
    then show ?thesis
      using 2 assms(2) s refuses_byte_char [of u it] by (auto simp: lex_after_prefix_def Let_def total_refuses)
  next
    case 3
    then have "refuses u s (and_then (string_loop u it (?p @ [c_dquote])) (push_literal True))"
      using assms(2) s by (intro refuses_string) auto
    then show ?thesis using 3 assms(2) by (auto simp: lex_after_prefix_def Let_def)
  next
    case 4
    then show ?thesis using total_named [of it u ?p] assms(1) by (auto simp: lex_after_prefix_def Let_def total_refuses)
  qed
qed

lemma refuses_prefixed:
  assumes "cs_cur it = Some c" "c = c_b \<or> c = c_c \<or> c = c_r \<or> c = c_dquote"
  shows "refuses u (ahead it) (lex_prefixed u True it c)"
proof (cases "c = c_b \<or> c = c_c")
  case True
  show ?thesis
  proof (cases "cs_cur (consume it)")
    case None
    then show ?thesis using True by (auto simp: lex_prefixed_def Let_def intro!: total_refuses total_then)
  next
    case (Some d)
    have "ahead it = [c] @ ahead (consume it)" using assms(1) by (simp add: ahead_current)
    then have "refuses u (ahead it) (lex_after_prefix u True (Some c) d (consume it))"
      using refuses_after_prefix [OF Some, of "Some c"] True by auto
    then show ?thesis using Some True by (simp add: lex_prefixed_def Let_def)
  qed
next
  case False
  then show ?thesis
    using refuses_after_prefix [OF assms(1), of None "ahead it" u] assms(2) by (simp add: lex_prefixed_def)
qed

section \<open>Numbers\<close>

text \<open>Runs of characters, up to the first that does not belong.\<close>

definition runs :: "(rchar \<Rightarrow> bool) \<Rightarrow> rstr \<Rightarrow> char_stream \<Rightarrow> rstr \<times> char_stream \<Rightarrow> rstr \<Rightarrow> bool" where
  "runs P s it r w \<longleftrightarrow> fst r = s @ w \<and> ahead it = w @ ahead (snd r) \<and> list_all P w \<and> no_more P (ahead (snd r))"

lemma runs_step:
  assumes "cs_cur it = Some c" "P c" "runs P (s @ [c]) (consume it) r w"
  shows "runs P s it r (c # w)"
  using assms by (auto simp: runs_def ahead_current)

lemma runs_stop: "cs_cur it = None \<or> (\<exists>c. cs_cur it = Some c \<and> \<not> P c) \<Longrightarrow> runs P s it (s, it) []"
  by (auto simp: runs_def no_more_def ahead_def)

lemma ident_loop_runs: "\<exists>w. runs (ident_more u) s it (ident_loop u it s) w"
proof (induction u it s rule: ident_loop.induct)
  case (1 u it s)
  show ?case
  proof (cases "\<exists>c. cs_cur it = Some c \<and> ident_more u c")
    case True
    then obtain c where c: "cs_cur it = Some c" "ident_more u c" by blast
    obtain w where w: "runs (ident_more u) (s @ [c]) (consume it) (ident_loop u (consume it) (s @ [c])) w" using "1.IH" [OF c] by blast
    have "ident_loop u it s = ident_loop u (consume it) (s @ [c])" using c by (subst ident_loop.simps) simp
    then show ?thesis using runs_step [where P = "ident_more u", OF c w] by auto
  next
    case False
    then show ?thesis using runs_stop [of it "ident_more u" s] by (subst ident_loop.simps) (auto split: option.splits)
  qed
qed

lemma digit_run_runs: "\<exists>w. runs number_char s it (digit_run it s) w"
proof (induction it s rule: digit_run.induct)
  case (1 it s)
  show ?case
  proof (cases "\<exists>c. cs_cur it = Some c \<and> number_char c")
    case True
    then obtain c where c: "cs_cur it = Some c" "number_char c" by blast
    obtain w where w: "runs number_char (s @ [c]) (consume it) (digit_run (consume it) (s @ [c])) w" using "1.IH" [OF c] by blast
    have "digit_run it s = digit_run (consume it) (s @ [c])" using c by (subst digit_run.simps) auto
    then show ?thesis using runs_step [where P = number_char, OF c w] by auto
  next
    case False
    then show ?thesis using runs_stop [of it number_char s] by (subst digit_run.simps) (auto split: option.splits)
  qed
qed

lemma exponent_run_runs:
  "exponent_run it s b = (s', it', b') \<Longrightarrow> \<exists>w. runs number_char s it (s', it') w \<and> (b' \<or> \<not> b \<and> list_all (\<lambda>c. c = c_underscore) w)"
proof (induction it s b rule: exponent_run.induct)
  case (1 it s b)
  show ?case
  proof (cases "\<exists>c. cs_cur it = Some c \<and> number_char c")
    case False
    then show ?thesis using "1.prems" runs_stop [of it number_char s]
      by (subst (asm) exponent_run.simps) (auto split: option.splits if_splits)
  next
    case True
    then obtain c where c: "cs_cur it = Some c" "number_char c" by blast
    show ?thesis
    proof (cases "c = c_underscore")
      case True
      then have "exponent_run (consume it) (s @ [c]) b = (s', it', b')" using "1.prems" c by (subst (asm) exponent_run.simps) auto
      from "1.IH"(1) [OF c(1) True this] obtain w where
        w: "runs number_char (s @ [c]) (consume it) (s', it') w" "b' \<or> \<not> b \<and> list_all (\<lambda>c. c = c_underscore) w" by auto
      then show ?thesis using runs_step [OF c w(1)] True by (intro exI [of _ "c # w"]) auto
    next
      case False
      then have "exponent_run (consume it) (s @ [c]) True = (s', it', b')" using "1.prems" c by (subst (asm) exponent_run.simps) auto
      from "1.IH"(2) [OF c(1) False _ this] c(2) False obtain w where
        w: "runs number_char (s @ [c]) (consume it) (s', it') w" "b'" by auto
      then show ?thesis using runs_step [OF c w(1)] by blast
    qed
  qed
qed

lemma get_ident_runs:
  assumes "cs_cur it = Some c" "ident_more u c"
  obtains w it' where "get_ident u it [] = Inr (c # w, it')" "word_run u (c # w) (ahead it')" "ahead it = c # w @ ahead it'"
proof -
  obtain s it' where r: "ident_loop u it [] = (s, it')" by (cases "ident_loop u it []")
  then have w: "ahead it = s @ ahead it'" "list_all (ident_more u) s" "no_more (ident_more u) (ahead it')"
    using ident_loop_runs [of u "[]" it] by (auto simp: runs_def)
  have c: "ahead it = c # cs_inner it" using assms(1) by (rule ahead_current)
  have "s \<noteq> []"
  proof
    assume "s = []"
    then have "ahead it' = c # cs_inner it" using w(1) c by simp
    then show False using w(3) assms(2) by (simp add: no_more_def)
  qed
  then obtain w' where s: "s = c # w'" using w(1) c by (cases s) auto
  have "get_ident u it [] = Inr (c # w', it')" using assms(1) r s by (simp add: get_ident_def)
  moreover have "word_run u (c # w') (ahead it')" using w s by (simp add: word_run_def)
  moreover have "ahead it = c # w' @ ahead it'" using w(1) s by simp
  ultimately show thesis by (rule that)
qed

text \<open>The suffix of a float, its exponent and its fraction.\<close>

lemma refuses_float_suffix:
  assumes "number_head 10 h" "fraction f" "exponent x" "s = h @ f @ x @ ahead it"
  shows "outcome (\<lambda>r. number (fst r) \<and> s = fst r @ ahead (snd r)) (\<lambda>m. rejects u m s) (float_suffix u it (h @ f @ x))"
proof (cases "cs_cur it")
  case None
  then show ?thesis using number_float [OF assms(1-3), of "[]"] assms(4) by (simp add: float_suffix_def)
next
  case (Some c)
  consider "c = c_f" | "c \<noteq> c_f" "c = c_underscore \<or> is_alphabetic u c" | "c \<noteq> c_f" "\<not> (c = c_underscore \<or> is_alphabetic u c)" by blast
  then show ?thesis
  proof cases
    case 1
    then have "is_alphabetic u c" by (simp add: is_alphabetic_def ascii_alphabetic_def)
    then obtain w it' where w: "get_ident u it [] = Inr (c # w, it')" "word_run u (c # w) (ahead it')" "ahead it = (c # w) @ ahead it'"
      using get_ident_runs [OF Some, of u] by (auto simp: ident_more_def is_alphanumeric_def)
    have bad: "c # w \<notin> {str ''f32'', str ''f64''} \<Longrightarrow> rejects u ''Unexpected float suffix'' s"
      using number_bad_float [OF assms(1-3) w(2)] \<open>is_alphabetic u c\<close> assms(4) w(3) by simp
    have good: "c # w = str ''f32'' \<or> c # w = str ''f64'' \<Longrightarrow> number (h @ f @ x @ c # w)"
      using number_float [OF assms(1-3), of "c # w"] by simp
    show ?thesis
      unfolding float_suffix_def Some option.case if_P [OF 1] w(1) and_then_simps prod.case
      by (intro outcome_if) (use good bad assms(4) w(3) in auto)
  next
    case 2
    then have "ident_more u c" by (auto simp: ident_more_def is_alphanumeric_def)
    then obtain w it' where w: "word_run u (c # w) (ahead it')" "ahead it = (c # w) @ ahead it'"
      using get_ident_runs [OF Some, of u] by (metis append_Cons)
    have "c # w \<notin> {str ''f32'', str ''f64''}" using 2(1) by (auto simp: str_def)
    then have "rejects u ''Unexpected float suffix'' s"
      using number_bad_float [OF assms(1-3) w(1)] 2(2) assms(4) w(2) by auto
    then show ?thesis unfolding float_suffix_def Some option.case if_not_P [OF 2(1)] if_P [OF 2(2)] by simp
  next
    case 3
    then show ?thesis using number_float [OF assms(1-3), of "[]"] assms(4) Some
      unfolding float_suffix_def Some option.case if_not_P [OF 3(1)] if_not_P [OF 3(2)] by simp
  qed
qed

lemma outcome_float_exponent:
  "outcome (\<lambda>r. \<exists>x. exponent x \<and> fst r = s @ x \<and> ahead it = x @ ahead (snd r))
     (\<lambda>m. m = ''Missing digits in float exponent'' \<and> (\<exists>x w rest. exponent_start x \<and> list_all (\<lambda>c. c = c_underscore) w
       \<and> no_more number_char rest \<and> ahead it = x @ w @ rest)) (float_exponent it s)"
proof (cases "cs_cur it = Some c_e \<or> cs_cur it = Some c_E")
  case True
  then obtain e where e: "cs_cur it = Some e" "e = c_e \<or> e = c_E" by blast
  define p where "p = (case cs_cur (consume it) of
      Some z \<Rightarrow> if z = c_plus \<or> z = c_minus then (s @ [e] @ [z], consume (consume it)) else (s @ [e], consume it)
    | None \<Rightarrow> (s @ [e], consume it))"
  obtain s1 it1 where p1: "p = (s1, it1)" by fastforce
  have "\<exists>z. exponent_start (e # z) \<and> s1 = s @ e # z \<and> ahead (consume it) = z @ ahead it1"
  proof (cases "\<exists>z. cs_cur (consume it) = Some z \<and> (z = c_plus \<or> z = c_minus)")
    case True
    then obtain z where "cs_cur (consume it) = Some z" "z = c_plus \<or> z = c_minus" by blast
    then show ?thesis using p1 e(2) by (intro exI [of _ "[z]"]) (auto simp: p_def exponent_start_def ahead_current dest: consume_current)
  next
    case False
    then show ?thesis using p1 e(2) by (intro exI [of _ "[]"]) (auto simp: p_def exponent_start_def split: option.splits)
  qed
  then obtain x where x: "exponent_start x" "s1 = s @ x" "ahead it = x @ ahead it1"
    using e(1) by (metis ahead_current ahead_consume append_Cons)
  obtain s2 it2 b where r: "exponent_run it1 s1 False = (s2, it2, b)" by (metis prod_cases3)
  obtain w where w: "s2 = s1 @ w" "ahead it1 = w @ ahead it2" "list_all number_char w" "no_more number_char (ahead it2)"
      "b \<or> list_all (\<lambda>c. c = c_underscore) w"
    using exponent_run_runs [OF r] by (auto simp: runs_def)
  have "float_exponent it s = (if \<not> b then err ''Missing digits in float exponent'' else Inr (s2, it2))"
    using e p1 r unfolding p_def float_exponent_def Let_def by (auto split: if_splits option.splits)
  moreover have "exponent (x @ w)" using x(1) w(3) by (auto simp: exponent_def)
  ultimately show ?thesis using x w by (cases b) (auto simp: err_def outcome_def)
next
  case False
  then have "float_exponent it s = Inr (s, it)" by (auto simp: float_exponent_def split: option.splits)
  then show ?thesis by (simp add: exponent_def)
qed

lemma refuses_float_part:
  assumes h: "number_head 10 h" and src: "s = h @ ahead it"
    and dot: "cs_cur it = Some c_dot \<Longrightarrow> \<not> (case next_char it of Some n \<Rightarrow> n = c_dot \<or> n = c_underscore \<or> is_alphabetic u n | None \<Rightarrow> False)"
  shows "outcome (\<lambda>r. number (fst r) \<and> s = fst r @ ahead (snd r)) (\<lambda>m. rejects u m s) (float_part u it h)"
proof -
  have rest: "outcome (\<lambda>r. number (fst r) \<and> s = fst r @ ahead (snd r)) (\<lambda>m. rejects u m s)
      (and_then (float_exponent it1 (h @ f)) (\<lambda>(spelling, it). float_suffix u it spelling))"
    if f: "fraction f" "s = h @ f @ ahead it1" for f it1
  proof (rule outcome_bind [OF outcome_float_exponent], goal_cases)
    case (1 m)
    then show ?case using number_no_exponent [OF h f(1)] f(2) by auto
  next
    case (2 r)
    then obtain x it2 where x: "r = (h @ f @ x, it2)" "exponent x" "ahead it1 = x @ ahead it2" by (cases r) auto
    then show ?case using refuses_float_suffix [OF h f(1) x(2)] f(2) by simp
  qed
  show ?thesis
  proof (cases "cs_cur it = Some c_dot")
    case False
    then show ?thesis using rest [of "[]" it] src by (simp add: float_part_def fraction_def)
  next
    case True
    obtain h1 it1 where run: "digit_run (consume it) (h @ [c_dot]) = (h1, it1)" by fastforce
    then obtain w where w: "h1 = h @ c_dot # w" "ahead (consume it) = w @ ahead it1" "list_all number_char w"
        "no_more number_char (ahead it1)"
      using digit_run_runs [of "h @ [c_dot]" "consume it"] by (auto simp: runs_def)
    have it: "ahead it = c_dot # w @ ahead it1" using True w(2) by (simp add: ahead_current)
    note part = float_part_def [of u it h, unfolded if_P [OF True] run Let_def prod.case w(1)]
    have after: "\<not> (n = c_dot \<or> n = c_underscore \<or> is_alphabetic u n)" if "cs_inner it = n # y" for n y
      using dot [OF True] that by (simp add: next_char_def)
    show ?thesis
    proof (cases w)
      case Nil
      have "\<not> (n = c_underscore \<or> is_alphabetic u n)" if "cs_cur it1 = Some n" for n
        using after [of n "cs_inner it1"] w(2) Nil that by (simp add: ahead_current)
      moreover have "is_alphabetic u c_e" "is_alphabetic u c_E" "is_alphabetic u c_f" by (simp_all add: is_alphabetic_def ascii_alphabetic_def)
      ultimately have "float_exponent it1 (h @ [c_dot]) = Inr (h @ [c_dot], it1)" "float_suffix u it1 (h @ [c_dot]) = Inr (h @ [c_dot], it1)"
        unfolding float_exponent_def float_suffix_def by (fastforce split: option.splits)+
      then show ?thesis using part number_point [OF h] src it Nil by simp
    next
      case (Cons d w')
      then have "ascii_digit d" using after [of d "w' @ ahead it1"] w(2,3) by auto
      then have "fraction (c_dot # w)" using Cons w(3) by (simp add: fraction_def)
      from rest [OF this] show ?thesis using part src it by simp
    qed
  qed
qed

lemma head_step: "number_head base h \<Longrightarrow> c = c_underscore \<or> to_digit base c \<noteq> None \<Longrightarrow> number_head base (h @ [c])"
  unfolding number_head_def
  by (elim exE conjE, rule_tac x = p in exI, rule_tac x = "w @ [c]" in exI) (auto simp: hd_append)

lemma refuses_int_loop:
  "number_head base h \<Longrightarrow> s = h @ ahead it \<Longrightarrow>
    outcome (\<lambda>r. number (fst r) \<and> s = fst r @ ahead (snd r)) (\<lambda>m. rejects u m s) (int_loop u base it h)"
proof (induction u base it h rule: int_loop.induct)
  case (1 u base it h)
  show ?case
  proof (cases "cs_cur it")
    case None
    then show ?thesis using 1 number_int by (subst int_loop.simps) auto
  next
    case (Some c)
    let ?goal = "outcome (\<lambda>r. number (fst r) \<and> s = fst r @ ahead (snd r)) (\<lambda>m. rejects u m s)"
    have s: "s = h @ c # cs_inner it" using 1 Some by (simp add: ahead_current)
    have on: "?goal (int_loop u base (consume it) (h @ [c]))" if "c = c_underscore \<or> (c \<noteq> c_underscore \<and> c \<noteq> c_u \<and> c \<noteq> c_i \<and> to_digit base c \<noteq> None)"
      using that head_step [OF "1.prems"(1), of c] s "1.IH"(1) [OF Some] "1.IH"(2) [OF Some] by auto
    have suffix: "?goal (and_then (get_ident u it []) (\<lambda>(x, it). if x \<in> set int_suffixes then Inr (h @ x, it) else err ''Unexpected integer suffix''))"
      if c: "c = c_u \<or> c = c_i"
    proof -
      have "ident_more u c" using c by (auto simp: ident_more_def is_alphanumeric_def is_alphabetic_def ascii_alphabetic_def)
      then obtain w it' where w: "get_ident u it [] = Inr (c # w, it')" "word_run u (c # w) (ahead it')" "ahead it = c # w @ ahead it'"
        using get_ident_runs [OF Some, of u] by metis
      have "s = h @ (c # w) @ ahead it'" using "1.prems"(2) w(3) by simp
      then show ?thesis
        unfolding w(1) and_then_simps prod.case
        using number_suffix [OF "1.prems"(1), of "c # w"] number_bad_suffix [OF "1.prems"(1) w(2)] c by (intro outcome_if) auto
    qed
    have stop: "?goal (Inr (h, it))" using 1 number_int by auto
    have float: "?goal (float_part u it h)" if "base = 10"
      "\<not> (c = c_dot \<and> (case next_char it of Some n \<Rightarrow> n = c_dot \<or> n = c_underscore \<or> is_alphabetic u n | None \<Rightarrow> False))"
      using refuses_float_part [of h s it u] "1.prems" Some that by simp
    show ?thesis
      by (subst int_loop.simps) (simp only: Some option.case, intro outcome_if; use on suffix stop float in blast)
  qed
qed

lemma refuses_digits:
  assumes "cs_cur it \<noteq> None" "outcome (\<lambda>r. number (fst r) \<and> s = fst r @ ahead (snd r)) (\<lambda>m. rejects u m s) (int_loop u base it h)"
  shows "refuses u s (and_then (current it) (\<lambda>_. and_then (int_loop u base it h) (push_literal True)))"
proof -
  have "refuses u s (and_then (int_loop u base it h) (push_literal True))"
  proof (rule refuses_bind [OF assms(2)], goal_cases)
    case (2 r)
    then show ?case using number_malformed [of "fst r" u "ahead (snd r)"] by (cases r) (auto intro!: refuses_literal)
  qed
  then show ?thesis using assms(1) by (auto simp: current_def)
qed

text \<open>The one panic of a number: nothing follows its radix.\<close>

definition bare_radix :: "rstr \<Rightarrow> bool" where
  "bare_radix s \<longleftrightarrow> (\<exists>x. s = [c_0, x] \<and> (x = c_x \<or> x = c_o \<or> x = c_b))"

lemma refuses_decimal:
  assumes "cs_cur it = Some c" "ascii_digit c"
  shows "refuses u (ahead it) (and_then (current it) (\<lambda>_. and_then (int_loop u 10 it []) (push_literal True)))"
proof -
  have "to_digit 10 c \<noteq> None" using assms(2) by (auto simp: to_digit_def ascii_digit_def)
  moreover have "number_head 10 [c]"
    unfolding number_head_def by (intro exI [of _ "[]"] exI [of _ "[c]"]) (use calculation assms(2) in auto)
  moreover have "int_loop u 10 it [] = int_loop u 10 (consume it) [c]"
    using assms calculation(1) by (subst int_loop.simps) (auto simp: ascii_digit_def)
  ultimately show ?thesis
    using refuses_int_loop [of 10 "[c]" "ahead it" "consume it" u] assms(1)
    by (intro refuses_digits) (simp_all add: ahead_current)
qed

lemma refuses_number:
  assumes "cs_cur it = Some c" "ascii_digit c" "\<not> bare_radix (ahead it)"
  shows "refuses u (ahead it) (lex_number u True it c)"
proof (cases "c = c_0 \<and> cs_cur (consume it) \<noteq> None")
  case False
  consider "c \<noteq> c_0" | "c = c_0" "cs_cur (consume it) = None" using False by blast
  then show ?thesis
  proof cases
    case 1
    then show ?thesis using refuses_decimal [OF assms(1,2), of u] by (simp add: lex_number_def)
  next
    case 2
    have "number_head 10 [c_0]"
      unfolding number_head_def by (intro exI [of _ "[]"] exI [of _ "[c_0]"]) (auto simp: ascii_digit_def to_digit_def)
    then have "refuses u (ahead it) (push_literal True ([c_0], consume it))"
      using number_malformed [OF number_int, of 10 "[c_0]" u "cs_inner it"] 2 assms(1) by (intro refuses_literal) (simp add: ahead_current)
    then show ?thesis using 2 by (simp add: lex_number_def Let_def)
  qed
next
  case True
  then obtain x where x: "c = c_0" "cs_cur (consume it) = Some x" by auto
  have src: "ahead it = c_0 # x # ahead (consume (consume it))" "ahead it = c_0 # ahead (consume it)"
    using assms(1) x consume_current [OF x(2)] by (simp_all add: ahead_current)
  have radix: "refuses u (ahead it) (and_then (current (consume (consume it))) (\<lambda>_.
      and_then (int_loop u base (consume (consume it)) [c_0, x]) (push_literal True)))"
    if b: "(base, [c_0, x]) \<in> {(16, [c_0, c_x]), (8, [c_0, c_o]), (2, [c_0, c_b])}" for base
  proof (rule refuses_digits)
    have "ahead (consume (consume it)) \<noteq> []" using assms(3) src(1) b by (auto simp: bare_radix_def)
    then show "cs_cur (consume (consume it)) \<noteq> None" by (simp add: consume_def [of "consume it"] ahead_def split: list.splits)
    have "number_head base [c_0, x]"
      unfolding number_head_def by (intro exI [of _ "[c_0, x]"] exI [of _ "[]"]) (use b in auto)
    from refuses_int_loop [OF this, of "ahead it" "consume (consume it)" u] src(1)
    show "outcome (\<lambda>r. number (fst r) \<and> ahead it = fst r @ ahead (snd r)) (\<lambda>m. rejects u m (ahead it))
        (int_loop u base (consume (consume it)) [c_0, x])" by simp
  qed
  have plain: "refuses u (ahead it) (and_then (current (consume it)) (\<lambda>_. and_then (int_loop u 10 (consume it) [c_0]) (push_literal True)))"
  proof (rule refuses_digits)
    have "number_head 10 [c_0]"
      unfolding number_head_def by (intro exI [of _ "[]"] exI [of _ "[c_0]"]) (auto simp: ascii_digit_def to_digit_def)
    from refuses_int_loop [OF this, of "ahead it" "consume it" u] src(2)
    show "outcome (\<lambda>r. number (fst r) \<and> ahead it = fst r @ ahead (snd r)) (\<lambda>m. rejects u m (ahead it))
        (int_loop u 10 (consume it) [c_0])" by simp
  qed (use x(2) in simp)
  consider "x = c_x" | "x = c_o" | "x = c_b" | "x \<noteq> c_x" "x \<noteq> c_o" "x \<noteq> c_b" by blast
  then show ?thesis
    by cases (use radix plain x in \<open>auto simp: lex_number_def Let_def\<close>)
qed

section \<open>Punctuation\<close>

lemma total_push_sym: "total (push_sym True it c bs)"
  by (induction bs) (auto simp: Let_def intro!: total_then)

lemma refuses_punct:
  assumes "cs_cur it = Some c" "c \<le> 0xFF" "\<not> is_whitespace u c" "\<not> is_alphabetic u c" "\<not> ascii_digit c"
    "c \<notin> {c_squote, c_dquote, c_underscore}"
  shows "refuses u (ahead it) (lex_punct True it c)"
proof -
  obtain pos where pos: "position_at 0 (as_u8 c) syms = Inr pos"
    using position_at_total [of 0 syms] syms_nonempty by (auto simp: list_all_iff)
  show ?thesis
  proof (cases pos)
    case None
    have none: "position_at 0 b vs = Inr None \<Longrightarrow> \<forall>v \<in> set vs. v \<noteq> [] \<and> hd v \<noteq> b" for b vs
      by (induction vs) (auto simp: hd_conv_nth split: if_splits)
    then have "rejects u ''Unknown operator'' (ahead it)"
      using operator_unknown [OF assms(2-6)] pos None assms(1) by (simp add: ahead_current)
    then show ?thesis using pos None by (simp add: lex_punct_def)
  next
    case (Some start)
    obtain end_at where e: "grow_end syms 0 (as_u8 c) (start + 1) = Inr end_at"
      using grow_end_total [of 0 syms "as_u8 c" "start + 1"] syms_nonempty by (auto simp: list_all_iff)
    obtain s ofs it' c' where l: "sym_loop start end_at 1 it c = Inr (s, ofs, it', c')" "length (syms ! s) = ofs"
      using sym_loop_total [of c start end_at it] pos Some e by auto
    have "total (and_then (push_sym True it' c' (syms ! s)) (\<lambda>ts. Inr (ts, it')))"
      using total_push_sym by (intro total_then) simp_all
    then show ?thesis using pos Some e l unfolding lex_punct_def by (simp add: total_refuses)
  qed
qed

end
