(* ===== verification/LexErrors.thy ===== *)
theory LexErrors
  imports Lex_Rejects
begin

text \<open>
  How \<open>TokenStream::from_str\<close> can fail inside a macro: the text is lexed up to a token that it
  is stuck at, and what it fails with fits the text there; or all of it is lexed and the delimiters
  do not match.
\<close>

section \<open>Where a text gets stuck\<close>
















section \<open>Properties\<close>





text \<open>What the lexer makes of some texts Rust accepts.\<close>

text \<open>A line comment on the last line is not returned from.\<close>

theorem last_line_comment_diverges:
  "stream_from_str ascii_only True (str ''a // b'') = Inl LexDiverges"
  by code_simp

text \<open>A nested block comment whose two ends touch is taken for an unclosed one.\<close>

theorem touching_comment_ends_panic:
  "stream_from_str ascii_only True (str ''/*/**/*/'') = Inl (LexPanic (Panic ''Unexpected EOF in block comment''))"
  by code_simp

text \<open>A raw string whose body ends in a quote is not read, though it is a well-formed spelling.\<close>

theorem raw_string_ending_in_quote_rejected:
  "stream_from_str ascii_only True (str ''r#'' @ [c_dquote, 97, c_dquote, c_dquote, c_hash]) = Inl (LexError ''Rawstr eof'')
   \<and> from_spelling (str ''r#'' @ [c_dquote, 97, c_dquote, c_dquote, c_hash]) 2
     = Some \<lparr>lit_kind = LStrRaw 1, lit_symbol = [97, c_dquote], lit_suffix = None, lit_span = 2\<rparr>"
  by code_simp

text \<open>A raw identifier becomes three tokens, so the text of a raw \<open>Ident\<close> is not read back.\<close>

theorem raw_identifier_split:
  "stream_from_str ascii_only True (ident_display \<lparr>id_sym = str ''as'', id_raw = True, id_span = 2\<rparr>) =
    Inr (Stream [TIdent (ident_from_name (str ''r'') False 2), TPunct (punct_from_char c_hash Alone 2),
      TIdent (ident_from_name (str ''as'') False 2)] [])"
  by code_simp

text \<open>The character U+013D after a less-than sign is taken for the equals sign its low byte is.\<close>

theorem wide_character_truncated:
  "stream_from_str ascii_only True [60, 0x13D] =
    Inr (Stream [TPunct (punct_from_char 60 Joint 2), TPunct (punct_from_char 61 Alone 2)] [])"
  by code_simp

end
