(* ===== verification/LexBack.thy ===== *)
theory LexBack
  imports LexErrors
begin

text \<open>
  Reading back what the constructors of \<open>Literal\<close> write: the lexer gives the literal again,
  whatever string, character, bytes or integer it was made from.
\<close>

section \<open>A text that is one literal\<close>

lemma lex_single:
  assumes "\<not> is_whitespace u c" "lex_one u True \<lparr>cs_inner = r, cs_cur = Some c\<rparr> c = Inr ([TLiteral l], it)" "cs_cur it = None"
  shows "literal_from_str_unsigned u True (c # r) = Inr l"
proof -
  have space: "is_whitespace u c_space" by (simp add: is_whitespace_def)
  have "lex_loop u True (char_stream_new (c # r)) [] = lex_loop u True \<lparr>cs_inner = r, cs_cur = Some c\<rparr> []"
    using space by (subst lex_loop.simps) (simp add: char_stream_new_def lex_one_def consume_def)
  also have "\<dots> = lex_loop u True it [TLiteral l]"
    using assms(2) by (subst lex_loop.simps) simp
  also have "\<dots> = Inr [TLiteral l]" using assms(3) by (subst lex_loop.simps) simp
  finally show ?thesis
    by (simp add: literal_from_str_unsigned_def stream_from_str_def group_delimiters_def from_trees_def)
qed

lemma literal_new_True: "literal_new True kind val suffix = Inr \<lparr>lit_kind = kind, lit_symbol = val, lit_suffix = suffix, lit_span = 2\<rparr>"
  by (simp add: literal_new_def)

lemma push_literal_back:
  assumes "lit_kind l \<notin> {LInteger, LFloat, LErrWithGuar}" "suffix_ok (lit_suffix l)" "lit_span l = 2"
  shows "push_literal True (literal_display l, it) = Inr ([TLiteral l], it)"
  using from_spelling_back [OF assms(1,2)] assms(3) by (simp add: push_literal_def spelled_def)

section \<open>Pieces the string loop accepts\<close>

definition accepted :: "unicode \<Rightarrow> rstr \<Rightarrow> bool" where
  "accepted u p \<longleftrightarrow> (\<forall>rest cur s. string_loop u \<lparr>cs_inner = p @ rest, cs_cur = cur\<rparr> s =
     string_loop u \<lparr>cs_inner = rest, cs_cur = if p = [] then cur else Some (last p)\<rparr> (s @ p))"

lemma acceptedI:
  "p \<noteq> [] \<Longrightarrow> (\<And>rest cur s. string_loop u \<lparr>cs_inner = p @ rest, cs_cur = cur\<rparr> s =
     string_loop u \<lparr>cs_inner = rest, cs_cur = Some (last p)\<rparr> (s @ p)) \<Longrightarrow> accepted u p"
  by (simp add: accepted_def)

lemma consume_or_Cons [simp]:
  "consume_or msg \<lparr>cs_inner = c # r, cs_cur = cur\<rparr> = Inr (c, \<lparr>cs_inner = r, cs_cur = Some c\<rparr>)"
  by (simp add: consume_or_def consume_def)

lemma accepted_Nil: "accepted u []"
  by (simp add: accepted_def)

lemma accepted_append: "accepted u p \<Longrightarrow> accepted u q \<Longrightarrow> accepted u (p @ q)"
  by (cases "p = []"; cases "q = []") (simp_all add: accepted_def)

lemma accepted_concat: "\<forall>x \<in> set xs. accepted u (f x) \<Longrightarrow> accepted u (concat (map f xs))"
  by (induction xs) (auto intro: accepted_Nil accepted_append)

lemma accepted_plain: "c \<noteq> c_dquote \<Longrightarrow> c \<noteq> c_backslash \<Longrightarrow> accepted u [c]"
  by (rule acceptedI) (simp, subst string_loop.simps, simp)

lemma accepted_escape: "e \<in> set simple_escapes \<Longrightarrow> accepted u [c_backslash, e]"
  by (rule acceptedI) (simp, subst string_loop.simps, simp add: string_escape_def Let_def)

lemma accepted_hex:
  assumes "to_digit 16 h \<noteq> None" "to_digit 16 l \<noteq> None"
  shows "accepted u [c_backslash, c_x, h, l]"
proof (rule acceptedI)
  show "string_loop u \<lparr>cs_inner = [c_backslash, c_x, h, l] @ rest, cs_cur = cur\<rparr> s =
      string_loop u \<lparr>cs_inner = rest, cs_cur = Some (last [c_backslash, c_x, h, l])\<rparr> (s @ [c_backslash, c_x, h, l])"
    for rest cur s
    using assms by (subst string_loop.simps) (auto simp: string_escape_def Let_def simple_escapes_def numeral_2_eq_2)
qed simp

lemma brace_loop_reads:
  "c_rbrace \<notin> set p \<Longrightarrow> brace_loop \<lparr>cs_inner = p @ c_rbrace # rest, cs_cur = cur\<rparr> s =
    Inr (s @ p @ [c_rbrace], \<lparr>cs_inner = rest, cs_cur = Some c_rbrace\<rparr>)"
proof (induction p arbitrary: cur s)
  case Nil
  then show ?case by (subst brace_loop.simps) simp
next
  case (Cons c p)
  then show ?case by (subst brace_loop.simps) simp
qed

lemma brace_loop_unicode:
  "brace_loop \<lparr>cs_inner = c_lbrace # hexadecimal c @ c_rbrace # rest, cs_cur = cur\<rparr> s =
    Inr (s @ c_lbrace # hexadecimal c @ [c_rbrace], \<lparr>cs_inner = rest, cs_cur = Some c_rbrace\<rparr>)"
proof -
  have "c_rbrace \<notin> set (c_lbrace # hexadecimal c)"
    using hexadecimal_digits [of c_rbrace c] digit_char_plain by fastforce
  from brace_loop_reads [OF this, of rest cur s] show ?thesis by simp
qed

lemma accepted_unicode: "accepted u (escape_unicode c)"
proof (rule acceptedI)
  show "string_loop u \<lparr>cs_inner = escape_unicode c @ rest, cs_cur = cur\<rparr> s =
      string_loop u \<lparr>cs_inner = rest, cs_cur = Some (last (escape_unicode c))\<rparr> (s @ escape_unicode c)" for rest cur s
    by (subst string_loop.simps)
      (simp add: escape_unicode_def string_escape_def simple_escapes_def Let_def brace_loop_unicode)
qed (simp add: escape_unicode_def)

lemma accepted_simple:
  "accepted v [c_backslash, c_0]" "accepted v [c_backslash, c_t]" "accepted v [c_backslash, c_r]"
  "accepted v [c_backslash, c_n]" "accepted v [c_backslash, c_backslash]" "accepted v [c_backslash, c_squote]"
  "accepted v [c_backslash, c_dquote]"
  by (rule accepted_escape, simp add: simple_escapes_def)+

lemma accepted_char_piece: "escape_double_quote opt \<Longrightarrow> accepted v (char_piece u opt c)"
  by (simp add: char_piece_def escape_single_char_def escape_debug_def accepted_simple accepted_unicode accepted_plain)

lemma accepted_byte_piece: "escape_double_quote opt \<Longrightarrow> accepted v (byte_piece opt b)"
proof -
  assume opt: "escape_double_quote opt"
  have "unat b < 256" using unsigned_less [of b, where ?'a = nat] by simp
  then have "unat b div 16 < 16" by (simp add: less_mult_imp_div_less)
  then have hex: "accepted v [c_backslash, c_x, digit_char (unat b div 16), digit_char (unat b mod 16)]"
    by (intro accepted_hex) (simp_all add: digit_char_less)
  show ?thesis
    using opt hex accepted_plain [of "unat b" v]
    by (auto simp: byte_piece_def escape_single_byte_def escape_ascii_def Let_def accepted_simple)
qed

lemma accepted_escape_bytes:
  assumes "escape_double_quote opt"
  shows "accepted v (escape_bytes u bs opt)"
proof -
  obtain xs where xs: "escape_bytes u bs opt = concat (map (case_sum (char_piece u opt) (byte_piece opt)) xs)"
    using escape_bytes_pieces by blast
  show ?thesis
    unfolding xs using accepted_char_piece [OF assms] accepted_byte_piece [OF assms]
    by (intro accepted_concat) (auto split: sum.splits)
qed

lemma string_loop_body:
  assumes "accepted u p"
  shows "string_loop u \<lparr>cs_inner = p @ [c_dquote], cs_cur = cur\<rparr> s =
    Inr (s @ p @ [c_dquote], \<lparr>cs_inner = [], cs_cur = None\<rparr>)"
proof -
  have "string_loop u \<lparr>cs_inner = [c_dquote], cs_cur = k\<rparr> (s @ p) =
      Inr (s @ p @ [c_dquote], \<lparr>cs_inner = [], cs_cur = None\<rparr>)" for k
    by (subst string_loop.simps) (simp add: consume_def)
  with assms show ?thesis by (simp add: accepted_def)
qed

section \<open>Characters between quotes\<close>

definition quotable :: "unicode \<Rightarrow> rstr \<Rightarrow> bool" where
  "quotable u p \<longleftrightarrow> (\<forall>cur. lex_quote u True \<lparr>cs_inner = p @ [c_squote], cs_cur = cur\<rparr> =
     push_literal True (c_squote # p @ [c_squote], \<lparr>cs_inner = [], cs_cur = None\<rparr>))"

lemma consume_Cons [simp]: "consume \<lparr>cs_inner = c # r, cs_cur = cur\<rparr> = \<lparr>cs_inner = r, cs_cur = Some c\<rparr>"
  by (simp add: consume_def)

lemma consume_Nil [simp]: "consume \<lparr>cs_inner = [], cs_cur = cur\<rparr> = \<lparr>cs_inner = [], cs_cur = None\<rparr>"
  by (simp add: consume_def)

lemma backslash_plain: "\<not> is_alphabetic u c_backslash"
  by (simp add: is_alphabetic_def ascii_alphabetic_def)

lemma quotable_plain: "c \<noteq> c_backslash \<Longrightarrow> quotable u [c]"
  by (simp add: quotable_def lex_quote_def lex_char_def next_char_def)

lemma quotable_escape: "e \<in> set simple_escapes \<Longrightarrow> quotable u [c_backslash, e]"
  by (simp add: quotable_def lex_quote_def lex_char_def char_escape_def backslash_plain)

lemma quotable_unicode: "quotable u (escape_unicode c)"
  by (simp add: quotable_def lex_quote_def lex_char_def char_escape_def backslash_plain escape_unicode_def
      simple_escapes_def brace_loop_unicode)

lemma quotable_simple:
  "quotable v [c_backslash, c_0]" "quotable v [c_backslash, c_t]" "quotable v [c_backslash, c_r]"
  "quotable v [c_backslash, c_n]" "quotable v [c_backslash, c_backslash]" "quotable v [c_backslash, c_squote]"
  "quotable v [c_backslash, c_dquote]"
  by (rule quotable_escape, simp add: simple_escapes_def)+

lemma quotable_char_piece: "escape_single_quote opt \<Longrightarrow> quotable v (char_piece u opt c)"
  by (simp add: char_piece_def escape_single_char_def escape_debug_def quotable_simple quotable_unicode quotable_plain)

text \<open>Byte characters.\<close>

definition byte_quotable :: "rstr \<Rightarrow> bool" where
  "byte_quotable p \<longleftrightarrow> (\<forall>cur. lex_byte_char True True \<lparr>cs_inner = p @ [c_squote], cs_cur = cur\<rparr> =
     push_literal True (c_b # c_squote # p @ [c_squote], \<lparr>cs_inner = [], cs_cur = None\<rparr>))"

lemma byte_quotable_plain: "c < 0x80 \<Longrightarrow> c \<notin> {c_backslash, c_newline, c_return} \<Longrightarrow> byte_quotable [c]"
  by (simp add: byte_quotable_def lex_byte_char_def)

lemma byte_quotable_escape: "e \<in> set simple_escapes \<Longrightarrow> byte_quotable [c_backslash, e]"
  by (simp add: byte_quotable_def lex_byte_char_def byte_escape_def)

lemma byte_quotable_hex:
  "to_digit 16 h \<noteq> None \<Longrightarrow> to_digit 16 l \<noteq> None \<Longrightarrow> byte_quotable [c_backslash, c_x, h, l]"
  by (auto simp: byte_quotable_def lex_byte_char_def byte_escape_def simple_escapes_def numeral_2_eq_2 Let_def)

lemma byte_quotable_simple:
  "byte_quotable [c_backslash, c_0]" "byte_quotable [c_backslash, c_t]" "byte_quotable [c_backslash, c_r]"
  "byte_quotable [c_backslash, c_n]" "byte_quotable [c_backslash, c_backslash]" "byte_quotable [c_backslash, c_squote]"
  "byte_quotable [c_backslash, c_dquote]"
  by (rule byte_quotable_escape, simp add: simple_escapes_def)+

lemma byte_quotable_piece: "escape_single_quote opt \<Longrightarrow> byte_quotable (byte_piece opt b)"
proof -
  assume opt: "escape_single_quote opt"
  have "unat b < 256" using unsigned_less [of b, where ?'a = nat] by simp
  then have "unat b div 16 < 16" by (simp add: less_mult_imp_div_less)
  then have hex: "byte_quotable [c_backslash, c_x, digit_char (unat b div 16), digit_char (unat b mod 16)]"
    by (intro byte_quotable_hex) (simp_all add: digit_char_less)
  show ?thesis
    using opt hex byte_quotable_plain [of "unat b"]
    by (auto simp: byte_piece_def escape_single_byte_def escape_ascii_def Let_def byte_quotable_simple)
qed

section \<open>The constructors' texts\<close>

lemma not_whitespace [simp]:
  "\<not> is_whitespace u c_dquote" "\<not> is_whitespace u c_squote" "\<not> is_whitespace u c_b" "\<not> is_whitespace u c_c"
  by (simp_all add: is_whitespace_def)

lemma lex_string_literal:
  assumes "accepted u body" "(kind, pre) \<in> {(LStr, []), (LByteStr, [c_b]), (LCStr, [c_c])}"
    "l = \<lparr>lit_kind = kind, lit_symbol = body, lit_suffix = None, lit_span = 2\<rparr>"
  shows "literal_from_str_unsigned u True (literal_display l) = Inr l"
proof -
  have d: "literal_display l = pre @ c_dquote # body @ [c_dquote]"
    using assms(2,3) by (auto simp: literal_display_def stringify_parts_def)
  have p: "push_literal True (pre @ c_dquote # body @ [c_dquote], it) = Inr ([TLiteral l], it)" for it
    using push_literal_back [of l it] assms(2,3) d by (auto simp: suffix_ok_def)
  have s: "string_loop u \<lparr>cs_inner = body @ [c_dquote], cs_cur = cur\<rparr> q =
      Inr (q @ body @ [c_dquote], \<lparr>cs_inner = [], cs_cur = None\<rparr>)" for cur q
    using string_loop_body [OF assms(1)] .
  let ?done = "Inr ([TLiteral l], \<lparr>cs_inner = [], cs_cur = None\<rparr>)"
  consider "pre = []" | "pre = [c_b]" | "pre = [c_c]" using assms(2) by auto
  then show ?thesis
  proof cases
    case 1
    then have "lex_one u True \<lparr>cs_inner = body @ [c_dquote], cs_cur = Some c_dquote\<rparr> c_dquote = ?done"
      using s p by (simp add: lex_one_def lex_prefixed_def lex_after_prefix_def)
    from lex_single [OF _ this] 1 d show ?thesis by simp
  next
    case 2
    then have "lex_one u True \<lparr>cs_inner = c_dquote # body @ [c_dquote], cs_cur = Some c_b\<rparr> c_b = ?done"
      using s p by (simp add: lex_one_def lex_prefixed_def lex_after_prefix_def)
    from lex_single [OF _ this] 2 d show ?thesis by simp
  next
    case 3
    then have "lex_one u True \<lparr>cs_inner = c_dquote # body @ [c_dquote], cs_cur = Some c_c\<rparr> c_c = ?done"
      using s p by (simp add: lex_one_def lex_prefixed_def lex_after_prefix_def)
    from lex_single [OF _ this] 3 d show ?thesis by simp
  qed
qed

lemma lex_char_literal:
  assumes "quotable u body" "l = \<lparr>lit_kind = LChar, lit_symbol = body, lit_suffix = None, lit_span = 2\<rparr>"
  shows "literal_from_str_unsigned u True (literal_display l) = Inr l"
proof -
  have d: "literal_display l = c_squote # body @ [c_squote]"
    using assms(2) by (simp add: literal_display_def stringify_parts_def)
  have "push_literal True (c_squote # body @ [c_squote], it) = Inr ([TLiteral l], it)" for it
    using push_literal_back [of l it] assms(2) d by (simp add: suffix_ok_def)
  then have "lex_one u True \<lparr>cs_inner = body @ [c_squote], cs_cur = Some c_squote\<rparr> c_squote =
      Inr ([TLiteral l], \<lparr>cs_inner = [], cs_cur = None\<rparr>)"
    using assms(1) by (simp add: lex_one_def quotable_def)
  from lex_single [OF _ this] show ?thesis by (simp add: d)
qed

lemma lex_byte_literal:
  assumes "byte_quotable body" "l = \<lparr>lit_kind = LByte, lit_symbol = body, lit_suffix = None, lit_span = 2\<rparr>"
  shows "literal_from_str_unsigned u True (literal_display l) = Inr l"
proof -
  have d: "literal_display l = c_b # c_squote # body @ [c_squote]"
    using assms(2) by (simp add: literal_display_def stringify_parts_def)
  have "push_literal True (c_b # c_squote # body @ [c_squote], it) = Inr ([TLiteral l], it)" for it
    using push_literal_back [of l it] assms(2) d by (simp add: suffix_ok_def)
  then have "lex_one u True \<lparr>cs_inner = c_squote # body @ [c_squote], cs_cur = Some c_b\<rparr> c_b =
      Inr ([TLiteral l], \<lparr>cs_inner = [], cs_cur = None\<rparr>)"
    using assms(1) by (simp add: lex_one_def lex_prefixed_def lex_after_prefix_def byte_quotable_def)
  from lex_single [OF _ this] show ?thesis by (simp add: d)
qed

text \<open>None of these texts starts with a minus.\<close>

lemma literal_from_str_plain: "hd s \<noteq> c_minus \<Longrightarrow> literal_from_str u a s = literal_from_str_unsigned u a s"
  by (cases s) (simp_all add: literal_from_str_def)

section \<open>Integers\<close>

text \<open>The character stream whose current character starts a text.\<close>

definition stream_at :: "rstr \<Rightarrow> char_stream" where
  "stream_at s = (case s of [] \<Rightarrow> \<lparr>cs_inner = [], cs_cur = None\<rparr> | c # r \<Rightarrow> \<lparr>cs_inner = r, cs_cur = Some c\<rparr>)"

lemma stream_at_simps [simp]:
  "cs_cur (stream_at []) = None" "cs_cur (stream_at (c # r)) = Some c" "consume (stream_at (c # r)) = stream_at r"
  by (simp_all add: stream_at_def consume_def split: list.splits)

lemma consume_stream_at [simp]: "consume \<lparr>cs_inner = r, cs_cur = cur\<rparr> = stream_at r"
  by (simp add: stream_at_def consume_def split: list.splits)

lemma int_loop_digits:
  "list_all ascii_digit ds \<Longrightarrow> int_loop u 10 (stream_at (ds @ rest)) s = int_loop u 10 (stream_at rest) (s @ ds)"
proof (induction ds arbitrary: s)
  case (Cons d ds)
  then have "d \<noteq> c_underscore" "d \<noteq> c_u" "d \<noteq> c_i" "to_digit 10 d \<noteq> None"
    by (auto simp: ascii_digit_def to_digit_def)
  then show ?case using Cons by (subst int_loop.simps) simp
qed simp

lemma ident_loop_all: "list_all (ident_more u) w \<Longrightarrow> ident_loop u (stream_at w) s = (s @ w, stream_at [])"
proof (induction w arbitrary: s)
  case Nil
  then show ?case by (subst ident_loop.simps) simp
next
  case (Cons c w)
  then show ?case by (subst ident_loop.simps) simp
qed

lemma int_suffix_ident: "list_all (ident_more u) (int_suffix ty)" "int_suffix ty \<in> set int_suffixes"
    "\<exists>c r. int_suffix ty = c # r \<and> (c = c_u \<or> c = c_i)"
  by (cases ty; simp add: str_def ident_more_def is_alphanumeric_def is_alphabetic_def ascii_alphabetic_def
      ascii_digit_def int_suffixes_def)+

text \<open>The two texts that may follow the digits.\<close>

definition int_tail :: "rstr \<Rightarrow> bool" where
  "int_tail x \<longleftrightarrow> x = [] \<or> (\<exists>ty. x = int_suffix ty)"

lemma int_loop_tail:
  assumes "int_tail x"
  shows "int_loop u 10 (stream_at x) s = Inr (s @ x, stream_at [])"
proof (cases "x = []")
  case True
  then show ?thesis by (subst int_loop.simps) simp
next
  case False
  then obtain ty where x: "x = int_suffix ty" using assms by (auto simp: int_tail_def)
  obtain c r where c: "x = c # r" "c = c_u \<or> c = c_i" using int_suffix_ident(3) [of ty] x by auto
  have "get_ident u (stream_at x) [] = Inr (x, stream_at [])"
    using ident_loop_all [OF int_suffix_ident(1), of u ty "[]"] c(1) x by (simp add: get_ident_def current_def)
  then show ?thesis
    using c int_suffix_ident(2) [of ty] x by (subst int_loop.simps) auto
qed

lemma decimal_leading_zero: "hd (decimal n) = c_0 \<Longrightarrow> n = 0"
proof (induction "10::nat" n rule: radix_digits.induct)
  case (1 n)
  show ?case
  proof (cases "n < 10")
    case True
    then show ?thesis using "1.prems" by (subst (asm) radix_digits.simps) (simp add: digit_char_def)
  next
    case False
    then have "hd (decimal n) = hd (decimal (n div 10))" by (subst radix_digits.simps) simp
    then show ?thesis using "1.hyps" "1.prems" False by simp
  qed
qed

lemma decimal_zero: "decimal 0 = [c_0]"
  by (subst radix_digits.simps) (simp add: digit_char_def)

lemma lex_number_decimal:
  assumes "int_tail x" "decimal n @ x = c # r"
  shows "lex_number u True \<lparr>cs_inner = r, cs_cur = Some c\<rparr> c = push_literal True (decimal n @ x, stream_at [])"
proof -
  have at: "\<lparr>cs_inner = r, cs_cur = Some c\<rparr> = stream_at (decimal n @ x)" using assms(2) by (simp add: stream_at_def)
  have hd_c: "hd (decimal n) = c" using assms(2) by (cases "decimal n") auto
  show ?thesis
  proof (cases "c = c_0")
    case False
    then show ?thesis
      using at assms(2) int_loop_digits [OF decimal_digits, of u n x "[]"] int_loop_tail [OF assms(1), of u "decimal n"]
      by (simp add: lex_number_def current_def)
  next
    case True
    then have n: "n = 0" using decimal_leading_zero hd_c by simp
    then have r: "r = x" using assms(2) by (simp add: decimal_zero)
    show ?thesis
    proof (cases "x = []")
      case True
      then show ?thesis using \<open>c = c_0\<close> r n by (simp add: lex_number_def decimal_zero)
    next
      case False
      then obtain ty where ty: "x = int_suffix ty" using assms(1) by (auto simp: int_tail_def)
      then obtain y z where y: "x = y # z" "y = c_u \<or> y = c_i" using int_suffix_ident(3) [of ty] by auto
      then show ?thesis
        using \<open>c = c_0\<close> r n int_loop_tail [OF assms(1), of u "[c_0]"]
        by (auto simp: lex_number_def current_def decimal_zero)
    qed
  qed
qed

lemma lex_int_literal:
  assumes "int_tail x" "l = make_literal 2 LInteger (decimal n) x" "from_spelling (literal_display l) 2 = Some l"
  shows "literal_from_str_unsigned u True (literal_display l) = Inr l"
proof -
  obtain c ds where c: "decimal n = c # ds" by (cases "decimal n") auto
  then have digit: "ascii_digit c" using decimal_digits [of n] by simp
  have d: "literal_display l = c # ds @ x" using assms(2) c by (simp add: display_make)
  have "push_literal True (decimal n @ x, stream_at []) = Inr ([TLiteral l], stream_at [])"
    using assms(3) d c by (simp add: push_literal_def spelled_def)
  moreover have "\<not> is_whitespace u c" "c \<notin> {c_squote, c_slash, c_b, c_c, c_r, c_dquote, c_underscore}" "\<not> is_alphabetic u c"
    using digit by (auto simp: ascii_digit_def is_whitespace_def is_alphabetic_def ascii_alphabetic_def)
  ultimately have "lex_one u True \<lparr>cs_inner = ds @ x, cs_cur = Some c\<rparr> c = Inr ([TLiteral l], stream_at [])"
    using lex_number_decimal [OF assms(1), of n c "ds @ x" u] c digit by (simp add: lex_one_def)
  from lex_single [OF \<open>\<not> is_whitespace u c\<close> this] show ?thesis by (simp add: d)
qed

section \<open>Properties\<close>

text \<open>
  C22. \<open>Literal::from_str\<close> of the text of a string, byte string, C string, character or byte
  literal is the literal again, for every value the constructors take.
\<close>

theorem text_literals_read_back:
  assumes "lit_string u True s = Inr a" "lit_byte_string u True bs = Inr b" "lit_c_string u True cs = Inr c"
    "lit_character u True ch = Inr d" "scalar_value ch" "lit_byte_character u True byte = Inr e"
  shows "literal_from_str u True (literal_display a) = Inr a \<and> literal_from_str u True (literal_display b) = Inr b
    \<and> literal_from_str u True (literal_display c) = Inr c \<and> literal_from_str u True (literal_display d) = Inr d
    \<and> literal_from_str u True (literal_display e) = Inr e"
proof -
  define sopt where "sopt = \<lparr>escape_single_quote = False, escape_double_quote = True, escape_nonascii = False\<rparr>"
  define bopt where "bopt = \<lparr>escape_single_quote = False, escape_double_quote = True, escape_nonascii = True\<rparr>"
  define copt where "copt = \<lparr>escape_single_quote = True, escape_double_quote = False, escape_nonascii = False\<rparr>"
  define yopt where "yopt = \<lparr>escape_single_quote = True, escape_double_quote = False, escape_nonascii = True\<rparr>"
  note new = literal_new_True Let_def
  have a: "a = \<lparr>lit_kind = LStr, lit_symbol = escape_bytes u (utf8 s) sopt, lit_suffix = None, lit_span = 2\<rparr>"
    using assms(1) by (simp add: lit_string_def new sopt_def)
  have b: "b = \<lparr>lit_kind = LByteStr, lit_symbol = escape_bytes u bs bopt, lit_suffix = None, lit_span = 2\<rparr>"
    using assms(2) by (simp add: lit_byte_string_def new bopt_def)
  have c: "c = \<lparr>lit_kind = LCStr, lit_symbol = escape_bytes u cs sopt, lit_suffix = None, lit_span = 2\<rparr>"
    using assms(3) by (simp add: lit_c_string_def new sopt_def)
  have d: "d = \<lparr>lit_kind = LChar, lit_symbol = char_piece u copt ch, lit_suffix = None, lit_span = 2\<rparr>"
    using assms(4,5) escape_bytes_utf8 [of "[ch]" copt u] by (simp add: lit_character_def new copt_def)
  have e: "e = \<lparr>lit_kind = LByte, lit_symbol = byte_piece yopt byte, lit_suffix = None, lit_span = 2\<rparr>"
    using assms(6) by (simp add: lit_byte_character_def new yopt_def escape_bytes_def byte_piece_def)
  have "literal_from_str_unsigned u True (literal_display a) = Inr a"
    using lex_string_literal [OF accepted_escape_bytes _ a, where pre = "[]"] by (simp add: sopt_def)
  moreover have "literal_from_str_unsigned u True (literal_display b) = Inr b"
    using lex_string_literal [OF accepted_escape_bytes _ b, where pre = "[c_b]"] by (simp add: bopt_def)
  moreover have "literal_from_str_unsigned u True (literal_display c) = Inr c"
    using lex_string_literal [OF accepted_escape_bytes _ c, where pre = "[c_c]"] by (simp add: sopt_def)
  moreover have "literal_from_str_unsigned u True (literal_display d) = Inr d"
    using lex_char_literal [OF quotable_char_piece d] by (simp add: copt_def)
  moreover have "literal_from_str_unsigned u True (literal_display e) = Inr e"
    using lex_byte_literal [OF byte_quotable_piece e] by (simp add: yopt_def)
  ultimately show ?thesis
    by (simp add: a b c d e literal_from_str_plain literal_display_def stringify_parts_def)
qed

theorem text_literals_read_back_witness:
  "\<exists>d. lit_character ascii_only True 39 = Inr d \<and> literal_from_str ascii_only True (literal_display d) = Inr d"
proof -
  obtain a b c d e where "lit_string ascii_only True [34, 0x1F600] = Inr a" "lit_byte_string ascii_only True [0, 34] = Inr b"
    "lit_c_string ascii_only True [0xFF] = Inr c" and d: "lit_character ascii_only True 39 = Inr d"
    and "lit_byte_character ascii_only True 39 = Inr e"
    by (simp add: lit_string_def lit_byte_string_def lit_c_string_def lit_character_def lit_byte_character_def
        Let_def literal_new_True)
  from text_literals_read_back [OF this(1-4) _ this(5)] d show ?thesis by (auto simp: scalar_value_def)
qed

text \<open>
  C23. \<open>Literal::from_str\<close> of the text of an integer literal is the literal again, with and
  without its type as suffix, negative values included.
\<close>

theorem int_literals_read_back:
  assumes "int_suffixed True ty n = Inr l" "int_unsuffixed True ty n = Inr k"
  shows "literal_from_str u True (literal_display l) = Inr l \<and> literal_from_str u True (literal_display k) = Inr k"
proof -
  define m where "m = nat \<bar>n\<bar>"
  have tails: "int_tail (int_suffix ty)" "int_tail []" by (auto simp: int_tail_def)
  have whole: "literal_from_str u True (literal_display (make_literal 2 LInteger (decimal_int n) x)) =
      Inr (make_literal 2 LInteger (decimal_int n) x)" if x: "int_tail x" for x
  proof -
    obtain p where p: "p = make_literal 2 LInteger (decimal m) x" by blast
    have "from_spelling (literal_display p) 2 = Some p"
    proof (cases "x = []")
      case True
      obtain a b where ab: "int_suffixed True ty (int m) = Inr a" "int_unsuffixed True ty (int m) = Inr b"
        by (simp add: int_suffixed_def int_unsuffixed_def literal_new_True)
      then have "b = p" using p True by (simp add: int_unsuffixed_def literal_new_True make_literal_def decimal_int_def)
      with int_literals_back [OF ab] show ?thesis by simp
    next
      case False
      then obtain ty' where ty': "x = int_suffix ty'" using x by (auto simp: int_tail_def)
      obtain a b where ab: "int_suffixed True ty' (int m) = Inr a" "int_unsuffixed True ty' (int m) = Inr b"
        by (simp add: int_suffixed_def int_unsuffixed_def literal_new_True)
      then have "a = p" using p ty' False by (simp add: int_suffixed_def literal_new_True make_literal_def decimal_int_def)
      with int_literals_back [OF ab] show ?thesis by simp
    qed
    from lex_int_literal [OF x p this] have u: "literal_from_str_unsigned u True (literal_display p) = Inr p" .
    obtain c ds where c: "decimal m = c # ds" "ascii_digit c"
      using decimal_digits [of m] by (cases "decimal m") auto
    show ?thesis
    proof (cases "n < 0")
      case True
      then have n: "decimal_int n = c_minus # c # ds" using c by (simp add: decimal_int_def m_def)
      have "literal_from_str_unsigned u True (c # ds @ x) = Inr p" using u p c by (simp add: display_make)
      moreover have "lit_kind p = LInteger"
        "p\<lparr>lit_symbol := c_minus # lit_symbol p\<rparr> = make_literal 2 LInteger (decimal_int n) x"
        using p n c by (simp_all add: make_literal_def)
      ultimately show ?thesis using n c(2) by (simp add: literal_from_str_def display_make)
    next
      case False
      then have "decimal_int n = decimal m" by (simp add: decimal_int_def m_def)
      moreover have "c \<noteq> c_minus" using c(2) by (auto simp: ascii_digit_def)
      ultimately show ?thesis using u p c by (simp add: literal_from_str_plain display_make)
    qed
  qed
  have "l = make_literal 2 LInteger (decimal_int n) (int_suffix ty)" "k = make_literal 2 LInteger (decimal_int n) []"
    using assms int_suffix_ident(3) [of ty] by (auto simp: int_suffixed_def int_unsuffixed_def literal_new_True make_literal_def)
  then show ?thesis using whole [OF tails(1)] whole [OF tails(2)] by simp
qed

theorem int_literals_read_back_witness:
  "\<exists>l. int_suffixed True I16 (-300) = Inr l \<and> literal_from_str ascii_only True (literal_display l) = Inr l"
proof -
  obtain l k where lk: "int_suffixed True I16 (-300) = Inr l" "int_unsuffixed True I16 (-300) = Inr k"
    by (simp add: int_suffixed_def int_unsuffixed_def literal_new_True)
  from int_literals_read_back [OF lk] lk show ?thesis by blast
qed

end
