(* ===== verification/Wire.thy ===== *)
theory Wire
  imports Unicode_Text
begin

text \<open>
  \<^verbatim>\<open>lib/proc_macro/src/protocol.rs\<close>: the byte protocol between the compiler and the macro
  process. A reader consumes a list of bytes and returns what is left of it; a writer appends
  the bytes it produces. Reading an item that is cut short or malformed panics.
\<close>

unbundle bit_operations_syntax

section \<open>Tokens on the wire\<close>

type_synonym i128 = "128 word" \<comment> \<open>two's complement, read by \<open>sint\<close>\<close>
type_synonym f64 = "64 word" \<comment> \<open>the bit pattern\<close>

record span_def =
  idx :: usize
  parent_idx :: usize
  path :: rstr
  is_path_real :: bool
  start_line :: usize
  end_line :: usize
  start_ofs :: usize
  end_ofs :: usize

datatype token =
    EndOfStream
  | Symbol rstr
  | Ident rstr
  | Lifetime rstr
  | StringTok rstr
  | ByteString "u8 list"
  | CharTok rchar
  | Unsigned u128 u8
  | Signed i128 u8
  | Float f64 u8
  | SpanRef usize
  | SpanDef span_def
  | RawLiteral rstr
  | Joined u8
  | OpenInvisible u32
  | CloseInvisible
  | Fragment u32

section \<open>Writer\<close>

lemma unat_drop_7: "unat (drop_bit 7 v) = unat v div 128"
  using unat_drop_bit_eq [of 7 v] by (simp only: drop_bit_eq_div) simp

function put_u128v :: "u128 \<Rightarrow> u8 list" where
  "put_u128v v =
     (if 128 \<le> v then (ucast (v AND 0x7F) OR 0x80) # put_u128v (drop_bit 7 v)
      else [ucast (v AND 0x7F)])"
  by pat_completeness auto
termination
proof (relation "measure unat")
  fix v :: u128
  assume "128 \<le> v"
  then have "128 \<le> unat v" by (simp add: word_le_nat_alt)
  then show "(drop_bit 7 v, v) \<in> measure unat"
    by (simp only: in_measure unat_drop_7)
qed simp

declare put_u128v.simps [simp del]

text \<open>The zig-zag form of a signed value, as the code computes it.\<close>

definition put_i128v :: "i128 \<Rightarrow> u8 list" where
  "put_i128v v = (if sint v < 0 then put_u128v (push_bit 1 (v + 1) OR 1) else put_u128v (push_bit 1 v))"

definition put_bytes :: "u8 list \<Rightarrow> u8 list" where
  "put_bytes v = put_u128v (of_nat (length v)) @ v"

text \<open>A float goes out as its eight bytes in memory, least significant first.\<close>

fun le_bytes :: "nat \<Rightarrow> nat \<Rightarrow> u8 list" where
  "le_bytes 0 n = []"
| "le_bytes (Suc k) n = as_u8 (n mod 256) # le_bytes k (n div 256)"

fun le_value :: "u8 list \<Rightarrow> nat" where
  "le_value [] = 0"
| "le_value (b # bs) = unat b + 256 * le_value bs"

definition put_f64 :: "f64 \<Rightarrow> u8 list" where
  "put_f64 v = le_bytes 8 (unat v)"

definition write_ent :: "token \<Rightarrow> u8 list" where
  "write_ent t = (case t of
      EndOfStream \<Rightarrow> [0]
    | Symbol v \<Rightarrow> 1 # put_bytes (utf8 v)
    | Ident v \<Rightarrow> 2 # put_bytes (utf8 v)
    | Lifetime v \<Rightarrow> 3 # put_bytes (utf8 v)
    | StringTok v \<Rightarrow> 4 # put_bytes (utf8 v)
    | ByteString v \<Rightarrow> 5 # put_bytes v
    | CharTok v \<Rightarrow> 6 # put_u128v (of_nat v)
    | Unsigned v sz \<Rightarrow> 7 # sz # put_u128v v
    | Signed v sz \<Rightarrow> 8 # sz # put_i128v v
    | Float v sz \<Rightarrow> 9 # sz # put_f64 v
    | SpanRef i \<Rightarrow> 10 # put_u128v (ucast i)
    | SpanDef sd \<Rightarrow>
        11 # put_u128v (ucast (idx sd)) @ put_u128v (ucast (parent_idx sd)) @ put_bytes (utf8 (path sd))
          @ (if is_path_real sd then 1 else 0)
          # put_u128v (ucast (start_line sd)) @ put_u128v (ucast (end_line sd))
          @ put_u128v (ucast (start_ofs sd)) @ put_u128v (ucast (end_ofs sd))
    | RawLiteral v \<Rightarrow> 12 # put_bytes (utf8 v)
    | Joined v \<Rightarrow> [13, v]
    | OpenInvisible i \<Rightarrow> 15 # put_u128v (ucast i)
    | CloseInvisible \<Rightarrow> [16]
    | Fragment i \<Rightarrow> 17 # put_u128v (ucast i))"

definition write_panic :: "rstr option \<Rightarrow> u8 list" where
  "write_panic message = 14 # (case message of Some m \<Rightarrow> 1 # put_bytes (utf8 m) | None \<Rightarrow> [0])"

definition write_sym :: "u8 list \<Rightarrow> u8 list" where
  "write_sym v = 1 # put_bytes v"

definition write_sym_1 :: "rchar \<Rightarrow> u8 list" where
  "write_sym_1 ch = [1, 1, as_u8 ch]"

section \<open>Reader\<close>

type_synonym 'a reader = "u8 list \<Rightarrow> ('a \<times> u8 list) result"

definition getb :: "u8 list \<Rightarrow> u8 option \<times> u8 list" where
  "getb bs = (case bs of [] \<Rightarrow> (None, []) | b # r \<Rightarrow> (Some b, r))"

text \<open>\<open>getb\<close> followed by \<open>expect\<close> or \<open>unwrap\<close>.\<close>

definition getb_expect :: "string \<Rightarrow> u8 reader" where
  "getb_expect msg bs = (case getb bs of (b, r) \<Rightarrow> and_then (expect_some msg b) (\<lambda>b. Inr (b, r)))"

fun get_u128v_from :: "nat \<Rightarrow> u128 \<Rightarrow> u128 reader" where
  "get_u128v_from ofs raw_rv [] = Inl (Panic ''called `Option::unwrap()` on a `None` value'')"
| "get_u128v_from ofs raw_rv (b # bs) =
     (let raw_rv = raw_rv OR push_bit ofs (ucast (b AND 0x7F)) in
      if b < 128 then Inr (raw_rv, bs)
      else if \<not> ofs < 18 * 7 then Inl (Panic ''assertion failed: ofs < 18*7'')
      else get_u128v_from (ofs + 7) raw_rv bs)"

definition get_u128v :: "u128 reader" where
  "get_u128v = get_u128v_from 0 0"

text \<open>
  The sum and the negation wrap, as in the release build (\<^verbatim>\<open>tst/std/build.py\<close>): both matter only for the
  largest raw value, which a build with overflow checks refuses with a panic.
\<close>

definition get_i128v :: "i128 reader" where
  "get_i128v bs = and_then (get_u128v bs) (\<lambda>(raw_rv, r).
     Inr (if raw_rv AND 1 \<noteq> 0 then - (drop_bit 1 raw_rv + 1) else drop_bit 1 raw_rv, r))"

definition read_exact :: "string \<Rightarrow> nat \<Rightarrow> u8 list reader" where
  "read_exact msg n bs = (if n \<le> length bs then Inr (take n bs, drop n bs) else Inl (Panic msg))"

definition get_byte_vec :: "u8 list reader" where
  "get_byte_vec bs = and_then (get_u128v bs) (\<lambda>(size, r).
     if size < 2 ^ 30 then read_exact ''Error reading from stdin get_byte_vec'' (unat size) r
     else Inl (Panic ''assertion failed: size < (1<<30)''))"

definition get_string :: "rstr reader" where
  "get_string bs = and_then (get_byte_vec bs) (\<lambda>(raw, r).
     and_then (expect_some ''Invalid UTF-8 passed from compiler'' (from_utf8 raw)) (\<lambda>s. Inr (s, r)))"

definition get_f64 :: "f64 reader" where
  "get_f64 bs = and_then (read_exact ''Error reading from stdin'' 8 bs) (\<lambda>(buf, r).
     Inr (of_nat (le_value buf), r))"

definition get_char :: "rchar reader" where
  "get_char bs = and_then (get_u128v bs) (\<lambda>(v, r).
     if \<not> v < 0x10FFFF then Inl (Panic ''Protocol error: malformed char literal'')
     else if scalar_value (unat v) then Inr (unat v, r)
     else Inl (Panic ''protocol: char lit invalid''))"

definition get_usize :: "usize reader" where
  "get_usize bs = and_then (get_u128v bs) (\<lambda>(v, r). Inr (ucast v, r))"

definition get_u32 :: "u32 reader" where
  "get_u32 bs = and_then (get_u128v bs) (\<lambda>(v, r). Inr (ucast v, r))"

definition get_span_def :: "span_def reader" where
  "get_span_def bs =
     and_then (get_usize bs) (\<lambda>(i, bs). and_then (get_usize bs) (\<lambda>(p, bs).
     and_then (get_string bs) (\<lambda>(pa, bs). and_then (getb_expect ''getb span path_is_real'' bs) (\<lambda>(re, bs).
     and_then (get_usize bs) (\<lambda>(sl, bs). and_then (get_usize bs) (\<lambda>(el, bs).
     and_then (get_usize bs) (\<lambda>(so, bs). and_then (get_usize bs) (\<lambda>(eo, bs).
       Inr (\<lparr>idx = i, parent_idx = p, path = pa, is_path_real = (re \<noteq> 0),
             start_line = sl, end_line = el, start_ofs = so, end_ofs = eo\<rparr>, bs)))))))))"

text \<open>Reading the payload of a token and wrapping it in its constructor.\<close>

definition reading :: "('a \<Rightarrow> 'b) \<Rightarrow> 'a reader \<Rightarrow> 'b reader" where
  "reading f r bs = and_then (r bs) (\<lambda>(x, rest). Inr (f x, rest))"

definition sized :: "(u8 \<Rightarrow> 'a reader) \<Rightarrow> 'a reader" where
  "sized r bs = and_then (getb_expect ''getb int ty'' bs) (\<lambda>(ty, bs). r ty bs)"

definition read_body :: "u8 \<Rightarrow> token reader" where
  "read_body hdr_b bs =
     (if hdr_b = 0 then Inr (EndOfStream, bs)
      else if hdr_b = 1 then reading Symbol get_string bs
      else if hdr_b = 2 then reading Ident get_string bs
      else if hdr_b = 3 then reading Lifetime get_string bs
      else if hdr_b = 4 then reading StringTok get_string bs
      else if hdr_b = 5 then reading ByteString get_byte_vec bs
      else if hdr_b = 6 then reading CharTok get_char bs
      else if hdr_b = 7 then sized (\<lambda>ty. reading (\<lambda>val. Unsigned val ty) get_u128v) bs
      else if hdr_b = 8 then sized (\<lambda>ty. reading (\<lambda>val. Signed val ty) get_i128v) bs
      else if hdr_b = 9 then sized (\<lambda>ty. reading (\<lambda>val. Float val ty) get_f64) bs
      else if hdr_b = 10 then reading SpanRef get_usize bs
      else if hdr_b = 11 then reading SpanDef get_span_def bs
      else if hdr_b = 12 then reading RawLiteral get_string bs
      else if hdr_b = 13 then reading Joined (getb_expect ''getb joined'') bs
      else if hdr_b = 15 then reading OpenInvisible get_u32 bs
      else if hdr_b = 16 then Inr (CloseInvisible, bs)
      else if hdr_b = 17 then reading Fragment get_u32 bs
      else Inl (Panic ''Unknown tag byte''))"

definition read_ent :: "token option reader" where
  "read_ent bs = (case getb bs of
      (None, r) \<Rightarrow> Inr (None, r)
    | (Some hdr_b, r) \<Rightarrow> reading Some (read_body hdr_b) r)"

section \<open>What a pair of writer and reader promises\<close>

text \<open>
  A reader undoes a writer on the values of \<open>ok\<close>, whatever follows them in the stream. Then
  the encoding is prefix-free, and sequences of items can be written one after the other.
\<close>

locale codec =
  fixes enc :: "'a \<Rightarrow> u8 list"
    and dec :: "'a reader"
    and ok :: "'a \<Rightarrow> bool"
  assumes dec_enc: "ok x \<Longrightarrow> dec (enc x @ rest) = Inr (x, rest)"
begin

lemma prefix_free:
  assumes "ok x" "ok y" "enc x @ r = enc y @ s"
  shows "x = y \<and> r = s"
proof -
  have "Inr (x, r) = dec (enc y @ s)"
    using dec_enc [OF assms(1), of r] by (simp only: assms(3))
  then show ?thesis by (simp add: dec_enc [OF assms(2)])
qed

lemma enc_inject: "ok x \<Longrightarrow> ok y \<Longrightarrow> enc x = enc y \<longleftrightarrow> x = y"
  using prefix_free [of x y "[]" "[]"] by auto

primrec dec_many :: "nat \<Rightarrow> 'a list reader" where
  "dec_many 0 bs = Inr ([], bs)"
| "dec_many (Suc n) bs = and_then (dec bs) (\<lambda>(x, r). and_then (dec_many n r) (\<lambda>(xs, r). Inr (x # xs, r)))"

lemma dec_many_enc: "list_all ok xs \<Longrightarrow> dec_many (length xs) (concat (map enc xs) @ rest) = Inr (xs, rest)"
  by (induction xs) (auto simp: dec_enc)

lemma concat_enc_inject:
  assumes "list_all ok xs" "list_all ok ys" "length xs = length ys"
  shows "concat (map enc xs) = concat (map enc ys) \<longleftrightarrow> xs = ys"
proof
  assume eq: "concat (map enc xs) = concat (map enc ys)"
  have "Inr (xs, []) = dec_many (length ys) (concat (map enc ys) @ [])"
    using dec_many_enc [OF assms(1), of "[]"] by (simp only: eq assms(3))
  then show "xs = ys" by (simp only: dec_many_enc [OF assms(2)]) simp
qed simp

end

section \<open>Variable-length integers\<close>

lemma mask_7F: "(0x7F :: 'a::len word) = mask 7"
  by (simp add: mask_eq_exp_minus_1)

lemma and_7F_small: "unat v < 128 \<Longrightarrow> v AND 0x7F = (v :: 'a::len word)"
  by (simp add: mask_7F flip: take_bit_eq_mask) (simp add: word_unat_eq_iff unsigned_take_bit_eq take_bit_nat_eq_self)

lemma and_7F_lt: "(b AND 0x7F :: u8) < 128"
proof -
  have "b AND 0x7F \<le> (0x7F :: u8)" by (rule word_and_le1)
  also have "\<dots> < 128" by simp
  finally show ?thesis .
qed

lemma low7_bits: "(ucast (v AND 0x7F :: u128) :: u8) AND 0x7F = ucast (v AND 0x7F)"
  by (rule bit_word_eqI) (auto simp: mask_7F bit_simps)

lemma ucast_low7: "ucast (ucast (v AND 0x7F) :: u8) = (v AND 0x7F :: u128)"
  by (rule bit_word_eqI) (auto simp: mask_7F bit_simps)

lemma low7_more:
  "ucast ((ucast (v AND 0x7F) OR 0x80 :: u8) AND 0x7F) = (v AND 0x7F :: u128)"
  "\<not> (ucast (v AND 0x7F :: u128) OR 0x80 :: u8) < 128"
proof -
  have "(ucast (v AND 0x7F) OR 0x80 :: u8) AND 0x7F = ucast (v AND 0x7F) AND 0x7F"
    by (simp only: bit.conj_disj_distrib2) simp
  then show "ucast ((ucast (v AND 0x7F) OR 0x80 :: u8) AND 0x7F) = (v AND 0x7F :: u128)"
    by (simp only: low7_bits ucast_low7)
  have "0x80 \<le> (0x80 OR ucast (v AND 0x7F) :: u8)" by (rule le_word_or2)
  then show "\<not> (ucast (v AND 0x7F :: u128) OR 0x80 :: u8) < 128" by (simp add: or.commute not_less)
qed

lemma low7_last:
  fixes v :: u128
  assumes "\<not> 128 \<le> v"
  shows "ucast ((ucast (v AND 0x7F) :: u8) AND 0x7F) = v" "(ucast (v AND 0x7F) :: u8) < 128"
proof -
  have "unat v < 128" using assms by (simp add: word_le_nat_alt)
  then show "ucast ((ucast (v AND 0x7F) :: u8) AND 0x7F) = v"
    by (metis low7_bits ucast_low7 and_7F_small)
  show "(ucast (v AND 0x7F) :: u8) < 128" using and_7F_lt low7_bits by metis
qed

lemma split_low7:
  fixes v :: u128
  shows "push_bit n (v AND 0x7F) OR push_bit (n + 7) (drop_bit 7 v) = push_bit n v"
proof -
  have "v AND 0x7F OR push_bit 7 (drop_bit 7 v) = v"
  proof (rule bit_word_eqI)
    fix k
    show "bit (v AND 0x7F OR push_bit 7 (drop_bit 7 v)) k \<longleftrightarrow> bit v k"
      if "k < LENGTH(128)" using that by (cases "k < 7") (simp_all add: mask_7F bit_simps)
  qed
  then have "push_bit n (v AND 0x7F) OR push_bit n (push_bit 7 (drop_bit 7 v)) = push_bit n v"
    by (simp only: flip: push_bit_or)
  then show ?thesis by (simp only: push_bit_push_bit)
qed

lemma get_put_u128v_from:
  "unat v < 2 ^ (128 - ofs) \<Longrightarrow>
    get_u128v_from ofs raw (put_u128v v @ rest) = Inr (raw OR push_bit ofs v, rest)"
proof (induction v arbitrary: ofs raw rule: put_u128v.induct)
  case (1 v)
  show ?case
  proof (cases "128 \<le> v")
    case True
    then have v: "128 \<le> unat v" by (simp add: word_le_nat_alt)
    have "ofs < 121"
    proof (rule ccontr)
      assume "\<not> ofs < 121"
      then have "(2::nat) ^ (128 - ofs) \<le> 2 ^ 7" by (intro power_increasing) simp_all
      with v "1.prems" show False by simp
    qed
    moreover have "unat (drop_bit 7 v) < 2 ^ (128 - (ofs + 7))"
    proof -
      have "unat v < 2 ^ (128 - (ofs + 7)) * 128"
        using "1.prems" \<open>ofs < 121\<close> power_add [of "2::nat" "128 - (ofs + 7)" 7] by simp
      then show ?thesis by (simp only: unat_drop_7 less_mult_imp_div_less)
    qed
    ultimately show ?thesis
      using "1.IH" [OF True, of "ofs + 7" "raw OR push_bit ofs (v AND 0x7F)"] True
      by (subst put_u128v.simps) (simp add: low7_more Let_def or.assoc split_low7 del: push_bit_and)
  next
    case False
    then show ?thesis by (subst put_u128v.simps) (simp add: low7_last Let_def)
  qed
qed

lemma get_put_u128v: "get_u128v (put_u128v v @ rest) = Inr (v, rest)"
  using get_put_u128v_from [of v 0 0 rest] unsigned_less [of v] by (simp add: get_u128v_def)

interpretation u128v: codec put_u128v get_u128v "\<lambda>_. True"
  by unfold_locales (rule get_put_u128v)

section \<open>Each item round trips\<close>

lemma ucast_up_down: 
  "ucast (ucast (i :: usize) :: u128) = i"
  "ucast (ucast (k :: u32) :: u128) = k"
  by (rule bit_word_eqI; simp add: bit_simps)+

lemma get_usize_put: "get_usize (put_u128v (ucast i) @ rest) = Inr (i, rest)"
  by (simp add: get_usize_def get_put_u128v ucast_up_down)

lemma get_u32_put: "get_u32 (put_u128v (ucast i) @ rest) = Inr (i, rest)"
  by (simp add: get_u32_def get_put_u128v ucast_up_down)

lemma get_byte_vec_put:
  assumes "length v < 2 ^ 30"
  shows "get_byte_vec (put_bytes v @ rest) = Inr (v, rest)"
proof -
  have n: "unat (of_nat (length v) :: u128) = length v"
    using assms by (intro unat_of_nat_small) simp
  then have "(of_nat (length v) :: u128) < 2 ^ 30" using assms by (simp add: word_less_nat_alt)
  then show ?thesis by (simp add: get_byte_vec_def put_bytes_def get_put_u128v read_exact_def n)
qed

lemma get_string_put:
  assumes "valid_str s" "length (utf8 s) < 2 ^ 30"
  shows "get_string (put_bytes (utf8 s) @ rest) = Inr (s, rest)"
  using assms by (simp add: get_string_def get_byte_vec_put)

lemma length_le_bytes [simp]: "length (le_bytes k n) = k"
  by (induction k arbitrary: n) simp_all

lemma le_value_le_bytes: "le_value (le_bytes k n) = n mod 256 ^ k"
  by (induction k arbitrary: n) (simp_all add: mod_mult2_eq)

lemma get_f64_put: "get_f64 (put_f64 v @ rest) = Inr (v, rest)"
proof -
  have "unat v mod 256 ^ 8 = unat v" using unsigned_less [of v, where 'a = nat] by (intro mod_less) simp
  then show ?thesis by (simp add: get_f64_def put_f64_def read_exact_def le_value_le_bytes)
qed

lemma get_char_put:
  assumes "scalar_value c" "c < 0x10FFFF"
  shows "get_char (put_u128v (of_nat c) @ rest) = Inr (c, rest)"
proof -
  have n: "unat (of_nat c :: u128) = c" using assms(2) by (intro unat_of_nat_small) simp
  then have "(of_nat c :: u128) < 0x10FFFF" using assms(2) by (simp add: word_less_nat_alt)
  then show ?thesis using assms(1) by (simp add: get_char_def get_put_u128v n)
qed

lemma drop_push_bit:
  "drop_bit n (push_bit n w) = take_bit (LENGTH('a) - n) (w :: 'a::len word)"
  by (rule bit_word_eqI) (auto simp: bit_simps)

lemma zigzag_even:
  fixes w :: i128
  shows "push_bit 1 w AND 1 = 0" "drop_bit 1 (push_bit 1 w) = take_bit 127 w"
proof -
  show "push_bit 1 w AND 1 = 0" by (rule bit_word_eqI) (simp only: bit_simps bit_1_iff, auto)
  show "drop_bit 1 (push_bit 1 w) = take_bit 127 w"
    using drop_push_bit [of 1 w] by (simp only: len_bit0 len_bit1 len_num1 One_nat_def) simp
qed

lemma zigzag_odd:
  fixes w :: i128
  shows "(push_bit 1 w OR 1) AND 1 \<noteq> 0" "drop_bit 1 (push_bit 1 w OR 1) = take_bit 127 w"
proof -
  have "(push_bit 1 w OR 1) AND 1 = 1" by (simp add: bit.conj_disj_distrib2)
  then show "(push_bit 1 w OR 1) AND 1 \<noteq> 0" by simp
  have "drop_bit 1 (1 :: i128) = 0" by simp
  then show "drop_bit 1 (push_bit 1 w OR 1) = take_bit 127 w"
    by (simp only: drop_bit_or zigzag_even or.right_neutral)
qed

lemma sint_i128_bounds: "- (2 ^ 127) \<le> sint (w :: i128)" "sint (w :: i128) < 2 ^ 127"
  using sint_ge [of w] sint_lt [of w] by simp_all

lemma uint_of_sint: "uint (w :: i128) = (if sint w < 0 then sint w + 2 ^ 128 else sint w)"
proof -
  have "uint w = sint w mod 2 ^ 128" by (simp add: uint_sint take_bit_eq_mod)
  moreover have "(sint w + 2 ^ 128) mod 2 ^ 128 = sint w + 2 ^ 128" if "sint w < 0"
    using that sint_i128_bounds(1) [of w] by (intro mod_pos_pos_trivial) simp_all
  moreover have "sint w mod 2 ^ 128 = sint w" if "\<not> sint w < 0"
    using that sint_i128_bounds(2) [of w] by (intro mod_pos_pos_trivial) simp_all
  ultimately show ?thesis by (auto simp only: mod_add_self2 split: if_splits)
qed

lemma take_127:
  fixes w :: i128
  shows "0 \<le> sint w \<Longrightarrow> take_bit 127 w = w"
    and "sint w < 0 \<Longrightarrow> take_bit 127 w = w - 2 ^ 127"
proof -
  have "take_bit 127 w = of_int (take_bit 127 (uint w))" by (simp only: of_int_take_bit of_int_uint ucast_id)
  then have t: "take_bit 127 w = of_int (uint w mod 2 ^ 127)" by (simp only: take_bit_eq_mod)
  show "take_bit 127 w = w" if "0 \<le> sint w"
  proof -
    have "uint w mod 2 ^ 127 = uint w"
      using that sint_i128_bounds(2) [of w] by (intro mod_pos_pos_trivial) (simp_all add: uint_of_sint)
    then show ?thesis by (simp add: t)
  qed
  show "take_bit 127 w = w - 2 ^ 127" if "sint w < 0"
  proof -
    have "uint w mod 2 ^ 127 = (uint w - 2 ^ 127) mod 2 ^ 127" by (simp only: minus_mod_self2)
    also have "\<dots> = uint w - 2 ^ 127"
      using that sint_i128_bounds [of w] by (intro mod_pos_pos_trivial) (simp_all add: uint_of_sint)
    finally show ?thesis by (simp add: t)
  qed
qed

lemma sint_Suc:
  assumes "sint (v :: i128) < 0"
  shows "sint (v + 1) = sint v + 1"
proof -
  have "v + 1 = word_of_int (sint v + 1)" by simp
  then have "sint (v + 1) = signed_take_bit 127 (sint v + 1)"
    using sint_sbintrunc' [where 'a = 128, of "sint v + 1"] by simp
  also have "\<dots> = sint v + 1"
    using assms sint_i128_bounds(1) [of v] by (intro signed_take_bit_int_eq_self) simp_all
  finally show ?thesis .
qed

lemma get_put_i128v:
  "get_i128v (put_i128v v @ rest) = Inr (if - 1 \<le> sint v then v else 2 ^ 127 - v - 2, rest)"
proof -
  consider "0 \<le> sint v" | "sint v = - 1" | "sint v < - 1" by linarith
  then show ?thesis
  proof cases
    case 1
    then have "\<not> sint v < 0" by linarith
    then have put: "put_i128v v = put_u128v (push_bit 1 v)" unfolding put_i128v_def by (rule if_not_P)
    have t: "take_bit 127 v = v" using 1 by (rule take_127)
    have "get_i128v (put_i128v v @ rest) = Inr (v, rest)"
      by (simp only: put get_i128v_def get_put_u128v and_then_simps prod.case zigzag_even t simp_thms if_False)
    moreover have "- 1 \<le> sint v" using 1 by linarith
    ultimately show ?thesis by (simp only: if_True)
  next
    case 2
    have "word_of_int (sint v) = v" by simp
    then have "v = - 1" by (simp only: 2) simp
    then show ?thesis by (simp add: put_i128v_def get_i128v_def get_put_u128v)
  next
    case 3
    then have "sint v < 0" by linarith
    then have put: "put_i128v v = put_u128v (push_bit 1 (v + 1) OR 1)" unfolding put_i128v_def by (rule if_P)
    have "sint (v + 1) < 0" using 3 sint_Suc [OF \<open>sint v < 0\<close>] by linarith
    then have t: "take_bit 127 (v + 1) = v + 1 - 2 ^ 127" by (rule take_127)
    have "get_i128v (put_i128v v @ rest) = Inr (- (v + 1 - 2 ^ 127 + 1), rest)"
      by (simp only: put get_i128v_def get_put_u128v and_then_simps prod.case zigzag_odd t simp_thms if_True)
    also have "- (v + 1 - 2 ^ 127 + 1) = 2 ^ 127 - v - 2" by (simp add: algebra_simps)
    also have "\<dots> = (if - 1 \<le> sint v then v else 2 ^ 127 - v - 2)" using 3 by (intro if_not_P [symmetric]) linarith
    finally show ?thesis .
  qed
qed

text \<open>The values each writer can send so that the reader gives them back.\<close>

definition str_ok :: "rstr \<Rightarrow> bool" where
  "str_ok s \<longleftrightarrow> valid_str s \<and> length (utf8 s) < 2 ^ 30"

interpretation i128v: codec put_i128v get_i128v "\<lambda>v. - 1 \<le> sint v"
  by unfold_locales (simp add: get_put_i128v)

interpretation bytes: codec put_bytes get_byte_vec "\<lambda>v. length v < 2 ^ 30"
  by unfold_locales (rule get_byte_vec_put)

interpretation string: codec "\<lambda>s. put_bytes (utf8 s)" get_string str_ok
  by unfold_locales (simp add: str_ok_def get_string_put)

interpretation usize: codec "\<lambda>i. put_u128v (ucast i)" get_usize "\<lambda>_. True"
  by unfold_locales (rule get_usize_put)

interpretation u32: codec "\<lambda>i. put_u128v (ucast i)" get_u32 "\<lambda>_. True"
  by unfold_locales (rule get_u32_put)

interpretation f64: codec put_f64 get_f64 "\<lambda>_. True"
  by unfold_locales (rule get_f64_put)

fun token_ok :: "token \<Rightarrow> bool" where
  "token_ok (Symbol v) = str_ok v"
| "token_ok (Ident v) = str_ok v"
| "token_ok (Lifetime v) = str_ok v"
| "token_ok (StringTok v) = str_ok v"
| "token_ok (ByteString v) = (length v < 2 ^ 30)"
| "token_ok (CharTok c) = (scalar_value c \<and> c < 0x10FFFF)"
| "token_ok (Signed v sz) = (- 1 \<le> sint v)"
| "token_ok (SpanDef sd) = str_ok (path sd)"
| "token_ok (RawLiteral v) = str_ok v"
| "token_ok t = True"

lemmas payloads = u128v.dec_enc i128v.dec_enc bytes.dec_enc string.dec_enc usize.dec_enc u32.dec_enc
  f64.dec_enc

lemma getb_simps [simp]:
  "getb [] = (None, [])" "getb (b # r) = (Some b, r)"
  "getb_expect msg (b # r) = Inr (b, r)" "getb_expect msg [] = Inl (Panic msg)"
  by (simp_all add: getb_def getb_expect_def)

lemma get_span_def_put:
  assumes "str_ok (path sd)"
  shows "read_ent (write_ent (SpanDef sd) @ rest) = Inr (Some (SpanDef sd), rest)"
  using assms
  by (cases sd) (simp add: write_ent_def read_ent_def read_body_def reading_def get_span_def_def payloads)

theorem read_write_ent:
  assumes "token_ok t"
  shows "read_ent (write_ent t @ rest) = Inr (Some t, rest)"
proof (cases t)
  case (SpanDef sd)
  then show ?thesis using get_span_def_put assms by simp
qed (use assms in \<open>simp_all add: write_ent_def read_ent_def read_body_def reading_def sized_def payloads get_char_put\<close>)

end
