(* ===== verification/Wire_Reading.thy ===== *)
theory Wire_Reading
  imports Wire "HOL-Library.Sublist"
begin

text \<open>
  What reading does to its input: every reader returns a suffix of it, a token takes at least
  one byte, and what a reader returns is well formed. The loop of
  \<^verbatim>\<open>lib/proc_macro/tools/dump.rs\<close> that reads every token of a stream is defined here. The
  properties of the protocol close the theory.
\<close>

unbundle bit_operations_syntax

section \<open>How much a reader takes\<close>

text \<open>A reader returns a suffix of its input.\<close>

definition consumes :: "'a reader \<Rightarrow> bool" where
  "consumes r \<longleftrightarrow> (\<forall>bs x rest. r bs = Inr (x, rest) \<longrightarrow> suffix rest bs)"

named_theorems consumes_intros \<open>readers return a suffix of their input\<close>

lemma consumesI: "(\<And>bs x rest. r bs = Inr (x, rest) \<Longrightarrow> suffix rest bs) \<Longrightarrow> consumes r"
  by (simp add: consumes_def)

lemma consumesD: "consumes r \<Longrightarrow> r bs = Inr (x, rest) \<Longrightarrow> suffix rest bs"
  unfolding consumes_def by blast

lemma consumes_return [consumes_intros]: "consumes (\<lambda>bs. Inr (x, bs))"
  by (simp add: consumes_def)

lemma consumes_panic [consumes_intros]: "consumes (\<lambda>bs. Inl e)"
  by (simp add: consumes_def)

lemma consumes_bind [consumes_intros]:
  assumes "consumes r" "\<And>x. consumes (f x)"
  shows "consumes (\<lambda>bs. and_then (r bs) (\<lambda>(x, rest). f x rest))"
proof (rule consumesI)
  fix bs y rest
  assume "and_then (r bs) (\<lambda>(x, rest). f x rest) = Inr (y, rest)"
  then obtain x mid where "r bs = Inr (x, mid)" "f x mid = Inr (y, rest)" by auto
  then have "suffix mid bs" "suffix rest mid"
    using consumesD [OF assms(1)] consumesD [OF assms(2)] by fast+
  then show "suffix rest bs" using suffix_order.trans by blast
qed

lemma consumes_if [consumes_intros]:
  "consumes r \<Longrightarrow> consumes s \<Longrightarrow> consumes (\<lambda>bs. if b then r bs else s bs)"
  by (cases b) simp_all

lemma consumes_expect [consumes_intros]:
  "(\<And>x. consumes (f x)) \<Longrightarrow> consumes (\<lambda>bs. and_then (expect_some msg v) (\<lambda>x. f x bs))"
  by (cases v) (simp_all add: consumes_def)

lemma consumes_getb [consumes_intros]: "consumes (getb_expect msg)"
proof (rule consumesI)
  fix bs x rest
  assume "getb_expect msg bs = Inr (x, rest)"
  then show "suffix rest bs" by (cases bs) (auto simp: suffix_ConsI)
qed

lemma consumes_read_exact [consumes_intros]: "consumes (read_exact msg n)"
  by (rule consumesI) (auto simp: read_exact_def suffix_drop split: if_splits)

text \<open>An integer takes at least one and at most nineteen bytes.\<close>

lemma get_u128v_from_taken:
  "get_u128v_from (7 * k) raw bs = Inr (v, rest) \<Longrightarrow>
    \<exists>pre. bs = pre @ rest \<and> pre \<noteq> [] \<and> (k \<le> 18 \<longrightarrow> k + length pre \<le> 19)"
proof (induction bs arbitrary: k raw)
  case (Cons b bs)
  show ?case
  proof (cases "b < 128")
    case True
    then have "b # bs = [b] @ rest" using Cons.prems by (simp add: Let_def)
    then show ?thesis by force
  next
    case False
    with Cons.prems have ofs: "7 * k < 18 * 7"
      and "get_u128v_from (7 * Suc k) (raw OR push_bit (7 * k) (ucast (b AND 0x7F))) bs = Inr (v, rest)"
      by (simp_all add: Let_def add.commute split: if_splits)
    from Cons.IH [OF this(2)] obtain pre where
      pre: "bs = pre @ rest" "Suc k \<le> 18 \<longrightarrow> Suc k + length pre \<le> 19" by blast
    then have "b # bs = (b # pre) @ rest" "k + length (b # pre) \<le> 19" using ofs by simp_all
    then show ?thesis by (intro exI [of _ "b # pre"]) simp
  qed
qed simp

lemma get_u128v_taken:
  assumes "get_u128v bs = Inr (v, rest)"
  obtains pre where "bs = pre @ rest" "pre \<noteq> []" "length pre \<le> 19"
  using get_u128v_from_taken [of 0 0 bs v rest] assms by (auto simp: get_u128v_def)

lemma consumes_u128v [consumes_intros]: "consumes get_u128v"
  by (rule consumesI) (auto simp: suffix_def elim: get_u128v_taken)

lemma consumes_i128v [consumes_intros]: "consumes get_i128v"
  unfolding get_i128v_def by (intro consumes_intros)

lemma consumes_usize [consumes_intros]: "consumes get_usize"
  unfolding get_usize_def by (intro consumes_intros)

lemma consumes_u32 [consumes_intros]: "consumes get_u32"
  unfolding get_u32_def by (intro consumes_intros)

lemma consumes_byte_vec [consumes_intros]: "consumes get_byte_vec"
  unfolding get_byte_vec_def by (intro consumes_intros)

lemma consumes_string [consumes_intros]: "consumes get_string"
  unfolding get_string_def by (intro consumes_intros)

lemma consumes_f64 [consumes_intros]: "consumes get_f64"
  unfolding get_f64_def by (intro consumes_intros)

lemma consumes_char [consumes_intros]: "consumes get_char"
  unfolding get_char_def by (intro consumes_intros)

lemma consumes_span_def [consumes_intros]: "consumes get_span_def"
  unfolding get_span_def_def by (intro consumes_intros)

lemma consumes_reading [consumes_intros]: "consumes r \<Longrightarrow> consumes (reading f r)"
  unfolding reading_def by (intro consumes_intros)

lemma consumes_sized [consumes_intros]: "(\<And>ty. consumes (r ty)) \<Longrightarrow> consumes (sized r)"
  unfolding sized_def by (intro consumes_intros)

lemma consumes_body: "consumes (read_body b)"
  unfolding read_body_def by (intro consumes_intros)

lemma read_ent_shorter:
  assumes "read_ent bs = Inr (Some t, rest)"
  shows "suffix rest bs" "length rest < length bs"
proof -
  obtain b r where b: "bs = b # r" "read_body b r = Inr (t, rest)"
    using assms by (cases bs) (auto simp: read_ent_def reading_def)
  then have "suffix rest r" using consumesD [OF consumes_body] by blast
  then show "suffix rest bs" "length rest < length bs"
    using b(1) suffix_length_le by (force simp: suffix_ConsI)+
qed

lemma read_ent_end: "read_ent bs = Inr (None, rest) \<longleftrightarrow> bs = [] \<and> rest = []"
  by (cases bs) (auto simp: read_ent_def reading_def)

section \<open>What a reader returns is well formed\<close>

lemma get_byte_vec_length:
  assumes "get_byte_vec bs = Inr (v, rest)"
  shows "length v < 2 ^ 30"
proof -
  obtain size r where "size < (2 ^ 30 :: u128)" "read_exact ''Error reading from stdin get_byte_vec'' (unat size) r = Inr (v, rest)"
    using assms by (auto simp: get_byte_vec_def split: if_splits)
  then show ?thesis by (auto simp: read_exact_def word_less_nat_alt split: if_splits)
qed

lemma get_string_ok: "get_string bs = Inr (s, rest) \<Longrightarrow> str_ok s"
  using get_byte_vec_length utf8_from_utf8 by (fastforce simp: get_string_def str_ok_def)

lemma get_char_ok: "get_char bs = Inr (c, rest) \<Longrightarrow> scalar_value c \<and> c < 0x10FFFF"
  by (auto simp: get_char_def word_less_nat_alt split: if_splits)

lemma get_span_def_ok: "get_span_def bs = Inr (sd, rest) \<Longrightarrow> str_ok (path sd)"
  by (auto simp: get_span_def_def dest: get_string_ok)

lemma read_body_ok:
  assumes "read_body b bs = Inr (t, rest)"
  shows "token_ok t \<or> (\<exists>v sz. t = Signed v sz)"
  using assms
  by (auto simp: read_body_def reading_def sized_def split: if_splits
      dest: get_string_ok get_byte_vec_length get_char_ok get_span_def_ok)

section \<open>Reading a whole stream\<close>

function read_all :: "u8 list \<Rightarrow> token list result" where
  "read_all bs = and_then (read_ent bs) (\<lambda>(t, rest).
     case t of None \<Rightarrow> Inr [] | Some t \<Rightarrow> and_then (read_all rest) (\<lambda>ts. Inr (t # ts)))"
  by pat_completeness auto
termination
  by (relation "measure length") (auto dest: read_ent_shorter)

declare read_all.simps [simp del]

lemma read_all_Nil: "read_all [] = Inr []"
  by (subst read_all.simps) (simp add: read_ent_def)

lemma read_all_write: "token_ok t \<Longrightarrow> read_all (write_ent t @ bs) = and_then (read_all bs) (\<lambda>ts. Inr (t # ts))"
  by (subst read_all.simps) (simp add: read_write_ent)

lemma read_all_concat:
  "list_all token_ok ts \<Longrightarrow> read_all (concat (map write_ent ts)) = Inr ts"
  by (induction ts) (simp_all add: read_all_Nil read_all_write)

section \<open>Tokens that do not come back as they were sent\<close>

text \<open>The bytes of the string or byte string in a token.\<close>

fun payload_length :: "token \<Rightarrow> nat" where
  "payload_length (Symbol v) = length (utf8 v)"
| "payload_length (Ident v) = length (utf8 v)"
| "payload_length (Lifetime v) = length (utf8 v)"
| "payload_length (StringTok v) = length (utf8 v)"
| "payload_length (ByteString v) = length v"
| "payload_length (SpanDef sd) = length (utf8 (path sd))"
| "payload_length (RawLiteral v) = length (utf8 v)"
| "payload_length t = 0"

fun valid_payload :: "token \<Rightarrow> bool" where
  "valid_payload (Symbol v) = valid_str v"
| "valid_payload (Ident v) = valid_str v"
| "valid_payload (Lifetime v) = valid_str v"
| "valid_payload (StringTok v) = valid_str v"
| "valid_payload (SpanDef sd) = valid_str (path sd)"
| "valid_payload (RawLiteral v) = valid_str v"
| "valid_payload (CharTok c) = scalar_value c"
| "valid_payload t = True"

text \<open>The values of the type: strings of scalar values that fit in memory, any scalar value, any integer.\<close>

definition legal :: "token \<Rightarrow> bool" where
  "legal t \<longleftrightarrow> valid_payload t \<and> payload_length t < 2 ^ 64"

text \<open>What the reader makes of a token that was written.\<close>

definition received_token :: "token \<Rightarrow> token result" where
  "received_token t =
     (if 2 ^ 30 \<le> payload_length t then Inl (Panic ''assertion failed: size < (1<<30)'')
      else case t of
        CharTok c \<Rightarrow> if c = 0x10FFFF then Inl (Panic ''Protocol error: malformed char literal'') else Inr t
      | Signed v sz \<Rightarrow> Inr (Signed (if - 1 \<le> sint v then v else 2 ^ 127 - v - 2) sz)
      | _ \<Rightarrow> Inr t)"

fun received_tokens :: "token list \<Rightarrow> token list result" where
  "received_tokens [] = Inr []"
| "received_tokens (t # ts) = and_then (received_token t) (\<lambda>t. and_then (received_tokens ts) (\<lambda>ts. Inr (t # ts)))"

lemma legal_received: "legal t \<Longrightarrow> payload_length t < 2 ^ 30 \<Longrightarrow> (\<forall>v sz. t \<noteq> Signed v sz) \<Longrightarrow> t \<noteq> CharTok 0x10FFFF \<Longrightarrow> token_ok t \<and> received_token t = Inr t"
  by (cases t) (auto simp: legal_def str_ok_def received_token_def scalar_value_def)

lemma get_byte_vec_long:
  assumes "2 ^ 30 \<le> length v" "length v < 2 ^ 64"
  shows "get_byte_vec (put_bytes v @ rest) = Inl (Panic ''assertion failed: size < (1<<30)'')"
proof -
  have "unat (of_nat (length v) :: u128) = length v" using assms(2) by (intro unat_of_nat_small) simp
  then have "\<not> (of_nat (length v) :: u128) < 2 ^ 30" using assms(1) by (simp add: word_less_nat_alt)
  then show ?thesis by (simp add: get_byte_vec_def put_bytes_def get_put_u128v)
qed

lemma read_long:
  assumes "2 ^ 30 \<le> payload_length t" "payload_length t < 2 ^ 64"
  shows "read_ent (write_ent t @ rest) = Inl (Panic ''assertion failed: size < (1<<30)'')"
  using assms get_byte_vec_long
  by (cases t) (simp_all add: write_ent_def read_ent_def read_body_def reading_def get_string_def get_span_def_def payloads)

lemma read_signed: "read_ent (write_ent (Signed v sz) @ rest) = Inr (Some (Signed (if - 1 \<le> sint v then v else 2 ^ 127 - v - 2) sz), rest)"
  by (simp add: write_ent_def read_ent_def read_body_def reading_def sized_def get_put_i128v)

lemma read_largest_char: "read_ent (write_ent (CharTok 0x10FFFF) @ rest) = Inl (Panic ''Protocol error: malformed char literal'')"
  by (simp add: write_ent_def read_ent_def read_body_def reading_def get_char_def get_put_u128v)

lemma read_legal:
  assumes "legal t"
  shows "read_ent (write_ent t @ rest) = and_then (received_token t) (\<lambda>t. Inr (Some t, rest))"
proof -
  consider "2 ^ 30 \<le> payload_length t" | v sz where "t = Signed v sz" | "t = CharTok 0x10FFFF"
    | "payload_length t < 2 ^ 30" "\<forall>v sz. t \<noteq> Signed v sz" "t \<noteq> CharTok 0x10FFFF" by fastforce
  then show ?thesis
  proof cases
    case 1
    then show ?thesis using read_long assms by (simp add: received_token_def legal_def)
  next
    case 2
    then show ?thesis using read_signed by (simp add: received_token_def)
  next
    case 3
    then show ?thesis using read_largest_char by (simp add: received_token_def)
  next
    case 4
    then show ?thesis using legal_received [OF assms 4] read_write_ent by simp
  qed
qed

lemma read_all_legal: "list_all legal ts \<Longrightarrow> read_all (concat (map write_ent ts)) = received_tokens ts"
proof (induction ts)
  case (Cons t ts)
  then show ?case
    by (cases "received_token t") (simp_all add: read_all.simps [of "write_ent t @ _"] read_legal)
qed (simp add: read_all_Nil)

lemma received_ok: "list_all token_ok ts \<Longrightarrow> received_tokens ts = Inr ts"
proof (induction ts)
  case (Cons t ts)
  then have "received_token t = Inr t" by (cases t) (auto simp: received_token_def str_ok_def not_le)
  then show ?case using Cons by simp
qed simp

text \<open>The length of the variable-length form: the number of base-128 digits.\<close>

fun base128_length :: "nat \<Rightarrow> nat" where
  "base128_length n = (if n < 128 then 1 else Suc (base128_length (n div 128)))"

declare base128_length.simps [simp del]

lemma length_put_u128v: "length (put_u128v v) = base128_length (unat v)"
proof (induction v rule: put_u128v.induct)
  case (1 v)
  have le: "128 \<le> v \<longleftrightarrow> \<not> unat v < 128" by (simp add: word_le_nat_alt not_less)
  show ?case
  proof (cases "128 \<le> v")
    case True
    then show ?thesis
      using "1.IH" le by (subst put_u128v.simps, subst base128_length.simps) (simp only: unat_drop_7, simp)
  next
    case False
    then show ?thesis
      using le by (subst put_u128v.simps, subst base128_length.simps) simp
  qed
qed

section \<open>Properties\<close>

text \<open>
  C16. The protocol, for every sequence of tokens there can be: written one after the other, the
  tokens are read back token by token, and nothing is left over, but for three kinds. A signed
  value below \<open>-1\<close> comes back as \<open>2 ^ 127 - v - 2\<close>; the largest scalar value, U+10FFFF, panics the reader; and so does
  a string or byte string of a gigabyte or more. Without these, the tokens that come back are those that were sent.
\<close>

theorem tokens_round_trip:
  assumes "list_all legal ts"
  shows "read_all (concat (map write_ent ts)) = received_tokens ts \<and> (list_all token_ok ts \<longrightarrow> received_tokens ts = Inr ts)"
  using read_all_legal [OF assms] received_ok by blast

theorem tokens_round_trip_witness:
  "read_all (concat (map write_ent [Symbol (str ''::''), Signed (- 1) 8, EndOfStream])) = Inr [Symbol (str ''::''), Signed (- 1) 8, EndOfStream] \<and>
   read_all (concat (map write_ent [Ident (str ''x''), Signed (- 2) 8])) = Inr [Ident (str ''x''), Signed (2 ^ 127) 8]"
proof -
  have "list_all legal [Symbol (str ''::''), Signed (- 1) 8, EndOfStream]" "list_all legal [Ident (str ''x''), Signed (- 2) 8]"
    by (simp_all add: legal_def scalar_value_def utf8_def utf8_char_def str_def)
  from this [THEN tokens_round_trip] show ?thesis
    by (simp add: received_token_def utf8_def utf8_char_def str_def)
qed

text \<open>
  Every token costs at least one byte and stands at the front of the input: reading
  never looks past what it returns, and a token it returns holds only valid UTF-8 strings
  below \<open>2 ^ 30\<close> bytes and only scalar values.
\<close>

theorem read_ent_safe:
  assumes "read_ent bs = Inr (Some t, rest)"
  shows "suffix rest bs \<and> length rest < length bs \<and> (token_ok t \<or> (\<exists>v sz. t = Signed v sz))"
proof -
  obtain b r where "bs = b # r" "read_body b r = Inr (t, rest)"
    using assms by (cases bs) (auto simp: read_ent_def reading_def)
  then show ?thesis using read_ent_shorter [OF assms] read_body_ok by blast
qed

theorem read_ent_safe_witness:
  "read_ent [1, 1, 59, 0] = Inr (Some (Symbol [59]), [0]) \<and> suffix [0] [1, 1, 59, 0 :: u8] \<and> token_ok (Symbol [59])"
proof -
  have read: "read_ent [1, 1, 59, 0] = Inr (Some (Symbol [59]), [0])"
  proof -
    have "write_ent (Symbol [59]) = [1, 1, 59]" by code_simp
    moreover have "token_ok (Symbol [59])" by (simp add: str_ok_def scalar_value_def utf8_def utf8_char_def)
    ultimately show ?thesis using read_write_ent [of "Symbol [59]" "[0]"] by simp
  qed
  from read_ent_safe [OF read] read show ?thesis by simp
qed

text \<open>
  C37. The variable-length form of any 128-bit value fits in nineteen bytes, the largest value
  needs them all, and a reader takes at most nineteen bytes for an integer.
\<close>

theorem u128v_length:
  "length (put_u128v v) \<le> 19 \<and> length (put_u128v (- 1)) = 19 \<and>
   (get_u128v bs = Inr (w, rest) \<longrightarrow> length bs \<le> length rest + 19)"
proof (intro conjI impI)
  obtain pre where "put_u128v v @ [] = pre @ []" "length pre \<le> 19"
    using get_u128v_taken [OF get_put_u128v [of v "[]"]] by blast
  then show "length (put_u128v v) \<le> 19" by simp
  show "length (put_u128v (- 1)) = 19"
    by (simp add: length_put_u128v unsigned_minus_1_eq_mask mask_eq_exp_minus_1 base128_length.simps)
  show "length bs \<le> length rest + 19" if "get_u128v bs = Inr (w, rest)"
    by (rule get_u128v_taken [OF that]) simp
qed

theorem u128v_length_witness:
  "get_u128v [0xAC, 2, 7] = Inr (300, [7]) \<and> length [0xAC, 2, 7 :: u8] \<le> length [7 :: u8] + 19"
proof -
  have read: "get_u128v [0xAC, 2, 7] = Inr (300, [7])"
    using get_put_u128v [of 300 "[7]"] by (simp add: put_u128v.simps)
  from u128v_length [of 300 "[0xAC, 2, 7]" 300 "[7]"] read show ?thesis by simp
qed

text \<open>
  C38. The signed form round trips exactly down to \<open>-1\<close>: below that the writer complements one
  bit too many and the reader gets \<open>2 ^ 127 - v - 2\<close> (modulo \<open>2 ^ 128\<close>).
\<close>

theorem i128v_round_trip:
  "get_i128v (put_i128v v @ rest) = Inr (if - 1 \<le> sint v then v else 2 ^ 127 - v - 2, rest)"
  by (rule get_put_i128v)

text \<open>The largest scalar value can be written but not read: the reader panics on it.\<close>

theorem largest_char_rejected:
  "scalar_value 0x10FFFF \<and>
   read_ent (write_ent (CharTok 0x10FFFF) @ rest) = Inl (Panic ''Protocol error: malformed char literal'')"
  by (simp add: scalar_value_def write_ent_def read_ent_def read_body_def reading_def get_char_def get_put_u128v)

end
