(* ===== verification/Serialise.thy ===== *)
theory Serialise
  imports Wire_Reading Trees
begin

text \<open>
  \<^verbatim>\<open>lib/proc_macro/src/serialisation.rs\<close>: a stream read from the compiler's tokens and
  written back as tokens. Reading is recursive descent over the bytes; its fuel is the number of
  bytes left plus one, which is enough because every turn reads at least one.
\<close>

unbundle bit_operations_syntax

section \<open>The joins of \<^verbatim>\<open>lib.rs\<close>\<close>

definition JOINED_AFTER :: u8 where "JOINED_AFTER = 1"

definition JOINED_OPEN :: u8 where "JOINED_OPEN = 2"

section \<open>Receiving\<close>

text \<open>What the standard library decides: character tables and the text of floats.\<close>

record std_env =
  env_unicode :: unicode
  env_show_f32 :: "32 word \<Rightarrow> rstr"
  env_show_f64 :: "64 word \<Rightarrow> rstr"
  env_f64_as_f32 :: "64 word \<Rightarrow> 32 word"

text \<open>The reader's bytes, the span table, the running span and the pending join.\<close>

record receiver =
  r_bytes :: "u8 list"
  r_table :: span_table
  r_span :: span
  r_joined :: u8

datatype close = CloseStream | CloseSymbol rstr | CloseInvis

datatype recv_fail = RecvPanic panic | RecvFuel

type_synonym 'a received = "recv_fail + 'a"

definition lifted :: "'a result \<Rightarrow> 'a received" where
  "lifted r = (case r of Inl p \<Rightarrow> Inl (RecvPanic p) | Inr x \<Rightarrow> Inr x)"

definition recv_panic :: "string \<Rightarrow> 'a received" where
  "recv_panic msg = Inl (RecvPanic (Panic msg))"

text \<open>\<open>Vec::resize(n, 0)\<close>\<close>

definition resize :: "u8 list \<Rightarrow> nat \<Rightarrow> u8 list" where
  "resize xs n = take n xs @ replicate (n - length xs) 0"

definition define_received :: "span_def \<Rightarrow> span_table \<Rightarrow> span_table result" where
  "define_received sd st =
     and_then (if parent_idx sd = 0 then Inr None
               else and_then (from_raw (parent_idx sd - 1)) (\<lambda>p. Inr (Some p))) (\<lambda>parent.
     define_span (idx sd) parent (SourceFile (path sd) (is_path_real sd))
       (start_line sd, end_line sd) (start_ofs sd, end_ofs sd) st)"

definition spanned :: "literal \<Rightarrow> span \<Rightarrow> 's token_tree" where
  "spanned l sp = TLiteral (literal_set_span sp l)"

definition integer_literal :: "bool \<Rightarrow> rstr \<Rightarrow> u8 \<Rightarrow> rstr \<Rightarrow> literal result" where
  "integer_literal available digits width sign =
     (let suffix = (if width = 0 then [] else if width = 1 then sign @ str ''size''
                    else sign @ decimal (unat width)) in
      and_then (call_site available) (\<lambda>sp.
      expect_some ''Integer from the compiler is no literal'' (from_spelling (digits @ suffix) sp)))"

text \<open>\<open>match val.strip_prefix("r#")\<close>\<close>

definition received_ident :: "rstr \<Rightarrow> span \<Rightarrow> 's token_tree" where
  "received_ident val sp =
     (if starts_with val [c_r, c_hash] then TIdent (ident_from_name (drop 2 val) True sp)
      else TIdent (ident_from_name val False sp))"

text \<open>The punctuation of a symbol: joint up to the last character.\<close>

fun received_puncts :: "rstr \<Rightarrow> span \<Rightarrow> 's token_tree list" where
  "received_puncts [] sp = []"
| "received_puncts [c] sp = [TPunct (punct_from_char c Alone sp)]"
| "received_puncts (c # cs) sp = TPunct (punct_from_char c Joint sp) # received_puncts cs sp"

text \<open>The trees of a token that neither opens nor closes a group.\<close>

definition received_leaf :: "std_env \<Rightarrow> bool \<Rightarrow> span \<Rightarrow> token \<Rightarrow> 's token_tree list result" where
  "received_leaf env available sp t =
     (let one = (\<lambda>m. and_then m (\<lambda>l. Inr [spanned l sp])) in
      case t of
        Symbol val \<Rightarrow> Inr (received_puncts val sp)
      | Ident val \<Rightarrow> Inr [received_ident val sp]
      | Lifetime val \<Rightarrow> Inr [TPunct (punct_from_char c_squote Joint sp), received_ident val sp]
      | StringTok val \<Rightarrow> one (lit_string (env_unicode env) available val)
      | ByteString val \<Rightarrow> one (lit_byte_string (env_unicode env) available val)
      | CharTok ch \<Rightarrow> one (lit_character (env_unicode env) available ch)
      | Unsigned val ty \<Rightarrow> one (integer_literal available (decimal (unat val)) ty [c_u])
      | Signed val ty \<Rightarrow> one (integer_literal available (decimal_int (sint val)) ty [c_i])
      | Float val ty \<Rightarrow> one
          (if ty = 32 then f32_suffixed (env_show_f32 env) available (env_f64_as_f32 env val)
           else if ty = 64 then f64_suffixed (env_show_f64 env) available val
           else f64_unsuffixed (env_show_f64 env) available val)
      | RawLiteral val \<Rightarrow> and_then (expect_some ''Raw literal from the compiler is no literal'' (from_spelling val sp))
          (\<lambda>l. Inr [TLiteral l])
      | _ \<Rightarrow> Inr [])"

text \<open>The end of a turn: the tree is pushed, the joins around it are recorded.\<close>

definition push_joined :: "'s token_tree list \<Rightarrow> u8 list \<Rightarrow> bool \<Rightarrow> u8 \<Rightarrow> 's token_tree list \<times> u8 list" where
  "push_joined toks hs open_joined joined =
     (let hs = resize hs (length toks);
          last_at = length toks - 1;
          hs = (if open_joined then hs[last_at := hs ! last_at OR JOINED_OPEN] else hs)
      in if joined \<noteq> 0 then
           (case toks ! last_at of
              TPunct p \<Rightarrow> if joined = 1 then (toks[last_at := TPunct (p\<lparr>punct_joint := True\<rparr>)], hs)
                         else (toks, hs[last_at := hs ! last_at OR JOINED_AFTER])
            | _ \<Rightarrow> (toks, hs[last_at := hs ! last_at OR JOINED_AFTER]))
         else (toks, hs))"

definition closes :: "close \<Rightarrow> token \<Rightarrow> bool" where
  "closes end_at t = (case t of
     EndOfStream \<Rightarrow> end_at = CloseStream
   | Symbol s \<Rightarrow> end_at = CloseSymbol s
   | CloseInvisible \<Rightarrow> end_at = CloseInvis
   | _ \<Rightarrow> False)"

text \<open>The group an opening token starts: its delimiter, what closes it, its fragment.\<close>

definition opens :: "token \<Rightarrow> (delimiter \<times> close \<times> u16) option" where
  "opens t = (case t of
     OpenInvisible i \<Rightarrow> Some (NoDelimiter, CloseInvis, if i < 0xFFFF then ucast i + 1 else 0)
   | Symbol s \<Rightarrow>
       if s = [c_lbrace] then Some (Brace, CloseSymbol [c_rbrace], 0)
       else if s = [c_lbracket] then Some (Bracket, CloseSymbol [c_rbracket], 0)
       else if s = [c_lparen] then Some (Parenthesis, CloseSymbol [c_rparen], 0)
       else None
   | _ \<Rightarrow> None)"

type_synonym subtree_reader =
  "close \<Rightarrow> stream token_tree list \<Rightarrow> u8 list \<Rightarrow> receiver \<Rightarrow> (stream \<times> receiver) received"

definition push_and_go :: "subtree_reader \<Rightarrow> close \<Rightarrow> stream token_tree list \<Rightarrow> u8 list \<Rightarrow> bool
    \<Rightarrow> receiver \<Rightarrow> (stream \<times> receiver) received" where
  "push_and_go go end_at toks hs open_joined r =
     (let (toks, hs) = push_joined toks hs open_joined (r_joined r)
      in go end_at toks hs (r\<lparr>r_joined := 0\<rparr>))"

text \<open>
  One turn of \<open>while let Some(t) = s.read_ent()\<close>; \<open>go\<close> is the loop itself, and the nested
  call for a group's contents.
\<close>

definition subtree_turn :: "std_env \<Rightarrow> bool \<Rightarrow> subtree_reader \<Rightarrow> subtree_reader" where
  "subtree_turn env available go end_at toks hs r =
     and_then (lifted (read_ent (r_bytes r))) (\<lambda>(t, bs). let r = r\<lparr>r_bytes := bs\<rparr> in
       case t of None \<Rightarrow> recv_panic ''Unexpected EOF'' | Some t \<Rightarrow>
         if closes end_at t then Inr (from_received toks (resize hs (length toks)), r)
         else case opens t of
           Some (d, close, frag) \<Rightarrow>
             (let open_sp = r_span r; open_joined = (r_joined r \<noteq> 0) in
              and_then (go close [] [] (r\<lparr>r_joined := 0\<rparr>)) (\<lambda>(s, r).
                push_and_go go end_at (toks @ [TGroup (Group d s
                  \<lparr>open_span = open_sp, close_span = r_span r, entire_span = open_sp\<rparr> frag)]) hs open_joined r))
         | None \<Rightarrow>
           (case t of
             SpanRef i \<Rightarrow> and_then (lifted (from_raw i)) (\<lambda>sp. go end_at toks hs (r\<lparr>r_span := sp\<rparr>))
           | Joined kind \<Rightarrow> go end_at toks hs (r\<lparr>r_joined := kind\<rparr>)
           | SpanDef sd \<Rightarrow> and_then (lifted (define_received sd (r_table r))) (\<lambda>st.
               go end_at toks hs (r\<lparr>r_table := st\<rparr>))
           | EndOfStream \<Rightarrow> recv_panic ''Unexpected end-of-stream marker''
           | CloseInvisible \<Rightarrow> recv_panic ''Unexpected end of an invisible group''
           | Fragment i \<Rightarrow> recv_panic ''Unexpected fragment reference from the compiler''
           | _ \<Rightarrow>
               if t = Symbol [] then recv_panic ''Unexpected end-of-stream marker''
               else and_then (lifted (received_leaf env available (r_span r) t)) (\<lambda>ts.
                 push_and_go go end_at (toks @ ts) hs False r)))"

fun get_subtree :: "std_env \<Rightarrow> bool \<Rightarrow> nat \<Rightarrow> subtree_reader" where
  "get_subtree env available 0 end_at toks hs r = Inl RecvFuel"
| "get_subtree env available (Suc n) end_at toks hs r =
     subtree_turn env available (get_subtree env available n) end_at toks hs r"

definition recv_token_stream ::
  "std_env \<Rightarrow> bool \<Rightarrow> u8 list \<Rightarrow> span_table \<Rightarrow> (stream \<times> u8 list \<times> span_table) received" where
  "recv_token_stream env available bs st =
     and_then (lifted (call_site available)) (\<lambda>sp.
     and_then (get_subtree env available (Suc (length bs)) CloseStream [] []
       \<lparr>r_bytes = bs, r_table = st, r_span = sp, r_joined = 0\<rparr>) (\<lambda>(s, r).
     Inr (s, r_bytes r, r_table r)))"

section \<open>The fuel is enough\<close>

lemma lifted_Inr [simp]: "lifted m = Inr x \<longleftrightarrow> m = Inr x"
  by (auto simp: lifted_def split: sum.splits)

lemma lifted_not_fuel [simp]: "lifted m \<noteq> Inl RecvFuel"
  by (auto simp: lifted_def split: sum.splits)

lemma recv_panic_simps [simp]: "recv_panic msg \<noteq> Inr x" "recv_panic msg \<noteq> Inl RecvFuel"
  by (simp_all add: recv_panic_def)

text \<open>What a turn asks of the loop it goes on with: less to read at every call.\<close>

lemma push_and_go_eq:
  "push_and_go go e toks hs oj r =
     go e (fst (push_joined toks hs oj (r_joined r))) (snd (push_joined toks hs oj (r_joined r))) (r\<lparr>r_joined := 0\<rparr>)"
  by (simp add: push_and_go_def split: prod.split)

lemma subtree_turn_cong:
  assumes same: "\<And>e toks hs r'. length (r_bytes r') < length (r_bytes r) \<Longrightarrow> f e toks hs r' = g e toks hs r'"
    and less: "\<And>e toks hs r' s q. length (r_bytes r') < length (r_bytes r) \<Longrightarrow> f e toks hs r' = Inr (s, q) \<Longrightarrow>
      length (r_bytes q) \<le> length (r_bytes r')"
  shows "subtree_turn env av f e toks hs r = subtree_turn env av g e toks hs r"
proof (cases "read_ent (r_bytes r)")
  case (Inr x)
  obtain t bs where x: "x = (t, bs)" by (cases x)
  show ?thesis
  proof (cases t)
    case (Some tok)
    then have short: "length bs < length (r_bytes r)" using read_ent_shorter Inr x by blast
    have go: "push_and_go f e' toks' hs' oj q = push_and_go g e' toks' hs' oj q"
      if "length (r_bytes q) \<le> length bs" for e' toks' hs' oj q
      unfolding push_and_go_eq by (rule same) (use that short in simp)
    have nest: "f e' [] [] (r\<lparr>r_bytes := bs, r_joined := 0\<rparr>) = g e' [] [] (r\<lparr>r_bytes := bs, r_joined := 0\<rparr>)" for e'
      by (rule same) (use short in simp)
    have shorter: "length (r_bytes q) \<le> length bs"
      if "g e' [] [] (r\<lparr>r_bytes := bs, r_joined := 0\<rparr>) = Inr (s, q)" for e' s q
      using less [of "r\<lparr>r_bytes := bs, r_joined := 0\<rparr>" e' "[]" "[]" s q] that nest short by simp
    show ?thesis
      unfolding subtree_turn_def Inr x Some
      by (auto simp: lifted_def Let_def same short go nest shorter split: option.split token.split intro!: and_then_cong)
  qed (simp add: subtree_turn_def Inr x lifted_def recv_panic_def)
qed (simp add: subtree_turn_def lifted_def)

text \<open>A turn leaves a suffix of what it was given, and needs no fuel of its own.\<close>

lemma subtree_turn_props:
  assumes fuel: "\<And>e toks hs r'. length (r_bytes r') < length (r_bytes r) \<Longrightarrow> f e toks hs r' \<noteq> Inl RecvFuel"
    and less: "\<And>e toks hs r' s q. length (r_bytes r') < length (r_bytes r) \<Longrightarrow> f e toks hs r' = Inr (s, q) \<Longrightarrow>
      suffix (r_bytes q) (r_bytes r')"
  shows "subtree_turn env av f e toks hs r \<noteq> Inl RecvFuel \<and>
    (\<forall>s q. subtree_turn env av f e toks hs r = Inr (s, q) \<longrightarrow> suffix (r_bytes q) (r_bytes r))"
proof (cases "read_ent (r_bytes r)")
  case (Inr x)
  obtain t bs where x: "x = (t, bs)" by (cases x)
  show ?thesis
  proof (cases t)
    case (Some tok)
    then have short: "suffix bs (r_bytes r)" "length bs < length (r_bytes r)" using read_ent_shorter Inr x by blast+
    have near: "suffix z (r_bytes r) \<and> length z < length (r_bytes r)" if "suffix z bs" for z
      using that short by (auto dest: suffix_length_le suffix_order.trans)
    have stop: "f e' toks' hs' q \<noteq> Inl RecvFuel" if "suffix (r_bytes q) bs" for e' toks' hs' q
      using near [OF that] fuel by auto
    have go: "suffix (r_bytes q') (r_bytes r)"
      if "f e' toks' hs' q = Inr (s, q')" "suffix (r_bytes q) bs" for e' toks' hs' q s q'
      using near [OF that(2)] less [OF _ that(1)] by (auto intro: suffix_order.trans)
    have nest: "f e' [] [] (r\<lparr>r_bytes := bs, r_joined := 0\<rparr>) \<noteq> Inl RecvFuel" for e'
      by (rule fuel) (use short in simp)
    have inner: "suffix (r_bytes q) bs"
      if "f e' [] [] (r\<lparr>r_bytes := bs, r_joined := 0\<rparr>) = Inr (s, q)" for e' s q
      using less [of "r\<lparr>r_bytes := bs, r_joined := 0\<rparr>" e' "[]" "[]" s q] that short by simp
    show ?thesis
    proof (cases "opens tok")
      case None
      show ?thesis
        unfolding subtree_turn_def Inr x Some prod.case
        using short stop by (auto simp: None push_and_go_eq lifted_def Let_def and_then_eq_Inl
            split: token.splits if_splits sum.splits dest: go)
    next
      case (Some a)
      show ?thesis
        unfolding subtree_turn_def Inr x \<open>t = Some tok\<close> prod.case
        using short stop nest
        by (auto simp: Some push_and_go_eq lifted_def Let_def and_then_eq_Inl
            split: prod.splits sum.splits dest: inner) (drule inner, drule go, simp_all)
    qed
  qed (simp add: subtree_turn_def Inr x lifted_def recv_panic_def)
qed (simp add: subtree_turn_def lifted_def)

lemma get_subtree_props:
  "length (r_bytes r) < n \<Longrightarrow> get_subtree env av n e toks hs r \<noteq> Inl RecvFuel \<and>
     (\<forall>s q. get_subtree env av n e toks hs r = Inr (s, q) \<longrightarrow> suffix (r_bytes q) (r_bytes r))"
proof (induction n arbitrary: e toks hs r)
  case (Suc n)
  show ?case
    unfolding get_subtree.simps by (rule subtree_turn_props) (use Suc in \<open>simp_all add: less_Suc_eq_le\<close>)
qed simp

lemma get_subtree_fuel_Suc:
  "length (r_bytes r) < n \<Longrightarrow> get_subtree env av (Suc n) e toks hs r = get_subtree env av n e toks hs r"
proof (induction n arbitrary: e toks hs r)
  case (Suc n)
  have "subtree_turn env av (get_subtree env av (Suc n)) e toks hs r = subtree_turn env av (get_subtree env av n) e toks hs r"
  proof (rule subtree_turn_cong)
    show "get_subtree env av (Suc n) e toks hs r' = get_subtree env av n e toks hs r'"
      if "length (r_bytes r') < length (r_bytes r)" for e toks hs r'
      by (rule Suc.IH) (use that Suc.prems in simp)
    show "length (r_bytes q) \<le> length (r_bytes r')"
      if "length (r_bytes r') < length (r_bytes r)" "get_subtree env av (Suc n) e toks hs r' = Inr (s, q)" for e toks hs r' s q
      using get_subtree_props [of r' "Suc n" env av e toks hs] that Suc.prems by (auto dest: suffix_length_le)
  qed
  then show ?case by simp
qed simp

text \<open>More fuel than bytes changes nothing, so the loop can be unfolded without it.\<close>

lemma get_subtree_fuel:
  assumes "length (r_bytes r) < n" "n \<le> m"
  shows "get_subtree env av m e toks hs r = get_subtree env av n e toks hs r"
  using assms(2)
proof (induction rule: dec_induct)
  case (step m)
  then show ?case using get_subtree_fuel_Suc [of r m env av e toks hs] assms(1) by simp
qed simp

definition subtree :: "std_env \<Rightarrow> bool \<Rightarrow> subtree_reader" where
  "subtree env av e toks hs r = get_subtree env av (Suc (length (r_bytes r))) e toks hs r"

lemma subtree_unfold:
  "subtree env av e toks hs r = subtree_turn env av (subtree env av) e toks hs r"
proof -
  have "subtree_turn env av (get_subtree env av (length (r_bytes r))) e toks hs r
      = subtree_turn env av (subtree env av) e toks hs r"
  proof (rule subtree_turn_cong)
    show "get_subtree env av (length (r_bytes r)) e toks hs r' = subtree env av e toks hs r'"
      if "length (r_bytes r') < length (r_bytes r)" for e toks hs r'
      unfolding subtree_def by (rule get_subtree_fuel) (use that in auto)
    show "length (r_bytes q) \<le> length (r_bytes r')"
      if "length (r_bytes r') < length (r_bytes r)" "get_subtree env av (length (r_bytes r)) e toks hs r' = Inr (s, q)"
      for e toks hs r' s q
      using get_subtree_props [OF that(1), of env av e toks hs] that(2) by (auto dest: suffix_length_le)
  qed
  then show ?thesis by (simp add: subtree_def)
qed

lemma subtree_props:
  "subtree env av e toks hs r \<noteq> Inl RecvFuel"
  "subtree env av e toks hs r = Inr (s, q) \<Longrightarrow> suffix (r_bytes q) (r_bytes r)"
  using get_subtree_props [of r "Suc (length (r_bytes r))" env av e toks hs] by (auto simp: subtree_def)

lemma recv_token_stream_subtree:
  "recv_token_stream env av bs st =
     and_then (lifted (call_site av)) (\<lambda>sp.
     and_then (subtree env av CloseStream [] [] \<lparr>r_bytes = bs, r_table = st, r_span = sp, r_joined = 0\<rparr>) (\<lambda>(s, r).
     Inr (s, r_bytes r, r_table r)))"
  by (simp add: recv_token_stream_def subtree_def)

section \<open>Properties\<close>

text \<open>
  C14. Reading a stream ends on every input: it returns a stream or panics, the fuel of the model
  never runs out, and a returned stream leaves the end of the input it was given unread, so
  that an attribute macro's second stream starts where the first one stopped.
\<close>

theorem recv_returns:
  "recv_token_stream env av bs st \<noteq> Inl RecvFuel \<and>
   (recv_token_stream env av bs st = Inr (s, rest, st') \<longrightarrow> suffix rest bs)"
  by (auto simp: recv_token_stream_subtree and_then_eq_Inl subtree_props dest!: subtree_props(2))

definition sample_env :: std_env where
  "sample_env = \<lparr>env_unicode = ascii_only, env_show_f32 = (\<lambda>_. str ''0.0''), env_show_f64 = (\<lambda>_. str ''0.0''),
     env_f64_as_f32 = (\<lambda>_. 0)\<rparr>"

theorem recv_returns_witness:
  "\<exists>s. recv_token_stream sample_env True [2, 1, 97, 0, 7] empty_spans = Inr (s, [7], empty_spans)
     \<and> suffix [7] [2, 1, 97, 0, 7 :: u8]"
proof -
  obtain s where s: "recv_token_stream sample_env True [2, 1, 97, 0, 7] empty_spans = Inr (s, [7], empty_spans)"
  proof
    show "recv_token_stream sample_env True [2, 1, 97, 0, 7] empty_spans =
      Inr (Stream [TIdent \<lparr>id_sym = [97], id_raw = False, id_span = 2\<rparr>] [0], [7], empty_spans)"
      by code_simp
  qed
  with recv_returns [of sample_env True "[2, 1, 97, 0, 7]" empty_spans s "[7]" empty_spans] show ?thesis by blast
qed

end
