(* ===== verification/Sending.thy ===== *)
theory Sending
  imports Serialise
begin

text \<open>
  \<^verbatim>\<open>send_token_stream\<close> and \<^verbatim>\<open>send_panic\<close> of \<^verbatim>\<open>lib/proc_macro/src/serialisation.rs\<close>:
  a stream written as tokens, and what the crate's own reader makes of them. The writer keeps the
  span it announced last; a step returns the bytes it wrote and that span.
\<close>

section \<open>Steps of the writer\<close>

type_synonym sending = "usize \<Rightarrow> (u8 list \<times> usize) result"

definition emit :: "u8 list \<Rightarrow> sending" where
  "emit bs = (\<lambda>last. Inr (bs, last))"

definition then_send :: "sending \<Rightarrow> sending \<Rightarrow> sending" where
  "then_send f g = (\<lambda>last. and_then (f last) (\<lambda>(bs, last). and_then (g last) (\<lambda>(bs', last). Inr (bs @ bs', last))))"

definition set_span :: "span_table \<Rightarrow> span \<Rightarrow> sending" where
  "set_span st sp = (\<lambda>last. and_then (to_raw st sp) (\<lambda>raw.
     if raw \<noteq> last then Inr (write_ent (SpanRef raw), raw) else Inr ([], last)))"

text \<open>\<open>hidden_at\<close> and \<open>open_hidden_at\<close>: no entry is no join.\<close>

definition hidden_at :: "u8 list \<Rightarrow> nat \<Rightarrow> bool" where
  "hidden_at hs i \<longleftrightarrow> (case get_at hs i of None \<Rightarrow> 0 | Some h \<Rightarrow> h) AND JOINED_AFTER \<noteq> 0"

definition open_hidden_at :: "u8 list \<Rightarrow> nat \<Rightarrow> bool" where
  "open_hidden_at hs i \<longleftrightarrow> (case get_at hs i of None \<Rightarrow> 0 | Some h \<Rightarrow> h) AND JOINED_OPEN \<noteq> 0"

definition joined_if :: "bool \<Rightarrow> u8 \<Rightarrow> sending" where
  "joined_if b kind = emit (if b then write_ent (Joined kind) else [])"

definition open_char :: "delimiter \<Rightarrow> u8 list" where
  "open_char d = (case d of NoDelimiter \<Rightarrow> [] | Brace \<Rightarrow> write_sym_1 c_lbrace
     | Parenthesis \<Rightarrow> write_sym_1 c_lparen | Bracket \<Rightarrow> write_sym_1 c_lbracket)"

definition close_char :: "delimiter \<Rightarrow> u8 list" where
  "close_char d = (case d of NoDelimiter \<Rightarrow> [] | Brace \<Rightarrow> write_sym_1 c_rbrace
     | Parenthesis \<Rightarrow> write_sym_1 c_rparen | Bracket \<Rightarrow> write_sym_1 c_rbracket)"

text \<open>
  The inner loop over joint punctuation: the characters so far, the index of the last one,
  whether it is joint, the index after it, and the trees still to come.
\<close>

fun joint_run :: "rstr \<Rightarrow> nat \<Rightarrow> bool \<Rightarrow> nat \<Rightarrow> 's token_tree list
    \<Rightarrow> rstr \<times> nat \<times> bool \<times> nat \<times> 's token_tree list" where
  "joint_run chars end_at end_joint i (TPunct p # ts) =
     (if punct_as_char p \<noteq> c_squote then
        (if punct_spacing p = Joint then joint_run (chars @ [punct_as_char p]) i True (i + 1) ts
         else (chars @ [punct_as_char p], i, False, i + 1, ts))
      else (chars, end_at, end_joint, i, TPunct p # ts))"
| "joint_run chars end_at end_joint i ts = (chars, end_at, end_joint, i, ts)"

lemma joint_run_size:
  "joint_run chars e j i ts = (chars', e', j', i', ts') \<Longrightarrow> trees_size ts' \<le> trees_size ts"
  by (induction chars e j i ts rule: joint_run.induct) (auto split: if_splits)

text \<open>\<open>inner\<close>: the trees from index \<open>i\<close> on, \<open>hs\<close> the joins of the whole stream.\<close>

function send_trees :: "span_table \<Rightarrow> u8 list \<Rightarrow> nat \<Rightarrow> stream token_tree list \<Rightarrow> sending" where
  "send_trees st hs i [] = emit []"
| "send_trees st hs i (TGroup g # ts) =
     (if delimiter g = NoDelimiter \<and> fragment g \<noteq> 0 then
        then_send (set_span st (open_span (group_spans g)))
        (then_send (emit (write_ent (Fragment (ucast (fragment g) - 1))))
           (send_trees st hs (i + 1) ts))
      else
        then_send (set_span st (open_span (group_spans g)))
        (then_send (joined_if (delimiter g \<noteq> NoDelimiter \<and> open_hidden_at hs i) 2)
        (then_send (emit (open_char (delimiter g)))
        (then_send (send_trees st (hidden (group_stream g)) 0 (trees (group_stream g)))
        (then_send (set_span st (close_span (group_spans g)))
        (then_send (joined_if (hidden_at hs i) 2)
        (then_send (emit (close_char (delimiter g)))
           (send_trees st hs (i + 1) ts))))))))"
| "send_trees st hs i (TIdent v # ts) =
     then_send (set_span st (id_span v))
     (then_send (joined_if (hidden_at hs i) 2)
     (then_send (emit (write_ent (Ident ((if id_raw v then str ''r#'' else []) @ id_sym v))))
        (send_trees st hs (i + 1) ts)))"
| "send_trees st hs i (TPunct p # ts) =
     then_send (set_span st (punct_span p))
     (if punct_as_char p = c_squote then
        (case ts of
           TIdent v # ts' \<Rightarrow>
             then_send (joined_if (hidden_at hs (i + 1)) 2)
             (then_send (emit (write_ent (Lifetime ((if id_raw v then str ''r#'' else []) @ id_sym v))))
                (send_trees st hs (i + 2) ts'))
         | _ \<Rightarrow> (\<lambda>last. Inl (Panic ''Punct not followed by an ident'')))
      else if punct_spacing p = Alone then
        then_send (joined_if (hidden_at hs i) 2)
        (then_send (emit (write_sym_1 (punct_as_char p)))
           (send_trees st hs (i + 1) ts))
      else
        (case joint_run [punct_as_char p] i True (i + 1) ts of (chars, end_at, end_joint, i', ts') \<Rightarrow>
          then_send (if hidden_at hs end_at then joined_if True 2 else joined_if end_joint 1)
          (then_send (emit (write_sym (utf8 chars)))
             (send_trees st hs i' ts'))))"
| "send_trees st hs i (TLiteral v # ts) =
     then_send (set_span st (lit_span v))
     (then_send (joined_if (hidden_at hs i) 2)
     (then_send (emit (write_ent (RawLiteral (literal_display v))))
        (send_trees st hs (i + 1) ts)))"
  by pat_completeness auto
termination
  by (relation "measure (\<lambda>(st, hs, i, ts). trees_size ts)")
    (auto simp: less_Suc_eq_le le_Suc_eq trans_le_add1 [OF less_imp_le [OF trees_smaller]] dest: joint_run_size [OF sym])

definition send_token_stream :: "span_table \<Rightarrow> stream \<Rightarrow> u8 list result" where
  "send_token_stream st s =
     and_then (then_send (send_trees st (hidden s) 0 (trees s)) (emit (write_sym [])) 1) (\<lambda>(bs, last). Inr bs)"

definition send_panic :: "rstr option \<Rightarrow> u8 list" where
  "send_panic message = write_panic message"

end
