(* ===== verification/SendBack.thy ===== *)
theory SendBack
  imports Sending
begin

text \<open>
  The crate's reader applied to what its writer sends. \<open>sendable\<close> are the trees the writer
  has an exact notation for; a stream of them is read back tree by tree, span by span.
\<close>

unbundle bit_operations_syntax

section \<open>What the writer has a notation for\<close>

text \<open>A span the compiler knows under the index the span has itself.\<close>

definition echoes :: "span_table \<Rightarrow> span \<Rightarrow> bool" where
  "echoes st sp \<longleftrightarrow> (case to_raw st sp of Inl _ \<Rightarrow> False | Inr raw \<Rightarrow> from_raw raw = Inr sp)"

definition name_ok :: "ident \<Rightarrow> bool" where
  "name_ok i \<longleftrightarrow> str_ok (ident_display i) \<and> (id_raw i \<or> \<not> starts_with (id_sym i) (str ''r#''))"

definition delimiter_list :: "rchar list" where
  "delimiter_list = [c_lparen, c_rparen, c_lbracket, c_rbracket, c_lbrace, c_rbrace]"

definition char_ok :: "punct \<Rightarrow> bool" where
  "char_ok p \<longleftrightarrow> punct_as_char p < 128 \<and> punct_as_char p \<notin> set delimiter_list"

definition literal_ok :: "literal \<Rightarrow> bool" where
  "literal_ok l \<longleftrightarrow> str_ok (literal_display l) \<and> from_spelling (literal_display l) (lit_span l) = Some l"

text \<open>
  The second list are the joins of the trees: at most \<open>JOINED_AFTER\<close>, for a group also
  \<open>JOINED_OPEN\<close>, none on joint punctuation. An apostrophe goes with the identifier after it,
  and a run of joint punctuation has one span.
\<close>

function sendable :: "span_table \<Rightarrow> stream token_tree list \<Rightarrow> u8 list \<Rightarrow> bool" where
  "sendable st [] hs = (hs = [])"
| "sendable st (t # ts) [] = False"
| "sendable st (TGroup g # ts) (h # hs) =
     (delimiter g \<noteq> NoDelimiter \<and> fragment g = 0 \<and> h \<le> 3 \<and> echoes st (open_span (group_spans g))
      \<and> echoes st (close_span (group_spans g)) \<and> entire_span (group_spans g) = open_span (group_spans g)
      \<and> length (trees (group_stream g)) < 2 ^ 30
      \<and> sendable st (trees (group_stream g)) (hidden (group_stream g)) \<and> sendable st ts hs)"
| "sendable st (TIdent v # ts) (h # hs) = (name_ok v \<and> h \<le> 1 \<and> echoes st (id_span v) \<and> sendable st ts hs)"
| "sendable st (TPunct p # ts) (h # hs) =
     (h \<le> 1 \<and> echoes st (punct_span p) \<and> sendable st ts hs \<and>
      (if punct_as_char p = c_squote then
         punct_joint p \<and> h = 0 \<and> (case ts of TIdent v # _ \<Rightarrow> id_span v = punct_span p | _ \<Rightarrow> False)
       else char_ok p \<and> (punct_joint p \<longrightarrow> h = 0 \<and>
         (case ts of TPunct q # _ \<Rightarrow> punct_as_char q \<noteq> c_squote \<longrightarrow> punct_span q = punct_span p | _ \<Rightarrow> True))))"
| "sendable st (TLiteral l # ts) (h # hs) = (literal_ok l \<and> h \<le> 1 \<and> echoes st (lit_span l) \<and> sendable st ts hs)"
  by pat_completeness auto
termination
  by (relation "measure (\<lambda>(st, ts, hs). trees_size ts)")
    (auto simp: less_Suc_eq_le le_Suc_eq trans_le_add1 [OF less_imp_le [OF trees_smaller]])

lemma sendable_length: "sendable st ts hs \<Longrightarrow> length hs = length ts"
  by (induction st ts hs rule: sendable.induct) auto

section \<open>The reader token by token\<close>

abbreviation reader_at :: "u8 list \<Rightarrow> span_table \<Rightarrow> span \<Rightarrow> u8 \<Rightarrow> receiver" where
  "reader_at bs tb sp j \<equiv> \<lparr>r_bytes = bs, r_table = tb, r_span = sp, r_joined = j\<rparr>"

lemma read_span:
  assumes "from_raw i = Inr sp'"
  shows "subtree env av e toks hs (reader_at (write_ent (SpanRef i) @ bs) tb sp j) =
    subtree env av e toks hs (reader_at bs tb sp' j)"
  using assms by (subst subtree_unfold) (simp add: subtree_turn_def read_write_ent lifted_def closes_def opens_def)

lemma read_joined:
  "subtree env av e toks hs (reader_at (write_ent (Joined k) @ bs) tb sp j) =
    subtree env av e toks hs (reader_at bs tb sp k)"
  by (subst subtree_unfold) (simp add: subtree_turn_def read_write_ent lifted_def closes_def opens_def)

lemma read_close:
  assumes "token_ok t" "closes e t"
  shows "subtree env av e toks hs (reader_at (write_ent t @ bs) tb sp j) =
    Inr (from_received toks (resize hs (length toks)), reader_at bs tb sp j)"
  using assms by (subst subtree_unfold) (simp add: subtree_turn_def read_write_ent lifted_def)

lemma read_open:
  assumes "token_ok t" "\<not> closes e t" "opens t = Some (d, c, frag)"
  shows "subtree env av e toks hs (reader_at (write_ent t @ bs) tb sp j) =
    and_then (subtree env av c [] [] (reader_at bs tb sp 0)) (\<lambda>(s, r).
      push_and_go (subtree env av) e (toks @ [TGroup (Group d s
        \<lparr>open_span = sp, close_span = r_span r, entire_span = sp\<rparr> frag)]) hs (j \<noteq> 0) r)"
  using assms by (subst subtree_unfold) (simp add: subtree_turn_def read_write_ent lifted_def)

fun leaf_token :: "token \<Rightarrow> bool" where
  "leaf_token (Symbol v) = (v \<noteq> [])"
| "leaf_token (Ident v) = True"
| "leaf_token (Lifetime v) = True"
| "leaf_token (RawLiteral v) = True"
| "leaf_token t = False"

lemma read_leaf:
  assumes "token_ok t" "leaf_token t" "\<not> closes e t" "opens t = None" "received_leaf env av sp t = Inr ts"
  shows "subtree env av e toks hs (reader_at (write_ent t @ bs) tb sp j) =
    subtree env av e (fst (push_joined (toks @ ts) hs False j)) (snd (push_joined (toks @ ts) hs False j))
      (reader_at bs tb sp 0)"
  using assms
  by (subst subtree_unfold, cases t) (auto simp: subtree_turn_def read_write_ent lifted_def push_and_go_eq)

text \<open>What the end of a turn does to the last of the new trees, and the join recorded with it.\<close>

definition joint_last :: "u8 \<Rightarrow> stream token_tree \<Rightarrow> stream token_tree" where
  "joint_last j t = (case t of TPunct p \<Rightarrow> if j = 1 then TPunct (p\<lparr>punct_joint := True\<rparr>) else t | _ \<Rightarrow> t)"

definition join_of :: "bool \<Rightarrow> u8 \<Rightarrow> stream token_tree \<Rightarrow> u8" where
  "join_of oj j t = (if oj then JOINED_OPEN else 0) OR
     (if j = 0 \<or> j = 1 \<and> (\<exists>p. t = TPunct p) then 0 else JOINED_AFTER)"

lemma push_joined_last:
  assumes "length hs = length toks"
  shows "push_joined (toks @ us @ [t]) hs oj j =
    (toks @ us @ [joint_last j t], hs @ replicate (length us) 0 @ [join_of oj j t])"
proof -
  have r: "resize hs (length (toks @ us @ [t])) = hs @ replicate (length us) 0 @ [0]"
    using assms by (simp add: resize_def replicate_append_same)
  have n: "(toks @ us @ [t]) ! (length toks + length us) = t"
    "(hs @ replicate (length us) 0 @ [x]) ! (length toks + length us) = x"
    "(toks @ us @ [u])[length toks + length us := t'] = toks @ us @ [t']"
    "(hs @ replicate (length us) 0 @ [x])[length toks + length us := y] = hs @ replicate (length us) 0 @ [y]" for x y u t'
    using assms by (simp_all add: nth_append list_update_append)
  show ?thesis
    unfolding push_joined_def r
    by (auto simp: n Let_def joint_last_def join_of_def split: token_tree.split)
qed

lemma push_joined_one:
  assumes "length hs = length toks"
  shows "push_joined (toks @ [t]) hs oj j = (toks @ [joint_last j t], hs @ [join_of oj j t])"
  using push_joined_last [OF assms, of "[]"] by simp

lemma joint_last_simps [simp]:
  "joint_last j (TGroup g) = TGroup g" "joint_last j (TIdent i) = TIdent i" "joint_last j (TLiteral l) = TLiteral l"
  "joint_last 0 t = t" "joint_last 2 t = t" "joint_last 1 (TPunct p) = TPunct (p\<lparr>punct_joint := True\<rparr>)"
  by (simp_all add: joint_last_def split: token_tree.split)

section \<open>The steps of the writer, read\<close>

lemma then_send_Inr:
  "then_send f g ls = Inr (out, ls') \<longleftrightarrow>
     (\<exists>b1 l1 b2. f ls = Inr (b1, l1) \<and> g l1 = Inr (b2, ls') \<and> out = b1 @ b2)"
  by (auto simp: then_send_def)

lemma emit_Inr [simp]: "emit b ls = Inr (out, ls') \<longleftrightarrow> out = b \<and> ls' = ls"
  by (auto simp: emit_def)

lemma read_set_span:
  assumes "set_span st sp ls = Inr (b, ls')" "echoes st sp" "from_raw ls = Inr cur"
  shows "from_raw ls' = Inr sp"
    "subtree env av e toks hs (reader_at (b @ bs) tb cur j) = subtree env av e toks hs (reader_at bs tb sp j)"
  using assms by (auto simp: set_span_def echoes_def read_span split: if_splits sum.splits)

lemma read_joined_if:
  assumes "joined_if c k ls = Inr (b, ls')"
  shows "ls' = ls"
    "subtree env av e toks hs (reader_at (b @ bs) tb sp 0) =
      subtree env av e toks hs (reader_at bs tb sp (if c then k else 0))"
  using assms by (auto simp: joined_if_def read_joined)

lemma ascii_str_ok:
  assumes "list_all (\<lambda>c. c < 128) cs" "length cs < 2 ^ 30"
  shows "str_ok cs" "utf8 cs = map as_u8 cs"
proof -
  show u: "utf8 cs = map as_u8 cs"
    using assms(1) by (induction cs) (simp_all add: utf8_def utf8_char_def)
  have "valid_str cs" using assms(1) by (auto simp: list_all_iff scalar_value_def)
  then show "str_ok cs" using u assms(2) by (simp add: str_ok_def)
qed

lemma write_sym_1_ascii: 
  assumes "c < 128"
  shows "write_sym_1 c = write_ent (Symbol [c])"
proof -
  have "put_u128v 1 = [1]" by code_simp
  then show ?thesis using assms by (simp add: write_sym_1_def write_ent_def put_bytes_def utf8_def utf8_char_def)
qed

section \<open>Runs of joint punctuation\<close>

lemma received_puncts_snoc:
  "received_puncts (cs @ [c]) sp =
     map (\<lambda>c. TPunct (punct_from_char c Joint sp)) cs @ [TPunct (punct_from_char c Alone sp)]"
proof (induction cs)
  case (Cons a cs)
  then show ?case by (cases cs) simp_all
qed simp

lemma punct_from_char_back:
  "punct_joint p \<Longrightarrow> punct_from_char (punct_as_char p) Joint (punct_span p) = p"
  "\<not> punct_joint p \<Longrightarrow> punct_from_char (punct_as_char p) Alone (punct_span p) = p"
  "punct_joint p \<Longrightarrow> (punct_from_char (punct_as_char p) Alone (punct_span p))\<lparr>punct_joint := True\<rparr> = p"
  by (simp_all add: punct_from_char_def punct_as_char_def)

lemma joint_run_spec:
  assumes "joint_run chars k True (Suc k) ts = (chars', e, j, i', ts')" "sendable st (TPunct p # ts) hs"
    "punct_joint p" "punct_as_char p \<noteq> c_squote"
  shows "\<exists>pre q h hs'. TPunct p # ts = map TPunct pre @ TPunct q # ts'
    \<and> chars' = chars @ map punct_as_char (tl (pre @ [q])) \<and> e = k + length pre \<and> i' = Suc e \<and> j = punct_joint q
    \<and> (\<forall>x \<in> set pre. punct_joint x \<and> punct_span x = punct_span p \<and> char_ok x)
    \<and> punct_span q = punct_span p \<and> char_ok q
    \<and> hs = replicate (length pre) 0 @ h # hs' \<and> h \<le> 1 \<and> (j \<longrightarrow> h = 0) \<and> sendable st ts' hs'"
  using assms
proof (induction ts arbitrary: p chars k hs)
  case Nil
  then show ?case
    by (cases hs) (auto intro!: exI [of _ "[]"] exI [of _ p])
next
  case (Cons t ts)
  obtain h0 hs0 where hs: "hs = h0 # hs0" using Cons.prems(2) by (cases hs) auto
  show ?case
  proof (cases "\<exists>r. t = TPunct r \<and> punct_as_char r \<noteq> c_squote")
    case False
    then have "joint_run chars k True (Suc k) (t # ts) = (chars, k, True, Suc k, t # ts)"
      by (cases t) auto
    then show ?thesis
      using Cons.prems hs by (auto intro!: exI [of _ "[]"] exI [of _ p])
  next
    case True
    then obtain r where t: "t = TPunct r" "punct_as_char r \<noteq> c_squote" by blast
    obtain h1 hs1 where hs0: "hs0 = h1 # hs1" using Cons.prems(2) hs t by (cases hs0) auto
    have same: "punct_span r = punct_span p" "h0 = 0" "char_ok p" "char_ok r" "sendable st (TPunct r # ts) hs0"
      using Cons.prems hs hs0 t by auto
    show ?thesis
    proof (cases "punct_joint r")
      case False
      then show ?thesis
        using Cons.prems hs hs0 t same by (auto simp: punct_spacing_def intro!: exI [of _ "[p]"] exI [of _ r])
    next
      case True
      have run: "joint_run (chars @ [punct_as_char r]) (Suc k) True (Suc (Suc k)) ts = (chars', e, j, i', ts')"
        using Cons.prems(1) t True by (simp add: punct_spacing_def)
      obtain pre q h hs' where ih: "TPunct r # ts = map TPunct pre @ TPunct q # ts'"
        "chars' = (chars @ [punct_as_char r]) @ map punct_as_char (tl (pre @ [q]))" "e = Suc k + length pre" "i' = Suc e"
        "j = punct_joint q" "\<forall>x \<in> set pre. punct_joint x \<and> punct_span x = punct_span r \<and> char_ok x"
        "punct_span q = punct_span r" "char_ok q" "hs0 = replicate (length pre) 0 @ h # hs'" "h \<le> 1" "j \<longrightarrow> h = 0"
        "sendable st ts' hs'"
        using Cons.IH [OF run same(5) True t(2)] by blast
      have "punct_as_char r # map punct_as_char (tl (pre @ [q])) = map punct_as_char (pre @ [q])"
        using ih(1) by (cases pre) auto
      then show ?thesis
        using ih same hs t Cons.prems(3) by (intro exI [of _ "p # pre"] exI [of _ q] exI [of _ h] exI [of _ hs']) auto
    qed
  qed
qed

section \<open>One leaf, its join, and what is left\<close>

definition outer :: "close \<Rightarrow> bool" where
  "outer e \<longleftrightarrow> e = CloseStream \<or> (\<exists>d \<in> {c_rparen, c_rbracket, c_rbrace}. e = CloseSymbol [d])"

lemma read_leaf_last:
  assumes "token_ok t" "leaf_token t" "\<not> closes e t" "opens t = None"
    and "received_leaf env av sp t = Inr (us @ [x])" "length hs = length toks"
  shows "subtree env av e toks hs (reader_at (write_ent t @ bs) tb sp j) =
    subtree env av e (toks @ us @ [joint_last j x]) (hs @ replicate (length us) 0 @ [join_of False j x]) (reader_at bs tb sp 0)"
  using read_leaf [OF assms(1-5)] push_joined_last [OF assms(6)] by simp

lemma of_nat_unat_same: "of_nat (unat h) = (h :: u8)"
  by simp

lemma small_join:
  fixes h :: u8
  assumes "h \<le> 3"
  shows "h = 0 \<or> h = 1 \<or> h = 2 \<or> h = 3"
proof -
  have "unat h \<le> 3" using assms by (simp add: word_le_nat_alt)
  then have "unat h = 0 \<or> unat h = 1 \<or> unat h = 2 \<or> unat h = 3" by linarith
  then have "h = of_nat 0 \<or> h = of_nat 1 \<or> h = of_nat 2 \<or> h = of_nat 3" using of_nat_unat_same [of h] by metis
  then show ?thesis by simp
qed

lemma get_at_drop: "drop i hs = h # hs' \<Longrightarrow> get_at hs i = Some h"
  by (auto simp: get_at_def nth_via_drop dest: arg_cong [of _ _ length] split: if_splits)

lemma hidden_at_iff:
  assumes "drop i hs = h # hs'" "h \<le> 1"
  shows "hidden_at hs i \<longleftrightarrow> h = 1" "h = 0 \<or> h = 1"
proof -
  have "unat h = 0 \<or> unat h = 1" using assms(2) by (auto simp: word_le_nat_alt)
  then have "h = of_nat 0 \<or> h = of_nat 1" using of_nat_unat_same [of h] by metis
  then show "h = 0 \<or> h = 1" by simp
  with assms(1) show "hidden_at hs i \<longleftrightarrow> h = 1"
    by (auto simp: hidden_at_def get_at_drop JOINED_AFTER_def)
qed

lemma join_of_hidden:
  assumes "drop i hs = h # hs'" "h \<le> 1"
  shows "join_of False (if hidden_at hs i then 2 else 0) x = h"
  using hidden_at_iff [OF assms] by (auto simp: join_of_def JOINED_AFTER_def)

lemma join_of_group:
  assumes "drop i hs = h # hs'" "h \<le> 3"
  shows "join_of (open_hidden_at hs i) (if hidden_at hs i then 2 else 0) (TGroup g) = h"
  using small_join [OF assms(2)] assms(1)
  by (auto simp: hidden_at_def open_hidden_at_def get_at_drop JOINED_AFTER_def JOINED_OPEN_def join_of_def)

lemma take_drop_Cons: "drop i hs = h # hs' \<Longrightarrow> take (Suc i) hs = take i hs @ [h]"
  by (metis append_Nil2 append_eq_conv_conj take_Suc_conv_app_nth nth_via_drop drop_eq_Nil linorder_not_le list.discI)

lemma symbol_leaf:
  assumes "cs \<noteq> []" "\<forall>c \<in> set cs. c < 128 \<and> c \<notin> set delimiter_list" "outer e" "length cs < 2 ^ 30"
  shows "leaf_token (Symbol cs)" "\<not> closes e (Symbol cs)" "opens (Symbol cs) = None" "token_ok (Symbol cs)"
    "write_sym (utf8 cs) = write_ent (Symbol cs)"
proof -
  have no: "cs \<noteq> [d]" if "d \<in> set delimiter_list" for d using assms(2) that by auto
  show "leaf_token (Symbol cs)" using assms(1) by simp
  show "\<not> closes e (Symbol cs)" using assms(3) no by (auto simp: outer_def closes_def delimiter_list_def)
  show "opens (Symbol cs) = None" using no by (simp add: opens_def delimiter_list_def)
  show "token_ok (Symbol cs)" using ascii_str_ok(1) [of cs] assms(2,4) by (simp add: list_all_iff)
  show "write_sym (utf8 cs) = write_ent (Symbol cs)" by (simp add: write_sym_def write_ent_def)
qed

lemma received_ident_back:
  assumes "name_ok v"
  shows "received_ident (ident_display v) (id_span v) = TIdent v"
  using assms by (auto simp: name_ok_def received_ident_def ident_display_def ident_from_name_def starts_with_def str_def)

text \<open>Each tree after its span: the bytes of the join and the token, read.\<close>

lemma read_ident_step:
  assumes "sendable st (TIdent v # ts) (drop i hs)" "length toks = i" "i < length hs" "outer e"
  shows "subtree env av e toks (take i hs)
      (reader_at (write_ent (Ident (ident_display v)) @ bs) tb (id_span v) (if hidden_at hs i then 2 else 0)) =
    subtree env av e (toks @ [TIdent v]) (take (Suc i) hs) (reader_at bs tb (id_span v) 0)"
proof -
  obtain h hs' where d: "drop i hs = h # hs'" using assms(3) by (cases "drop i hs") auto
  have ok: "name_ok v" "h \<le> 1" using assms(1) d by auto
  have "subtree env av e toks (take i hs)
      (reader_at (write_ent (Ident (ident_display v)) @ bs) tb (id_span v) (if hidden_at hs i then 2 else 0)) =
    subtree env av e (toks @ [] @ [TIdent v])
      (take i hs @ replicate (length []) 0 @ [join_of False (if hidden_at hs i then 2 else 0) (TIdent v)]) (reader_at bs tb (id_span v) 0)"
    by (subst read_leaf_last [where us = "[]" and x = "TIdent v"])
      (use assms ok in \<open>auto simp: received_leaf_def received_ident_back name_ok_def closes_def opens_def\<close>)
  then show ?thesis using join_of_hidden [OF d ok(2)] take_drop_Cons [OF d] by simp
qed

lemma read_literal_step:
  assumes "sendable st (TLiteral l # ts) (drop i hs)" "length toks = i" "i < length hs" "outer e"
  shows "subtree env av e toks (take i hs)
      (reader_at (write_ent (RawLiteral (literal_display l)) @ bs) tb (lit_span l) (if hidden_at hs i then 2 else 0)) =
    subtree env av e (toks @ [TLiteral l]) (take (Suc i) hs) (reader_at bs tb (lit_span l) 0)"
proof -
  obtain h hs' where d: "drop i hs = h # hs'" using assms(3) by (cases "drop i hs") auto
  have ok: "literal_ok l" "h \<le> 1" using assms(1) d by auto
  have "subtree env av e toks (take i hs)
      (reader_at (write_ent (RawLiteral (literal_display l)) @ bs) tb (lit_span l) (if hidden_at hs i then 2 else 0)) =
    subtree env av e (toks @ [] @ [TLiteral l])
      (take i hs @ replicate (length []) 0 @ [join_of False (if hidden_at hs i then 2 else 0) (TLiteral l)]) (reader_at bs tb (lit_span l) 0)"
    by (subst read_leaf_last [where us = "[]" and x = "TLiteral l"])
      (use assms ok in \<open>auto simp: received_leaf_def expect_some_def literal_ok_def closes_def opens_def\<close>)
  then show ?thesis using join_of_hidden [OF d ok(2)] take_drop_Cons [OF d] by simp
qed

lemma read_alone_step:
  assumes "sendable st (TPunct p # ts) (drop i hs)" "length toks = i" "i < length hs" "outer e"
    "punct_as_char p \<noteq> c_squote" "\<not> punct_joint p"
  shows "subtree env av e toks (take i hs)
      (reader_at (write_sym_1 (punct_as_char p) @ bs) tb (punct_span p) (if hidden_at hs i then 2 else 0)) =
    subtree env av e (toks @ [TPunct p]) (take (Suc i) hs) (reader_at bs tb (punct_span p) 0)"
proof -
  obtain h hs' where d: "drop i hs = h # hs'" using assms(3) by (cases "drop i hs") auto
  have ok: "char_ok p" "h \<le> 1" using assms(1,5) d by auto
  have w: "write_sym_1 (punct_as_char p) = write_ent (Symbol [punct_as_char p])"
    using ok(1) by (intro write_sym_1_ascii) (simp add: char_ok_def)
  note leaf = symbol_leaf [of "[punct_as_char p]" e]
  have "subtree env av e toks (take i hs)
      (reader_at (write_ent (Symbol [punct_as_char p]) @ bs) tb (punct_span p) (if hidden_at hs i then 2 else 0)) =
    subtree env av e (toks @ [] @ [TPunct p])
      (take i hs @ replicate (length []) 0 @ [join_of False (if hidden_at hs i then 2 else 0) (TPunct p)]) (reader_at bs tb (punct_span p) 0)"
    by (subst read_leaf_last [where us = "[]" and x = "TPunct p"])
      (use assms ok leaf in \<open>auto simp: received_leaf_def punct_from_char_back char_ok_def\<close>)
  then show ?thesis using join_of_hidden [OF d ok(2)] take_drop_Cons [OF d] w by simp
qed

lemma read_lifetime_step:
  assumes "sendable st (TPunct p # TIdent v # ts) (drop i hs)" "length toks = i" "i < length hs" "outer e"
    "punct_as_char p = c_squote"
  shows "subtree env av e toks (take i hs)
      (reader_at (write_ent (Lifetime (ident_display v)) @ bs) tb (punct_span p) (if hidden_at hs (Suc i) then 2 else 0)) =
    subtree env av e (toks @ [TPunct p, TIdent v]) (take (Suc (Suc i)) hs) (reader_at bs tb (punct_span p) 0)"
proof -
  obtain h h' hs' where d: "drop i hs = h # h' # hs'"
    using assms(1,3) sendable_length [OF assms(1)] by (cases "drop i hs"; cases "tl (drop i hs)") auto
  then have d': "drop (Suc i) hs = h' # hs'" by (metis drop_Suc list.sel(3) tl_drop)
  have ok: "name_ok v" "h = 0" "h' \<le> 1" "punct_joint p" "id_span v = punct_span p" using assms(1,5) d by auto
  have "subtree env av e toks (take i hs)
      (reader_at (write_ent (Lifetime (ident_display v)) @ bs) tb (punct_span p) (if hidden_at hs (Suc i) then 2 else 0)) =
    subtree env av e (toks @ [TPunct p] @ [TIdent v])
      (take i hs @ replicate (length [TPunct p]) 0 @ [join_of False (if hidden_at hs (Suc i) then 2 else 0) (TIdent v)]) (reader_at bs tb (punct_span p) 0)"
    by (subst read_leaf_last [where us = "[TPunct p]" and x = "TIdent v"])
      (use assms ok received_ident_back [OF ok(1)] punct_from_char_back(1) [OF ok(4)] in
        \<open>auto simp: received_leaf_def name_ok_def closes_def opens_def\<close>)
  then show ?thesis
    using join_of_hidden [OF d' ok(3)] take_drop_Cons [OF d] take_drop_Cons [OF d'] ok(2) by simp
qed

lemma read_run_step:
  assumes run: "joint_run [punct_as_char p] i True (Suc i) ts = (chars, e_at, j, i', ts')"
    and ok: "sendable st (TPunct p # ts) (drop i hs)" "punct_joint p" "punct_as_char p \<noteq> c_squote"
    and len: "length toks = i" "length ts < 2 ^ 30 - 1" and e: "outer e"
  shows "\<exists>us. TPunct p # ts = us @ ts' \<and> i' = i + length us \<and> i' \<le> length hs \<and> sendable st ts' (drop i' hs)
    \<and> subtree env av e toks (take i hs)
        (reader_at (write_sym (utf8 chars) @ bs) tb (punct_span p) (if hidden_at hs e_at then 2 else if j then 1 else 0)) =
      subtree env av e (toks @ us) (take i' hs) (reader_at bs tb (punct_span p) 0)"
proof -
  obtain pre q h hs' where r: "TPunct p # ts = map TPunct pre @ TPunct q # ts'"
    "chars = [punct_as_char p] @ map punct_as_char (tl (pre @ [q]))" "e_at = i + length pre" "i' = Suc e_at"
    "j = punct_joint q" "\<forall>x \<in> set pre. punct_joint x \<and> punct_span x = punct_span p \<and> char_ok x"
    "punct_span q = punct_span p" "char_ok q" "drop i hs = replicate (length pre) 0 @ h # hs'" "h \<le> 1"
    "j \<longrightarrow> h = 0" "sendable st ts' hs'"
    using joint_run_spec [OF run ok] by blast
  have chars: "chars = map punct_as_char pre @ [punct_as_char q]" using r(1,2) by (cases pre) auto
  have d: "drop e_at hs = h # hs'" using r(3,9) by (metis add.commute drop_append drop_drop length_replicate
      append_Nil diff_self_eq_0 drop0 drop_replicate replicate_0)
  have t: "take i' hs = take i hs @ replicate (length pre) 0 @ [h]"
    using r(3,4,9) take_add [of i "Suc (length pre)" hs] by simp
  have h: "length (take i hs) = length toks" using r(9) len(1) by (cases "i \<le> length hs") auto
  have short: "length chars < 2 ^ 30" using chars arg_cong [OF r(1), of length] len(2) by simp
  have okc: "\<forall>c \<in> set chars. c < 128 \<and> c \<notin> set delimiter_list" using chars r(6,8) by (auto simp: char_ok_def)
  have ne: "chars \<noteq> []" using chars by simp
  note leaf = symbol_leaf [OF ne okc e short]
  let ?j = "if hidden_at hs e_at then 2 else if j then 1 else 0 :: u8"
  let ?x = "TPunct (punct_from_char (punct_as_char q) Alone (punct_span p))"
  have pre: "map (\<lambda>c. TPunct (punct_from_char c Joint (punct_span p))) (map punct_as_char pre) = map TPunct pre"
    using r(6) by (auto simp: punct_from_char_back(1) intro: punct_from_char_back(1) dest: bspec)
      (metis punct_from_char_back(1))
  have eq: "subtree env av e toks (take i hs) (reader_at (write_sym (utf8 chars) @ bs) tb (punct_span p) ?j) =
    subtree env av e (toks @ map TPunct pre @ [joint_last ?j ?x])
      (take i hs @ replicate (length pre) 0 @ [join_of False ?j ?x]) (reader_at bs tb (punct_span p) 0)"
    unfolding leaf(5)
    by (subst read_leaf_last [where us = "map TPunct pre" and x = ?x])
      (use leaf chars h pre in \<open>auto simp: received_leaf_def received_puncts_snoc\<close>)
  have tree: "joint_last ?j ?x = TPunct q"
    using r(5,7,11) hidden_at_iff [OF d r(10)] punct_from_char_back(2,3) [of q] by auto
  have join: "join_of False ?j ?x = h"
    using r(11) hidden_at_iff [OF d r(10)] by (auto simp: join_of_def JOINED_AFTER_def)
  have rest: "drop i' hs = hs'" "i' \<le> length hs"
    using d r(4) by (auto simp: drop_Suc tl_drop [symmetric] dest: arg_cong [of _ _ length])
  show ?thesis
    using r(1,3,4,12) rest eq [unfolded tree join, folded t]
    by (intro exI [of _ "map TPunct pre @ [TPunct q]"]) simp
qed

section \<open>Groups, and whole streams\<close>

definition open_of :: "delimiter \<Rightarrow> rchar" where
  "open_of d = (case d of Brace \<Rightarrow> c_lbrace | Bracket \<Rightarrow> c_lbracket | _ \<Rightarrow> c_lparen)"

definition close_of :: "delimiter \<Rightarrow> rchar" where
  "close_of d = (case d of Brace \<Rightarrow> c_rbrace | Bracket \<Rightarrow> c_rbracket | _ \<Rightarrow> c_rparen)"

lemma ascii_symbol_ok: "c < 128 \<Longrightarrow> token_ok (Symbol [c])"
  using ascii_str_ok(1) [of "[c]"] by simp

lemma delimiter_chars_written:
  assumes "d \<noteq> NoDelimiter"
  shows "open_char d = write_ent (Symbol [open_of d])" "close_char d = write_ent (Symbol [close_of d])"
    "token_ok (Symbol [open_of d])" "token_ok (Symbol [close_of d])"
    "opens (Symbol [open_of d]) = Some (d, CloseSymbol [close_of d], 0)"
proof -
  have small: "open_of d < 128" "close_of d < 128"
    by (cases d; simp add: open_of_def close_of_def)+
  show "open_char d = write_ent (Symbol [open_of d])"
    unfolding write_sym_1_ascii [OF small(1), symmetric] using assms by (cases d) (simp_all add: open_char_def open_of_def)
  show "close_char d = write_ent (Symbol [close_of d])"
    unfolding write_sym_1_ascii [OF small(2), symmetric] using assms by (cases d) (simp_all add: close_char_def close_of_def)
  show "token_ok (Symbol [open_of d])" "token_ok (Symbol [close_of d])"
    using ascii_symbol_ok small by blast+
  show "opens (Symbol [open_of d]) = Some (d, CloseSymbol [close_of d], 0)"
    using assms by (cases d) (simp_all add: opens_def open_of_def close_of_def)
qed

lemma outer_delimiters: "outer (CloseSymbol [close_of d])" "outer e \<Longrightarrow> \<not> closes e (Symbol [open_of d])"
  by (auto simp: outer_def closes_def open_of_def close_of_def split: delimiter.splits)

lemma resize_same: "length xs = n \<Longrightarrow> resize xs n = xs"
  by (simp add: resize_def)

lemma from_received_same:
  assumes "length (hidden s) = length (trees s)"
  shows "from_received (trees s) (hidden s) = s"
  using assms by (cases s) (auto simp: from_received_def empty_stream_def)

text \<open>
  A group: the opening delimiter with its join, the contents, whose reading is the assumption
  \<open>inside\<close>, the span and the join before the closing delimiter.
\<close>

lemma read_group_step:
  assumes ok: "sendable st (TGroup g # ts) (drop i hs)" and len: "length toks = i" "i < length hs" and e: "outer e"
    and inside: "\<And>bs. \<exists>cur. from_raw l4 = Inr cur \<and>
      subtree env av (CloseSymbol [close_of (delimiter g)]) [] [] (reader_at (b4 @ bs) tb (open_span (group_spans g)) 0) =
      subtree env av (CloseSymbol [close_of (delimiter g)]) (trees (group_stream g)) (hidden (group_stream g)) (reader_at bs tb cur 0)"
    and sends: "joined_if (delimiter g \<noteq> NoDelimiter \<and> open_hidden_at hs i) 2 l1 = Inr (b2, l2)"
      "set_span st (close_span (group_spans g)) l4 = Inr (b5, l5)" "joined_if (hidden_at hs i) 2 l5 = Inr (b6, l6)"
  shows "from_raw l6 = Inr (close_span (group_spans g)) \<and>
    subtree env av e toks (take i hs) (reader_at (b2 @ open_char (delimiter g) @ b4 @ b5 @ b6 @ close_char (delimiter g) @ bs) tb
      (open_span (group_spans g)) 0) =
    subtree env av e (toks @ [TGroup g]) (take (Suc i) hs) (reader_at bs tb (close_span (group_spans g)) 0)"
proof -
  obtain h hs' where d: "drop i hs = h # hs'" using len(2) by (cases "drop i hs") auto
  have g: "delimiter g \<noteq> NoDelimiter" "fragment g = 0" "h \<le> 3" "echoes st (close_span (group_spans g))"
    "entire_span (group_spans g) = open_span (group_spans g)"
    "sendable st (trees (group_stream g)) (hidden (group_stream g))" using ok d by auto
  let ?c = "CloseSymbol [close_of (delimiter g)]"
  let ?t = "Symbol [open_of (delimiter g)]" and ?t' = "Symbol [close_of (delimiter g)]"
  note w = delimiter_chars_written [OF g(1)]
  have t: "open_char (delimiter g) = write_ent ?t" "token_ok ?t" "\<not> closes e ?t"
    "opens ?t = Some (delimiter g, ?c, 0)" using w outer_delimiters(2) [OF e] by simp_all
  have t': "close_char (delimiter g) = write_ent ?t'" "token_ok ?t'" "closes ?c ?t'"
    using w by (simp_all add: closes_def)
  obtain cur where cur: "from_raw l4 = Inr cur" using inside by blast
  have len_in: "length (hidden (group_stream g)) = length (trees (group_stream g))" using sendable_length [OF g(6)] .
  let ?j = "if hidden_at hs i then 2 else 0 :: u8"
  have inner: "subtree env av ?c [] [] (reader_at (b4 @ b5 @ b6 @ write_ent ?t' @ bs) tb (open_span (group_spans g)) 0)
    = Inr (group_stream g, reader_at bs tb (close_span (group_spans g)) ?j)"
    using inside [of "b5 @ b6 @ write_ent ?t' @ bs"] cur
      read_set_span(2) [OF sends(2) g(4) cur] read_joined_if(2) [OF sends(3)] read_close [OF t'(2,3)]
    by (simp add: resize_same len_in from_received_same)
  have "subtree env av e toks (take i hs) (reader_at (b2 @ open_char (delimiter g) @ b4 @ b5 @ b6 @ close_char (delimiter g) @ bs) tb
      (open_span (group_spans g)) 0) =
    subtree env av e toks (take i hs) (reader_at (write_ent ?t @ b4 @ b5 @ b6 @ write_ent ?t' @ bs) tb
      (open_span (group_spans g)) (if open_hidden_at hs i then 2 else 0))"
    using read_joined_if(2) [OF sends(1)] t(1) t'(1) g(1) by simp
  also have "\<dots> = push_and_go (subtree env av) e (toks @ [TGroup (Group (delimiter g) (group_stream g)
      \<lparr>open_span = open_span (group_spans g), close_span = close_span (group_spans g),
       entire_span = open_span (group_spans g)\<rparr> 0)]) (take i hs) (open_hidden_at hs i) (reader_at bs tb (close_span (group_spans g)) ?j)"
    by (simp add: read_open [OF t(2-4)] inner)
  also have "\<dots> = subtree env av e (toks @ [TGroup g]) (take (Suc i) hs) (reader_at bs tb (close_span (group_spans g)) 0)"
  proof -
    have same: "Group (delimiter g) (group_stream g) \<lparr>open_span = open_span (group_spans g),
        close_span = close_span (group_spans g), entire_span = open_span (group_spans g)\<rparr> 0 = g"
      using g(2,5) by (cases g) simp
    have "length (take i hs) = length toks" using len by simp
    from push_joined_one [OF this, of "TGroup g" "open_hidden_at hs i" ?j] show ?thesis
      using join_of_group [OF d g(3)] take_drop_Cons [OF d] by (simp add: push_and_go_eq same)
  qed
  finally show ?thesis using read_set_span(1) [OF sends(2) g(4) cur] read_joined_if(1) [OF sends(3)] by simp
qed

text \<open>
  The trees from index \<open>i\<close> on are read after those before it, and the reader ends at the
  span the writer announced last.
\<close>

definition reads :: "std_env \<Rightarrow> bool \<Rightarrow> span_table \<Rightarrow> span_table \<Rightarrow> u8 list \<Rightarrow> nat \<Rightarrow> stream token_tree list \<Rightarrow> bool" where
  "reads env av tb st hs i ts \<longleftrightarrow> (\<forall>ls out ls' cur e toks bs.
     send_trees st hs i ts ls = Inr (out, ls') \<longrightarrow> sendable st ts (drop i hs) \<longrightarrow> i \<le> length hs \<longrightarrow>
     length ts < 2 ^ 30 \<longrightarrow> from_raw ls = Inr cur \<longrightarrow> outer e \<longrightarrow> length toks = i \<longrightarrow>
     (\<exists>cur'. from_raw ls' = Inr cur' \<and>
       subtree env av e toks (take i hs) (reader_at (out @ bs) tb cur 0) = subtree env av e (toks @ ts) hs (reader_at bs tb cur' 0)))"

lemma readsD:
  assumes "reads env av tb st hs i ts" "send_trees st hs i ts ls = Inr (out, ls')" "sendable st ts (drop i hs)"
    "i \<le> length hs" "length ts < 2 ^ 30" "from_raw ls = Inr cur" "outer e" "length toks = i"
  shows "\<exists>cur'. from_raw ls' = Inr cur' \<and>
    subtree env av e toks (take i hs) (reader_at (out @ bs) tb cur 0) = subtree env av e (toks @ ts) hs (reader_at bs tb cur' 0)"
  using assms unfolding reads_def by blast

text \<open>
  It is enough to read the first trees \<open>us\<close>: what was written starts with their bytes,
  which take the reader past them and to the span \<open>sp\<close>, and the writer went on from there.
\<close>

definition reads_first :: "std_env \<Rightarrow> bool \<Rightarrow> span_table \<Rightarrow> span_table \<Rightarrow> u8 list \<Rightarrow> nat \<Rightarrow> stream token_tree list
    \<Rightarrow> stream token_tree list \<Rightarrow> u8 list \<times> usize \<Rightarrow> span \<Rightarrow> close \<Rightarrow> stream token_tree list \<Rightarrow> bool" where
  "reads_first env av tb st hs i us ts written cur e toks \<longleftrightarrow> (\<exists>b1 l1 b2 sp. fst written = b1 @ b2 \<and>
     send_trees st hs (i + length us) ts l1 = Inr (b2, snd written) \<and> from_raw l1 = Inr sp \<and>
     sendable st ts (drop (i + length us) hs) \<and>
     (\<forall>bs. subtree env av e toks (take i hs) (reader_at (b1 @ bs) tb cur 0) =
       subtree env av e (toks @ us) (take (i + length us) hs) (reader_at bs tb sp 0)))"

lemma readsI:
  assumes ts: "ts = us @ ts'" and us: "us \<noteq> []" and rest: "reads env av tb st hs (i + length us) ts'"
    and step: "\<And>ls out ls' cur e (toks :: stream token_tree list). send_trees st hs i ts ls = Inr (out, ls') \<Longrightarrow>
      sendable st ts (drop i hs) \<Longrightarrow> i < length hs \<Longrightarrow> length ts < 2 ^ 30 \<Longrightarrow> from_raw ls = Inr cur \<Longrightarrow> outer e \<Longrightarrow>
      length toks = i \<Longrightarrow> reads_first env av tb st hs i us ts' (out, ls') cur e toks"
  shows "reads env av tb st hs i ts"
  unfolding reads_def
proof (intro allI impI)
  fix ls out ls' cur e and toks :: "stream token_tree list" and bs
  assume a: "send_trees st hs i ts ls = Inr (out, ls')" "sendable st ts (drop i hs)" "i \<le> length hs"
    "length ts < 2 ^ 30" "from_raw ls = Inr cur" "outer e" "length toks = i"
  have n: "length hs = i + length ts" using sendable_length [OF a(2)] a(3) by simp
  then have "i < length hs" using ts us by simp
  from step [OF a(1,2) this a(4-7)] obtain b1 l1 b2 sp where
    s: "out = b1 @ b2" "send_trees st hs (i + length us) ts' l1 = Inr (b2, ls')" "from_raw l1 = Inr sp"
      "sendable st ts' (drop (i + length us) hs)"
      "\<And>bs. subtree env av e toks (take i hs) (reader_at (b1 @ bs) tb cur 0) =
        subtree env av e (toks @ us) (take (i + length us) hs) (reader_at bs tb sp 0)"
    by (auto simp: reads_first_def)
  have "i + length us \<le> length hs" "length ts' < 2 ^ 30" "length (toks @ us) = i + length us"
    using n a(4,7) ts by simp_all
  from readsD [OF rest s(2,4) this(1,2) s(3) a(6) this(3), of bs] s(1,5) ts
  show "\<exists>cur'. from_raw ls' = Inr cur' \<and>
       subtree env av e toks (take i hs) (reader_at (out @ bs) tb cur 0) = subtree env av e (toks @ ts) hs (reader_at bs tb cur' 0)"
    by simp
qed

text \<open>A leaf: its span, its join, its token.\<close>

lemma reads_first_leaf:
  assumes "set_span st sp ls = Inr (b1, l1)" "echoes st sp" "from_raw ls = Inr cur"
    and "joined_if c 2 l1 = Inr (b2, l2)" "send_trees st hs (i + length us) ts l2 = Inr (b4, ls')"
    and "sendable st ts (drop (i + length us) hs)"
    and "\<And>bs. subtree env av e toks (take i hs) (reader_at (w @ bs) tb sp (if c then 2 else 0)) =
      subtree env av e (toks @ us) (take (i + length us) hs) (reader_at bs tb sp 0)"
  shows "reads_first env av tb st hs i us ts (b1 @ b2 @ w @ b4, ls') cur e toks"
  unfolding reads_first_def
  using assms(5,6,7) read_set_span [OF assms(1-3)] read_joined_if [OF assms(4)]
  by (intro exI [of _ "b1 @ b2 @ w"] exI [of _ l2] exI [of _ b4] exI [of _ sp]) simp

lemma reads_ident:
  assumes "reads env av tb st hs (i + 1) ts"
  shows "reads env av tb st hs i (TIdent v # ts)"
proof (rule readsI [where us = "[TIdent v]" and ts' = ts])
  fix ls out ls' cur e and toks :: "stream token_tree list"
  assume a: "send_trees st hs i (TIdent v # ts) ls = Inr (out, ls')" "sendable st (TIdent v # ts) (drop i hs)"
    "i < length hs" "from_raw ls = Inr cur" "outer e" "length toks = i"
  have v: "echoes st (id_span v)" "sendable st ts (drop (Suc i) hs)"
    using a(2,3) by (simp_all add: Cons_nth_drop_Suc [symmetric])
  obtain b1 l1 b2 l2 b4 where s1: "set_span st (id_span v) ls = Inr (b1, l1)"
    and s2: "joined_if (hidden_at hs i) 2 l1 = Inr (b2, l2)" and s4: "send_trees st hs (i + 1) ts l2 = Inr (b4, ls')"
    and out: "out = b1 @ b2 @ write_ent (Ident (ident_display v)) @ b4"
    using a(1) by (auto simp: then_send_Inr ident_display_def)
  show "reads_first env av tb st hs i [TIdent v] ts (out, ls') cur e toks"
    unfolding out by (rule reads_first_leaf [OF s1 v(1) a(4) s2])
      (use s4 v(2) read_ident_step [OF a(2,6,3,5)] in simp_all)
qed (use assms in simp_all)

lemma reads_literal:
  assumes "reads env av tb st hs (i + 1) ts"
  shows "reads env av tb st hs i (TLiteral l # ts)"
proof (rule readsI [where us = "[TLiteral l]" and ts' = ts])
  fix ls out ls' cur e and toks :: "stream token_tree list"
  assume a: "send_trees st hs i (TLiteral l # ts) ls = Inr (out, ls')" "sendable st (TLiteral l # ts) (drop i hs)"
    "i < length hs" "from_raw ls = Inr cur" "outer e" "length toks = i"
  have v: "echoes st (lit_span l)" "sendable st ts (drop (Suc i) hs)"
    using a(2,3) by (simp_all add: Cons_nth_drop_Suc [symmetric])
  obtain b1 l1 b2 l2 b4 where s1: "set_span st (lit_span l) ls = Inr (b1, l1)"
    and s2: "joined_if (hidden_at hs i) 2 l1 = Inr (b2, l2)" and s4: "send_trees st hs (i + 1) ts l2 = Inr (b4, ls')"
    and out: "out = b1 @ b2 @ write_ent (RawLiteral (literal_display l)) @ b4"
    using a(1) by (auto simp: then_send_Inr)
  show "reads_first env av tb st hs i [TLiteral l] ts (out, ls') cur e toks"
    unfolding out by (rule reads_first_leaf [OF s1 v(1) a(4) s2])
      (use s4 v(2) read_literal_step [OF a(2,6,3,5)] in simp_all)
qed (use assms in simp_all)

lemma reads_alone:
  assumes "reads env av tb st hs (i + 1) ts" "punct_as_char p \<noteq> c_squote" "\<not> punct_joint p"
  shows "reads env av tb st hs i (TPunct p # ts)"
proof (rule readsI [where us = "[TPunct p]" and ts' = ts])
  fix ls out ls' cur e and toks :: "stream token_tree list"
  assume a: "send_trees st hs i (TPunct p # ts) ls = Inr (out, ls')" "sendable st (TPunct p # ts) (drop i hs)"
    "i < length hs" "from_raw ls = Inr cur" "outer e" "length toks = i"
  have v: "echoes st (punct_span p)" "sendable st ts (drop (Suc i) hs)"
    using a(2,3) by (simp_all add: Cons_nth_drop_Suc [symmetric])
  obtain b1 l1 b2 l2 b4 where s1: "set_span st (punct_span p) ls = Inr (b1, l1)"
    and s2: "joined_if (hidden_at hs i) 2 l1 = Inr (b2, l2)" and s4: "send_trees st hs (i + 1) ts l2 = Inr (b4, ls')"
    and out: "out = b1 @ b2 @ write_sym_1 (punct_as_char p) @ b4"
    using a(1) assms(2,3) by (auto simp: then_send_Inr punct_spacing_def)
  show "reads_first env av tb st hs i [TPunct p] ts (out, ls') cur e toks"
    unfolding out by (rule reads_first_leaf [OF s1 v(1) a(4) s2])
      (use s4 v(2) read_alone_step [OF a(2,6,3,5) assms(2,3)] in simp_all)
qed (use assms in simp_all)

lemma reads_lifetime:
  assumes "reads env av tb st hs (i + 2) ts" "punct_as_char p = c_squote"
  shows "reads env av tb st hs i (TPunct p # TIdent v # ts)"
proof (rule readsI [where us = "[TPunct p, TIdent v]" and ts' = ts])
  fix ls out ls' cur e and toks :: "stream token_tree list"
  assume a: "send_trees st hs i (TPunct p # TIdent v # ts) ls = Inr (out, ls')"
    "sendable st (TPunct p # TIdent v # ts) (drop i hs)" "i < length hs" "from_raw ls = Inr cur" "outer e" "length toks = i"
  have "Suc i < length hs" using sendable_length [OF a(2)] by simp
  then have v: "echoes st (punct_span p)" "sendable st ts (drop (i + 2) hs)"
    using a(2,3) by (simp_all add: Cons_nth_drop_Suc [symmetric])
  obtain b1 l1 b2 l2 b4 where s1: "set_span st (punct_span p) ls = Inr (b1, l1)"
    and s2: "joined_if (hidden_at hs (Suc i)) 2 l1 = Inr (b2, l2)" and s4: "send_trees st hs (i + 2) ts l2 = Inr (b4, ls')"
    and out: "out = b1 @ b2 @ write_ent (Lifetime (ident_display v)) @ b4"
    using a(1) assms(2) by (auto simp: then_send_Inr ident_display_def)
  show "reads_first env av tb st hs i [TPunct p, TIdent v] ts (out, ls') cur e toks"
    unfolding out by (rule reads_first_leaf [OF s1 v(1) a(4) s2])
      (use s4 v(2) read_lifetime_step [OF a(2,6,3,5) assms(2)] in simp_all)
qed (use assms in simp_all)

lemma reads_run:
  assumes rest: "\<And>chars e j i' ts'. joint_run [punct_as_char p] i True (Suc i) ts = (chars, e, j, i', ts') \<Longrightarrow>
      reads env av tb st hs i' ts'"
    and p: "punct_as_char p \<noteq> c_squote" "punct_joint p"
  shows "reads env av tb st hs i (TPunct p # ts)"
  unfolding reads_def
proof (intro allI impI)
  fix ls out ls' cur e and toks :: "stream token_tree list" and bs
  assume a: "send_trees st hs i (TPunct p # ts) ls = Inr (out, ls')" "sendable st (TPunct p # ts) (drop i hs)" "i \<le> length hs"
    "length (TPunct p # ts) < 2 ^ 30" "from_raw ls = Inr cur" "outer e" "length toks = i"
  have lt: "i < length hs" using sendable_length [OF a(2)] by auto
  obtain chars e_at j i' ts' where run: "joint_run [punct_as_char p] i True (Suc i) ts = (chars, e_at, j, i', ts')"
    by (metis prod_cases5)
  have v: "echoes st (punct_span p)" using a(2) lt by (simp add: Cons_nth_drop_Suc [symmetric])
  have short: "length ts < 2 ^ 30 - 1" using a(4) by simp
  obtain b1 l1 b2 l2 b4 where s1: "set_span st (punct_span p) ls = Inr (b1, l1)"
    and s2: "(if hidden_at hs e_at then joined_if True 2 else joined_if j 1) l1 = Inr (b2, l2)"
    and s4: "send_trees st hs i' ts' l2 = Inr (b4, ls')" and out: "out = b1 @ b2 @ write_sym (utf8 chars) @ b4"
    using a(1) p run by (auto simp: then_send_Inr punct_spacing_def)
  obtain us where us: "TPunct p # ts = us @ ts'" "i' = i + length us" "i' \<le> length hs" "sendable st ts' (drop i' hs)"
    and step: "subtree env av e toks (take i hs) (reader_at (write_sym (utf8 chars) @ b4 @ bs) tb (punct_span p)
        (if hidden_at hs e_at then 2 else if j then 1 else 0)) =
      subtree env av e (toks @ us) (take i' hs) (reader_at (b4 @ bs) tb (punct_span p) 0)"
    using read_run_step [OF run a(2) p(2,1) a(7) short a(6)] by blast
  have l: "l2 = l1" "subtree env av e toks (take i hs) (reader_at (b2 @ x) tb (punct_span p) 0) =
      subtree env av e toks (take i hs) (reader_at x tb (punct_span p) (if hidden_at hs e_at then 2 else if j then 1 else 0))" for x
    using s2 read_joined_if [of True 2 l1 b2 l2] read_joined_if [of j 1 l1 b2 l2] by (auto split: if_splits)
  have "length ts' < 2 ^ 30" "length (toks @ us) = i'" using a(4,7) us(1,2) arg_cong [OF us(1), of length] by simp_all
  from readsD [OF rest [OF run] s4 us(4,3) this(1) _ a(6) this(2), of "punct_span p" bs] us(1) step l
    read_set_span [OF s1 v a(5)] out
  show "\<exists>cur'. from_raw ls' = Inr cur' \<and> subtree env av e toks (take i hs) (reader_at (out @ bs) tb cur 0) =
      subtree env av e (toks @ TPunct p # ts) hs (reader_at bs tb cur' 0)"
    by simp
qed

lemma reads_group:
  assumes rest: "reads env av tb st hs (i + 1) ts"
    and inner: "reads env av tb st (hidden (group_stream g)) 0 (trees (group_stream g))"
  shows "reads env av tb st hs i (TGroup g # ts)"
proof (rule readsI [where us = "[TGroup g]" and ts' = ts])
  fix ls out ls' cur e and toks :: "stream token_tree list"
  let ?o = "open_span (group_spans g)" and ?c = "CloseSymbol [close_of (delimiter g)]"
  assume a: "send_trees st hs i (TGroup g # ts) ls = Inr (out, ls')" "sendable st (TGroup g # ts) (drop i hs)"
    "i < length hs" "from_raw ls = Inr cur" "outer e" "length toks = i"
  have g: "delimiter g \<noteq> NoDelimiter" "echoes st ?o" "length (trees (group_stream g)) < 2 ^ 30" "sendable st ts (drop (Suc i) hs)"
    "sendable st (trees (group_stream g)) (drop 0 (hidden (group_stream g)))"
    using a(2,3) by (simp_all add: Cons_nth_drop_Suc [symmetric])
  obtain b1 l1 b2 l2 b4 l4 b5 l5 b6 l6 b8 where s1: "set_span st ?o ls = Inr (b1, l1)"
    and s2: "joined_if (delimiter g \<noteq> NoDelimiter \<and> open_hidden_at hs i) 2 l1 = Inr (b2, l2)"
    and s4: "send_trees st (hidden (group_stream g)) 0 (trees (group_stream g)) l2 = Inr (b4, l4)"
    and s5: "set_span st (close_span (group_spans g)) l4 = Inr (b5, l5)"
    and s6: "joined_if (hidden_at hs i) 2 l5 = Inr (b6, l6)" and s8: "send_trees st hs (i + 1) ts l6 = Inr (b8, ls')"
    and out: "out = b1 @ b2 @ open_char (delimiter g) @ b4 @ b5 @ b6 @ close_char (delimiter g) @ b8"
    using a(1) g(1) by (auto simp: then_send_Inr)
  have l2: "from_raw l2 = Inr ?o" using read_set_span(1) [OF s1 g(2) a(4)] read_joined_if(1) [OF s2] by simp
  have "\<exists>cur. from_raw l4 = Inr cur \<and> subtree env av ?c [] [] (reader_at (b4 @ bs) tb ?o 0) =
      subtree env av ?c (trees (group_stream g)) (hidden (group_stream g)) (reader_at bs tb cur 0)" for bs
    using readsD [OF inner s4 g(5) le0 g(3) l2 outer_delimiters(1), of "[]" "delimiter g" bs] by simp
  note group = read_group_step [OF a(2,6,3,5) this s2 s5 s6]
  show "reads_first env av tb st hs i [TGroup g] ts (out, ls') cur e toks"
    unfolding reads_first_def out using s8 g(4) group read_set_span(2) [OF s1 g(2) a(4)]
    by (intro exI [of _ "b1 @ b2 @ open_char (delimiter g) @ b4 @ b5 @ b6 @ close_char (delimiter g)"] exI [of _ l6]
        exI [of _ b8] exI [of _ "close_span (group_spans g)"]) simp
qed (use assms in simp_all)

lemma reads_trees: "reads env av tb st hs i ts"
proof (induction st hs i ts rule: send_trees.induct)
  case (1 st hs i)
  then show ?case by (auto simp: reads_def)
next
  case (2 st hs i g ts)
  show ?case
  proof (cases "delimiter g = NoDelimiter \<and> fragment g \<noteq> 0")
    case True
    then have "\<not> sendable st (TGroup g # ts) (drop i hs)" by (cases "drop i hs") auto
    then show ?thesis by (simp add: reads_def)
  next
    case False
    then show ?thesis using "2.IH" by (intro reads_group) simp_all
  qed
next
  case (3 st hs i v ts)
  then show ?case by (rule reads_ident)
next
  case (4 st hs i p ts)
  consider "punct_as_char p = c_squote" | "punct_as_char p \<noteq> c_squote" "\<not> punct_joint p" | "punct_as_char p \<noteq> c_squote" "punct_joint p"
    by blast
  then show ?case
  proof cases
    case 1
    show ?thesis
    proof (cases "\<exists>v ts'. ts = TIdent v # ts'")
      case True
      then obtain v ts' where ts: "ts = TIdent v # ts'" by blast
      show ?thesis unfolding ts by (rule reads_lifetime [OF "4.IH"(1) [OF 1 ts refl] 1])
    next
      case False
      then have "\<not> sendable st (TPunct p # ts) (drop i hs)"
        using 1 by (cases "drop i hs") (auto split: list.splits token_tree.splits)
      then show ?thesis by (simp add: reads_def)
    qed
  next
    case 2
    then have "punct_spacing p = Alone" by (simp add: punct_spacing_def)
    from reads_alone [OF "4.IH"(2) [OF 2(1) this] 2] show ?thesis .
  next
    case 3
    then have s: "punct_spacing p \<noteq> Alone" by (simp add: punct_spacing_def)
    show ?thesis by (rule reads_run [OF _ 3]) (rule "4.IH"(3) [OF 3(1) s _ refl refl refl], simp)
  qed
next
  case (5 st hs i l ts)
  then show ?case by (rule reads_literal)
qed

section \<open>Sending succeeds\<close>

lemma then_send_ex:
  assumes "\<exists>b l1. f ls = Inr (b, l1)" "\<And>b l1. f ls = Inr (b, l1) \<Longrightarrow> \<exists>b' l2. g l1 = Inr (b', l2)"
  shows "\<exists>b l2. then_send f g ls = Inr (b, l2)"
  using assms by (fastforce simp: then_send_def)

lemma set_span_ex: "echoes st sp \<Longrightarrow> \<exists>b l. set_span st sp ls = Inr (b, l)"
  by (cases "to_raw st sp") (auto simp: echoes_def set_span_def)

lemma emit_ex: "\<exists>b l. emit w ls = Inr (b, l)" "\<exists>b l. joined_if c k ls = Inr (b, l)"
  by (simp_all add: joined_if_def)

lemma joint_run_rest:
  assumes "joint_run chars k True (Suc k) ts = (chars', e, j, i', ts')" "sendable st (TPunct p # ts) (drop k hs)"
    "punct_joint p" "punct_as_char p \<noteq> c_squote"
  shows "sendable st ts' (drop i' hs)" "i' \<le> length hs"
proof -
  obtain pre h hs' where r: "i' = Suc (k + length pre)" "drop k hs = replicate (length (pre :: punct list)) 0 @ h # hs'"
    "sendable st ts' hs'" using joint_run_spec [OF assms] by blast
  have "drop i' hs = drop (Suc (length pre)) (drop k hs)" using r(1) by (simp add: add.commute)
  then show "sendable st ts' (drop i' hs)" using r by simp
  show "i' \<le> length hs" using r(1) arg_cong [OF r(2), of length] by simp
qed

lemma send_group_ex:
  assumes "sendable st (TGroup g # ts) (drop i hs)"
    and "\<And>ls. \<exists>b l. send_trees st (hidden (group_stream g)) 0 (trees (group_stream g)) ls = Inr (b, l)"
    and "\<And>ls. \<exists>b l. send_trees st hs (i + 1) ts ls = Inr (b, l)"
  shows "\<exists>b l. send_trees st hs i (TGroup g # ts) ls = Inr (b, l)"
proof -
  have "delimiter g \<noteq> NoDelimiter" "echoes st (open_span (group_spans g))" "echoes st (close_span (group_spans g))"
    using assms(1) by (cases "drop i hs"; simp)+
  then show ?thesis using assms(2,3) by (simp add: then_send_ex set_span_ex emit_ex)
qed

lemma send_punct_ex:
  assumes ok: "sendable st (TPunct p # ts) (drop i hs)"
    and lifetime: "\<And>v ts' ls. punct_as_char p = c_squote \<Longrightarrow> ts = TIdent v # ts' \<Longrightarrow> \<exists>b l. send_trees st hs (i + 2) ts' ls = Inr (b, l)"
    and alone: "\<And>ls. punct_as_char p \<noteq> c_squote \<Longrightarrow> \<not> punct_joint p \<Longrightarrow> \<exists>b l. send_trees st hs (i + 1) ts ls = Inr (b, l)"
    and run: "\<And>chars e j i' ts' ls. punct_joint p \<Longrightarrow> punct_as_char p \<noteq> c_squote \<Longrightarrow>
      joint_run [punct_as_char p] i True (Suc i) ts = (chars, e, j, i', ts') \<Longrightarrow> \<exists>b l. send_trees st hs i' ts' ls = Inr (b, l)"
  shows "\<exists>b l. send_trees st hs i (TPunct p # ts) ls = Inr (b, l)"
proof -
  have p: "echoes st (punct_span p)" "punct_as_char p = c_squote \<Longrightarrow> \<exists>v ts'. ts = TIdent v # ts'"
    using ok by (cases "drop i hs"; auto split: list.splits token_tree.splits)+
  obtain chars e j i' ts' where r: "joint_run [punct_as_char p] i True (Suc i) ts = (chars, e, j, i', ts')"
    by (metis prod_cases5)
  consider v ts' where "punct_as_char p = c_squote" "ts = TIdent v # ts'"
    | "punct_as_char p \<noteq> c_squote" "\<not> punct_joint p" | "punct_as_char p \<noteq> c_squote" "punct_joint p"
    using p(2) by blast
  then show ?thesis
  proof cases
    case 1
    then show ?thesis using p(1) lifetime by (simp add: then_send_ex set_span_ex emit_ex)
  next
    case 2
    then show ?thesis using p(1) alone by (simp add: then_send_ex set_span_ex emit_ex punct_spacing_def)
  next
    case 3
    then show ?thesis
      using p(1) run [OF 3(2,1) r] r by (simp add: then_send_ex set_span_ex emit_ex punct_spacing_def)
  qed
qed

lemma send_trees_succeeds:
  "sendable st ts (drop i hs) \<Longrightarrow> i \<le> length hs \<Longrightarrow> \<exists>b l. send_trees st hs i ts ls = Inr (b, l)"
proof (induction st hs i ts arbitrary: ls rule: send_trees.induct)
  case (2 st hs i g ts)
  have "i < length hs" using sendable_length [OF "2.prems"(1)] by auto
  then have s: "sendable st ts (drop (i + 1) hs)" "sendable st (trees (group_stream g)) (drop 0 (hidden (group_stream g)))"
    "\<not> (delimiter g = NoDelimiter \<and> fragment g \<noteq> 0)"
    using "2.prems" by (simp_all add: Cons_nth_drop_Suc [symmetric])
  show ?case
    by (rule send_group_ex [OF "2.prems"(1)]) (use "2.IH"(2,3) s \<open>i < length hs\<close> in simp_all)
next
  case (4 st hs i p ts)
  have "length hs = i + length (TPunct p # ts)" using sendable_length [OF "4.prems"(1)] "4.prems"(2) by simp
  then have lt: "i < length hs" "length hs = Suc (i + length ts)" by simp_all
  then have s: "sendable st ts (drop (i + 1) hs)" using "4.prems" by (simp add: Cons_nth_drop_Suc [symmetric])
  show ?case
  proof (rule send_punct_ex [OF "4.prems"(1)])
    show "\<exists>b l. send_trees st hs (i + 2) ts' ls = Inr (b, l)"
      if v: "punct_as_char p = c_squote" "ts = TIdent v # ts'" for v ts' ls
    proof -
      have "Suc i < length hs" using lt v by simp
      then have "sendable st ts' (drop (i + 2) hs)" using s v(2) by (simp add: Cons_nth_drop_Suc [symmetric])
      then show ?thesis using "4.IH"(1) [OF v(1,2) refl] \<open>Suc i < length hs\<close> by simp
    qed
    show "\<exists>b l. send_trees st hs (i + 1) ts ls = Inr (b, l)" if "punct_as_char p \<noteq> c_squote" "\<not> punct_joint p" for ls
      using "4.IH"(2) [OF that(1) _ s] lt that by (simp add: punct_spacing_def)
    show "\<exists>b l. send_trees st hs i' ts' ls = Inr (b, l)"
      if r: "punct_joint p" "punct_as_char p \<noteq> c_squote" "joint_run [punct_as_char p] i True (Suc i) ts = (chars, e, j, i', ts')"
      for chars e j i' ts' ls
      by (rule "4.IH"(3) [OF r(2) _ _ refl refl refl joint_run_rest [OF r(3) "4.prems"(1) r(1,2)]])
        (use r in \<open>simp_all add: punct_spacing_def\<close>)
  qed
next
  case (3 st hs i v ts)
  have "i < length hs" using sendable_length [OF "3.prems"(1)] by auto
  then show ?case
    using "3.prems" "3.IH" by (simp add: Cons_nth_drop_Suc [symmetric] then_send_ex set_span_ex emit_ex)
next
  case (5 st hs i l ts)
  have "i < length hs" using sendable_length [OF "5.prems"(1)] by auto
  then show ?case
    using "5.prems" "5.IH" by (simp add: Cons_nth_drop_Suc [symmetric] then_send_ex set_span_ex emit_ex)
qed simp

section \<open>Properties\<close>

lemma read_empty_symbol:
  "read_ent ([1, 0] @ rest) = Inr (Some (Symbol []), rest)"
proof -
  have "write_ent (Symbol []) = [1, 0]" by code_simp
  moreover have "token_ok (Symbol [])" by (simp add: str_ok_def utf8_def)
  ultimately show ?thesis using read_write_ent [of "Symbol []" rest] by simp
qed

lemma read_end_marker:
  assumes "outer e"
  shows "subtree env av e toks hs (reader_at ([1, 0] @ bs) tb sp j) = Inl (RecvPanic (Panic ''Unexpected end-of-stream marker''))"
proof -
  have "\<not> closes e (Symbol [])" "opens (Symbol []) = None" using assms by (auto simp: outer_def closes_def opens_def)
  then show ?thesis
    by (subst subtree_unfold) (simp add: subtree_turn_def read_empty_symbol [simplified] lifted_def recv_panic_def Let_def)
qed

lemma sent_bytes_read:
  assumes "sendable st (trees s) (hidden s)" "length (trees s) < 2 ^ 30"
  shows "\<exists>body. send_token_stream st s = Inr (body @ [1, 0]) \<and>
    recv_token_stream env True (body @ [0] @ rest) tb = Inr (s, rest, tb) \<and>
    recv_token_stream env True (body @ [1, 0] @ rest) tb = Inl (RecvPanic (Panic ''Unexpected end-of-stream marker''))"
proof -
  obtain body l where b: "send_trees st (hidden s) 0 (trees s) 1 = Inr (body, l)"
    using send_trees_succeeds [of st "trees s" 0 "hidden s" 1] assms(1) by auto
  have len: "length (hidden s) = length (trees s)" using sendable_length [OF assms(1)] .
  have c: "call_site True = Inr 2" "from_raw 1 = Inr 2" by (simp_all add: call_site_def require_available_def from_raw_def)
  have e: "outer CloseStream" by (simp add: outer_def)
  have all: "\<exists>cur. from_raw l = Inr cur \<and> subtree env True CloseStream [] [] (reader_at (body @ bs) tb 2 0) =
      subtree env True CloseStream (trees s) (hidden s) (reader_at bs tb cur 0)" for bs
    using readsD [OF reads_trees b _ le0 assms(2) c(2) e, of "[]" env True bs tb] assms(1) by simp
  then obtain cur where r: "from_raw l = Inr cur" by blast
  have go: "subtree env True CloseStream [] [] (reader_at (body @ bs) tb 2 0) =
      subtree env True CloseStream (trees s) (hidden s) (reader_at bs tb cur 0)" for bs
    using all [of bs] r by auto
  have "write_ent EndOfStream = [0]" by (simp add: write_ent_def)
  then have close: "subtree env True CloseStream (trees s) (hidden s) (reader_at ([0] @ rest) tb cur 0) = Inr (s, reader_at rest tb cur 0)"
    using read_close [of EndOfStream CloseStream env True "trees s" "hidden s" rest tb cur 0] len
    by (simp add: closes_def resize_same from_received_same)
  have "write_sym [] = [1, 0]" by code_simp
  then have "send_token_stream st s = Inr (body @ [1, 0])"
    by (simp add: send_token_stream_def then_send_def emit_def b)
  then show ?thesis
    using go [of "[0] @ rest"] go [of "[1, 0] @ rest"] close read_end_marker [OF e, of env True "trees s" "hidden s" rest tb cur 0]
    by (auto simp: recv_token_stream_subtree c lifted_def intro!: exI [of _ body])
qed

section \<open>Streams as they are sent\<close>

text \<open>Joins a stream does not record are none.\<close>

definition pad_joins :: "u8 list \<Rightarrow> nat \<Rightarrow> u8 list" where
  "pad_joins hs n = hs @ replicate (n - length hs) 0"

lemma pad_joins_simps [simp]: "pad_joins [] n = replicate n 0" "length hs = n \<Longrightarrow> pad_joins hs n = hs"
  by (simp_all add: pad_joins_def)

lemma get_at_pad: "(case get_at (pad_joins hs n) i of None \<Rightarrow> 0 | Some h \<Rightarrow> h) = (case get_at hs i of None \<Rightarrow> 0 | Some h \<Rightarrow> h)"
  by (simp add: get_at_def pad_joins_def nth_append)

lemma hidden_at_pad [simp]: "hidden_at (pad_joins hs n) i = hidden_at hs i" "open_hidden_at (pad_joins hs n) i = open_hidden_at hs i"
  by (simp_all add: hidden_at_def open_hidden_at_def get_at_pad)

text \<open>
  What the writer says of a stream, as a stream: it gives every tree a join, a run of joint
  punctuation the span of its first character, the identifier of a lifetime that of the apostrophe,
  and a group no span but those of its delimiters. The first argument is the span of the run.
\<close>

definition same_span :: "span option \<Rightarrow> punct \<Rightarrow> punct" where
  "same_span c p = (case c of None \<Rightarrow> p | Some sp \<Rightarrow> p\<lparr>punct_span := sp\<rparr>)"

function settle :: "span option \<Rightarrow> stream token_tree list \<Rightarrow> stream token_tree list" where
  "settle c [] = []"
| "settle c (TGroup g # ts) =
     TGroup (Group (delimiter g)
       (Stream (settle None (trees (group_stream g))) (pad_joins (hidden (group_stream g)) (length (trees (group_stream g)))))
       ((group_spans g)\<lparr>entire_span := open_span (group_spans g)\<rparr>) (fragment g)) # settle None ts"
| "settle c (TIdent i # ts) = TIdent i # settle None ts"
| "settle c (TPunct p # ts) =
     (if punct_as_char p = c_squote then
        TPunct p # (case ts of
          TIdent v # ts' \<Rightarrow> TIdent (v\<lparr>id_span := punct_span p\<rparr>) # settle None ts'
        | _ \<Rightarrow> settle None ts)
      else TPunct (same_span c p) # settle (if punct_joint p then Some (punct_span (same_span c p)) else None) ts)"
| "settle c (TLiteral l # ts) = TLiteral l # settle None ts"
  by pat_completeness auto
termination
  using trees_smaller by (relation "measure (\<lambda>(c, ts). trees_size ts)") (auto simp: less_Suc_eq trans_less_add1)

definition settled :: "stream \<Rightarrow> stream" where
  "settled s = Stream (settle None (trees s)) (pad_joins (hidden s) (length (trees s)))"

lemma same_span_simps [simp]:
  "punct_ch (same_span c p) = punct_ch p" "punct_joint (same_span c p) = punct_joint p"
  "punct_as_char (same_span c p) = punct_as_char p" "punct_spacing (same_span c p) = punct_spacing p"
  "punct_display (same_span c p) = punct_display p" "same_span None p = p" "punct_span (same_span (Some sp) p) = sp"
  by (simp_all add: same_span_def punct_as_char_def punct_spacing_def punct_display_def split: option.split)

lemma length_settle [simp]: "length (settle c ts) = length ts"
  by (induction c ts rule: settle.induct) (auto split: list.splits token_tree.splits)

lemma settle_Nil [simp]: "settle c ts = [] \<longleftrightarrow> ts = []"
  using length_settle [of c ts] by (metis length_0_conv)

lemma settle_ident: "settle c ts = TIdent v # us \<Longrightarrow> \<exists>ts'. ts = TIdent v # ts'"
  by (cases "(c, ts)" rule: settle.cases) (auto split: if_splits)

lemma joint_run_settle:
  "joint_run chars e j i (settle (Some sp) ts) =
    (case joint_run chars e j i ts of (chars, e, j, i, ts) \<Rightarrow> (chars, e, j, i, settle None ts))"
proof (induction chars e j i ts arbitrary: sp rule: joint_run.induct)
  case (1 chars e j i p ts)
  then show ?case by (auto simp: punct_spacing_def)
qed simp_all

lemma send_settle: "send_trees st (pad_joins hs n) i (settle None ts) = send_trees st hs i ts"
proof (induction st hs i ts arbitrary: n rule: send_trees.induct)
  case (4 st hs i p ts)
  show ?case
  proof (cases "punct_as_char p = c_squote")
    case True
    show ?thesis
    proof (cases "\<exists>v ts'. ts = TIdent v # ts'")
      case True
      then obtain v ts' where "ts = TIdent v # ts'" by blast
      then show ?thesis using "4.IH"(1) [OF \<open>punct_as_char p = c_squote\<close>] \<open>punct_as_char p = c_squote\<close> by simp
    next
      case False
      then have "\<nexists>v ts'. settle None ts = TIdent v # ts'" by (auto dest: settle_ident)
      then show ?thesis using \<open>punct_as_char p = c_squote\<close> False by (auto split: list.splits token_tree.splits)
    qed
  next
    case False
    then show ?thesis
      using "4.IH"(2) [OF False] "4.IH"(3) [OF False] by (auto simp: joint_run_settle punct_spacing_def split: prod.splits)
  qed
qed auto

lemma send_settled: "send_token_stream st (settled s) = send_token_stream st s"
  by (simp add: send_token_stream_def settled_def send_settle)

text \<open>Settling shows in nothing a macro prints, and does nothing to a stream that is settled.\<close>

lemma trees_display_settle: "trees_display first joint (settle c ts) = trees_display first joint ts"
proof (induction c ts arbitrary: first joint rule: settle.induct)
  case (2 c g ts)
  have "stream_display (Stream (settle None (trees (group_stream g))) hs) = stream_display (group_stream g)" for hs
    using "2.IH"(1) by (cases "group_stream g") simp
  then show ?case using "2.IH"(2) by (simp add: stream_is_empty_def)
next
  case (4 c p ts)
  then show ?case by (auto simp: ident_display_def split: list.split token_tree.split)
qed auto

lemma stream_display_settled: "stream_display (settled s) = stream_display s"
  by (cases s) (simp add: settled_def trees_display_settle)

lemma settle_sendable:
  "sendable st ts hs \<Longrightarrow> (\<And>sp p us. c = Some sp \<Longrightarrow> ts = TPunct p # us \<Longrightarrow> punct_as_char p \<noteq> c_squote \<Longrightarrow> punct_span p = sp) \<Longrightarrow>
    settle c ts = ts"
proof (induction st ts hs arbitrary: c rule: sendable.induct)
  case (3 st g ts h hs)
  then have "settle None (trees (group_stream g)) = trees (group_stream g)" "settle None ts = ts"
    "length (hidden (group_stream g)) = length (trees (group_stream g))" by (auto dest: sendable_length)
  then show ?case using "3.prems"(1) by (cases g; cases "group_stream g") auto
next
  case (5 st p ts h hs)
  show ?case
  proof (cases "punct_as_char p = c_squote")
    case True
    then obtain v ts' where v: "ts = TIdent v # ts'" "id_span v = punct_span p" "sendable st ts hs"
      using "5.prems"(1) by (auto split: list.splits token_tree.splits)
    then have "settle None ts = ts" using "5.IH" by simp
    then show ?thesis using True v by simp
  next
    case False
    have p: "same_span c p = p" using "5.prems"(2) [OF _ refl False] by (cases c) (auto simp: same_span_def)
    have ok: "sendable st ts hs" "punct_joint p \<Longrightarrow> ts = TPunct q # us \<Longrightarrow> punct_as_char q \<noteq> c_squote \<Longrightarrow> punct_span q = punct_span p" for q us
      using "5.prems"(1) False by auto
    have "settle (if punct_joint p then Some (punct_span p) else None) ts = ts"
      by (rule "5.IH" [OF ok(1)]) (use ok(2) in \<open>auto split: if_splits\<close>)
    then show ?thesis using False p by (cases "punct_joint p") simp_all
  qed
qed auto

lemma settled_sendable: "sendable st (trees s) (hidden s) \<Longrightarrow> settled s = s"
  using settle_sendable [of st "trees s" "hidden s" None] sendable_length [of st "trees s" "hidden s"]
  by (cases s) (simp add: settled_def)

text \<open>
  C2. What the macro side sends, its own reader reads. For any stream, made by a macro or received:
  if its settled form has a notation - names, characters and spellings the writer can represent and the
  reader parses, spans the compiler knows under their own index, an apostrophe joint and in front of an identifier,
  no join on joint punctuation, fewer than 2^30 trees in every group, and at no depth an
  invisible group or a fragment, for which the writer's notation is not the reader's -
  then sending it succeeds, and the bytes are read back as the settled form, which prints as the
  stream does: the same trees, groups, joins and spans, but for the spans the notation has no room for
  (within a run of joint punctuation or a lifetime, and of a group as a whole). Only the end
  differs: the writer ends a stream with an empty symbol, at which the reader panics, where the
  compiler ends one with its own end marker.
\<close>

theorem sent_stream_read_back:
  assumes "sendable st (trees (settled s)) (hidden (settled s))" "length (trees s) < 2 ^ 30"
  shows "stream_display (settled s) = stream_display s \<and> (\<exists>body. send_token_stream st s = Inr (body @ [1, 0]) \<and>
    recv_token_stream env True (body @ [0] @ rest) tb = Inr (settled s, rest, tb) \<and>
    recv_token_stream env True (body @ [1, 0] @ rest) tb = Inl (RecvPanic (Panic ''Unexpected end-of-stream marker'')))"
proof -
  have "length (trees (settled s)) < 2 ^ 30" using assms(2) by (simp add: settled_def)
  from sent_bytes_read [OF assms(1) this, of env rest tb] show ?thesis
    by (simp add: send_settled stream_display_settled)
qed

definition sample_stream :: stream where
  "sample_stream = Stream
     [TIdent \<lparr>id_sym = str ''x'', id_raw = False, id_span = 2\<rparr>,
      TPunct \<lparr>punct_ch = 61, punct_joint = True, punct_span = 2\<rparr>,
      TPunct \<lparr>punct_ch = 62, punct_joint = False, punct_span = 2\<rparr>,
      TGroup (Group Parenthesis
        (Stream [TPunct \<lparr>punct_ch = 39, punct_joint = True, punct_span = 3\<rparr>, TIdent \<lparr>id_sym = str ''a'', id_raw = True, id_span = 3\<rparr>] [0, 1])
        \<lparr>open_span = 3, close_span = 2, entire_span = 3\<rparr> 0)] [0, 0, 1, 3]"

text \<open>A stream made by a macro: no joins, two spans in one operator and in a lifetime.\<close>

definition made_stream :: stream where
  "made_stream = Stream
     [TPunct \<lparr>punct_ch = 61, punct_joint = True, punct_span = 2\<rparr>, TPunct \<lparr>punct_ch = 62, punct_joint = False, punct_span = 3\<rparr>,
      TGroup (Group Bracket
        (Stream [TPunct \<lparr>punct_ch = 39, punct_joint = True, punct_span = 2\<rparr>, TIdent \<lparr>id_sym = str ''a'', id_raw = False, id_span = 3\<rparr>] [])
        \<lparr>open_span = 2, close_span = 3, entire_span = 3\<rparr> 0)] []"

theorem sent_stream_read_back_witness:
  "\<exists>body. send_token_stream \<lparr>spans = [], spans_complete = True\<rparr> made_stream = Inr (body @ [1, 0]) \<and>
     recv_token_stream sample_env True (body @ [0]) empty_spans = Inr (settled made_stream, [], empty_spans)"
proof -
  let ?st = "\<lparr>spans = [], spans_complete = True\<rparr> :: span_table"
  have ok: "sendable ?st (trees (settled made_stream)) (hidden (settled made_stream))"
    by (simp add: made_stream_def settled_def same_span_def name_ok_def char_ok_def delimiter_list_def echoes_def to_raw_def entry_def span_index_def
        from_raw_def str_ok_def ident_display_def utf8_def utf8_char_def str_def starts_with_def scalar_value_def punct_as_char_def)
  have "length (trees made_stream) < 2 ^ 30" by (simp add: made_stream_def)
  from sent_stream_read_back [OF ok this, of sample_env "[]" empty_spans] show ?thesis by auto
qed

end
