(* ===== verification/Streams.thy ===== *)
theory Streams
  imports Trees "HOL-Library.Multiset"
begin

text \<open>
  The stream store of \<^verbatim>\<open>lib/proc_macro/src/lib.rs\<close> (\<^verbatim>\<open>mod token_stream\<close>): a
  \<open>TokenStream\<close> is a handle to a slot, a clone shares the slot, a write to a shared slot copies
  it first, and the last handle dropped frees it. \<open>means\<close> relates a handle to the stream value
  of theory Trees; the reference counts are exact in every state the operations reach, and from
  that follows that they refine the operations on values.
\<close>

section \<open>The store\<close>

text \<open>\<open>TokenStream(Option<NonZeroU32>)\<close>\<close>

type_synonym hstream = "u32 option"

record slot =
  slot_trees :: "hstream token_tree list"
  slot_hidden :: "u8 list"
  slot_handles :: u32

text \<open>\<open>SLOTS\<close>, and \<open>FREE\<close> with its top first.\<close>

record store =
  slots :: "slot option list"
  free :: "u32 list"

definition empty_store :: store where
  "empty_store = \<lparr>slots = [], free = []\<rparr>"

definition slot_at :: "u32 \<Rightarrow> store \<Rightarrow> slot result" where
  "slot_at h st =
     (if h \<noteq> 0 \<and> unat h - 1 < length (slots st) then
        (case slots st ! (unat h - 1) of
           None \<Rightarrow> Inl (Panic ''dead token stream handle'')
         | Some sl \<Rightarrow> Inr sl)
      else Inl (Panic ''index out of bounds''))"

definition set_slot :: "u32 \<Rightarrow> slot option \<Rightarrow> store \<Rightarrow> store" where
  "set_slot h sl st = st\<lparr>slots := (slots st)[unat h - 1 := sl]\<rparr>"

type_synonym 'a store_op = "store \<Rightarrow> ('a \<times> store) result"

definition allocate_spaced :: "hstream token_tree list \<Rightarrow> u8 list \<Rightarrow> u32 store_op" where
  "allocate_spaced ts hs st =
     (let new = \<lparr>slot_trees = ts, slot_hidden = hs, slot_handles = 1\<rparr> in
      case free st of
        i # rest \<Rightarrow>
          (if unat i < length (slots st) then
             (if i + 1 = 0 then Inl (Panic ''stream handle'')
              else Inr (i + 1, \<lparr>slots = (slots st)[unat i := Some new], free = rest\<rparr>))
           else Inl (Panic ''index out of bounds''))
      | [] \<Rightarrow>
          (let all = slots st @ [Some new] in
           if (of_nat (length all) :: u32) = 0 then Inl (Panic ''stream handle'')
           else Inr (of_nat (length all), st\<lparr>slots := all\<rparr>)))"

definition allocate :: "hstream token_tree list \<Rightarrow> u32 store_op" where
  "allocate ts = allocate_spaced ts []"

definition handle_from_trees :: "hstream token_tree list \<Rightarrow> hstream store_op" where
  "handle_from_trees ts st =
     (if ts = [] then Inr (None, st) else and_then (allocate ts st) (\<lambda>(h, st). Inr (Some h, st)))"

definition handle_from_received :: "hstream token_tree list \<Rightarrow> u8 list \<Rightarrow> hstream store_op" where
  "handle_from_received ts hs st =
     (if ts = [] then Inr (None, st) else and_then (allocate_spaced ts hs st) (\<lambda>(h, st). Inr (Some h, st)))"

definition hidden_joins :: "hstream \<Rightarrow> store \<Rightarrow> u8 list result" where
  "hidden_joins s st = (case s of
     Some h \<Rightarrow> and_then (slot_at h st) (\<lambda>sl. Inr (slot_hidden sl)) | None \<Rightarrow> Inr [])"

definition trees_of :: "hstream \<Rightarrow> store \<Rightarrow> hstream token_tree list result" where
  "trees_of s st = (case s of
     Some h \<Rightarrow> and_then (slot_at h st) (\<lambda>sl. Inr (slot_trees sl)) | None \<Rightarrow> Inr [])"

definition is_empty_handle :: "hstream \<Rightarrow> store \<Rightarrow> bool result" where
  "is_empty_handle s st = and_then (trees_of s st) (\<lambda>ts. Inr (ts = []))"

text \<open>
  \<open>Clone\<close>: one more handle to the slot. The count is an \<open>u32\<close>. At the \<open>2 ^ 32\<close>nd handle to one slot the
  model stops with the panic of a build with overflow checks; the repository's own release build
  would wrap the count to zero there. Every statement about the store sets this case apart
  (\<open>exhausted\<close>), so what is stated holds of both builds below that count.
\<close>

definition clone_stream :: "hstream \<Rightarrow> hstream store_op" where
  "clone_stream s st = (case s of
     None \<Rightarrow> Inr (None, st)
   | Some h \<Rightarrow> and_then (slot_at h st) (\<lambda>sl.
       if slot_handles sl + 1 = 0 then Inl (Panic ''attempt to add with overflow'')
       else Inr (Some h, set_slot h (Some (sl\<lparr>slot_handles := slot_handles sl + 1\<rparr>)) st)))"

text \<open>The derived \<open>Clone\<close> of trees clones the stream of a group.\<close>

fun children :: "hstream token_tree \<Rightarrow> hstream list" where
  "children (TGroup g) = [group_stream g]"
| "children _ = []"

fun clone_trees :: "hstream token_tree list \<Rightarrow> hstream token_tree list store_op" where
  "clone_trees [] st = Inr ([], st)"
| "clone_trees (TGroup g # ts) st =
     and_then (clone_stream (group_stream g) st) (\<lambda>(s, st).
     and_then (clone_trees ts st) (\<lambda>(ts, st).
     Inr (TGroup (Group (delimiter g) s (group_spans g) (fragment g)) # ts, st)))"
| "clone_trees (t # ts) st = and_then (clone_trees ts st) (\<lambda>(ts, st). Inr (t # ts, st))"

text \<open>
  \<open>Drop\<close>. Dropping the last handle drops the slot's trees, whose groups hold handles
  themselves, and then pushes the index; the recursion is written with the work still to do.
\<close>

datatype drop_work = Release hstream | PushFree u32

definition handle_sum :: "store \<Rightarrow> nat" where
  "handle_sum st = sum_list (map (case_option 0 (unat \<circ> slot_handles)) (slots st))"

lemma sum_list_update_add:
  fixes xs :: "'a :: comm_monoid_add list"
  shows "i < length xs \<Longrightarrow> sum_list (xs[i := x]) + xs ! i = sum_list xs + x"
proof (induction xs arbitrary: i)
  case (Cons a xs)
  then show ?case by (cases i) (simp_all add: add.assoc add.left_commute add.commute)
qed simp

lemma handle_sum_set_slot:
  assumes "slot_at h st = Inr sl"
  shows "handle_sum (set_slot h sl' st) + unat (slot_handles sl) =
    handle_sum st + case_option 0 (unat \<circ> slot_handles) sl'"
  using assms sum_list_update_add [of "unat h - 1" "map (case_option 0 (unat \<circ> slot_handles)) (slots st)"
      "case_option 0 (unat \<circ> slot_handles) sl'"]
  by (auto simp: slot_at_def handle_sum_def set_slot_def map_update split: if_splits option.splits)

function drop_loop :: "drop_work list \<Rightarrow> store \<Rightarrow> store result" where
  "drop_loop [] st = Inr st"
| "drop_loop (Release None # w) st = drop_loop w st"
| "drop_loop (Release (Some h) # w) st = (case slot_at h st of
     Inl p \<Rightarrow> Inl p
   | Inr sl \<Rightarrow>
       if slot_handles sl = 0 then Inl (Panic ''attempt to subtract with overflow'')
       else if slot_handles sl = 1 then
         drop_loop (map Release (concat (map children (slot_trees sl))) @ PushFree (h - 1) # w) (set_slot h None st)
       else drop_loop w (set_slot h (Some (sl\<lparr>slot_handles := slot_handles sl - 1\<rparr>)) st))"
| "drop_loop (PushFree i # w) st = drop_loop w (st\<lparr>free := i # free st\<rparr>)"
  by pat_completeness auto
termination
proof (relation "inv_image (less_than <*lex*> less_than) (\<lambda>(w, st). (handle_sum st, length w))")
  fix h w st sl
  assume a: "slot_at h st = Inr sl" "slot_handles sl \<noteq> 0"
  then have pos: "0 < unat (slot_handles sl)" by (simp add: unat_gt_0)
  show "((map Release (concat (map children (slot_trees sl))) @ PushFree (h - 1) # w, set_slot h None st), Release (Some h) # w, st)
    \<in> inv_image (less_than <*lex*> less_than) (\<lambda>(w, st). (handle_sum st, length w))"
    using handle_sum_set_slot [OF a(1), of None] pos by simp
  have "unat (slot_handles sl - 1) < unat (slot_handles sl)" using a(2) pos by (simp add: unat_minus_one)
  then show "((w, set_slot h (Some (sl\<lparr>slot_handles := slot_handles sl - 1\<rparr>)) st), Release (Some h) # w, st)
    \<in> inv_image (less_than <*lex*> less_than) (\<lambda>(w, st). (handle_sum st, length w))"
    using handle_sum_set_slot [OF a(1), of "Some (sl\<lparr>slot_handles := slot_handles sl - 1\<rparr>)"] by simp
qed (auto simp: handle_sum_def)

definition drop_stream :: "hstream \<Rightarrow> store \<Rightarrow> store result" where
  "drop_stream s st = drop_loop [Release s] st"

section \<open>Writing and consuming a stream\<close>

text \<open>
  \<open>trees_mut\<close>: a handle that is the only one to its slot, with no hidden joins left. A shared
  slot is copied, and the assignment to \<open>*self\<close> drops the old handle.
\<close>

definition clear_hidden :: "u32 \<Rightarrow> u32 store_op" where
  "clear_hidden h st = and_then (slot_at h st) (\<lambda>sl. Inr (h, set_slot h (Some (sl\<lparr>slot_hidden := []\<rparr>)) st))"

definition trees_mut :: "hstream \<Rightarrow> u32 store_op" where
  "trees_mut s st = (case s of
     Some h \<Rightarrow> and_then (slot_at h st) (\<lambda>sl.
       if slot_handles sl = 1 then clear_hidden h st
       else and_then (clone_trees (slot_trees sl) st) (\<lambda>(copy, st).
         and_then (allocate copy st) (\<lambda>(h', st).
         and_then (drop_stream (Some h) st) (clear_hidden h'))))
   | None \<Rightarrow> and_then (allocate [] st) (\<lambda>(h', st). clear_hidden h' st))"

text \<open>\<open>trees_mut().extend(trees)\<close>\<close>

definition push_trees :: "u32 \<Rightarrow> hstream token_tree list \<Rightarrow> store \<Rightarrow> store result" where
  "push_trees h ts st = and_then (slot_at h st) (\<lambda>sl.
     Inr (set_slot h (Some (sl\<lparr>slot_trees := slot_trees sl @ ts\<rparr>)) st))"

text \<open>\<open>into_trees\<close> takes the handle: it is dropped when the trees are out.\<close>

definition into_trees :: "hstream \<Rightarrow> hstream token_tree list store_op" where
  "into_trees s st = (case s of
     None \<Rightarrow> Inr ([], st)
   | Some h \<Rightarrow> and_then (slot_at h st) (\<lambda>sl.
       and_then (if slot_handles sl = 1
         then Inr (slot_trees sl, set_slot h (Some (sl\<lparr>slot_trees := []\<rparr>)) st)
         else and_then (trees_of s st) (\<lambda>ts. clone_trees ts st)) (\<lambda>(ts, st).
       and_then (drop_stream (Some h) st) (\<lambda>st. Inr (ts, st)))))"

text \<open>\<open>IntoIter\<close>: the trees to come; a group handed out has no fragment any more.\<close>

fun iter_next :: "'s token_tree list \<Rightarrow> 's token_tree option \<times> 's token_tree list" where
  "iter_next [] = (None, [])"
| "iter_next (TGroup g # it) = (Some (TGroup (Group (delimiter g) (group_stream g) (group_spans g) 0)), it)"
| "iter_next (t # it) = (Some t, it)"

definition into_iter :: "hstream \<Rightarrow> hstream token_tree list store_op" where
  "into_iter s = into_trees s"

section \<open>Collecting\<close>

fun extend_streams :: "hstream \<Rightarrow> hstream list \<Rightarrow> hstream store_op" where
  "extend_streams self [] st = Inr (self, st)"
| "extend_streams self (stream # streams) st =
     and_then (is_empty_handle stream st) (\<lambda>empty.
       if empty then and_then (drop_stream stream st) (extend_streams self streams)
       else and_then (is_empty_handle self st) (\<lambda>empty.
         if empty then and_then (drop_stream self st) (extend_streams stream streams)
         else and_then (into_trees stream st) (\<lambda>(trees, st).
           and_then (trees_mut self st) (\<lambda>(h, st).
           and_then (push_trees h trees st) (extend_streams (Some h) streams)))))"

definition extend_trees :: "hstream \<Rightarrow> hstream token_tree list \<Rightarrow> hstream store_op" where
  "extend_trees self ts st =
     (if ts \<noteq> [] then and_then (trees_mut self st) (\<lambda>(h, st). and_then (push_trees h ts st) (\<lambda>st. Inr (Some h, st)))
      else Inr (self, st))"

definition handle_from_tree :: "hstream token_tree \<Rightarrow> hstream store_op" where
  "handle_from_tree t = handle_from_trees [t]"

definition collect_streams :: "hstream list \<Rightarrow> hstream store_op" where
  "collect_streams streams = extend_streams None streams"

definition collect_trees :: "hstream token_tree list \<Rightarrow> hstream store_op" where
  "collect_trees ts = handle_from_trees ts"

section \<open>What a handle means\<close>

inductive means :: "store \<Rightarrow> hstream \<Rightarrow> stream \<Rightarrow> bool" for st where
  means_none: "means st None empty_stream"
| means_slot: "slot_at h st = Inr sl \<Longrightarrow> list_all2 (rel_token_tree (means st)) (slot_trees sl) ts \<Longrightarrow>
    means st (Some h) (Stream ts (slot_hidden sl))"

inductive_cases means_noneE [elim!]: "means st None s"
inductive_cases means_someE [elim]: "means st (Some h) s"

abbreviation tree_means :: "store \<Rightarrow> hstream token_tree \<Rightarrow> stream token_tree \<Rightarrow> bool" where
  "tree_means st \<equiv> rel_token_tree (means st)"

abbreviation trees_mean :: "store \<Rightarrow> hstream token_tree list \<Rightarrow> stream token_tree list \<Rightarrow> bool" where
  "trees_mean st \<equiv> list_all2 (tree_means st)"

section \<open>Reference counts\<close>

definition child_handles :: "hstream token_tree list \<Rightarrow> hstream multiset" where
  "child_handles ts = mset (concat (map children ts))"

definition slot_refs :: "slot option \<Rightarrow> hstream multiset" where
  "slot_refs sl = (case sl of None \<Rightarrow> {#} | Some sl \<Rightarrow> child_handles (slot_trees sl))"

definition all_refs :: "store \<Rightarrow> hstream multiset" where
  "all_refs st = sum_list (map slot_refs (slots st))"

text \<open>
  The invariant: \<open>R\<close> are the handles held outside the store, \<open>P\<close> the freed indices not yet
  pushed. The dead slots are exactly these and the free ones; a live slot counts exactly the
  handles to it, and there are none to a dead slot.
\<close>

definition dead_ok :: "u32 list \<Rightarrow> store \<Rightarrow> bool" where
  "dead_ok P st \<longleftrightarrow> length (slots st) < 2 ^ 32 \<and> distinct (P @ free st) \<and>
     (\<forall>i. i \<in> set (P @ free st) \<longleftrightarrow> unat i < length (slots st) \<and> slots st ! unat i = None)"

definition refs :: "hstream multiset \<Rightarrow> store \<Rightarrow> u32 \<Rightarrow> nat" where
  "refs R st h = count (R + all_refs st) (Some h)"

definition held :: "store \<Rightarrow> u32 \<Rightarrow> nat" where
  "held st h = (case slot_at h st of Inl _ \<Rightarrow> 0 | Inr sl \<Rightarrow> unat (slot_handles sl))"

definition counts_ok :: "hstream multiset \<Rightarrow> store \<Rightarrow> bool" where
  "counts_ok R st \<longleftrightarrow> (\<forall>h. refs R st h = held st h) \<and> (\<forall>h sl. slot_at h st = Inr sl \<longrightarrow> 0 < unat (slot_handles sl))"

definition store_inv :: "hstream multiset \<Rightarrow> u32 list \<Rightarrow> store \<Rightarrow> bool" where
  "store_inv R P st \<longleftrightarrow> dead_ok P st \<and> counts_ok R st"

lemma slot_at_Inr:
  "slot_at h st = Inr sl \<longleftrightarrow> h \<noteq> 0 \<and> unat h - 1 < length (slots st) \<and> slots st ! (unat h - 1) = Some sl"
  by (auto simp: slot_at_def split: option.splits)

lemma slot_at_set_slot:
  assumes "slot_at h st = Inr sl"
  shows "slot_at h (set_slot h (Some sl') st) = Inr sl'"
    "j \<noteq> h \<Longrightarrow> slot_at j (set_slot h x st) = slot_at j st"
proof -
  show "slot_at h (set_slot h (Some sl') st) = Inr sl'"
    using assms by (simp add: slot_at_Inr set_slot_def)
  have "unat j - 1 \<noteq> unat h - 1" if "j \<noteq> h" "j \<noteq> 0"
  proof
    assume "unat j - 1 = unat h - 1"
    moreover have "0 < unat j" "0 < unat h" using that(2) assms by (simp_all add: slot_at_Inr unat_gt_0)
    ultimately show False using that(1) by (metis Suc_pred' One_nat_def word_unat_eq_iff)
  qed
  then show "slot_at j (set_slot h x st) = slot_at j st" if "j \<noteq> h"
    using that by (auto simp: slot_at_def set_slot_def)
qed

lemma all_refs_set_slot:
  assumes "slot_at h st = Inr sl"
  shows "all_refs (set_slot h x st) + child_handles (slot_trees sl) = all_refs st + slot_refs x"
  using assms sum_list_update_add [of "unat h - 1" "map slot_refs (slots st)" "slot_refs x"]
  by (simp add: slot_at_Inr all_refs_def set_slot_def map_update slot_refs_def)

lemma child_handles_simps [simp]:
  "child_handles [] = {#}" "child_handles (ts @ us) = child_handles ts + child_handles us"
  "child_handles (t # ts) = mset (children t) + child_handles ts"
  by (simp_all add: child_handles_def)

lemma set_children: "set_token_tree t = set (children t)"
proof (cases t)
  case (TGroup g)
  then show ?thesis by (cases g) simp
qed simp_all

lemma slot_children_refs:
  assumes "slot_at h st = Inr sl"
  shows "child_handles (slot_trees sl) \<subseteq># all_refs st"
  using all_refs_set_slot [OF assms, of None] by (metis add.right_neutral mset_subset_eq_add_right slot_refs_def option.simps(4))

text \<open>A handle keeps its meaning when every slot it leads to keeps its trees and joins.\<close>

lemma means_frame:
  assumes "means st k v" "k \<notin> X"
    and "\<And>j sl. slot_at j st = Inr sl \<Longrightarrow> Some j \<notin> X \<Longrightarrow> (\<exists>sl'. slot_at j st' = Inr sl' \<and>
      slot_trees sl' = slot_trees sl \<and> slot_hidden sl' = slot_hidden sl) \<and> (\<forall>c \<in># child_handles (slot_trees sl). c \<notin> X)"
  shows "means st' k v"
  using assms(1,2)
proof (induction rule: means.induct)
  case means_none
  show ?case by (rule means.means_none)
next
  case (means_slot h sl ts)
  obtain sl' where sl': "slot_at h st' = Inr sl'" "slot_trees sl' = slot_trees sl" "slot_hidden sl' = slot_hidden sl"
    and c: "\<forall>c \<in># child_handles (slot_trees sl). c \<notin> X"
    using assms(3) means_slot by blast
  have "list_all2 (tree_means st') (slot_trees sl) ts"
    using means_slot(2)
  proof (rule list.rel_mono_strong)
    fix t u
    assume t: "t \<in> set (slot_trees sl)" and r: "rel_token_tree (\<lambda>x1 x2. means st x1 x2 \<and> (x1 \<notin> X \<longrightarrow> means st' x1 x2)) t u"
    have "set_token_tree t \<inter> X = {}" using t c by (auto simp: set_children child_handles_def)
    then show "tree_means st' t u" using r by (auto elim!: token_tree.rel_mono_strong)
  qed
  then show ?case using means.means_slot [OF sl'(1), of ts] sl' by simp
qed

section \<open>Outcomes\<close>

text \<open>
  The only panics left are those of exhausted counters: \<open>2 ^ 32\<close> handles to one slot, or
  \<open>2 ^ 32\<close> slots. In particular no handle is ever dead and no index out of bounds.
\<close>

definition exhausted :: "panic \<Rightarrow> bool" where
  "exhausted p \<longleftrightarrow> p = Panic ''attempt to add with overflow'' \<or> p = Panic ''stream handle''"

definition fine :: "'a result \<Rightarrow> ('a \<Rightarrow> bool) \<Rightarrow> bool" where
  "fine r Q \<longleftrightarrow> (case r of Inl p \<Rightarrow> exhausted p | Inr x \<Rightarrow> Q x)"

lemma fine_Inr [simp]: "fine (Inr x) Q = Q x"
  by (simp add: fine_def)

lemma fine_Inl [simp]: "fine (Inl p) Q = exhausted p"
  by (simp add: fine_def)

lemma fine_and_then:
  assumes "fine m P" "\<And>x. P x \<Longrightarrow> fine (f x) Q"
  shows "fine (and_then m f) Q"
  using assms by (cases m) auto

lemma fine_and_then2:
  assumes "fine m (\<lambda>(a, b). P a b)" "\<And>a b. P a b \<Longrightarrow> fine (f a b) Q"
  shows "fine (and_then m (\<lambda>(a, b). f a b)) Q"
  using assms by (cases m) auto

lemma fine_mono: "fine r P \<Longrightarrow> (\<And>x. P x \<Longrightarrow> Q x) \<Longrightarrow> fine r Q"
  by (cases r) auto

section \<open>Every operation keeps the counts\<close>

lemma refs_add [simp]:
  "refs (add_mset s R) st h = (if s = Some h then 1 else 0) + refs R st h"
  "refs (A + R) st h = count A (Some h) + refs R st h"
  by (simp_all add: refs_def)

lemma refs_pos: "0 < refs R st h \<longleftrightarrow> Some h \<in># R + all_refs st"
  unfolding refs_def by (rule count_greater_zero_iff)

lemma inv_live:
  assumes "store_inv R P st" "Some h \<in># R + all_refs st"
  obtains sl where "slot_at h st = Inr sl"
proof -
  have "0 < held st h" using assms refs_pos [of R st h] by (simp add: store_inv_def counts_ok_def)
  then show thesis using that by (cases "slot_at h st") (simp_all add: held_def)
qed

lemma inv_count:
  assumes "store_inv R P st" "slot_at h st = Inr sl"
  shows "0 < unat (slot_handles sl)" "unat (slot_handles sl) = refs R st h"
  using assms by (auto simp: store_inv_def counts_ok_def held_def)

lemma inv_None [simp]: "store_inv (add_mset None R) P st \<longleftrightarrow> store_inv R P st"
  by (simp add: store_inv_def counts_ok_def)

text \<open>Slots that keep their trees: the same references, the same meanings.\<close>

definition unchanged :: "store \<Rightarrow> store \<Rightarrow> bool" where
  "unchanged st st' \<longleftrightarrow> all_refs st' = all_refs st \<and> (\<forall>j sl. slot_at j st = Inr sl \<longrightarrow>
     (\<exists>sl'. slot_at j st' = Inr sl' \<and> slot_trees sl' = slot_trees sl \<and> slot_hidden sl' = slot_hidden sl))"

lemma unchanged_refl [simp]: "unchanged st st"
  by (simp add: unchanged_def)

lemma unchanged_trans: "unchanged a b \<Longrightarrow> unchanged b c \<Longrightarrow> unchanged a c"
  unfolding unchanged_def by metis

lemma unchanged_means: "unchanged st st' \<Longrightarrow> means st k v \<Longrightarrow> means st' k v"
  by (rule means_frame [where X = "{}"]) (auto simp: unchanged_def)

text \<open>One slot changes, the references to the others stay.\<close>

lemma counts_ok_step:
  assumes ok: "counts_ok R st" and same: "\<And>j. j \<noteq> h \<Longrightarrow> slot_at j st' = slot_at j st"
    and other: "\<And>j. j \<noteq> h \<Longrightarrow> refs R' st' j = refs R st j"
    and own: "refs R' st' h = held st' h" "\<And>sl. slot_at h st' = Inr sl \<Longrightarrow> 0 < unat (slot_handles sl)"
  shows "counts_ok R' st'"
  unfolding counts_ok_def
proof (intro conjI allI impI)
  show "refs R' st' j = held st' j" for j
    using assms by (cases "j = h") (auto simp: counts_ok_def held_def)
  show "0 < unat (slot_handles sl)" if "slot_at j st' = Inr sl" for j sl
    using that assms by (cases "j = h") (auto simp: counts_ok_def)
qed

lemma dead_ok_update:
  assumes "dead_ok P st" "slot_at h st = Inr sl"
  shows "dead_ok P (set_slot h (Some sl') st)"
proof -
  have n: "unat h - 1 < length (slots st)" "slots st ! (unat h - 1) = Some sl" using assms(2) by (simp_all add: slot_at_Inr)
  have dead: "slots (set_slot h (Some sl') st) ! i = None \<longleftrightarrow> slots st ! i = None" if "i < length (slots st)" for i
    using n that by (cases "i = unat h - 1") (auto simp: set_slot_def)
  have "length (slots (set_slot h (Some sl') st)) = length (slots st)" "free (set_slot h (Some sl') st) = free st"
    by (simp_all add: set_slot_def)
  then show ?thesis using assms(1) dead unfolding dead_ok_def by metis
qed

lemma store_inv_update:
  assumes inv: "store_inv R P st" and h: "slot_at h st = Inr sl"
    and other: "\<And>j. j \<noteq> h \<Longrightarrow> refs R' (set_slot h (Some sl') st) j = refs R st j"
    and own: "refs R' (set_slot h (Some sl') st) h = unat (slot_handles sl')" "0 < unat (slot_handles sl')"
  shows "store_inv R' P (set_slot h (Some sl') st)"
  unfolding store_inv_def
proof
  show "dead_ok P (set_slot h (Some sl') st)" using inv h by (simp add: store_inv_def dead_ok_update)
  show "counts_ok R' (set_slot h (Some sl') st)"
    by (rule counts_ok_step [of R st h]) (use inv other own slot_at_set_slot [OF h] in \<open>simp_all add: store_inv_def held_def\<close>)
qed

text \<open>When the slot keeps its trees only the handles held outside count.\<close>

lemma all_refs_same_trees:
  assumes "slot_at h st = Inr sl" "slot_trees sl' = slot_trees sl"
  shows "all_refs (set_slot h (Some sl') st) = all_refs st"
  using all_refs_set_slot [OF assms(1), of "Some sl'"] assms(2) by (simp add: slot_refs_def)

lemma refs_same: "all_refs st' = all_refs st \<Longrightarrow> refs R st' j = refs R st j"
  by (simp add: refs_def)

lemma unchanged_set_slot:
  assumes "slot_at h st = Inr sl" "slot_trees sl' = slot_trees sl" "slot_hidden sl' = slot_hidden sl"
  shows "unchanged st (set_slot h (Some sl') st)"
  unfolding unchanged_def
  using assms slot_at_set_slot [OF assms(1)] all_refs_same_trees [OF assms(1,2)]
  by (metis sum.inject(2))

lemma clone_stream_fine:
  assumes inv: "store_inv R P st" and s: "s \<in># R + all_refs st"
  shows "fine (clone_stream s st) (\<lambda>(s', st'). s' = s \<and> store_inv (add_mset s R) P st' \<and> unchanged st st')"
proof (cases s)
  case None
  then show ?thesis using inv by (simp add: clone_stream_def)
next
  case (Some h)
  obtain sl where h: "slot_at h st = Inr sl" using inv_live [OF inv] s Some by blast
  show ?thesis
  proof (cases "slot_handles sl + 1 = 0")
    case True
    then show ?thesis by (simp add: clone_stream_def Some h exhausted_def)
  next
    case False
    let ?sl = "sl\<lparr>slot_handles := slot_handles sl + 1\<rparr>"
    have u: "unat (slot_handles sl + 1) = Suc (unat (slot_handles sl))"
      using False by (metis unatSuc add.commute)
    note refs = refs_same [OF all_refs_same_trees [OF h, of ?sl]]
    have "store_inv (add_mset s R) P (set_slot h (Some ?sl) st)"
      by (rule store_inv_update [OF inv h]) (use refs u inv_count(2) [OF inv h] Some in simp_all)
    moreover have "unchanged st (set_slot h (Some ?sl) st)"
      by (rule unchanged_set_slot [OF h]) simp_all
    ultimately show ?thesis using False by (simp add: clone_stream_def Some h)
  qed
qed

lemma clone_trees_cons:
  "clone_trees (t # ts) st = (case t of
     TGroup g \<Rightarrow> and_then (clone_stream (group_stream g) st) (\<lambda>(s, st).
       and_then (clone_trees ts st) (\<lambda>(ts, st). Inr (TGroup (Group (delimiter g) s (group_spans g) (fragment g)) # ts, st)))
   | _ \<Rightarrow> and_then (clone_trees ts st) (\<lambda>(ts, st). Inr (t # ts, st)))"
  by (cases t) simp_all

lemma clone_trees_fine:
  assumes "store_inv R P st" "set_mset (child_handles ts) \<subseteq> set_mset (R + all_refs st)"
  shows "fine (clone_trees ts st) (\<lambda>(ts', st'). ts' = ts \<and> store_inv (child_handles ts + R) P st' \<and> unchanged st st')"
  using assms
proof (induction ts arbitrary: R st)
  case (Cons t ts)
  show ?case
  proof (cases "\<exists>g. t = TGroup g")
    case False
    have "children t = []" using False by (cases t) auto
    then have "fine (clone_trees ts st) (\<lambda>(ts', st'). ts' = ts \<and> store_inv (child_handles ts + R) P st' \<and> unchanged st st')"
      using Cons.prems by (intro Cons.IH) auto
    moreover have "clone_trees (t # ts) st = and_then (clone_trees ts st) (\<lambda>(ts, st). Inr (t # ts, st))"
      using False by (cases t) auto
    ultimately show ?thesis using \<open>children t = []\<close> by (auto intro: fine_and_then2)
  next
    case True
    then obtain g where t: "t = TGroup g" by blast
    have g: "Group (delimiter g) (group_stream g) (group_spans g) (fragment g) = g" by (cases g) simp
    have 1: "fine (clone_stream (group_stream g) st) (\<lambda>(s', st'). s' = group_stream g
        \<and> store_inv (add_mset (group_stream g) R) P st' \<and> unchanged st st')"
      by (rule clone_stream_fine) (use Cons.prems t in auto)
    have 2: "fine (clone_trees ts st1) (\<lambda>(ts', st'). ts' = ts \<and>
        store_inv (child_handles ts + add_mset (group_stream g) R) P st' \<and> unchanged st1 st')"
      if "store_inv (add_mset (group_stream g) R) P st1" "unchanged st st1" for st1
      by (rule Cons.IH) (use that Cons.prems(2) t in \<open>auto simp: unchanged_def\<close>)
    show ?thesis
      unfolding t clone_trees.simps
      by (rule fine_and_then2 [OF 1], rule fine_and_then2 [OF 2]) (auto simp: g intro: unchanged_trans)
  qed
qed simp

text \<open>A new slot takes over the handles in its trees.\<close>

lemma counts_ok_new:
  assumes inv: "counts_ok (child_handles (slot_trees new) + R) st" and new: "slot_handles new = 1"
    and dead: "slot_at h st = Inl p" and at: "slot_at h st' = Inr new" and other: "\<And>j. j \<noteq> h \<Longrightarrow> slot_at j st' = slot_at j st"
    and all: "all_refs st' = all_refs st + child_handles (slot_trees new)"
  shows "counts_ok (add_mset (Some h) R) st'"
proof (rule counts_ok_step [OF inv other])
  have r: "refs (add_mset (Some h) R) st' j = (if j = h then 1 else 0) + refs (child_handles (slot_trees new) + R) st j" for j
    using all by (simp add: refs_def)
  have "refs (child_handles (slot_trees new) + R) st h = 0"
    using inv dead by (simp add: counts_ok_def held_def)
  then show "refs (add_mset (Some h) R) st' h = held st' h"
    using at new r [of h] by (simp add: held_def)
  show "refs (add_mset (Some h) R) st' j = refs (child_handles (slot_trees new) + R) st j" if "j \<noteq> h" for j
    using r [of j] that by auto
qed (use at new in simp_all)

lemma all_refs_append: "all_refs (st\<lparr>slots := slots st @ [x]\<rparr>) = all_refs st + slot_refs x"
  by (simp add: all_refs_def)

lemma new_slot_ok:
  assumes inv: "store_inv (child_handles (slot_trees new) + R) P st" and new: "slot_handles new = 1"
    and free: "slot_at h st = Inl p" "slot_at h st' = Inr new" "\<And>j. j \<noteq> h \<Longrightarrow> slot_at j st' = slot_at j st"
      "all_refs st' = all_refs st + child_handles (slot_trees new)" "dead_ok P st'"
  shows "store_inv (add_mset (Some h) R) P st' \<and> slot_at h st' = Inr new
    \<and> (\<exists>p. slot_at h st = Inl p) \<and> (\<forall>j. j \<noteq> h \<longrightarrow> slot_at j st' = slot_at j st)"
  using counts_ok_new [OF _ new free(1-4)] inv free by (auto simp: store_inv_def)

lemma same_index: "unat j - 1 = unat h - 1 \<Longrightarrow> j \<noteq> 0 \<Longrightarrow> h \<noteq> 0 \<Longrightarrow> j = (h :: u32)"
  by (metis Suc_pred' unat_gt_0 word_unat_eq_iff)

lemma push_slot_ok:
  assumes inv: "store_inv (child_handles (slot_trees new) + R) P st" and new: "slot_handles new = 1"
    and nz: "(of_nat (Suc (length (slots st))) :: u32) \<noteq> 0"
  defines "h \<equiv> of_nat (Suc (length (slots st))) :: u32" and "st' \<equiv> st\<lparr>slots := slots st @ [Some new]\<rparr>"
  shows "store_inv (add_mset (Some h) R) P st' \<and> slot_at h st' = Inr new
    \<and> (\<exists>p. slot_at h st = Inl p) \<and> (\<forall>j. j \<noteq> h \<longrightarrow> slot_at j st' = slot_at j st)"
proof (rule new_slot_ok [OF inv new])
  have d: "dead_ok P st" using inv by (simp add: store_inv_def)
  then have "length (slots st) < 2 ^ 32" by (simp add: dead_ok_def)
  moreover have "Suc (length (slots st)) \<noteq> 2 ^ 32"
  proof
    assume "Suc (length (slots st)) = 2 ^ 32"
    then have "(of_nat (Suc (length (slots st))) :: u32) = of_nat (2 ^ 32)" by (rule arg_cong)
    then show False using nz by simp
  qed
  ultimately have short: "Suc (length (slots st)) < 2 ^ 32" by linarith
  have h: "unat h = Suc (length (slots st))"
    unfolding h_def using short by (simp add: unat_of_nat take_bit_nat_eq_self del: of_nat_Suc)
  have h0: "h \<noteq> 0" using nz unfolding h_def .
  show "slot_at h st' = Inr new" using h h0 by (simp add: slot_at_Inr st'_def)
  show "slot_at h st = Inl (Panic ''index out of bounds'')" using h by (simp add: slot_at_def)
  show "slot_at j st' = slot_at j st" if "j \<noteq> h" for j
  proof (cases "unat j - 1 < length (slots st)")
    case True
    then show ?thesis by (simp add: slot_at_def st'_def nth_append)
  next
    case False
    then have "\<not> (j \<noteq> 0 \<and> unat j - 1 < Suc (length (slots st)))" using same_index [of j h] that h h0 by auto
    then show ?thesis using False by (auto simp: slot_at_def st'_def)
  qed
  show "all_refs st' = all_refs st + child_handles (slot_trees new)"
    by (simp add: st'_def all_refs_append slot_refs_def)
  show "dead_ok P st'"
    using d short by (auto simp: dead_ok_def st'_def nth_append less_Suc_eq)
qed

lemma reuse_slot_ok:
  assumes inv: "store_inv (child_handles (slot_trees new) + R) P st" and new: "slot_handles new = 1"
    and free: "free st = i # rest"
  defines "st' \<equiv> \<lparr>slots = (slots st)[unat i := Some new], free = rest\<rparr>"
  shows "unat i < length (slots st)" "i + 1 \<noteq> 0"
    "store_inv (add_mset (Some (i + 1)) R) P st' \<and> slot_at (i + 1) st' = Inr new
    \<and> (\<exists>p. slot_at (i + 1) st = Inl p) \<and> (\<forall>j. j \<noteq> i + 1 \<longrightarrow> slot_at j st' = slot_at j st)"
proof -
  have d: "dead_ok P st" using inv by (simp add: store_inv_def)
  then show i: "unat i < length (slots st)" using free by (auto simp: dead_ok_def)
  have none: "slots st ! unat i = None" using d free by (auto simp: dead_ok_def)
  have "length (slots st) < 2 ^ 32" using d by (simp add: dead_ok_def)
  then have small: "unat i + 1 < 2 ^ 32" using i by linarith
  then have h: "unat (i + 1) = unat i + 1" using unat_add_lem [of i 1] by simp
  then show nz: "i + 1 \<noteq> 0" by (metis Suc_eq_plus1 nat.distinct(1) unat_0)
  show "store_inv (add_mset (Some (i + 1)) R) P st' \<and> slot_at (i + 1) st' = Inr new
    \<and> (\<exists>p. slot_at (i + 1) st = Inl p) \<and> (\<forall>j. j \<noteq> i + 1 \<longrightarrow> slot_at j st' = slot_at j st)"
  proof (rule new_slot_ok [OF inv new])
    show "slot_at (i + 1) st = Inl (Panic ''dead token stream handle'')" using h nz i none by (simp add: slot_at_def)
    show "slot_at (i + 1) st' = Inr new" using h nz i by (simp add: slot_at_Inr st'_def)
    show "slot_at j st' = slot_at j st" if "j \<noteq> i + 1" for j
      using same_index [of j "i + 1"] that h nz by (cases "unat j - 1 = unat i") (auto simp: slot_at_def st'_def)
    show "all_refs st' = all_refs st + child_handles (slot_trees new)"
      using sum_list_update_add [of "unat i" "map slot_refs (slots st)" "slot_refs (Some new)"] i none
      by (simp add: all_refs_def st'_def map_update slot_refs_def)
    show "dead_ok P st'"
      using d free i none by (auto simp: dead_ok_def st'_def nth_list_update word_unat_eq_iff [symmetric])
  qed
qed

lemma allocate_fine:
  assumes inv: "store_inv (child_handles ts + R) P st"
  shows "fine (allocate_spaced ts hs st) (\<lambda>(h, st'). store_inv (add_mset (Some h) R) P st'
    \<and> slot_at h st' = Inr \<lparr>slot_trees = ts, slot_hidden = hs, slot_handles = 1\<rparr>
    \<and> (\<exists>p. slot_at h st = Inl p) \<and> (\<forall>j. j \<noteq> h \<longrightarrow> slot_at j st' = slot_at j st))"
proof (cases "free st")
  case Nil
  then show ?thesis
    using push_slot_ok [of "\<lparr>slot_trees = ts, slot_hidden = hs, slot_handles = 1\<rparr>" R P st] inv
    by (auto simp: allocate_spaced_def exhausted_def Let_def simp del: of_nat_Suc)
next
  case (Cons i rest)
  then show ?thesis
    using reuse_slot_ok [of "\<lparr>slot_trees = ts, slot_hidden = hs, slot_handles = 1\<rparr>" R P st i rest] inv
    by (simp add: allocate_spaced_def Let_def)
qed

lemma grow_means:
  assumes "slot_at h st = Inl p" "\<forall>j. j \<noteq> h \<longrightarrow> slot_at j st' = slot_at j st" "means st k v"
  shows "means st' k v"
  using assms(3) by (rule means_frame [where X = "{}"]) (use assms(1,2) in \<open>auto, metis sum.distinct(1)\<close>)

section \<open>Dropping\<close>

text \<open>The handles the work still holds, and the indices it still pushes.\<close>

fun work_refs :: "drop_work list \<Rightarrow> hstream multiset" where
  "work_refs [] = {#}"
| "work_refs (Release s # w) = add_mset s (work_refs w)"
| "work_refs (PushFree i # w) = work_refs w"

fun work_pushes :: "drop_work list \<Rightarrow> u32 list" where
  "work_pushes [] = []"
| "work_pushes (Release s # w) = work_pushes w"
| "work_pushes (PushFree i # w) = i # work_pushes w"

lemma work_append [simp]:
  "work_refs (map Release cs @ w) = mset cs + work_refs w" "work_pushes (map Release cs @ w) = work_pushes w"
  by (induction cs) simp_all

text \<open>The handles in \<open>R\<close> keep their slots, and so their meaning.\<close>

definition kept :: "hstream multiset \<Rightarrow> store \<Rightarrow> store \<Rightarrow> bool" where
  "kept R st st' \<longleftrightarrow> (\<forall>k v. k \<in># R \<longrightarrow> means st k v \<longrightarrow> means st' k v) \<and>
     (\<forall>h sl. Some h \<in># R \<longrightarrow> slot_at h st = Inr sl \<longrightarrow> (\<exists>sl'. slot_at h st' = Inr sl' \<and>
       slot_trees sl' = slot_trees sl \<and> slot_hidden sl' = slot_hidden sl))"

lemma kept_refl [simp]: "kept R st st"
  by (simp add: kept_def)

lemma kept_trans: "kept R a b \<Longrightarrow> kept R b c \<Longrightarrow> kept R a c"
  unfolding kept_def by metis

lemma kept_unchanged:
  assumes "unchanged st st'"
  shows "kept R st st'"
proof -
  have "means st k v \<Longrightarrow> means st' k v" for k v using unchanged_means [OF assms] .
  moreover have "\<exists>sl'. slot_at h st' = Inr sl' \<and> slot_trees sl' = slot_trees sl \<and> slot_hidden sl' = slot_hidden sl"
    if "slot_at h st = Inr sl" for h sl using assms that unfolding unchanged_def by blast
  ultimately show ?thesis unfolding kept_def by blast
qed

lemma kept_mono: "kept R st st' \<Longrightarrow> set_mset R' \<subseteq> set_mset R \<Longrightarrow> kept R' st st'"
  unfolding kept_def by blast

text \<open>A slot nothing refers to may change.\<close>

lemma kept_other:
  assumes "refs R st h = 0" "\<And>j. j \<noteq> h \<Longrightarrow> slot_at j st' = slot_at j st"
  shows "kept R st st'"
proof -
  have no: "Some h \<notin># R" "Some h \<notin># all_refs st" using assms(1) refs_pos [of R st h] by auto
  have "means st' k v" if "k \<in># R" "means st k v" for k v
    using that(2)
  proof (rule means_frame [where X = "{Some h}"])
    show "k \<notin> {Some h}" using that(1) no(1) by auto
    fix j sl assume j: "slot_at j st = Inr sl" "Some j \<notin> {Some h}"
    have "Some h \<notin># child_handles (slot_trees sl)" using no(2) slot_children_refs [OF j(1)] by (meson mset_subset_eqD)
    then show "(\<exists>sl'. slot_at j st' = Inr sl' \<and> slot_trees sl' = slot_trees sl \<and> slot_hidden sl' = slot_hidden sl)
        \<and> (\<forall>c \<in># child_handles (slot_trees sl). c \<notin> {Some h})"
      using j assms(2) [of j] by auto
  qed
  then show ?thesis using assms(2) no(1) by (auto simp: kept_def) metis
qed

lemma slot_at_free [simp]: "slot_at j (st\<lparr>free := f\<rparr>) = slot_at j st"
  by (simp add: slot_at_def)

lemma all_refs_free [simp]: "all_refs (st\<lparr>free := f\<rparr>) = all_refs st"
  by (simp add: all_refs_def)

lemma slot_at_set_none: "slot_at h st = Inr sl \<Longrightarrow> slot_at h (set_slot h None st) = Inl (Panic ''dead token stream handle'')"
  by (simp add: slot_at_def set_slot_def split: if_splits)

text \<open>The last handle to a slot: its trees' handles are held by the work now.\<close>

lemma release_last:
  assumes inv: "store_inv (add_mset (Some h) R) P st" and h: "slot_at h st = Inr sl" and one: "slot_handles sl = 1"
  shows "store_inv (child_handles (slot_trees sl) + R) ((h - 1) # P) (set_slot h None st)"
    "kept R st (set_slot h None st)"
proof -
  let ?st = "set_slot h None st"
  have r0: "refs R st h = 0" using inv_count(2) [OF inv h] one by simp
  show "kept R st ?st" by (rule kept_other [OF r0]) (simp add: slot_at_set_slot(2) [OF h])
  have r: "refs (child_handles (slot_trees sl) + R) ?st j = refs R st j" for j
    using all_refs_set_slot [OF h, of None] by (simp add: refs_def slot_refs_def union_commute) (metis count_union)
  have "counts_ok (child_handles (slot_trees sl) + R) ?st"
  proof (rule counts_ok_step)
    show "counts_ok (add_mset (Some h) R) st" using inv by (simp add: store_inv_def)
    show "slot_at j ?st = slot_at j st" if "j \<noteq> h" for j using slot_at_set_slot(2) [OF h that] .
  qed (use r r0 slot_at_set_none [OF h] in \<open>simp_all add: held_def del: refs_add(2)\<close>)
  moreover have "dead_ok ((h - 1) # P) ?st"
  proof -
    have d: "dead_ok P st" using inv by (simp add: store_inv_def)
    have n: "h \<noteq> 0" "unat h - 1 < length (slots st)" "slots st ! (unat h - 1) = Some sl" using h by (simp_all add: slot_at_Inr)
    have u: "unat (h - 1) = unat h - 1" using n(1) by (simp add: unat_minus_one)
    have live: "h - 1 \<notin> set (P @ free st)" using d n u by (auto simp: dead_ok_def)
    have i: "i = h - 1 \<longleftrightarrow> unat i = unat h - 1" for i using u by (simp add: word_unat_eq_iff)
    have "i \<in> set (((h - 1) # P) @ free ?st) \<longleftrightarrow> unat i < length (slots ?st) \<and> slots ?st ! unat i = None" for i
      using d n i [of i] by (cases "unat i = unat h - 1") (auto simp: dead_ok_def set_slot_def)
    then show ?thesis using d live by (simp add: dead_ok_def set_slot_def)
  qed
  ultimately show "store_inv (child_handles (slot_trees sl) + R) ((h - 1) # P) ?st" by (simp add: store_inv_def)
qed

text \<open>Any other handle: one fewer.\<close>

lemma release_shared:
  assumes inv: "store_inv (add_mset (Some h) R) P st" and h: "slot_at h st = Inr sl" and more: "slot_handles sl \<noteq> 1"
  defines "st' \<equiv> set_slot h (Some (sl\<lparr>slot_handles := slot_handles sl - 1\<rparr>)) st"
  shows "store_inv R P st'" "unchanged st st'"
proof -
  let ?sl = "sl\<lparr>slot_handles := slot_handles sl - 1\<rparr>"
  note c = inv_count [OF inv h]
  have "slot_handles sl \<noteq> 0" using c(1) by (auto simp: unat_gt_0)
  then have u: "unat (slot_handles sl - 1) = unat (slot_handles sl) - 1" by (simp add: unat_minus_one)
  have "unat (slot_handles sl) \<noteq> 1" using more by (simp add: word_unat_eq_iff)
  note r = refs_same [OF all_refs_same_trees [OF h, of ?sl]]
  show "store_inv R P st'"
    unfolding st'_def by (rule store_inv_update [OF inv h]) (use r u c \<open>unat (slot_handles sl) \<noteq> 1\<close> in auto)
  show "unchanged st st'" unfolding st'_def by (rule unchanged_set_slot [OF h]) simp_all
qed

text \<open>
  Dropping never panics, frees what nothing refers to any more, and leaves the meaning of every
  other handle alone.
\<close>

lemma all_refs_set_none: "slot_at h st = Inr sl \<Longrightarrow> all_refs (set_slot h None st) \<subseteq># all_refs st"
  using all_refs_set_slot [of h st sl None] by (metis add_0_right mset_subset_eq_add_left slot_refs_def option.simps(4))

lemma drop_loop_ok:
  "store_inv (work_refs w + R) (work_pushes w) st \<Longrightarrow>
   \<exists>st'. drop_loop w st = Inr st' \<and> store_inv R [] st' \<and> kept R st st' \<and> all_refs st' \<subseteq># all_refs st"
proof (induction w st rule: drop_loop.induct)
  case (3 h w st)
  have inv: "store_inv (add_mset (Some h) (work_refs w + R)) (work_pushes w) st" using "3.prems" by simp
  obtain sl where h: "slot_at h st = Inr sl" using inv_live [OF inv, of h] by auto
  have nz: "slot_handles sl \<noteq> 0" using inv_count(1) [OF inv h] by auto
  show ?case
  proof (cases "slot_handles sl = 1")
    case True
    note r = release_last [OF inv h True]
    have "store_inv (work_refs (map Release (concat (map children (slot_trees sl))) @ PushFree (h - 1) # w) + R)
        (work_pushes (map Release (concat (map children (slot_trees sl))) @ PushFree (h - 1) # w)) (set_slot h None st)"
      using r(1) by (simp add: child_handles_def add.assoc)
    from "3.IH"(1) [OF h nz True this] show ?thesis
      using kept_trans [OF kept_mono [OF r(2)]] subset_mset.order_trans [OF _ all_refs_set_none [OF h]] nz h True by auto
  next
    case False
    note r = release_shared [OF inv h False]
    from "3.IH"(2) [OF h nz False r(1)] show ?thesis
      using kept_trans [OF kept_unchanged [OF r(2)]] r(2) nz h False by (auto simp: unchanged_def)
  qed
next
  case (4 i w st)
  have "store_inv (work_refs w + R) (work_pushes w) (st\<lparr>free := i # free st\<rparr>)"
    using "4.prems" by (auto simp: store_inv_def dead_ok_def counts_ok_def refs_def held_def)
  moreover have "kept R st (st\<lparr>free := i # free st\<rparr>)"
    by (rule kept_unchanged) (simp add: unchanged_def)
  ultimately show ?case using "4.IH" kept_trans by simp blast
qed simp_all

lemma drop_stream_ok:
  assumes "store_inv (add_mset s R) [] st"
  shows "\<exists>st'. drop_stream s st = Inr st' \<and> store_inv R [] st' \<and> kept R st st' \<and> all_refs st' \<subseteq># all_refs st"
  using drop_loop_ok [of "[Release s]" R st] assms by (simp add: drop_stream_def)

lemma drop_stream_fine:
  assumes "store_inv (add_mset s R) [] st"
  shows "fine (drop_stream s st) (\<lambda>st'. store_inv R [] st' \<and> kept R st st' \<and> all_refs st' \<subseteq># all_refs st)"
  using drop_stream_ok [OF assms] by auto

section \<open>Writing\<close>

lemma trees_mean_kept:
  assumes "kept R st st'" "set_mset (child_handles ts) \<subseteq> set_mset R" "trees_mean st ts vs"
  shows "trees_mean st' ts vs"
  using assms(3)
proof (rule list.rel_mono_strong)
  fix t v assume "t \<in> set ts" "tree_means st t v"
  moreover have "set_token_tree t \<subseteq> set_mset R"
    using assms(2) \<open>t \<in> set ts\<close> by (auto simp: child_handles_def set_children)
  ultimately show "tree_means st' t v"
    using assms(1) by (auto simp: kept_def elim!: token_tree.rel_mono_strong)
qed

lemma refs_0_child:
  assumes "refs R st h = 0" "slot_at h st = Inr sl"
  shows "refs (child_handles (slot_trees sl) + R) st h = 0"
proof -
  have "Some h \<notin># all_refs st" using assms(1) refs_pos [of R st h] by auto
  then have "Some h \<notin># child_handles (slot_trees sl)" using slot_children_refs [OF assms(2)] by (meson mset_subset_eqD)
  then show ?thesis using assms(1) by (simp add: not_in_iff)
qed

text \<open>A slot with one handle, held outside: its trees and joins may be replaced.\<close>

lemma own_slot:
  fixes hs :: "u8 list"
  assumes inv: "store_inv (child_handles us + add_mset (Some h) R) [] st" and h: "slot_at h st = Inr sl"
    and own: "refs (child_handles us + R) st h = 0"
  defines "st' \<equiv> set_slot h (Some (sl\<lparr>slot_trees := slot_trees sl @ us, slot_hidden := hs\<rparr>)) st"
  assumes mean: "trees_mean st (slot_trees sl) ts" "trees_mean st us vs"
  shows "store_inv (add_mset (Some h) R) [] st' \<and> kept R st st' \<and> refs R st' h = 0 \<and> means st' (Some h) (Stream (ts @ vs) hs)"
proof -
  let ?sl = "sl\<lparr>slot_trees := slot_trees sl @ us, slot_hidden := hs\<rparr>"
  have all: "all_refs st' = all_refs st + child_handles us"
    using all_refs_set_slot [OF h, of "Some ?sl"] by (simp add: st'_def slot_refs_def add.assoc add.left_commute)
  have r: "refs R st' j = refs (child_handles us + R) st j" for j using all by (simp add: refs_def)
  have "store_inv (add_mset (Some h) R) [] st'"
    unfolding st'_def by (rule store_inv_update [OF inv h]) (use r inv_count [OF inv h] in \<open>simp_all add: st'_def\<close>)
  moreover have k: "kept (child_handles us + (child_handles (slot_trees sl) + R)) st st'"
  proof (rule kept_other)
    show "refs (child_handles us + (child_handles (slot_trees sl) + R)) st h = 0"
      using refs_0_child [OF own h] by (simp add: add.left_commute)
  qed (simp add: st'_def slot_at_set_slot(2) [OF h])
  moreover have "kept R st st'" by (rule kept_mono [OF k]) auto
  moreover have "trees_mean st' (slot_trees sl) ts" "trees_mean st' us vs"
    by (rule trees_mean_kept [OF k _ mean(1)], simp, blast) (rule trees_mean_kept [OF k _ mean(2)], simp)
  then have "means st' (Some h) (Stream (ts @ vs) (slot_hidden ?sl))"
    by (intro means_slot [of h st' ?sl]) (auto simp: st'_def slot_at_set_slot [OF h] intro: list_all2_appendI)
  ultimately show ?thesis using r own by simp
qed

lemma means_Some_slot:
  assumes "means st (Some h) v"
  obtains sl where "slot_at h st = Inr sl" "trees_mean st (slot_trees sl) (trees v)" "hidden v = slot_hidden sl"
  using assms by (auto elim: means_someE)

definition writable :: "hstream multiset \<Rightarrow> store \<Rightarrow> stream token_tree list \<Rightarrow> u32 \<times> store \<Rightarrow> bool" where
  "writable R st ts = (\<lambda>(h, st'). store_inv (add_mset (Some h) R) [] st' \<and> kept R st st'
    \<and> refs R st' h = 0 \<and> means st' (Some h) (Stream ts []))"

lemma clear_hidden_fine:
  assumes k: "kept R st0 st" and inv: "store_inv (add_mset (Some h) R) [] st" and h: "slot_at h st = Inr sl"
    and own: "refs R st h = 0" and mean: "trees_mean st (slot_trees sl) ts"
  shows "fine (clear_hidden h st) (writable R st0 ts)"
  using own_slot [of "[]" h R st sl ts "[]" "[]"] kept_trans [OF k] assms by (simp add: clear_hidden_def writable_def)

text \<open>
  A shared slot: the trees are cloned, the copy gets a slot of its own, and the old handle is
  dropped.
\<close>

lemma trees_mut_shared:
  assumes inv: "store_inv (add_mset (Some h) R) [] st" and h: "slot_at h st = Inr sl"
    and mean: "trees_mean st (slot_trees sl) ts"
  shows "fine (and_then (clone_trees (slot_trees sl) st) (\<lambda>(copy, st).
         and_then (allocate copy st) (\<lambda>(h', st).
         and_then (drop_stream (Some h) st) (clear_hidden h')))) (writable R st ts)"
proof (rule fine_and_then2 [OF clone_trees_fine [OF inv]])
  let ?us = "slot_trees sl"
  show "set_mset (child_handles ?us) \<subseteq> set_mset (add_mset (Some h) R + all_refs st)"
    using slot_children_refs [OF h] by (auto dest: mset_subset_eqD)
  fix copy st1 assume "copy = ?us \<and> store_inv (child_handles ?us + add_mset (Some h) R) [] st1 \<and> unchanged st st1"
  then have c: "copy = ?us" "store_inv (child_handles ?us + add_mset (Some h) R) [] st1" "unchanged st st1" by simp_all
  show "fine (and_then (allocate copy st1) (\<lambda>(h', st). and_then (drop_stream (Some h) st) (clear_hidden h'))) (writable R st ts)"
    unfolding c(1) allocate_def
  proof (rule fine_and_then2 [OF allocate_fine [OF c(2)]])
    fix h' st2
    assume "store_inv (add_mset (Some h') (add_mset (Some h) R)) [] st2
      \<and> slot_at h' st2 = Inr \<lparr>slot_trees = ?us, slot_hidden = [], slot_handles = 1\<rparr>
      \<and> (\<exists>p. slot_at h' st1 = Inl p) \<and> (\<forall>j. j \<noteq> h' \<longrightarrow> slot_at j st2 = slot_at j st1)"
    then have a: "store_inv (add_mset (Some h) (add_mset (Some h') R)) [] st2"
      "slot_at h' st2 = Inr \<lparr>slot_trees = ?us, slot_hidden = [], slot_handles = 1\<rparr>"
      and grow: "\<And>k v. means st1 k v \<Longrightarrow> means st2 k v" and old: "\<exists>p. slot_at h' st1 = Inl p" "\<forall>j. j \<noteq> h' \<longrightarrow> slot_at j st2 = slot_at j st1"
      using grow_means by (auto simp: add_mset_commute)
    have k2: "kept R st st2"
      by (rule kept_trans [OF kept_unchanged [OF c(3)]]) (use grow old in \<open>auto simp: kept_def, metis sum.distinct(1)\<close>)
    have m2: "trees_mean st2 ?us ts"
      using mean by (rule list.rel_mono_strong) (auto elim!: token_tree.rel_mono_strong intro: grow unchanged_means [OF c(3)])
    have r2: "refs R st2 h' = 0" using inv_count(2) [OF a(1,2)] by (simp split: if_splits)
    have v2: "means st2 (Some h') (Stream ts [])" using means_slot [OF a(2)] m2 by simp
    show "fine (and_then (drop_stream (Some h) st2) (clear_hidden h')) (writable R st ts)"
    proof (rule fine_and_then [OF drop_stream_fine [OF a(1)]])
      fix st3 assume b: "store_inv (add_mset (Some h') R) [] st3 \<and> kept (add_mset (Some h') R) st2 st3 \<and> all_refs st3 \<subseteq># all_refs st2"
      then have "means st3 (Some h') (Stream ts [])" using v2 by (simp add: kept_def)
      then obtain sl3 where s3: "slot_at h' st3 = Inr sl3" "trees_mean st3 (slot_trees sl3) ts"
        by (rule means_Some_slot) simp
      have k3: "kept R st st3" by (rule kept_trans [OF k2 kept_mono [OF conjunct1 [OF conjunct2 [OF b]]]]) auto
      have "refs R st3 h' = 0" using b r2 by (simp add: refs_def mset_subset_eq_count) (metis le_zero_eq mset_subset_eq_count not_in_iff)
      from clear_hidden_fine [OF k3 conjunct1 [OF b] s3(1) this s3(2)] show "fine (clear_hidden h' st3) (writable R st ts)" .
    qed
  qed
qed

lemma trees_mut_fine:
  assumes inv: "store_inv (add_mset s R) [] st" and mean: "means st s v"
  shows "fine (trees_mut s st) (writable R st (trees v))"
proof (cases s)
  case None
  have inv0: "store_inv (child_handles [] + R) [] st" using inv None by simp
  show ?thesis
    unfolding trees_mut_def None option.case allocate_def
  proof (rule fine_and_then2 [OF allocate_fine [OF inv0]])
    fix h st2
    assume a: "store_inv (add_mset (Some h) R) [] st2 \<and> slot_at h st2 = Inr \<lparr>slot_trees = [], slot_hidden = [], slot_handles = 1\<rparr>
      \<and> (\<exists>p. slot_at h st = Inl p) \<and> (\<forall>j. j \<noteq> h \<longrightarrow> slot_at j st2 = slot_at j st)"
    then have r: "refs R st2 h = 0" using inv_count(2) [of "add_mset (Some h) R" "[]" st2 h] by auto
    have k: "kept R st st2" using a grow_means unfolding kept_def by (metis sum.distinct(1))
    have "trees v = []" using mean None by (auto simp: empty_stream_def)
    with clear_hidden_fine [OF k conjunct1 [OF a] _ r, of _ "[]"] a
    show "fine (clear_hidden h st2) (writable R st (trees v))" by simp
  qed
next
  case (Some h)
  obtain sl where h: "slot_at h st = Inr sl" "trees_mean st (slot_trees sl) (trees v)"
    using mean unfolding Some by (rule means_Some_slot)
  have inv': "store_inv (add_mset (Some h) R) [] st" using inv Some by simp
  show ?thesis
  proof (cases "slot_handles sl = 1")
    case True
    then have "refs R st h = 0" using inv_count(2) [OF inv' h(1)] by simp
    from clear_hidden_fine [OF kept_refl inv' h(1) this h(2)] show ?thesis
      using True h(1) Some by (simp add: trees_mut_def)
  next
    case False
    then show ?thesis using trees_mut_shared [OF inv' h] h(1) Some by (simp add: trees_mut_def)
  qed
qed

lemma push_trees_fine:
  assumes inv: "store_inv (child_handles us + add_mset (Some h) R) [] st" and own: "refs (child_handles us + R) st h = 0"
    and mean: "means st (Some h) (Stream ts [])" "trees_mean st us vs"
  shows "fine (push_trees h us st) (\<lambda>st'. store_inv (add_mset (Some h) R) [] st' \<and> kept R st st' \<and> means st' (Some h) (Stream (ts @ vs) []))"
proof -
  obtain sl where h: "slot_at h st = Inr sl" "trees_mean st (slot_trees sl) ts" "slot_hidden sl = []"
    using mean(1) by (rule means_Some_slot) simp
  have "sl\<lparr>slot_trees := slot_trees sl @ us, slot_hidden := []\<rparr> = sl\<lparr>slot_trees := slot_trees sl @ us\<rparr>"
    using h(3) by simp
  then show ?thesis
    using own_slot [OF inv h(1) own h(2) mean(2), of "[]"] h(1) by (simp add: push_trees_def)
qed

section \<open>Consuming\<close>

lemma take_last:
  assumes inv: "store_inv (add_mset (Some h) R) [] st" and h: "slot_at h st = Inr sl" and one: "slot_handles sl = 1"
  defines "st' \<equiv> set_slot h (Some (sl\<lparr>slot_trees := []\<rparr>)) st"
  shows "store_inv (add_mset (Some h) (child_handles (slot_trees sl) + R)) [] st'" "kept (child_handles (slot_trees sl) + R) st st'"
proof -
  have r0: "refs R st h = 0" using inv_count(2) [OF inv h] one by simp
  have all: "all_refs st' + child_handles (slot_trees sl) = all_refs st"
    using all_refs_set_slot [OF h, of "Some (sl\<lparr>slot_trees := []\<rparr>)"] by (simp add: st'_def slot_refs_def)
  have r: "refs (add_mset (Some h) (child_handles (slot_trees sl) + R)) st' j = refs (add_mset (Some h) R) st j" for j
    using arg_cong [OF all, of "\<lambda>m. count m (Some j)"] by (simp add: refs_def)
  have c: "slot_handles (sl\<lparr>slot_trees := []\<rparr>) = slot_handles sl" by simp
  show "store_inv (add_mset (Some h) (child_handles (slot_trees sl) + R)) [] st'"
    unfolding st'_def
    by (rule store_inv_update [OF inv h]) (use r inv_count [OF inv h] in \<open>simp_all only: st'_def c\<close>)
  show "kept (child_handles (slot_trees sl) + R) st st'"
    by (rule kept_other [OF refs_0_child [OF r0 h]]) (simp add: st'_def slot_at_set_slot(2) [OF h])
qed

text \<open>The trees come out with their handles; everything else keeps its meaning.\<close>

definition consumed :: "hstream multiset \<Rightarrow> store \<Rightarrow> stream token_tree list \<Rightarrow> hstream token_tree list \<times> store \<Rightarrow> bool" where
  "consumed R st vs = (\<lambda>(ts, st'). store_inv (child_handles ts + R) [] st' \<and> kept R st st' \<and> trees_mean st' ts vs)"

lemma drop_after_taking:
  assumes inv: "store_inv (add_mset (Some h) (child_handles ts + R)) [] st'" and k: "kept R st st'" and mean: "trees_mean st' ts vs"
  shows "fine (and_then (drop_stream (Some h) st') (\<lambda>st. Inr (ts, st))) (consumed R st vs)"
proof (rule fine_and_then [OF drop_stream_fine [OF inv]])
  fix st2 assume a: "store_inv (child_handles ts + R) [] st2 \<and> kept (child_handles ts + R) st' st2 \<and> all_refs st2 \<subseteq># all_refs st'"
  then have "kept R st st2" using kept_trans [OF k kept_mono [of "child_handles ts + R" st' st2 R]] by auto
  moreover have "trees_mean st2 ts vs" by (rule trees_mean_kept [OF conjunct1 [OF conjunct2 [OF a]] _ mean]) auto
  ultimately show "fine (Inr (ts, st2)) (consumed R st vs)" using a by (simp add: consumed_def)
qed

lemma into_trees_fine:
  assumes inv: "store_inv (add_mset s R) [] st" and mean: "means st s v"
  shows "fine (into_trees s st) (consumed R st (trees v))"
proof (cases s)
  case None
  then show ?thesis using assms by (auto simp: into_trees_def consumed_def empty_stream_def)
next
  case (Some h)
  obtain sl where h: "slot_at h st = Inr sl" "trees_mean st (slot_trees sl) (trees v)"
    using mean unfolding Some by (rule means_Some_slot)
  have inv': "store_inv (add_mset (Some h) R) [] st" using inv Some by simp
  show ?thesis
  proof (cases "slot_handles sl = 1")
    case True
    note t = take_last [OF inv' h(1) True]
    have m: "trees_mean (set_slot h (Some (sl\<lparr>slot_trees := []\<rparr>)) st) (slot_trees sl) (trees v)"
      by (rule trees_mean_kept [OF t(2) _ h(2)]) auto
    from drop_after_taking [OF t(1) kept_mono [OF t(2)] m] show ?thesis
      using True h(1) by (simp add: into_trees_def Some)
  next
    case False
    have sub: "set_mset (child_handles (slot_trees sl)) \<subseteq> set_mset (add_mset (Some h) R + all_refs st)"
      using slot_children_refs [OF h(1)] by (auto dest: mset_subset_eqD)
    have "fine (and_then (clone_trees (slot_trees sl) st) (\<lambda>(ts, st). and_then (drop_stream (Some h) st) (\<lambda>st. Inr (ts, st))))
        (consumed R st (trees v))"
    proof (rule fine_and_then2 [OF clone_trees_fine [OF inv' sub]])
      fix ts st1 assume "ts = slot_trees sl \<and> store_inv (child_handles (slot_trees sl) + add_mset (Some h) R) [] st1 \<and> unchanged st st1"
      then have a: "ts = slot_trees sl" "store_inv (add_mset (Some h) (child_handles ts + R)) [] st1" "unchanged st st1" by simp_all
      have "trees_mean st1 ts (trees v)"
        using h(2) unfolding a(1) by (rule list.rel_mono_strong) (auto elim!: token_tree.rel_mono_strong intro: unchanged_means [OF a(3)])
      from drop_after_taking [OF a(2) kept_unchanged [OF a(3)] this]
      show "fine (and_then (drop_stream (Some h) st1) (\<lambda>st. Inr (ts, st))) (consumed R st (trees v))" .
    qed
    then show ?thesis using False h(1) by (simp add: into_trees_def Some trees_of_def)
  qed
qed

section \<open>Collecting streams\<close>

lemma is_empty_means:
  assumes "means st s v"
  shows "is_empty_handle s st = Inr (trees v = [])"
proof (cases s)
  case None
  then show ?thesis using assms by (auto simp: is_empty_handle_def trees_of_def empty_stream_def)
next
  case (Some h)
  from assms [unfolded Some] obtain sl where "slot_at h st = Inr sl" "trees_mean st (slot_trees sl) (trees v)"
    by (rule means_Some_slot)
  then show ?thesis by (auto simp: Some is_empty_handle_def trees_of_def)
qed

text \<open>What \<open>extend\<close> makes of the streams' values: hidden joins survive only a lone stream.\<close>

fun extend_value :: "stream \<Rightarrow> stream list \<Rightarrow> stream" where
  "extend_value v [] = v"
| "extend_value v (w # ws) =
     (if trees w = [] then extend_value v ws
      else if trees v = [] then extend_value w ws
      else extend_value (Stream (trees v @ trees w) []) ws)"

lemma trees_extend_value: "trees (extend_value v ws) = trees v @ concat (map trees ws)"
  by (induction v ws rule: extend_value.induct) auto

definition collected :: "hstream multiset \<Rightarrow> store \<Rightarrow> stream \<Rightarrow> hstream \<times> store \<Rightarrow> bool" where
  "collected R st v = (\<lambda>(s, st'). store_inv (add_mset s R) [] st' \<and> kept R st st' \<and> means st' s v)"

lemma append_fine:
  assumes inv: "store_inv (add_mset self (child_handles ts + R)) [] st" and mean: "means st self v" "trees_mean st ts vs"
    and go: "\<And>h st'. store_inv (add_mset (Some h) R) [] st' \<Longrightarrow> kept R st st' \<Longrightarrow>
      means st' (Some h) (Stream (trees v @ vs) []) \<Longrightarrow> fine (f h st') Q"
  shows "fine (and_then (trees_mut self st) (\<lambda>(h, st). and_then (push_trees h ts st) (f h))) Q"
proof (rule fine_and_then2 [OF trees_mut_fine [OF inv mean(1), unfolded writable_def]])
  fix h st1 assume a: "store_inv (add_mset (Some h) (child_handles ts + R)) [] st1 \<and> kept (child_handles ts + R) st st1
    \<and> refs (child_handles ts + R) st1 h = 0 \<and> means st1 (Some h) (Stream (trees v) [])"
  then have i: "store_inv (child_handles ts + add_mset (Some h) R) [] st1" and k: "kept (child_handles ts + R) st st1" by simp_all
  have m: "trees_mean st1 ts vs" by (rule trees_mean_kept [OF k _ mean(2)]) auto
  have r: "refs (child_handles ts + R) st1 h = 0" "means st1 (Some h) (Stream (trees v) [])" using a by blast+
  show "fine (and_then (push_trees h ts st1) (f h)) Q"
    by (rule fine_and_then [OF push_trees_fine [OF i r m]])
      (use go kept_trans [OF kept_mono [OF k]] in auto)
qed

lemma list_all2_kept:
  "kept R st st' \<Longrightarrow> set ss \<subseteq> set_mset R \<Longrightarrow> list_all2 (means st) ss vs \<Longrightarrow> list_all2 (means st') ss vs"
  by (auto simp: kept_def elim!: list.rel_mono_strong)

lemma extend_streams_fine:
  assumes "store_inv (mset streams + add_mset self R) [] st" "means st self v" "list_all2 (means st) streams vs"
  shows "fine (extend_streams self streams st) (collected R st (extend_value v vs))"
  using assms
proof (induction streams arbitrary: self st v vs)
  case Nil
  then show ?case by (simp add: collected_def)
next
  case (Cons s ss)
  obtain w ws where vs: "vs = w # ws" and w: "means st s w" and ws: "list_all2 (means st) ss ws"
    using Cons.prems(3) by (auto simp: list_all2_Cons1)
  have "mset (s # ss) + add_mset self R = add_mset s (mset ss + add_mset self R)" by (simp add: multiset_eq_iff)
  then have inv: "store_inv (add_mset s (mset ss + add_mset self R)) [] st" using Cons.prems(1) by argo
  note empty = is_empty_means [OF w] is_empty_means [OF Cons.prems(2)]
  consider "trees w = []" | "trees w \<noteq> []" "trees v = []" | "trees w \<noteq> []" "trees v \<noteq> []" by blast
  then show ?case
  proof cases
    case 1
    obtain st1 where d: "drop_stream s st = Inr st1" "store_inv (mset ss + add_mset self R) [] st1" "kept (mset ss + add_mset self R) st st1"
      using drop_stream_ok [OF inv] by blast
    have "means st1 self v" "list_all2 (means st1) ss ws"
      using d(3) Cons.prems(2) list_all2_kept [OF d(3) _ ws] by (auto simp: kept_def)
    from Cons.IH [OF d(2) this] show ?thesis
      using 1 d vs kept_mono [OF d(3), of R] by (auto simp: empty collected_def elim!: fine_mono intro: kept_trans)
  next
    case 2
    have "add_mset self (mset ss + add_mset s R) = add_mset s (mset ss + add_mset self R)" by (simp add: multiset_eq_iff)
    then have "store_inv (add_mset self (mset ss + add_mset s R)) [] st" using inv by argo
    then obtain st1 where d: "drop_stream self st = Inr st1" "store_inv (mset ss + add_mset s R) [] st1" "kept (mset ss + add_mset s R) st st1"
      using drop_stream_ok by blast
    have "means st1 s w" "list_all2 (means st1) ss ws"
      using d(3) w list_all2_kept [OF d(3) _ ws] by (auto simp: kept_def)
    from Cons.IH [OF d(2) this] show ?thesis
      using 2 d vs kept_mono [OF d(3), of R] by (auto simp: empty collected_def elim!: fine_mono intro: kept_trans)
  next
    case 3
    let ?v = "Stream (trees v @ trees w) []"
    have "fine (and_then (into_trees s st) (\<lambda>(trees, st). and_then (trees_mut self st) (\<lambda>(h, st).
        and_then (push_trees h trees st) (extend_streams (Some h) ss)))) (collected R st (extend_value ?v ws))"
    proof (rule fine_and_then2 [OF into_trees_fine [OF inv w, unfolded consumed_def]])
      fix ts st1 assume a: "store_inv (child_handles ts + (mset ss + add_mset self R)) [] st1
        \<and> kept (mset ss + add_mset self R) st st1 \<and> trees_mean st1 ts (trees w)"
      then have i: "store_inv (add_mset self (child_handles ts + (mset ss + R))) [] st1"
        and k: "kept (mset ss + add_mset self R) st st1" and m: "trees_mean st1 ts (trees w)" by simp_all
      have self: "means st1 self v" "list_all2 (means st1) ss ws"
        using k Cons.prems(2) list_all2_kept [OF k _ ws] by (auto simp: kept_def)
      show "fine (and_then (trees_mut self st1) (\<lambda>(h, st). and_then (push_trees h ts st) (extend_streams (Some h) ss)))
          (collected R st (extend_value ?v ws))"
      proof (rule append_fine [OF i self(1) m])
        fix h st2 assume b: "store_inv (add_mset (Some h) (mset ss + R)) [] st2" "kept (mset ss + R) st1 st2" "means st2 (Some h) ?v"
        have "store_inv (mset ss + add_mset (Some h) R) [] st2" "list_all2 (means st2) ss ws"
          using b(1) list_all2_kept [OF b(2) _ self(2)] by auto
        from Cons.IH [OF this(1) b(3) this(2)] show "fine (extend_streams (Some h) ss st2) (collected R st (extend_value ?v ws))"
          using kept_trans [OF kept_mono [OF k, of R]] kept_trans [OF kept_mono [OF b(2), of R]]
          by (auto simp: collected_def elim!: fine_mono)
      qed
    qed
    then show ?thesis using 3 vs by (simp add: empty)
  qed
qed

lemma extend_trees_fine:
  assumes inv: "store_inv (add_mset self (child_handles ts + R)) [] st" and mean: "means st self v" "trees_mean st ts vs"
  shows "fine (extend_trees self ts st) (collected R st (if vs = [] then v else Stream (trees v @ vs) []))"
proof (cases "ts = []")
  case True
  then show ?thesis using assms by (simp add: extend_trees_def collected_def)
next
  case False
  then have "vs \<noteq> []" using mean(2) by auto
  have "fine (and_then (trees_mut self st) (\<lambda>(h, st). and_then (push_trees h ts st) (\<lambda>st. Inr (Some h, st))))
      (collected R st (Stream (trees v @ vs) []))"
    by (rule append_fine [OF inv mean]) (simp add: collected_def)
  then show ?thesis using False \<open>vs \<noteq> []\<close> by (simp add: extend_trees_def)
qed

lemma handle_from_trees_fine:
  assumes inv: "store_inv (child_handles ts + R) [] st" and mean: "trees_mean st ts vs"
  shows "fine (handle_from_trees ts st) (collected R st (Stream vs []))"
proof (cases "ts = []")
  case True
  then show ?thesis using assms means_none [of st] by (simp add: handle_from_trees_def collected_def empty_stream_def)
next
  case False
  have "fine (and_then (allocate_spaced ts [] st) (\<lambda>(h, st). Inr (Some h, st))) (collected R st (Stream vs []))"
  proof (rule fine_and_then2 [OF allocate_fine [OF inv]])
    fix h st'
    assume a: "store_inv (add_mset (Some h) R) [] st' \<and> slot_at h st' = Inr \<lparr>slot_trees = ts, slot_hidden = [], slot_handles = 1\<rparr>
      \<and> (\<exists>p. slot_at h st = Inl p) \<and> (\<forall>j. j \<noteq> h \<longrightarrow> slot_at j st' = slot_at j st)"
    then obtain p where p: "slot_at h st = Inl p" and o: "\<forall>j. j \<noteq> h \<longrightarrow> slot_at j st' = slot_at j st" by blast
    have g: "\<And>k v. means st k v \<Longrightarrow> means st' k v" by (rule grow_means [OF p o])
    have "trees_mean st' ts vs"
      using mean by (rule list.rel_mono_strong) (auto elim!: token_tree.rel_mono_strong intro: g)
    then have "means st' (Some h) (Stream vs [])" using means_slot [of h st' _ vs] a by fastforce
    moreover have "kept R st st'" using g p o unfolding kept_def by (metis sum.distinct(1))
    ultimately show "fine (Inr (Some h, st')) (collected R st (Stream vs []))" using a by (simp add: collected_def)
  qed
  then show ?thesis using False by (simp add: handle_from_trees_def allocate_def)
qed

section \<open>Nothing leaks\<close>

text \<open>
  Reference counting frees everything when there are no cycles: in a store where every live slot
  means a (finite) stream, no slot can outlive the last handle.
\<close>

definition grounded :: "store \<Rightarrow> bool" where
  "grounded st \<longleftrightarrow> (\<forall>h sl. slot_at h st = Inr sl \<longrightarrow> (\<exists>v. means st (Some h) v))"

lemma drop_loop_shrinks:
  "drop_loop w st = Inr st' \<Longrightarrow> slot_at j st' = Inr sl' \<Longrightarrow>
   \<exists>sl. slot_at j st = Inr sl \<and> slot_trees sl = slot_trees sl' \<and> slot_hidden sl = slot_hidden sl'"
proof (induction w st arbitrary: sl' rule: drop_loop.induct)
  case (3 h w st)
  obtain sl where h: "slot_at h st = Inr sl" and nz: "slot_handles sl \<noteq> 0"
    using "3.prems"(1) by (auto split: sum.splits if_splits)
  show ?case
  proof (cases "slot_handles sl = 1")
    case True
    have d: "drop_loop (map Release (concat (map children (slot_trees sl))) @ PushFree (h - 1) # w) (set_slot h None st) = Inr st'"
      using "3.prems"(1) h nz True by simp
    from "3.IH"(1) [OF h nz True d "3.prems"(2)] show ?thesis
      using slot_at_set_slot(2) [OF h, of j None] slot_at_set_none [OF h] by (cases "j = h") auto
  next
    case False
    have d: "drop_loop w (set_slot h (Some (sl\<lparr>slot_handles := slot_handles sl - 1\<rparr>)) st) = Inr st'"
      using "3.prems"(1) h nz False by simp
    from "3.IH"(2) [OF h nz False d "3.prems"(2)] show ?thesis
      using slot_at_set_slot [OF h] h by (cases "j = h") auto
  qed
qed simp_all

lemma grounded_shrink:
  assumes g: "grounded st" and inv: "store_inv R [] st'"
    and old: "\<And>j sl'. slot_at j st' = Inr sl' \<Longrightarrow> \<exists>sl. slot_at j st = Inr sl \<and> slot_trees sl = slot_trees sl' \<and> slot_hidden sl = slot_hidden sl'"
  shows "grounded st'"
  unfolding grounded_def
proof (intro allI impI)
  fix h sl' assume h: "slot_at h st' = Inr sl'"
  then obtain v where v: "means st (Some h) v" using g old unfolding grounded_def by blast
  define X where "X = {Some j | j. \<exists>p. slot_at j st' = Inl p}"
  have "means st' (Some h) v"
  proof (rule means_frame [OF v, of X])
    show "Some h \<notin> X" using h by (simp add: X_def)
    fix j sl assume j: "slot_at j st = Inr sl" "Some j \<notin> X"
    then obtain sj where sj: "slot_at j st' = Inr sj" by (cases "slot_at j st'") (auto simp: X_def)
    have same: "slot_trees sj = slot_trees sl" "slot_hidden sj = slot_hidden sl" using old [OF sj] j(1) by auto
    have "c \<notin> X" if c: "c \<in># child_handles (slot_trees sl)" for c
    proof (cases c)
      case (Some i)
      have "Some i \<in># R + all_refs st'" using c slot_children_refs [OF sj] same Some by (auto dest: mset_subset_eqD)
      then obtain si where "slot_at i st' = Inr si" by (rule inv_live [OF inv])
      then show ?thesis by (simp add: X_def Some)
    qed (simp add: X_def)
    then show "(\<exists>sl'. slot_at j st' = Inr sl' \<and> slot_trees sl' = slot_trees sl \<and> slot_hidden sl' = slot_hidden sl)
      \<and> (\<forall>c \<in># child_handles (slot_trees sl). c \<notin> X)" using sj same by blast
  qed
  then show "\<exists>v. means st' (Some h) v" ..
qed

lemma drop_stream_grounded:
  assumes "store_inv (add_mset s R) [] st" "grounded st"
  shows "\<exists>st'. drop_stream s st = Inr st' \<and> store_inv R [] st' \<and> kept R st st' \<and> grounded st'"
proof -
  obtain st' where d: "drop_stream s st = Inr st'" "store_inv R [] st'" "kept R st st'"
    using drop_stream_ok [OF assms(1)] by blast
  have "grounded st'"
    by (rule grounded_shrink [OF assms(2) d(2)]) (rule drop_loop_shrinks [OF d(1) [unfolded drop_stream_def]])
  with d show ?thesis by blast
qed

lemma in_sum_list_mset: "x \<in># sum_list ms \<longleftrightarrow> (\<exists>m \<in> set ms. x \<in># m)"
  by (induction ms) auto

text \<open>The handles in a slot, as a relation: well founded below every handle that means a stream.\<close>

definition child_rel :: "store \<Rightarrow> (u32 \<times> u32) set" where
  "child_rel st = {(c, h). \<exists>sl. slot_at h st = Inr sl \<and> Some c \<in># child_handles (slot_trees sl)}"

lemma means_acc: "means st k v \<Longrightarrow> k = Some h \<Longrightarrow> h \<in> Wellfounded.acc (child_rel st)"
proof (induction arbitrary: h rule: means.induct)
  case (means_slot h' sl ts)
  show ?case
  proof (rule accI)
    fix c assume "(c, h) \<in> child_rel st"
    then obtain t where t: "t \<in> set (slot_trees sl)" "Some c \<in> set_token_tree t"
      using means_slot(1,3) by (auto simp: child_rel_def child_handles_def set_children)
    obtain u where "rel_token_tree (\<lambda>x1 x2. means st x1 x2 \<and> (\<forall>x. x1 = Some x \<longrightarrow> x \<in> Wellfounded.acc (child_rel st))) t u"
      using means_slot(2) t(1) by (auto simp: list_all2_conv_all_nth in_set_conv_nth)
    then show "c \<in> Wellfounded.acc (child_rel st)"
      using t(2) by (fastforce simp: token_tree.in_rel token_tree.set_map)
  qed
qed simp

lemma grounded_wf:
  assumes g: "grounded st"
  shows "wf (child_rel st)"
proof (rule acc_wfI)
  show "\<forall>h. h \<in> Wellfounded.acc (child_rel st)"
  proof
    fix h show "h \<in> Wellfounded.acc (child_rel st)"
    proof (cases "slot_at h st")
      case (Inl p)
      then show ?thesis by - (rule accI, simp add: child_rel_def)
    next
      case (Inr sl)
      then show ?thesis using g means_acc unfolding grounded_def by blast
    qed
  qed
qed

lemma unheld_store_dead:
  assumes inv: "store_inv {#} [] st" and g: "grounded st"
  shows "\<exists>p. slot_at h st = Inl p"
proof (rule ccontr)
  assume "\<nexists>p. slot_at h st = Inl p"
  then have live: "h \<in> {j. \<exists>sl. slot_at j st = Inr sl}" (is "h \<in> ?L") by (cases "slot_at h st") auto
  have "finite (child_rel st)" by (rule finite_subset [of _ UNIV]) simp_all
  then have "wf ((child_rel st)\<inverse>)" using finite_acyclic_wf_converse [OF _ wf_acyclic [OF grounded_wf [OF g]]] by simp
  from wfE_min [OF this live]
  obtain j where j: "j \<in> ?L" and top: "\<And>k. (k, j) \<in> (child_rel st)\<inverse> \<Longrightarrow> k \<notin> ?L" by blast
  then obtain sl where sl: "slot_at j st = Inr sl" by blast
  have "0 < refs {#} st j" using inv_count [OF inv sl] by simp
  then have "Some j \<in># all_refs st" using refs_pos by simp
  then obtain sl' where s: "sl' \<in> set (slots st)" "Some j \<in># slot_refs sl'"
    by (auto simp: all_refs_def in_sum_list_mset)
  obtain i sk where "i < length (slots st)" "slots st ! i = Some sk" "Some j \<in># child_handles (slot_trees sk)"
    using s by (auto simp: in_set_conv_nth slot_refs_def split: option.splits)
  moreover have "Suc i < 2 ^ 32" using inv \<open>i < length (slots st)\<close> by (simp add: store_inv_def dead_ok_def)
  then have "unat (of_nat (Suc i) :: u32) = Suc i" by (simp only: unat_of_nat) (simp add: take_bit_nat_eq_self)
  ultimately have "slot_at (of_nat (Suc i)) st = Inr sk"
    by (auto simp: slot_at_Inr simp del: of_nat_Suc)
  then show False using top [of "of_nat (Suc i)"] \<open>Some j \<in># child_handles (slot_trees sk)\<close>
    by (auto simp: child_rel_def simp del: of_nat_Suc)
qed

section \<open>The invariant holds of real stores\<close>

text \<open>A stream held twice, and once more by a group in another.\<close>

definition plus_tree :: "'s token_tree" where
  "plus_tree = TPunct \<lparr>punct_ch = 43, punct_joint = False, punct_span = 0\<rparr>"

definition group_of :: "'s \<Rightarrow> 's token_tree" where
  "group_of s = TGroup (Group Parenthesis s (delim_span_from_single 0) 0)"

definition shared_store :: store where
  "shared_store = \<lparr>slots = [Some \<lparr>slot_trees = [plus_tree], slot_hidden = [], slot_handles = 3\<rparr>,
     Some \<lparr>slot_trees = [group_of (Some 1)], slot_hidden = [], slot_handles = 1\<rparr>], free = []\<rparr>"

lemma shared_slot_at:
  "slot_at h shared_store =
     (if h = 1 then Inr \<lparr>slot_trees = [plus_tree], slot_hidden = [], slot_handles = 3\<rparr>
      else if h = 2 then Inr \<lparr>slot_trees = [group_of (Some 1)], slot_hidden = [], slot_handles = 1\<rparr>
      else Inl (Panic ''index out of bounds''))"
proof -
  have "h = 1 \<or> h = 2" if "h \<noteq> 0" "unat h - 1 < 2"
  proof -
    have "unat h = unat (1 :: u32) \<or> unat h = unat (2 :: u32)" using that unat_gt_0 [of h] by simp linarith
    then show ?thesis by (simp only: word_unat_eq_iff)
  qed
  then show ?thesis by (auto simp: slot_at_def shared_store_def)
qed

lemma shared_inv: "store_inv {#Some 1, Some 1, Some 2#} [] shared_store"
proof -
  have "all_refs shared_store = {#Some 1#}"
    by (simp add: all_refs_def shared_store_def slot_refs_def plus_tree_def group_of_def)
  then show ?thesis
    by (auto simp: store_inv_def counts_ok_def refs_def held_def shared_slot_at dead_ok_def less_Suc_eq split: if_splits)
      (auto simp: shared_store_def less_Suc_eq)
qed

lemma shared_means:
  "means shared_store (Some 1) (Stream [plus_tree] [])"
  "means shared_store (Some 2) (Stream [group_of (Stream [plus_tree] [])] [])"
proof -
  show 1: "means shared_store (Some 1) (Stream [plus_tree] [])"
    using means_slot [of 1 shared_store _ "[plus_tree]"] by (simp add: shared_slot_at plus_tree_def)
  show "means shared_store (Some 2) (Stream [group_of (Stream [plus_tree] [])] [])"
    using means_slot [of 2 shared_store _ "[group_of (Stream [plus_tree] [])]"] 1 by (simp add: shared_slot_at group_of_def)
qed

lemma shared_grounded: "grounded shared_store"
  using shared_means by (auto simp: grounded_def shared_slot_at split: if_splits)

section \<open>The properties\<close>

text \<open>
  C8. \<open>extend_streams\<close> concatenates: when it returns, the new handle means the streams' trees in
  order, every reference count is exact again, and every other handle means what it did, also one
  that shared a slot with a stream taken in. The only panics are exhausted counters.
\<close>

theorem extend_streams_concatenates:
  assumes "store_inv (mset streams + add_mset self R) [] st" "means st self v" "list_all2 (means st) streams vs"
  shows "fine (extend_streams self streams st) (\<lambda>(s, st'). store_inv (add_mset s R) [] st'
    \<and> (\<exists>w. means st' s w \<and> trees w = trees v @ concat (map trees vs)) \<and> (\<forall>k \<in># R. \<forall>u. means st k u \<longrightarrow> means st' k u))"
  by (rule fine_mono [OF extend_streams_fine [OF assms]])
    (auto simp: collected_def kept_def trees_extend_value)

text \<open>
  C9. Copy on write: pushing trees onto a stream changes the meaning of that handle only, whichever
  handles share its slot.
\<close>

theorem extend_isolated:
  assumes "store_inv (add_mset self (child_handles ts + R)) [] st" "means st self v" "trees_mean st ts vs"
  shows "fine (extend_trees self ts st) (\<lambda>(s, st'). store_inv (add_mset s R) [] st'
    \<and> means st' s (if vs = [] then v else Stream (trees v @ vs) []) \<and> (\<forall>k \<in># R. \<forall>u. means st k u \<longrightarrow> means st' k u))"
  by (rule fine_mono [OF extend_trees_fine [OF assms]]) (auto simp: collected_def kept_def)

text \<open>
  C10. Dropping a handle never panics, keeps the counts exact and leaves every other handle's meaning
  alone; dropping the last one held frees every slot.
\<close>

theorem drop_frees_exactly:
  assumes "store_inv (add_mset s R) [] st" "grounded st"
  shows "\<exists>st'. drop_stream s st = Inr st' \<and> store_inv R [] st' \<and> grounded st'
    \<and> (\<forall>k \<in># R. \<forall>u. means st k u \<longrightarrow> means st' k u) \<and> (R = {#} \<longrightarrow> (\<forall>h. \<exists>p. slot_at h st' = Inl p))"
proof -
  obtain st' where "drop_stream s st = Inr st'" "store_inv R [] st'" "kept R st st'" "grounded st'"
    using drop_stream_grounded [OF assms] by blast
  then show ?thesis using unheld_store_dead by (fastforce simp: kept_def)
qed

theorem extend_streams_concatenates_witness:
  "fine (extend_streams (Some 1) [Some 2] shared_store) (\<lambda>(s, st'). store_inv {#s, Some 1#} [] st'
    \<and> (\<exists>w. means st' s w \<and> trees w = [plus_tree, group_of (Stream [plus_tree] [])])
    \<and> (\<forall>k \<in># {#Some 1#}. \<forall>u. means shared_store k u \<longrightarrow> means st' k u))"
  using extend_streams_concatenates [of "[Some 2]" "Some 1" "{#Some 1#}" shared_store "Stream [plus_tree] []"
      "[Stream [group_of (Stream [plus_tree] [])] []]"] shared_inv shared_means
  by (simp add: add_mset_commute del: extend_streams.simps)

theorem extend_isolated_witness:
  "fine (extend_trees (Some 1) [plus_tree] shared_store) (\<lambda>(s, st'). store_inv {#s, Some 1, Some 2#} [] st'
    \<and> means st' s (Stream [plus_tree, plus_tree] []) \<and> means st' (Some 1) (Stream [plus_tree] []))"
proof -
  have c: "child_handles [plus_tree] = {#}" "trees_mean shared_store [plus_tree] [plus_tree]" by (simp_all add: plus_tree_def)
  then have i: "store_inv (add_mset (Some 1) (child_handles [plus_tree] + {#Some 1, Some 2#})) [] shared_store"
    using shared_inv by simp
  show ?thesis
    by (rule fine_mono [OF extend_isolated [OF i shared_means(1) c(2)]]) (use shared_means(1) in auto)
qed

theorem drop_frees_exactly_witness:
  "\<exists>st'. drop_stream (Some 2) shared_store = Inr st' \<and> store_inv {#Some 1, Some 1#} [] st' \<and> grounded st'
    \<and> (\<forall>k \<in># {#Some 1, Some 1#}. \<forall>u. means shared_store k u \<longrightarrow> means st' k u)"
  using drop_frees_exactly [of "Some 2" "{#Some 1, Some 1#}" shared_store] shared_inv shared_grounded
  by (simp add: add_mset_commute)

end
