(* ===== verification/Host.thy ===== *)
theory Host
  imports Sending SendBack
begin

text \<open>
  The macro host: \<^verbatim>\<open>main\<close>, \<^verbatim>\<open>run\<close> and \<^verbatim>\<open>IS_AVAILABLE\<close> of
  \<^verbatim>\<open>lib/proc_macro/src/lib.rs\<close>. The process reads requests from standard input, runs the macro
  each one names, and writes one reply per request. A macro is a function parameter that threads
  the span table and the statics of its crate, \<open>'g\<close>. How much of the input a failing decoder has
  read is left open, so one turn of the loop is a step relation.
\<close>

section \<open>Macros\<close>

text \<open>A handler returns a stream, or unwinds with the text of its panic if the payload is one.\<close>

type_synonym 'g macro_call = "span_table \<Rightarrow> 'g \<Rightarrow> (rstr option + stream) \<times> span_table \<times> 'g"

datatype 'g macro_type = SingleStream "stream \<Rightarrow> 'g macro_call" | Attribute "stream \<Rightarrow> stream \<Rightarrow> 'g macro_call"

record 'g macro_desc =
  macro_name :: rstr
  handler :: "'g macro_type"

text \<open>\<open>macros.iter().find(|m| m.name == mac_name)\<close>\<close>

definition find_macro :: "'g macro_desc list \<Rightarrow> rstr \<Rightarrow> 'g macro_desc option" where
  "find_macro macros name = find (\<lambda>m. macro_name m = name) macros"

section \<open>The state of the process\<close>

record 'g host =
  host_available :: bool
  host_in :: "u8 list"
  host_out :: "u8 list"
  host_spans :: span_table
  host_statics :: 'g

definition set_available :: "bool \<Rightarrow> 'g host \<Rightarrow> 'g host" where
  "set_available b h = h\<lparr>host_available := b\<rparr>"

definition is_available :: "'g host \<Rightarrow> bool" where
  "is_available h = host_available h"

definition say :: "u8 list \<Rightarrow> 'g host \<Rightarrow> 'g host" where
  "say bs h = h\<lparr>host_out := host_out h @ bs\<rparr>"

definition report_found :: "bool \<Rightarrow> 'g host \<Rightarrow> 'g host" where
  "report_found found = say [if found then 0 else 1]"

text \<open>The panic hook: whether the previous one is called, which prints the panic.\<close>

definition hook_prints :: "'g host \<Rightarrow> bool \<Rightarrow> bool" where
  "hook_prints h can_unwind \<longleftrightarrow> \<not> is_available h \<or> \<not> can_unwind"

section \<open>One invocation\<close>

text \<open>The closure under \<open>catch_unwind\<close>, up to the call: the input is read and the table frozen.\<close>

definition decode_input ::
  "std_env \<Rightarrow> bool \<Rightarrow> 'g macro_type \<Rightarrow> u8 list \<Rightarrow> span_table \<Rightarrow> ('g macro_call \<times> u8 list \<times> span_table) received" where
  "decode_input env available m bs st =
     and_then (recv_token_stream env available bs st) (\<lambda>(input, bs, st). case m of
         SingleStream f \<Rightarrow> Inr (f input, bs, freeze_definitions st)
       | Attribute f \<Rightarrow> and_then (recv_token_stream env available bs st) (\<lambda>(input_body, bs, st).
           Inr (f input input_body, bs, freeze_definitions st)))"

datatype 'g state = Waiting "'g host" | Returned "'g host" | Died panic

text \<open>
  \<open>run\<close>. The text of a panic in the decoder is what \<open>message\<close> makes of it. A panic in
  \<open>send_token_stream\<close> is not caught.
\<close>

inductive run :: "std_env \<Rightarrow> (panic \<Rightarrow> rstr option) \<Rightarrow> 'g macro_desc \<Rightarrow> 'g host \<Rightarrow> 'g state \<Rightarrow> bool"
  for env message m where
  run_sends: "decode_input env (is_available (set_available True h)) (handler m) (host_in h) (host_spans h) = Inr (call, rest, st) \<Longrightarrow>
    call st (host_statics h) = (Inr output, st', g) \<Longrightarrow> send_token_stream st' output = Inr bs \<Longrightarrow>
    run env message m h (Waiting (set_available False (say bs (h\<lparr>host_in := rest, host_spans := st', host_statics := g\<rparr>))))"
| run_fails_to_send: "decode_input env (is_available (set_available True h)) (handler m) (host_in h) (host_spans h) = Inr (call, rest, st) \<Longrightarrow>
    call st (host_statics h) = (Inr output, st', g) \<Longrightarrow> send_token_stream st' output = Inl p \<Longrightarrow>
    run env message m h (Died p)"
| run_unwinds: "decode_input env (is_available (set_available True h)) (handler m) (host_in h) (host_spans h) = Inr (call, rest, st) \<Longrightarrow>
    call st (host_statics h) = (Inl payload, st', g) \<Longrightarrow>
    run env message m h (Waiting (set_available False (say (send_panic payload)
      (h\<lparr>host_in := rest, host_spans := st', host_statics := g\<rparr>))))"
| run_cannot_decode: "decode_input env (is_available (set_available True h)) (handler m) (host_in h) (host_spans h) = Inl (RecvPanic p) \<Longrightarrow>
    suffix rest (host_in h) \<Longrightarrow>
    run env message m h (Waiting (set_available False (say (send_panic (message p))
      (h\<lparr>host_in := rest, host_spans := st'\<rparr>))))"

section \<open>The loop\<close>

inductive serve :: "std_env \<Rightarrow> (panic \<Rightarrow> rstr option) \<Rightarrow> 'g macro_desc list \<Rightarrow> 'g state \<Rightarrow> 'g state \<Rightarrow> bool"
  for env message macros where
  serve_end: "read_ent (host_in h) = Inr (None, rest) \<Longrightarrow> serve env message macros (Waiting h) (Returned (h\<lparr>host_in := rest\<rparr>))"
| serve_garbled: "read_ent (host_in h) = Inl p \<Longrightarrow> serve env message macros (Waiting h) (Died p)"
| serve_no_name: "read_ent (host_in h) = Inr (Some t, rest) \<Longrightarrow> \<forall>name. t \<noteq> Ident name \<Longrightarrow>
    serve env message macros (Waiting h) (Died (Panic ''Protocol error: expected the name of a macro''))"
| serve_unknown: "read_ent (host_in h) = Inr (Some (Ident name), rest) \<Longrightarrow> find_macro macros name = None \<Longrightarrow>
    serve env message macros (Waiting h) (Returned (report_found False (h\<lparr>host_in := rest\<rparr>)))"
| serve_run: "read_ent (host_in h) = Inr (Some (Ident name), rest) \<Longrightarrow> find_macro macros name = Some m \<Longrightarrow>
    run env message m (report_found True (h\<lparr>host_in := rest, host_spans := reset_definitions (host_spans h)\<rparr>)) s \<Longrightarrow>
    serve env message macros (Waiting h) s"

text \<open>
  \<open>main\<close>: the arguments of the process; \<open>contents\<close> is what opening and reading a path gives. A
  named macro runs once, and then the process returns.
\<close>

fun returns :: "'g state \<Rightarrow> 'g state" where
  "returns (Waiting h) = Returned h"
| "returns s = s"

inductive starts :: "std_env \<Rightarrow> (panic \<Rightarrow> rstr option) \<Rightarrow> (rstr \<Rightarrow> u8 list option) \<Rightarrow> 'g macro_desc list \<Rightarrow>
    rstr list \<Rightarrow> 'g host \<Rightarrow> 'g state \<Rightarrow> bool"
  for env message contents macros where
  start_nameless: "starts env message contents macros [] h (Died (Panic ''Should have an executable name''))"
| start_loop: "starts env message contents macros [exe] h (Waiting h)"
| start_unknown: "find_macro macros name = None \<Longrightarrow>
    starts env message contents macros (exe # name # args) h (Died (Panic ''Unknown macro name''))"
| start_stdin: "find_macro macros name = Some m \<Longrightarrow> run env message m (report_found True h) s \<Longrightarrow>
    starts env message contents macros [exe, name] h (returns s)"
| start_file: "find_macro macros name = Some m \<Longrightarrow> contents given = Some bs \<Longrightarrow>
    run env message m ((report_found True h)\<lparr>host_in := bs\<rparr>) s \<Longrightarrow>
    starts env message contents macros (exe # name # given # args) h (returns s)"
| start_no_file: "find_macro macros name = Some m \<Longrightarrow> contents given = None \<Longrightarrow>
    starts env message contents macros (exe # name # given # args) h (Died (Panic ''called `Result::unwrap()` on an `Err` value''))"

inductive_cases runE: "run env message m h s"
inductive_cases serve_WaitingE: "serve env message macros (Waiting h) s"
inductive_cases serve_ReturnedE [elim!]: "serve env message macros (Returned h) s"
inductive_cases serve_DiedE [elim!]: "serve env message macros (Died p) s"

section \<open>Decoding\<close>

lemma recv_no_fuel [simp]: "recv_token_stream env av bs st \<noteq> Inl RecvFuel"
  by (simp add: recv_token_stream_subtree and_then_eq_Inl subtree_props)

lemma recv_suffix: "recv_token_stream env av bs st = Inr (s, rest, st') \<Longrightarrow> suffix rest bs"
  by (auto simp: recv_token_stream_subtree dest!: subtree_props(2))

lemma decode_no_fuel [simp]: "decode_input env av m bs st \<noteq> Inl RecvFuel"
  by (auto simp: decode_input_def and_then_eq_Inl split: macro_type.splits)

lemma decode_suffix:
  assumes "decode_input env av m bs st = Inr (call, rest, st')"
  shows "suffix rest bs"
  using assms by (cases m) (auto simp: decode_input_def dest!: recv_suffix intro: suffix_order.trans)

lemma host_fields [simp]:
  "is_available (set_available b h) = b" "is_available (say bs h) = is_available h"
  "host_in (set_available b h) = host_in h" "host_in (say bs h) = host_in h"
  "host_out (set_available b h) = host_out h" "host_out (say bs h) = host_out h @ bs"
  "host_spans (set_available b h) = host_spans h" "host_spans (say bs h) = host_spans h"
  "host_statics (set_available b h) = host_statics h" "host_statics (say bs h) = host_statics h"
  by (simp_all add: is_available_def set_available_def say_def)

section \<open>What one invocation does\<close>

lemma run_waits:
  assumes "run env message m h (Waiting h')"
  shows "\<not> is_available h'" "suffix (host_in h') (host_in h)"
  using assms by (cases rule: run.cases; auto dest: decode_suffix)+

lemma run_not_returned: "\<not> run env message m h (Returned h')"
  by (auto elim: run.cases)

lemma run_total: "\<exists>s. run env message m h s"
proof (cases "decode_input env (is_available (set_available True h)) (handler m) (host_in h) (host_spans h)")
  case (Inl f)
  then obtain p where "f = RecvPanic p" by (cases f) auto
  then show ?thesis using run_cannot_decode [OF _ suffix_order.refl] Inl by blast
next
  case (Inr x)
  obtain call rest st where d: "decode_input env (is_available (set_available True h)) (handler m) (host_in h) (host_spans h)
      = Inr (call, rest, st)" using Inr by (cases x) auto
  obtain r st' g where c: "call st (host_statics h) = (r, st', g)" by (cases "call st (host_statics h)")
  show ?thesis
  proof (cases r)
    case (Inl payload)
    then show ?thesis using run_unwinds [OF d] c by blast
  next
    case (Inr sent)
    then show ?thesis using run_sends [OF d] run_fails_to_send [OF d] c by (cases "send_token_stream st' sent") blast+
  qed
qed

section \<open>The loop makes progress and ends\<close>

lemma serve_shorter:
  assumes "serve env message macros (Waiting h) (Waiting h')"
  shows "suffix (host_in h') (host_in h)" "length (host_in h') < length (host_in h)"
proof -
  from assms obtain name rest m where r: "read_ent (host_in h) = Inr (Some (Ident name), rest)"
    and "run env message m (report_found True (h\<lparr>host_in := rest, host_spans := reset_definitions (host_spans h)\<rparr>)) (Waiting h')"
    by (auto elim: serve_WaitingE)
  then have "suffix (host_in h') rest" using run_waits(2) by (force simp: report_found_def)
  then show "suffix (host_in h') (host_in h)" "length (host_in h') < length (host_in h)"
    using read_ent_shorter [OF r] by (auto dest: suffix_length_le intro: suffix_order.trans)
qed

lemma serve_total: "\<exists>s. serve env message macros (Waiting h) s"
proof (cases "read_ent (host_in h)")
  case (Inl p)
  then show ?thesis using serve_garbled by blast
next
  case (Inr x)
  obtain t rest where x: "x = (t, rest)" by (cases x)
  show ?thesis
  proof (cases "\<exists>name. t = Some (Ident name)")
    case True
    then obtain name where t: "t = Some (Ident name)" by blast
    show ?thesis
      using Inr x t run_total serve_unknown serve_run by (cases "find_macro macros name") blast+
  next
    case False
    then show ?thesis using Inr x serve_end serve_no_name by (cases t) blast+
  qed
qed

text \<open>The number of requests a run can still answer.\<close>

fun work_left :: "'g state \<Rightarrow> nat" where
  "work_left (Waiting h) = Suc (length (host_in h))"
| "work_left s = 0"

lemma serve_measure: "serve env message macros s s' \<Longrightarrow> work_left s' < work_left s"
  by (cases s; cases s') (auto dest: serve_shorter)

text \<open>What a measure promises of a step relation: bounded runs, and an end to each.\<close>

locale measured_steps =
  fixes step :: "'s \<Rightarrow> 's \<Rightarrow> bool"
    and todo :: "'s \<Rightarrow> nat"
  assumes decreases: "step s s' \<Longrightarrow> todo s' < todo s"
begin

lemma bounded: "(step ^^ n) s s' \<Longrightarrow> todo s' + n \<le> todo s"
  by (induction n arbitrary: s') (fastforce dest: decreases)+

lemma normal_form: "\<exists>s'. step\<^sup>*\<^sup>* s s' \<and> (\<nexists>t. step s' t)"
proof (induction "todo s" arbitrary: s rule: less_induct)
  case less
  show ?case
  proof (cases "\<exists>t. step s t")
    case True
    then obtain t where t: "step s t" by blast
    from less [OF decreases [OF t]] show ?thesis using t by (meson converse_rtranclp_into_rtranclp)
  next
    case False
    then show ?thesis by blast
  qed
qed

end

interpretation serving: measured_steps "serve env message macros" work_left for env message macros
  by unfold_locales (rule serve_measure)

text \<open>
  C15. The host never hangs and never gets stuck: while it waits it can always take a step, and no run
  has more steps than there are bytes to read, and one.
\<close>

theorem host_ends:
  "(\<exists>s'. serve env message macros (Waiting h) s') \<and> \<not> (serve env message macros ^^ Suc (Suc (length (host_in h)))) (Waiting h) s'"
  using serve_total serving.bounded [of "Suc (Suc (length (host_in h)))" env message macros "Waiting h" s'] by auto

section \<open>Every request is answered, and nothing else is written\<close>

text \<open>
  What the request at the front of the input comes to, told without the steps: the macro it names is
  called on the input that follows, or that input cannot be decoded.
\<close>

definition called :: "std_env \<Rightarrow> 'g macro_desc list \<Rightarrow> 'g host \<Rightarrow> rstr option + stream \<Rightarrow> span_table \<Rightarrow> bool" where
  "called env macros h result st' \<longleftrightarrow> (\<exists>name bs m call rest st g.
     read_ent (host_in h) = Inr (Some (Ident name), bs) \<and> find_macro macros name = Some m
     \<and> decode_input env True (handler m) bs (reset_definitions (host_spans h)) = Inr (call, rest, st)
     \<and> call st (host_statics h) = (result, st', g))"

definition undecoded :: "std_env \<Rightarrow> 'g macro_desc list \<Rightarrow> 'g host \<Rightarrow> panic \<Rightarrow> bool" where
  "undecoded env macros h p \<longleftrightarrow> (\<exists>name bs m.
     read_ent (host_in h) = Inr (Some (Ident name), bs) \<and> find_macro macros name = Some m
     \<and> decode_input env True (handler m) bs (reset_definitions (host_spans h)) = Inl (RecvPanic p))"

text \<open>
  The reply it gets: the stream its macro returned, the panic it unwound with, or that of the
  decoder. And what the process dies of: a request that does not start with a macro's name, or the
  stream its macro returned, which cannot be sent.
\<close>

definition replied :: "std_env \<Rightarrow> (panic \<Rightarrow> rstr option) \<Rightarrow> 'g macro_desc list \<Rightarrow> 'g host \<Rightarrow> u8 list \<Rightarrow> bool" where
  "replied env message macros h r \<longleftrightarrow>
     (\<exists>s st. called env macros h (Inr s) st \<and> send_token_stream st s = Inr r)
     \<or> (\<exists>payload st. called env macros h (Inl payload) st \<and> r = send_panic payload)
     \<or> (\<exists>p. undecoded env macros h p \<and> r = send_panic (message p))"

definition dies_of :: "std_env \<Rightarrow> 'g macro_desc list \<Rightarrow> 'g host \<Rightarrow> panic \<Rightarrow> bool" where
  "dies_of env macros h p \<longleftrightarrow>
     read_ent (host_in h) = Inl p
     \<or> (\<exists>t bs. read_ent (host_in h) = Inr (Some t, bs) \<and> (\<forall>name. t \<noteq> Ident name)
         \<and> p = Panic ''Protocol error: expected the name of a macro'')
     \<or> (\<exists>s st. called env macros h (Inr s) st \<and> send_token_stream st s = Inl p)"

text \<open>The states a run waits in, one invocation after another, and the output between them.\<close>

inductive transcript :: "std_env \<Rightarrow> (panic \<Rightarrow> rstr option) \<Rightarrow> 'g macro_desc list \<Rightarrow> 'g host \<Rightarrow> nat \<Rightarrow> u8 list \<Rightarrow> 'g host \<Rightarrow> bool"
  for env message macros h where
  transcript_start: "transcript env message macros h 0 [] h"
| transcript_next: "transcript env message macros h n bs h' \<Longrightarrow> replied env message macros h' r \<Longrightarrow>
    serve env message macros (Waiting h') (Waiting h'') \<Longrightarrow> transcript env message macros h (Suc n) (bs @ 0 # r) h''"

text \<open>What holds after \<open>n\<close> steps from the host \<open>h\<close>.\<close>

fun answered :: "std_env \<Rightarrow> (panic \<Rightarrow> rstr option) \<Rightarrow> 'g macro_desc list \<Rightarrow> 'g host \<Rightarrow> nat \<Rightarrow> 'g state \<Rightarrow> bool" where
  "answered env message macros h n (Waiting h') \<longleftrightarrow> \<not> is_available h'
     \<and> (\<exists>bs. transcript env message macros h n bs h' \<and> host_out h' = host_out h @ bs)"
| "answered env message macros h n (Returned h') \<longleftrightarrow> \<not> is_available h'
     \<and> (\<exists>bs k. transcript env message macros h (n - 1) bs k
        \<and> (read_ent (host_in k) = Inr (None, host_in h') \<and> host_out h' = host_out h @ bs
          \<or> (\<exists>name. read_ent (host_in k) = Inr (Some (Ident name), host_in h') \<and> find_macro macros name = None
              \<and> host_out h' = host_out h @ bs @ [1])))"
| "answered env message macros h n (Died p) \<longleftrightarrow> (\<exists>bs k. transcript env message macros h (n - 1) bs k \<and> dies_of env macros k p)"

lemma report_found_host [simp]:
  "host_in (report_found b h) = host_in h" "is_available (report_found b h) = is_available h"
  "host_out (report_found b h) = host_out h @ [if b then 0 else 1]"
  "host_spans (report_found b h) = host_spans h" "host_statics (report_found b h) = host_statics h"
  by (simp_all add: report_found_def)

lemma is_available_update [simp]:
  "is_available (h\<lparr>host_in := i, host_spans := st\<rparr>) = is_available h" "is_available (h\<lparr>host_in := i\<rparr>) = is_available h"
  by (simp_all add: is_available_def)

lemma run_replied:
  assumes r: "read_ent (host_in h) = Inr (Some (Ident name), rest)" and m: "find_macro macros name = Some m"
    and run: "run env message m (report_found True (h\<lparr>host_in := rest, host_spans := reset_definitions (host_spans h)\<rparr>)) s"
  shows "(\<exists>h' r. s = Waiting h' \<and> replied env message macros h r \<and> host_out h' = host_out h @ 0 # r) \<or> (\<exists>p. s = Died p \<and> dies_of env macros h p)"
proof -
  have called: "called env macros h result st'"
    if "decode_input env True (handler m) rest (reset_definitions (host_spans h)) = Inr (call, bs, st)"
      "call st (host_statics h) = (result, st', g)" for call bs st result st' g
    unfolding called_def using r m that by blast
  have undecoded: "undecoded env macros h p"
    if "decode_input env True (handler m) rest (reset_definitions (host_spans h)) = Inl (RecvPanic p)" for p
    unfolding undecoded_def using r m that by blast
  from run show ?thesis
  proof (cases rule: run.cases)
    case (run_sends call bs st v st' g r)
    then have "replied env message macros h r" using called unfolding replied_def by fastforce
    then show ?thesis using run_sends(1) by simp
  next
    case (run_fails_to_send call bs st v st' g p)
    then have "dies_of env macros h p" using called unfolding dies_of_def by fastforce
    then show ?thesis using run_fails_to_send(1) by blast
  next
    case (run_unwinds call bs st payload st' g)
    then have "replied env message macros h (send_panic payload)" using called unfolding replied_def by fastforce
    then show ?thesis using run_unwinds(1) by simp
  next
    case (run_cannot_decode p bs st')
    then have "replied env message macros h (send_panic (message p))" using undecoded unfolding replied_def by fastforce
    then show ?thesis using run_cannot_decode(1) by simp
  qed
qed

lemma serve_answered:
  assumes step: "serve env message macros s s'" and before: "answered env message macros h n s"
  shows "answered env message macros h (Suc n) s'"
proof (cases s)
  case (Waiting k)
  obtain bs where a: "\<not> is_available k" "transcript env message macros h n bs k" "host_out k = host_out h @ bs" using before Waiting by auto
  note step = step [unfolded Waiting]
  then show ?thesis
  proof (cases rule: serve.cases)
    case (serve_end rest)
    then show ?thesis using a by auto
  next
    case (serve_garbled p)
    then show ?thesis using a(2) by (auto simp: dies_of_def)
  next
    case (serve_no_name t rest)
    then show ?thesis using a(2) by (auto simp: dies_of_def)
  next
    case (serve_unknown name rest)
    then show ?thesis using a by auto
  next
    case (serve_run name rest m)
    from run_replied [OF this] show ?thesis
    proof (elim disjE exE conjE)
      fix h' r assume w: "s' = Waiting h'" "replied env message macros k r" "host_out h' = host_out k @ 0 # r"
      have "\<not> is_available h'" using run_waits(1) serve_run(3) w(1) by blast
      moreover have "transcript env message macros h (Suc n) (bs @ 0 # r) h'"
        using transcript_next [OF a(2) w(2)] step w(1) by simp
      ultimately show ?thesis using w a(3) by auto
    next
      fix p assume "s' = Died p" "dies_of env macros k p"
      then show ?thesis using a(2) by auto
    qed
  qed
qed (use step in auto)

text \<open>
  C13. The discipline of the host. After any number of steps from a fresh loop, the output is exactly
  one reply per invocation, each the zero byte and then what its own request came to: the stream
  the macro it names returned for it, the panic that macro unwound with, or the panic of its decoder. It ends
  in a one byte exactly when the last request names no macro, and the API is switched off between
  invocations. The process only dies of the request it is at, which is garbled or does not start with a name,
  or of the very stream the macro returned for it, which cannot be sent: never of a macro that
  panics or of input it cannot decode.
\<close>

theorem host_answers:
  assumes "(serve env message macros ^^ n) (Waiting h) s" "\<not> is_available h"
  shows "answered env message macros h n s"
  using assms(1)
proof (induction n arbitrary: s)
  case 0
  then show ?case using assms(2) transcript_start by auto
next
  case (Suc n)
  then obtain t where "(serve env message macros ^^ n) (Waiting h) t" "serve env message macros t s" by auto
  then show ?case using Suc.IH serve_answered by blast
qed

text \<open>Named on the command line, a macro runs once: only a call without arguments enters the loop.\<close>

lemma starts_waiting: "starts env message contents macros args h (Waiting h') \<longleftrightarrow> (\<exists>exe. args = [exe]) \<and> h' = h"
proof
  assume "starts env message contents macros args h (Waiting h')"
  then show "(\<exists>exe. args = [exe]) \<and> h' = h"
  proof (cases rule: starts.cases)
    case (start_stdin name m s exe)
    then show ?thesis by (cases s) auto
  next
    case (start_file name m given bs s exe args)
    then show ?thesis by (cases s) auto
  qed auto
qed (auto intro: start_loop)

lemma starts_total: "\<exists>s. starts env message contents macros args h s"
proof -
  consider "args = []" | exe where "args = [exe]" | exe name where "args = [exe, name]"
    | exe name given more where "args = exe # name # given # more" by (metis neq_Nil_conv)
  then show ?thesis
  proof cases
    case (3 exe name)
    show ?thesis
    proof (cases "find_macro macros name")
      case (Some m)
      obtain s where "run env message m (report_found True h) s" using run_total by blast
      from start_stdin [OF Some this] show ?thesis using 3 by blast
    qed (use 3 start_unknown in blast)
  next
    case (4 exe name given more)
    show ?thesis
    proof (cases "find_macro macros name")
      case (Some m)
      show ?thesis
      proof (cases "contents given")
        case (Some bs)
        obtain s where "run env message m ((report_found True h)\<lparr>host_in := bs\<rparr>) s" using run_total by blast
        from start_file [of macros name m contents given bs, OF \<open>find_macro macros name = Some m\<close> Some this] show ?thesis using 4 by blast
      qed (use 4 Some start_no_file in blast)
    qed (use 4 start_unknown in blast)
  qed (auto intro: start_nameless start_loop)
qed

section \<open>A session\<close>

text \<open>
  What a session means, without bytes left over, tables or steps: the invocations in order, each
  a name and its encoded input, the statics handed from one to the next.
\<close>

definition delivers :: "std_env \<Rightarrow> 'g macro_type \<Rightarrow> u8 list \<Rightarrow> 'g macro_call \<Rightarrow> span_table \<Rightarrow> bool" where
  "delivers env m bs call st \<longleftrightarrow> (\<forall>rest. decode_input env True m (bs @ rest) empty_spans = Inr (call, rest, st))"

inductive session :: "std_env \<Rightarrow> 'g macro_desc list \<Rightarrow> 'g \<Rightarrow> (rstr \<times> u8 list) list \<Rightarrow> u8 list \<Rightarrow> 'g \<Rightarrow> bool" for env macros where
  session_end: "session env macros g [] [] g"
| session_stream: "find_macro macros name = Some m \<Longrightarrow> delivers env (handler m) bs call st \<Longrightarrow>
    call st g = (Inr s, st', g') \<Longrightarrow> send_token_stream st' s = Inr r \<Longrightarrow>
    session env macros g' requests out g'' \<Longrightarrow> session env macros g ((name, bs) # requests) (0 # r @ out) g''"
| session_panic: "find_macro macros name = Some m \<Longrightarrow> delivers env (handler m) bs call st \<Longrightarrow>
    call st g = (Inl payload, st', g') \<Longrightarrow>
    session env macros g' requests out g'' \<Longrightarrow> session env macros g ((name, bs) # requests) (0 # send_panic payload @ out) g''"

text \<open>The bytes of a request, and of all.\<close>

definition request :: "rstr \<times> u8 list \<Rightarrow> u8 list" where
  "request = (\<lambda>(name, bs). write_ent (Ident name) @ bs)"

definition run_to :: "std_env \<Rightarrow> (panic \<Rightarrow> rstr option) \<Rightarrow> 'g macro_desc list \<Rightarrow> 'g host \<Rightarrow> u8 list \<Rightarrow> u8 list \<Rightarrow> 'g \<Rightarrow> bool" where
  "run_to env message macros h rest bs g \<longleftrightarrow> (\<forall>s. serve env message macros (Waiting h) s \<longrightarrow>
     (\<exists>h'. s = Waiting h' \<and> \<not> is_available h' \<and> host_in h' = rest \<and> host_out h' = host_out h @ bs \<and> host_statics h' = g))"

lemma read_name:
  assumes "token_ok (Ident name)"
  shows "read_ent (write_ent (Ident name) @ bs) = Inr (Some (Ident name), bs)"
  using read_write_ent [OF assms] by simp

lemma serve_request:
  assumes name: "token_ok (Ident name)" and m: "find_macro macros name = Some m"
    and d: "delivers env (handler m) bs call st" and h: "host_in h = request (name, bs) @ rest"
  shows "call st (host_statics h) = (Inr s, st', g') \<Longrightarrow> send_token_stream st' s = Inr r \<Longrightarrow> run_to env message macros h rest (0 # r) g'"
    and "call st (host_statics h) = (Inl payload, st', g') \<Longrightarrow> run_to env message macros h rest (0 # send_panic payload) g'"
proof -
  have r: "read_ent (host_in h) = Inr (Some (Ident name), bs @ rest)" using read_name [OF name] h by (simp add: request_def)
  have e: "reset_definitions (host_spans h) = empty_spans" by (simp add: reset_definitions_def empty_spans_def)
  let ?h = "report_found True (h\<lparr>host_in := bs @ rest, host_spans := empty_spans\<rparr>)"
  have step: "run env message m ?h s" if "serve env message macros (Waiting h) s" for s
    using that by (rule serve_WaitingE) (use m in \<open>auto simp: r e\<close>)
  have D: "decode_input env True (handler m) (bs @ rest) empty_spans = Inr (call, rest, st)" using d by (simp add: delivers_def)
  show "run_to env message macros h rest (0 # r) g'"
    if c: "call st (host_statics h) = (Inr s, st', g')" "send_token_stream st' s = Inr r"
    unfolding run_to_def
  proof (intro allI impI)
    fix x assume "serve env message macros (Waiting h) x"
    from step [OF this] show "\<exists>h'. x = Waiting h' \<and> \<not> is_available h' \<and> host_in h' = rest \<and> host_out h' = host_out h @ 0 # r \<and> host_statics h' = g'"
      by (rule runE) (use D c in simp_all)
  qed
  show "run_to env message macros h rest (0 # send_panic payload) g'"
    if c: "call st (host_statics h) = (Inl payload, st', g')"
    unfolding run_to_def
  proof (intro allI impI)
    fix x assume "serve env message macros (Waiting h) x"
    from step [OF this] show "\<exists>h'. x = Waiting h' \<and> \<not> is_available h' \<and> host_in h' = rest \<and> host_out h' = host_out h @ 0 # send_panic payload \<and> host_statics h' = g'"
      by (rule runE) (use D c in simp_all)
  qed
qed

definition ended :: "u8 list \<Rightarrow> 'g \<Rightarrow> 'g state \<Rightarrow> bool" where
  "ended out g s \<longleftrightarrow> (\<exists>h. s = Returned h \<and> \<not> is_available h \<and> host_in h = [] \<and> host_out h = out \<and> host_statics h = g)"

lemma run_to_then:
  assumes to: "run_to env message macros h rest bs g"
    and then_: "\<And>h'. \<not> is_available h' \<Longrightarrow> host_in h' = rest \<Longrightarrow> host_out h' = host_out h @ bs \<Longrightarrow> host_statics h' = g \<Longrightarrow>
      (serve env message macros)\<^sup>*\<^sup>* (Waiting h') s \<Longrightarrow> Q"
    and run: "(serve env message macros)\<^sup>*\<^sup>* (Waiting h) s" and final: "\<nexists>t. serve env message macros s t"
  shows Q
  using run
proof (cases rule: converse_rtranclpE)
  case base
  then show Q using final serve_total by metis
next
  case (step y)
  then show Q using to then_ unfolding run_to_def by blast
qed

lemma session_ends:
  assumes "session env macros g requests out g'"
  shows "list_all (\<lambda>(name, bs). token_ok (Ident name)) requests \<Longrightarrow> host_in h = concat (map request requests) \<Longrightarrow>
    host_statics h = g \<Longrightarrow> \<not> is_available h \<Longrightarrow> (serve env message macros)\<^sup>*\<^sup>* (Waiting h) s \<Longrightarrow>
    \<nexists>t. serve env message macros s t \<Longrightarrow> ended (host_out h @ out) g' s"
  using assms
proof (induction arbitrary: h rule: session.induct)
  case (session_end g)
  have "\<exists>h'. x = Returned h' \<and> \<not> is_available h' \<and> host_in h' = [] \<and> host_out h' = host_out h \<and> host_statics h' = g"
    if "serve env message macros (Waiting h) x" for x
    using that by (rule serve_WaitingE) (use session_end in \<open>simp_all add: read_ent_def getb_def\<close>)
  moreover obtain x where "serve env message macros (Waiting h) x" "(serve env message macros)\<^sup>*\<^sup>* x s"
    using session_end(5,6) serve_total by (metis converse_rtranclpE)
  ultimately obtain h' where "x = Returned h'" "\<not> is_available h' \<and> host_in h' = [] \<and> host_out h' = host_out h \<and> host_statics h' = g"
    by blast
  moreover have "s = x" using \<open>(serve env message macros)\<^sup>*\<^sup>* x s\<close> \<open>x = Returned h'\<close> by (auto elim: converse_rtranclpE)
  ultimately show ?case by (auto simp: ended_def)
next
  case (session_stream name m bs call st g t st' g' r requests out g'')
  have to: "run_to env message macros h (concat (map request requests)) (0 # r) g'"
    by (rule serve_request(1) [OF _ session_stream(1,2) _ _ session_stream(4)]) (use session_stream in simp_all)
  show ?case
  proof (rule run_to_then [OF to _ session_stream(11,12)])
    fix h' assume a: "\<not> is_available h'" "host_in h' = concat (map request requests)"
      "host_out h' = host_out h @ 0 # r" "host_statics h' = g'"
      "(serve env message macros)\<^sup>*\<^sup>* (Waiting h') s"
    from session_stream(6) [of h'] a session_stream(7,12) show "ended (host_out h @ 0 # r @ out) g'' s" by simp
  qed
next
  case (session_panic name m bs call st g payload st' g' requests out g'')
  have to: "run_to env message macros h (concat (map request requests)) (0 # send_panic payload) g'"
    by (rule serve_request(2) [OF _ session_panic(1,2)]) (use session_panic in simp_all)
  show ?case
  proof (rule run_to_then [OF to _ session_panic(10,11)])
    fix h' assume a: "\<not> is_available h'" "host_in h' = concat (map request requests)"
      "host_out h' = host_out h @ 0 # send_panic payload" "host_statics h' = g'"
      "(serve env message macros)\<^sup>*\<^sup>* (Waiting h') s"
    from session_panic(5) [of h'] a session_panic(6,11) show "ended (host_out h @ 0 # send_panic payload @ out) g'' s" by simp
  qed
qed

lemma session_runs:
  assumes "session env macros (host_statics h) requests out g'" "\<not> is_available h"
    and "host_in h = concat (map request requests)" "list_all (\<lambda>(name, bs). token_ok (Ident name)) requests"
  shows "(\<exists>s. (serve env message macros)\<^sup>*\<^sup>* (Waiting h) s \<and> ended (host_out h @ out) g' s) \<and>
    (\<forall>s. (serve env message macros)\<^sup>*\<^sup>* (Waiting h) s \<longrightarrow> (\<nexists>t. serve env message macros s t) \<longrightarrow> ended (host_out h @ out) g' s)"
  using session_ends [OF assms(1,4,3) refl assms(2)] serving.normal_form [of env message macros "Waiting h"] by blast

text \<open>
  C3. The host implements the session: fed the requests one after another, every run returns, with
  exactly the replies of the session as its output and the statics of its last invocation.
\<close>

theorem host_implements_session:
  assumes "session env macros (host_statics h) requests out g'" "\<not> is_available h"
    and "host_in h = concat (map request requests)" "list_all (\<lambda>(name, bs). token_ok (Ident name)) requests"
  shows "(\<exists>s. (serve env message macros)\<^sup>*\<^sup>* (Waiting h) s \<and> ended (host_out h @ out) g' s) \<and>
    (\<forall>s. (serve env message macros)\<^sup>*\<^sup>* (Waiting h) s \<longrightarrow> (\<nexists>t. serve env message macros s t) \<longrightarrow> ended (host_out h @ out) g' s)"
  using assms by (rule session_runs)

section \<open>Two macros at work\<close>

text \<open>One returns its input, one panics; both count their calls in a static.\<close>

definition echo_macro :: "nat macro_desc" where
  "echo_macro = \<lparr>macro_name = str ''echo'', handler = SingleStream (\<lambda>s st g. (Inr s, st, Suc g))\<rparr>"

definition fail_macro :: "nat macro_desc" where
  "fail_macro = \<lparr>macro_name = str ''fail'', handler = SingleStream (\<lambda>s st g. (Inl (Some (str ''no'')), st, Suc g))\<rparr>"

definition sample_host :: "u8 list \<Rightarrow> nat host" where
  "sample_host bs = \<lparr>host_available = False, host_in = bs, host_out = [], host_spans = empty_spans, host_statics = 0\<rparr>"

lemma delivers_empty: "delivers env (SingleStream f) [0] (f empty_stream) (freeze_definitions empty_spans)"
proof -
  have c: "call_site True = Inr 2" by (simp add: call_site_def require_available_def from_raw_def)
  have r: "read_ent (0 # rest) = Inr (Some EndOfStream, rest)" for rest
    using read_write_ent [of EndOfStream rest] by (simp add: write_ent_def)
  have "decode_input env True (SingleStream f) (0 # rest) empty_spans
      = Inr (f empty_stream, rest, freeze_definitions empty_spans)" for rest
    by (simp add: decode_input_def recv_token_stream_subtree subtree_unfold c lifted_def subtree_turn_def r closes_def
        from_received_def empty_stream_def resize_def)
  then show ?thesis by (simp add: delivers_def)
qed

lemma find_samples:
  "find_macro [echo_macro, fail_macro] (str ''echo'') = Some echo_macro"
  "find_macro [echo_macro, fail_macro] (str ''fail'') = Some fail_macro"
  "find_macro [echo_macro, fail_macro] (str ''x'') = None"
  by (simp_all add: find_macro_def echo_macro_def fail_macro_def str_def)

lemma sample_session:
  "session env [echo_macro, fail_macro] 0 [(str ''fail'', [0]), (str ''echo'', [0])]
    (0 # send_panic (Some (str ''no'')) @ 0 # [1, 0] @ []) 2"
proof (rule session_panic [OF find_samples(2), of _ _ "\<lambda>st g. (Inl (Some (str ''no'')), st, Suc g)" "freeze_definitions empty_spans" 0 _ _ 1])
  show "delivers env (handler fail_macro) [0] (\<lambda>st g. (Inl (Some (str ''no'')), st, Suc g)) (freeze_definitions empty_spans)"
    using delivers_empty [of env "\<lambda>s st g. (Inl (Some (str ''no'')), st, Suc g)"] by (simp add: fail_macro_def)
  show "session env [echo_macro, fail_macro] 1 [(str ''echo'', [0])] (0 # [1, 0] @ []) 2"
  proof (rule session_stream [OF find_samples(1), of _ _ "\<lambda>st g. (Inr empty_stream, st, Suc g)" "freeze_definitions empty_spans" 1 empty_stream
        "freeze_definitions empty_spans" 2])
    show "delivers env (handler echo_macro) [0] (\<lambda>st g. (Inr empty_stream, st, Suc g)) (freeze_definitions empty_spans)"
      using delivers_empty [of env "\<lambda>s st g. (Inr s, st, Suc g)"] by (simp add: echo_macro_def)
    show "send_token_stream (freeze_definitions empty_spans) empty_stream = Inr [1, 0]" by code_simp
  qed (simp_all add: session_end)
qed simp

theorem host_implements_session_witness:
  "\<exists>s. (serve sample_env (\<lambda>_. None) [echo_macro, fail_macro])\<^sup>*\<^sup>*
      (Waiting (sample_host [2, 4, 102, 97, 105, 108, 0, 2, 4, 101, 99, 104, 111, 0])) s
    \<and> ended [0, 14, 1, 2, 110, 111, 0, 1, 0] 2 s"
proof -
  have p: "send_panic (Some (str ''no'')) = [14, 1, 2, 110, 111]" by code_simp
  have i: "concat (map request [(str ''fail'', [0]), (str ''echo'', [0])])
      = [2, 4, 102, 97, 105, 108, 0, 2, 4, 101, 99, 104, 111, 0]" by code_simp
  have n: "list_all (\<lambda>(name, bs). token_ok (Ident name)) [(str ''fail'', [0 :: u8]), (str ''echo'', [0])]"
    by (simp add: str_ok_def utf8_def utf8_char_def str_def scalar_value_def)
  show ?thesis
    using host_implements_session [of sample_env "[echo_macro, fail_macro]"
        "sample_host [2, 4, 102, 97, 105, 108, 0, 2, 4, 101, 99, 104, 111, 0]"
        "[(str ''fail'', [0]), (str ''echo'', [0])]" _ 2 "\<lambda>_. None"] sample_session [of sample_env] i n
    by (simp add: sample_host_def is_available_def p)
qed

theorem host_answers_witness:
  "\<exists>h'. (serve sample_env (\<lambda>_. None) [echo_macro, fail_macro] ^^ 1) (Waiting (sample_host [2, 1, 120])) (Returned h')
    \<and> answered sample_env (\<lambda>_. None) [echo_macro, fail_macro] (sample_host [2, 1, 120]) 1 (Returned h')"
proof -
  have r: "read_ent [2, 1, 120] = Inr (Some (Ident (str ''x'')), [])" by code_simp
  have "serve sample_env (\<lambda>_. None) [echo_macro, fail_macro] (Waiting (sample_host [2, 1, 120]))
      (Returned (report_found False ((sample_host [2, 1, 120])\<lparr>host_in := []\<rparr>)))"
    by (rule serve_unknown [OF _ find_samples(3)]) (simp add: sample_host_def r)
  then have "(serve sample_env (\<lambda>_. None) [echo_macro, fail_macro] ^^ 1) (Waiting (sample_host [2, 1, 120]))
      (Returned (report_found False ((sample_host [2, 1, 120])\<lparr>host_in := []\<rparr>)))"
    by (simp only: relpowp_1)
  from host_answers [OF this] this show ?thesis by (force simp: sample_host_def is_available_def)
qed

end
