(* ===== verification/Diagnostics.thy ===== *)
theory Diagnostics
  imports Spans
begin

text \<open>
  \<^verbatim>\<open>lib/proc_macro/src/diagnostic.rs\<close>: diagnostics a macro builds by wrapping one in another
  and emits to standard error, the innermost first. \<open>emit\<close> returns what was written, and the
  panic that printing an undefined span ends with.
\<close>

datatype level = LevelError | LevelWarning | LevelNote | LevelHelp

datatype diagnostic = Diagnostic (diag_parent: "diagnostic option") (diag_spans: "span list") (diag_level: level) (diag_message: rstr)

text \<open>\<open>MultiSpan\<close> for a vector, a slice and a single span.\<close>

definition into_spans_vec :: "span list \<Rightarrow> span list" where
  "into_spans_vec v = v"

definition into_spans_slice :: "span list \<Rightarrow> span list" where
  "into_spans_slice s = s"

definition into_spans_one :: "span \<Rightarrow> span list" where
  "into_spans_one s = [s]"

section \<open>Constructors and wrappers\<close>

definition diagnostic_new :: "level \<Rightarrow> rstr \<Rightarrow> diagnostic" where
  "diagnostic_new level message = Diagnostic None [] level message"

definition diagnostic_spanned :: "span list \<Rightarrow> level \<Rightarrow> rstr \<Rightarrow> diagnostic" where
  "diagnostic_spanned sps level message = Diagnostic None sps level message"

definition wrapped :: "diagnostic \<Rightarrow> level \<Rightarrow> span list \<Rightarrow> rstr \<Rightarrow> diagnostic" where
  "wrapped d level sps message = Diagnostic (Some d) sps level message"

definition span_error :: "diagnostic \<Rightarrow> span list \<Rightarrow> rstr \<Rightarrow> diagnostic" where
  "span_error d sps message = wrapped d LevelError sps message"

definition diag_error :: "diagnostic \<Rightarrow> rstr \<Rightarrow> diagnostic" where
  "diag_error d message = span_error d (into_spans_vec []) message"

definition span_warning :: "diagnostic \<Rightarrow> span list \<Rightarrow> rstr \<Rightarrow> diagnostic" where
  "span_warning d sps message = wrapped d LevelWarning sps message"

definition diag_warning :: "diagnostic \<Rightarrow> rstr \<Rightarrow> diagnostic" where
  "diag_warning d message = span_warning d (into_spans_vec []) message"

definition span_note :: "diagnostic \<Rightarrow> span list \<Rightarrow> rstr \<Rightarrow> diagnostic" where
  "span_note d sps message = wrapped d LevelNote sps message"

definition diag_note :: "diagnostic \<Rightarrow> rstr \<Rightarrow> diagnostic" where
  "diag_note d message = span_note d (into_spans_vec []) message"

definition span_help :: "diagnostic \<Rightarrow> span list \<Rightarrow> rstr \<Rightarrow> diagnostic" where
  "span_help d sps message = wrapped d LevelHelp sps message"

definition diag_help :: "diagnostic \<Rightarrow> rstr \<Rightarrow> diagnostic" where
  "diag_help d message = span_help d (into_spans_vec []) message"

section \<open>Output\<close>

definition level_debug :: "level \<Rightarrow> rstr" where
  "level_debug l = str (case l of LevelError \<Rightarrow> ''Error'' | LevelWarning \<Rightarrow> ''Warning'' | LevelNote \<Rightarrow> ''Note'' | LevelHelp \<Rightarrow> ''Help'')"

definition from_line :: "span_table \<Rightarrow> span \<Rightarrow> written" where
  "from_line st s = (case span_debug st s of Inl p \<Rightarrow> (str ''From '', Inl p) | Inr d \<Rightarrow> (with_newline (str ''From '' @ d), Inr ()))"

fun from_lines :: "span_table \<Rightarrow> span list \<Rightarrow> written" where
  "from_lines st [] = ([], Inr ())"
| "from_lines st (s # ss) = then_write (from_line st s) (from_lines st ss)"

definition own_lines :: "span_table \<Rightarrow> diagnostic \<Rightarrow> written" where
  "own_lines st d = then_write (with_newline (level_debug (diag_level d) @ str '' '' @ diag_message d), Inr ()) (from_lines st (diag_spans d))"

fun diag_emit :: "span_table \<Rightarrow> diagnostic \<Rightarrow> written" where
  "diag_emit st (Diagnostic None sps level message) = own_lines st (Diagnostic None sps level message)"
| "diag_emit st (Diagnostic (Some p) sps level message) =
     then_write (diag_emit st p) (own_lines st (Diagnostic (Some p) sps level message))"

section \<open>What diagnostics print\<close>

text \<open>
  A diagnostic told as the remarks it was made of: the first constructed, the others each wrapped
  around what was there. Every diagnostic a macro can make is one of these.
\<close>

type_synonym remark = "level \<times> span list \<times> rstr"

fun built :: "remark \<Rightarrow> remark list \<Rightarrow> diagnostic" where
  "built (level, sps, message) remarks =
     foldl (\<lambda>d (level, sps, message). wrapped d level sps message) (diagnostic_spanned sps level message) remarks"

lemma built_snoc: "built n (remarks @ [(level, sps, message)]) = wrapped (built n remarks) level sps message"
  by (cases n) simp

lemma every_diagnostic_built: "\<exists>n remarks. d = built n remarks"
proof (induction d rule: diag_emit.induct [of "\<lambda>_ d. \<exists>n remarks. d = built n remarks"])
  case (1 st sps level message)
  then show ?case by (intro exI [of _ "(level, sps, message)"] exI [of _ "[]"]) (simp add: diagnostic_spanned_def)
next
  case (2 st q sps level message)
  then obtain n remarks where "q = built n remarks" by blast
  then have "Diagnostic (Some q) sps level message = built n (remarks @ [(level, sps, message)])"
    by (simp add: built_snoc wrapped_def)
  then show ?case by blast
qed

text \<open>The lines of a report, in order: of each remark its message, then its spans.\<close>

datatype report_line = Headline level rstr | Location span

fun remark_lines :: "remark \<Rightarrow> report_line list" where
  "remark_lines (level, sps, message) = Headline level message # map Location sps"

definition report_lines :: "remark list \<Rightarrow> report_line list" where
  "report_lines remarks = concat (map remark_lines remarks)"

text \<open>
  Where a span is shown: at its own definition, or at that of the call site, index 1, when it has
  none, as the mixed site has not.
\<close>

definition definition_at :: "span_table \<Rightarrow> nat \<Rightarrow> real_span option" where
  "definition_at st i = (if i < length (spans st) then spans st ! i else None)"

definition shown_at :: "span_table \<Rightarrow> span \<Rightarrow> real_span option" where
  "shown_at st s = (case definition_at st (unat (span_index s)) of Some v \<Rightarrow> Some v | None \<Rightarrow> definition_at st 1)"

text \<open>Its file, and the first and last line and column, columns counted from one; and its context.\<close>

definition position_text :: "real_span \<Rightarrow> rstr" where
  "position_text v = file_path (rs_file v) @ str '':'' @ decimal (unat (fst (rs_lines v)))
     @ str '':'' @ decimal (unat (fst (rs_ofs v) + 1)) @ str '': '' @ decimal (unat (snd (rs_lines v)))
     @ str '':'' @ decimal (unat (snd (rs_ofs v) + 1)) @ str '' (#'' @ decimal (unat (rs_context v)) @ str '')''"

fun line_text :: "span_table \<Rightarrow> report_line \<Rightarrow> rstr option" where
  "line_text st (Headline level message) = Some (level_debug level @ str '' '' @ message @ [c_newline])"
| "line_text st (Location s) =
     (if spans_complete st then map_option (\<lambda>v. str ''From '' @ position_text v @ [c_newline]) (shown_at st s) else None)"

text \<open>Line by line up to the first span that cannot be shown, at which the report breaks off with a panic.\<close>

fun report :: "span_table \<Rightarrow> report_line list \<Rightarrow> written" where
  "report st [] = ([], Inr ())"
| "report st (x # xs) = (case line_text st x of
     Some t \<Rightarrow> then_write (t, Inr ()) (report st xs)
   | None \<Rightarrow> (str ''From '', Inl (Panic (if spans_complete st then ''Undefined span'' else ''assertion failed: SPANS_COMPLETE''))))"

lemma then_write_prefix: "then_write (a @ fst r, snd r) b = (a @ fst (then_write r b), snd (then_write r b))"
  by (auto simp: then_write_def split: prod.split sum.split)

lemma report_append: "report st (xs @ ys) = then_write (report st xs) (report st ys)"
proof (induction xs)
  case Nil
  then show ?case by simp
next
  case (Cons x xs)
  then show ?case by (cases "line_text st x") (simp_all add: then_write_prefix)
qed

lemma entry_definition: "spans_complete st \<Longrightarrow> entry st s = Inr (definition_at st (unat (span_index s)))"
  by (simp add: entry_def definition_at_def Let_def)

lemma call_site_index: "unat (span_index 2) = 1"
  by (simp add: span_index_def)

lemma from_line_report: "from_line st s = report st [Location s]"
proof (cases "spans_complete st")
  case True
  then have "real_of st s = (case shown_at st s of Some v \<Rightarrow> Inr v | None \<Rightarrow> Inl (Panic ''Undefined span''))"
    by (auto simp: real_of_def entry_definition shown_at_def call_site_index split: option.split)
  then show ?thesis
    using True by (cases "shown_at st s") (simp_all add: from_line_def span_debug_def position_text_def with_newline_def)
next
  case False
  then show ?thesis by (simp add: from_line_def span_debug_def real_of_def entry_def)
qed

lemma from_lines_report: "from_lines st ss = report st (map Location ss)"
proof (induction ss)
  case (Cons s ss)
  then show ?case using report_append [of st "[Location s]" "map Location ss"] by (simp add: from_line_report)
qed simp

lemma own_lines_report: "own_lines st (Diagnostic p sps level message) = report st (remark_lines (level, sps, message))"
  by (simp add: own_lines_def from_lines_report with_newline_def)

lemma emit_built: "diag_emit st (built n remarks) = report st (report_lines (n # remarks))"
proof (induction remarks rule: rev_induct)
  case Nil
  obtain level sps message where n: "n = (level, sps, message)" by (cases n)
  show ?case by (simp add: n diagnostic_spanned_def own_lines_report report_lines_def)
next
  case (snoc m remarks)
  obtain level sps message where m: "m = (level, sps, message)" by (cases m)
  have "diag_emit st (built n (remarks @ [m])) = then_write (diag_emit st (built n remarks)) (report st (remark_lines m))"
    unfolding m built_snoc by (simp add: wrapped_def own_lines_report)
  also have "\<dots> = report st (report_lines (n # remarks @ [m]))"
    unfolding snoc by (simp add: report_lines_def report_append [symmetric])
  finally show ?case .
qed

lemma report_returns:
  "snd (report st xs) = Inr () \<longleftrightarrow> list_all (\<lambda>x. line_text st x \<noteq> None) xs"
proof (induction xs)
  case (Cons x xs)
  then show ?case by (cases "line_text st x") simp_all
qed simp

text \<open>
  C39. What \<open>emit\<close> writes, for every diagnostic there can be: the remarks it was made of in the order they
  were made, the first constructed one first, each its level and message and then a line for every
  span, at the position the span was defined with or, when it has no definition, at the call site's. It
  returns exactly when each of the spans is shown so: the table is frozen and the span or
  the call site is defined. Otherwise it breaks off at the first span that is not, with the panic for it.
\<close>

theorem emit_prints_chain:
  "diag_emit st (built n remarks) = report st (report_lines (n # remarks))
   \<and> (snd (diag_emit st (built n remarks)) = Inr () \<longleftrightarrow>
       list_all (\<lambda>(level, sps, message). list_all (\<lambda>s. spans_complete st
         \<and> (definition_at st (unat (span_index s)) \<noteq> None \<or> definition_at st 1 \<noteq> None)) sps) (n # remarks))"
proof -
  have "list_all (\<lambda>x. line_text st x \<noteq> None) (remark_lines m) \<longleftrightarrow> (\<lambda>(level, sps, message). list_all (\<lambda>s. spans_complete st
      \<and> (definition_at st (unat (span_index s)) \<noteq> None \<or> definition_at st 1 \<noteq> None)) sps) m" for m
    by (cases m) (auto simp: list_all_iff shown_at_def split: option.splits if_splits)
  then have "list_all (\<lambda>x. line_text st x \<noteq> None) (report_lines ms) \<longleftrightarrow> list_all (\<lambda>(level, sps, message). list_all (\<lambda>s. spans_complete st
      \<and> (definition_at st (unat (span_index s)) \<noteq> None \<or> definition_at st 1 \<noteq> None)) sps) ms" for ms
    unfolding report_lines_def by (induction ms) auto
  then show ?thesis by (simp only: emit_built report_returns simp_thms)
qed

text \<open>A warning at the mixed site, which has no position of its own, and a note on it.\<close>

theorem emit_prints_chain_witness:
  "diag_emit sample_spans (built (LevelWarning, [1], str ''old'') [(LevelNote, [3], str ''here'')]) =
     (str ''Warning old'' @ [c_newline] @ str ''From a.rs:7:1: 9:6 (#1)'' @ [c_newline]
      @ str ''Note here'' @ [c_newline] @ str ''From b.rs:3:3: 3:5 (#2)'' @ [c_newline], Inr ())"
proof -
  have "report sample_spans (report_lines [(LevelWarning, [1], str ''old''), (LevelNote, [3], str ''here'')]) =
     (str ''Warning old'' @ [c_newline] @ str ''From a.rs:7:1: 9:6 (#1)'' @ [c_newline]
      @ str ''Note here'' @ [c_newline] @ str ''From b.rs:3:3: 3:5 (#2)'' @ [c_newline], Inr ())"
    by code_simp
  then show ?thesis
    using emit_prints_chain [of sample_spans "(LevelWarning, [1], str ''old'')" "[(LevelNote, [3], str ''here'')]"] by simp
qed

end
