(* ===== verification/Dump.thy ===== *)
theory Dump
  imports Serialise
begin

text \<open>
  \<^verbatim>\<open>lib/proc_macro/tools/dump.rs\<close>: the tool that prints a token stream from standard input,
  a token per line or as text. Its two matches have no arm for the tokens the protocol gained later
  (raw literals, joins, invisible groups and fragments), so the tool does not compile against the
  protocol beside it. What a build of it would do with such a token is therefore a parameter here,
  \<open>unarmed\<close>, and every statement is about inputs without one.
\<close>

section \<open>Byte strings\<close>

definition upper_digit :: "nat \<Rightarrow> rchar" where
  "upper_digit d = (if d < 10 then 48 + d else 55 + d)"

text \<open>One byte of \<open>FmtByteString\<close>: the delete character is printed as it is.\<close>

definition fmt_byte :: "u8 \<Rightarrow> rstr" where
  "fmt_byte byte =
     (let b = unat byte in
      if b = c_backslash then [c_backslash, c_backslash]
      else if b = c_dquote then [c_backslash, c_dquote]
      else if 0x20 \<le> b \<and> b \<le> 0x7F then [b]
      else [c_backslash, c_x, upper_digit (b div 16), upper_digit (b mod 16)])"

definition fmt_byte_string :: "u8 list \<Rightarrow> rstr" where
  "fmt_byte_string bs = [c_dquote] @ concat (map fmt_byte bs) @ [c_dquote]"

section \<open>Tokens\<close>

text \<open>\<open>show\<close> is the standard library's \<open>Debug\<close> of a float.\<close>

definition dump_line :: "unicode \<Rightarrow> (f64 \<Rightarrow> rstr) \<Rightarrow> token \<Rightarrow> rstr option" where
  "dump_line u show t = (case t of
      EndOfStream \<Rightarrow> Some (with_newline (str ''EOS''))
    | Symbol s \<Rightarrow> Some (with_newline (str ''SYM '' @ s))
    | Ident s \<Rightarrow> Some (with_newline (str ''IDENT '' @ s))
    | Lifetime s \<Rightarrow> Some (with_newline (str ''LIFETIME '' @ s))
    | StringTok s \<Rightarrow> Some (with_newline (str ''STRING '' @ str_debug u s))
    | ByteString s \<Rightarrow> Some (with_newline (str ''BYTESTRING '' @ fmt_byte_string s))
    | CharTok c \<Rightarrow> Some (with_newline (str ''CHAR '' @ char_debug u c))
    | Unsigned val ty \<Rightarrow> Some (with_newline (str ''UNSIGNED '' @ decimal (unat val) @ str '' ty='' @ decimal (unat ty)))
    | Signed val ty \<Rightarrow> Some (with_newline (str ''SIGNED '' @ decimal_int (sint val) @ str '' ty='' @ decimal (unat ty)))
    | Float val ty \<Rightarrow> Some (with_newline (str ''FLOAT '' @ show val @ str '' ty='' @ decimal (unat ty)))
    | SpanRef i \<Rightarrow> Some (with_newline (str ''SPAN#'' @ decimal (unat i)))
    | SpanDef sd \<Rightarrow> Some (with_newline (str ''SPAN='' @ decimal (unat (idx sd)) @ str ''(...)''))
    | _ \<Rightarrow> None)"

definition dump_pretty :: "unicode \<Rightarrow> (f64 \<Rightarrow> rstr) \<Rightarrow> token \<Rightarrow> rstr option" where
  "dump_pretty u show t = (case t of
      EndOfStream \<Rightarrow> Some (str ''-EOS-'')
    | Symbol s \<Rightarrow> Some (s @ [c_space])
    | Ident s \<Rightarrow> Some (s @ [c_space])
    | Lifetime s \<Rightarrow> Some ([c_squote] @ s @ [c_space])
    | StringTok s \<Rightarrow> Some (str_debug u s)
    | ByteString s \<Rightarrow> Some (fmt_byte_string s)
    | CharTok c \<Rightarrow> Some ([c_squote] @ char_debug u c @ [c_squote])
    | Unsigned val ty \<Rightarrow> Some (decimal (unat val) @ str '' /*ty='' @ decimal (unat ty) @ str ''*/'')
    | Signed val ty \<Rightarrow> Some (decimal_int (sint val) @ str '' /*ty='' @ decimal (unat ty) @ str ''*/'')
    | Float val ty \<Rightarrow> Some (show val @ str '' /*ty='' @ decimal (unat ty) @ str ''*/'')
    | SpanRef i \<Rightarrow> Some (with_newline (str ''/*SPAN#'' @ decimal (unat i) @ str ''*/''))
    | SpanDef sd \<Rightarrow> Some (with_newline [])
    | _ \<Rightarrow> None)"

text \<open>The loop over the tokens. The code has nothing for a token without an arm: \<open>unarmed\<close> stands for it.\<close>

function dump_loop :: "(token \<Rightarrow> written) \<Rightarrow> (token \<Rightarrow> rstr option) \<Rightarrow> u8 list \<Rightarrow> written" where
  "dump_loop unarmed print bs = (case read_ent bs of
     Inl p \<Rightarrow> ([], Inl p)
   | Inr (None, rest) \<Rightarrow> ([], Inr ())
   | Inr (Some t, rest) \<Rightarrow>
       then_write (case print t of None \<Rightarrow> unarmed t | Some out \<Rightarrow> (out, Inr ())) (dump_loop unarmed print rest))"
  by pat_completeness auto
termination by (relation "measure (\<lambda>(unarmed, print, bs). length bs)") (auto dest: read_ent_shorter)

declare dump_loop.simps [simp del]

definition dump_token_stream :: "(token \<Rightarrow> written) \<Rightarrow> unicode \<Rightarrow> (f64 \<Rightarrow> rstr) \<Rightarrow> u8 list \<Rightarrow> written" where
  "dump_token_stream unarmed u show = dump_loop unarmed (dump_line u show)"

definition dump_token_stream_pretty :: "(token \<Rightarrow> written) \<Rightarrow> unicode \<Rightarrow> (f64 \<Rightarrow> rstr) \<Rightarrow> u8 list \<Rightarrow> written" where
  "dump_token_stream_pretty unarmed u show bs = then_write (dump_loop unarmed (dump_pretty u show) bs) (with_newline [], Inr ())"

section \<open>The command line\<close>

text \<open>The options so far: \<open>is_pretty\<close> and \<open>is_output\<close>.\<close>

type_synonym dump_options = "bool \<times> bool"

definition parse_arg :: "rstr \<Rightarrow> dump_options \<Rightarrow> dump_options result" where
  "parse_arg a opts = (case opts of (is_pretty, is_output) \<Rightarrow>
     if \<not> starts_with a (str ''-'') then Inl (Panic ''Unknown free argument'')
     else if \<not> starts_with a (str ''--'') then
       (case drop 1 a of [] \<Rightarrow> Inr opts | c # _ \<Rightarrow> Inl (Panic ''Unknown short argument''))
     else if a \<noteq> str ''--'' then
       (if a = str ''--is-output'' then Inr (is_pretty, True)
        else if a = str ''--pretty'' then Inr (True, is_output)
        else Inl (Panic ''Unknown argument''))
     else Inr opts)"

fun parse_args :: "rstr list \<Rightarrow> dump_options \<Rightarrow> dump_options result" where
  "parse_args [] opts = Inr opts"
| "parse_args (a # as) opts = and_then (parse_arg a opts) (parse_args as)"

definition dump_main :: "(token \<Rightarrow> written) \<Rightarrow> unicode \<Rightarrow> (f64 \<Rightarrow> rstr) \<Rightarrow> rstr list \<Rightarrow> u8 list \<Rightarrow> written" where
  "dump_main unarmed u show args bs = (case parse_args (drop 1 args) (False, False) of
     Inl p \<Rightarrow> ([], Inl p)
   | Inr (is_pretty, is_output) \<Rightarrow>
       (let go = (if is_pretty then dump_token_stream_pretty unarmed u show else dump_token_stream unarmed u show) in
        if is_output then
          (case bs of
             [] \<Rightarrow> ([], Inl (Panic ''called `Result::unwrap()` on an `Err` value''))
           | b # rest \<Rightarrow> if b = 0 then go rest else ([], Inl (Panic ''assertion `left == right` failed'')))
        else go bs))"

section \<open>What the tool prints\<close>

lemma upper_digit_back: "d < 16 \<Longrightarrow> to_digit 16 (upper_digit d) = Some d"
  by (auto simp: to_digit_def upper_digit_def ascii_digit_def Let_def)

lemma upper_digit_plain: "d < 16 \<Longrightarrow> upper_digit d \<noteq> c_backslash \<and> upper_digit d \<noteq> c_dquote"
  by (auto simp: upper_digit_def)

lemma piece_fmt_byte: "piece (fmt_byte b) [b]"
proof -
  have "unat b < 256" using unsigned_less [of b, where ?'a = nat] by simp
  then have "unat b div 16 < 16" "as_u8 (16 * (unat b div 16) + unat b mod 16) = b" by (simp_all add: less_mult_imp_div_less)
  then show ?thesis
    by (auto simp: piece_def fmt_byte_def Let_def unescape_head_def upper_digit_back utf8_char_def word_unat_eq_iff unat_as_u8)
qed

lemma unquoted_fmt_byte: "unquoted c_dquote (fmt_byte b @ rest) = unquoted c_dquote rest"
proof -
  have "unat b < 256" using unsigned_less [of b, where ?'a = nat] by simp
  then have "unat b div 16 < 16" by (simp add: less_mult_imp_div_less)
  then show ?thesis using upper_digit_plain by (auto simp: fmt_byte_def Let_def)
qed

interpretation dumped: escaping fmt_byte "\<lambda>b. [b]" "\<lambda>q. q = c_dquote"
  by unfold_locales (simp_all add: piece_fmt_byte unquoted_fmt_byte)

lemma fmt_bytes_back: "unescape (concat (map fmt_byte bs)) = Some bs"
proof -
  have "concat (map (\<lambda>b. [b]) bs) = bs" by (induction bs) simp_all
  then show ?thesis using dumped.text_denotes [of bs] by simp
qed

lemmas fmt_bytes_unquoted = dumped.text_unquoted [OF refl]

text \<open>The tokens the tool has an arm for.\<close>

fun has_arm :: "token \<Rightarrow> bool" where
  "has_arm (RawLiteral v) = False"
| "has_arm (Joined v) = False"
| "has_arm (OpenInvisible i) = False"
| "has_arm CloseInvisible = False"
| "has_arm (Fragment i) = False"
| "has_arm t = True"

lemma arms: "dump_line u show t \<noteq> None \<longleftrightarrow> has_arm t" "dump_pretty u show t \<noteq> None \<longleftrightarrow> has_arm t"
  by (cases t; simp add: dump_line_def dump_pretty_def)+

lemma dump_loop_reads:
  "read_all bs = Inr ts \<Longrightarrow> list_all (\<lambda>t. print t \<noteq> None) ts \<Longrightarrow>
   dump_loop unarmed print bs = (concat (map (the \<circ> print) ts), Inr ())"
proof (induction bs arbitrary: ts rule: read_all.induct)
  case (1 bs)
  then obtain x rest where r: "read_ent bs = Inr (x, rest)" by (subst (asm) read_all.simps) auto
  show ?case
  proof (cases x)
    case None
    then have "ts = []" using "1.prems"(1) r by (subst (asm) read_all.simps) simp
    then show ?thesis using r None by (subst dump_loop.simps) simp
  next
    case (Some t)
    then obtain ts' where ts: "read_all rest = Inr ts'" "ts = t # ts'"
      using "1.prems"(1) r by (subst (asm) read_all.simps) auto
    then have rest: "dump_loop unarmed print rest = (concat (map (the \<circ> print) ts'), Inr ())"
      by (intro "1.IH" [OF r refl Some]) (use "1.prems"(2) in simp_all)
    obtain out where "print t = Some out" using "1.prems"(2) ts(2) by auto
    then show ?thesis using r Some ts(2) by (subst dump_loop.simps) (simp add: rest)
  qed
qed

text \<open>
  C40. On any input that the protocol's reader reads as tokens the tool has arms for, that is all but
  raw literals, joins, invisible groups and fragments, it prints exactly the line of each token in order and
  returns; with \<open>--pretty\<close> their texts and a newline; and with \<open>--is-output\<close> the same behind the zero byte
  of a reply. What stands in for the missing arms plays no part.
\<close>

theorem dump_prints_tokens:
  assumes "read_all bs = Inr ts" "list_all has_arm ts"
  shows "dump_main unarmed u show [exe] bs = (concat (map (the \<circ> dump_line u show) ts), Inr ())
    \<and> dump_main unarmed u show [exe, str ''--pretty''] bs = (concat (map (the \<circ> dump_pretty u show) ts) @ [10], Inr ())
    \<and> dump_main unarmed u show [exe, str ''--is-output''] (0 # bs) = (concat (map (the \<circ> dump_line u show) ts), Inr ())"
proof -
  have p: "list_all (\<lambda>t. dump_line u show t \<noteq> None) ts" "list_all (\<lambda>t. dump_pretty u show t \<noteq> None) ts"
    using assms(2) unfolding arms by simp_all
  have "parse_arg (str ''--pretty'') (False, False) = Inr (True, False)" "parse_arg (str ''--is-output'') (False, False) = Inr (False, True)"
    by (simp_all add: parse_arg_def starts_with_def str_def)
  then show ?thesis
    using dump_loop_reads [OF assms(1) p(1), of unarmed] dump_loop_reads [OF assms(1) p(2), of unarmed]
    by (simp add: dump_main_def dump_token_stream_def dump_token_stream_pretty_def with_newline_def)
qed

text \<open>
  The tool's byte strings say what the bytes are: between the quotes, which nothing inside them
  can be taken for, stands a body that denotes exactly the bytes.
\<close>

theorem fmt_byte_string_denotes:
  "\<exists>body. fmt_byte_string bs = [c_dquote] @ body @ [c_dquote] \<and> unquoted c_dquote body \<and> unescape body = Some bs"
  using fmt_bytes_back fmt_bytes_unquoted by (auto simp: fmt_byte_string_def)

theorem dump_prints_tokens_witness:
  "dump_main (\<lambda>_. ([], Inr ())) ascii_only (\<lambda>_. []) [str ''dump''] (concat (map write_ent [Ident [97], Symbol [43], EndOfStream]))
     = (str ''IDENT a'' @ [10] @ str ''SYM +'' @ [10] @ str ''EOS'' @ [10], Inr ())"
proof -
  have "list_all token_ok [Ident [97], Symbol [43], EndOfStream]"
    by (simp add: str_ok_def utf8_def utf8_char_def scalar_value_def)
  then have r: "read_all (concat (map write_ent [Ident [97], Symbol [43], EndOfStream])) = Inr [Ident [97], Symbol [43], EndOfStream]"
    by (rule read_all_concat)
  have "list_all has_arm [Ident [97], Symbol [43], EndOfStream]" by simp
  from dump_prints_tokens [OF r this, of "\<lambda>_. ([], Inr ())" ascii_only "\<lambda>_. []" "str ''dump''"] show ?thesis
    by (simp add: dump_line_def with_newline_def str_def)
qed

end
