(* ===== verification/Client.thy ===== *)
theory Client
  imports LexBack Streams
begin

text \<open>
  What a macro of this repository uses of \<^verbatim>\<open>proc_macro\<close> and of the standard library's strings,
  on stream values (theory Streams shows the handles to denote them). A macro returns, unwinds
  with a panic, or hangs in the lexer; a \<open>LexError\<close> is a value it can inspect.
\<close>

section \<open>Results\<close>

type_synonym 'a client = "lex_fail + 'a" \<comment> \<open>never a \<open>LexError\<close>\<close>

definition panics :: "string \<Rightarrow> 'a client" where
  "panics msg = Inl (LexPanic (Panic msg))"

definition unwrapped :: "'a lexed \<Rightarrow> 'a client" where
  "unwrapped r = (case r of Inl (LexError e) \<Rightarrow> panics ''called Result::unwrap() on an Err value'' | _ \<Rightarrow> r)"

definition is_err :: "'a lexed \<Rightarrow> bool client" where
  "is_err r = (case r of Inl (LexError e) \<Rightarrow> Inr True | Inl f \<Rightarrow> Inl f | Inr x \<Rightarrow> Inr False)"

definition some_unwrapped :: "'a option \<Rightarrow> 'a client" where
  "some_unwrapped x = panicking (expect_some ''called Option::unwrap() on a None value'' x)"

definition asserted :: "bool \<Rightarrow> unit client" where
  "asserted b = (if b then Inr () else panics ''assertion failed'')"

fun map_client :: "('a \<Rightarrow> 'b client) \<Rightarrow> 'a list \<Rightarrow> 'b list client" where
  "map_client f [] = Inr []"
| "map_client f (x # xs) = and_then (f x) (\<lambda>y. and_then (map_client f xs) (\<lambda>ys. Inr (y # ys)))"

lemma map_client_cong [fundef_cong]:
  "xs = ys \<Longrightarrow> (\<And>x. x \<in> set ys \<Longrightarrow> f x = g x) \<Longrightarrow> map_client f xs = map_client g ys"
  by (induction ys arbitrary: xs) auto

lemma map_client_Inr:
  "map_client f xs = Inr ys \<longleftrightarrow> list_all2 (\<lambda>x y. f x = Inr y) xs ys"
  by (induction xs arbitrary: ys) (auto simp: list_all2_Cons1)

section \<open>Streams and trees\<close>

abbreviation tree_of :: "stream token_tree \<Rightarrow> stream" where
  "tree_of t \<equiv> from_trees [t]"

text \<open>\<open>into_iter\<close>: the trees, as \<open>IntoIter::next\<close> hands them out.\<close>

fun handed :: "'s token_tree \<Rightarrow> 's token_tree" where
  "handed (TGroup g) = TGroup (Group (delimiter g) (group_stream g) (group_spans g) 0)"
| "handed t = t"

definition items :: "stream \<Rightarrow> stream token_tree list" where
  "items s = map handed (trees s)"

lemma iter_next_handed: "iter_next [] = (None, [])" "iter_next (t # it) = (Some (handed t), it)"
  by (cases t; simp)+

text \<open>\<open>Extend\<close> with trees.\<close>

definition extend_items :: "stream \<Rightarrow> stream token_tree list \<Rightarrow> stream" where
  "extend_items v ts = (if ts = [] then v else Stream (trees v @ ts) [])"

definition parse_stream :: "unicode \<Rightarrow> rstr \<Rightarrow> stream client" where
  "parse_stream u v = unwrapped (stream_from_str u True v)"

text \<open>The constructors, inside a running macro.\<close>

definition new_group :: "delimiter \<Rightarrow> stream \<Rightarrow> stream token_tree client" where
  "new_group d s = panicking (and_then (group_new True d s) (\<lambda>g. Inr (TGroup g)))"

definition new_ident :: "unicode \<Rightarrow> rstr \<Rightarrow> span \<Rightarrow> stream token_tree client" where
  "new_ident u name sp = panicking (and_then (ident_new u name sp) (\<lambda>i. Inr (TIdent i)))"

definition new_punct :: "rchar \<Rightarrow> spacing \<Rightarrow> stream token_tree client" where
  "new_punct c sp = panicking (and_then (punct_new True c sp) (\<lambda>p. Inr (TPunct p)))"

definition new_string :: "unicode \<Rightarrow> rstr \<Rightarrow> stream token_tree client" where
  "new_string u s = panicking (and_then (lit_string u True s) (\<lambda>l. Inr (TLiteral l)))"

definition call_site_now :: "span client" where
  "call_site_now = panicking (call_site True)"

lemma panicking_simps [simp]: "panicking (Inr x) = Inr x" "panicking (Inl p) = Inl (LexPanic p)"
  by (simp_all add: panicking_def)

lemma call_site_now [simp]: "call_site_now = Inr 2"
  by (simp add: call_site_now_def call_site_def require_available_def from_raw_def)

lemma new_group_Inr [simp]: "new_group d s = Inr (TGroup (Group d s (delim_span_from_single 2) 0))"
  by (simp add: new_group_def group_new_def call_site_def require_available_def from_raw_def)

lemma size_handed [simp]: "size_token_tree size (handed t) = size_token_tree size t"
  by (cases t) simp_all

lemma trees_size_items [simp]: "trees_size (items s) = trees_size (trees s)"
  by (simp add: items_def size_list_map comp_def)

lemma items_smaller: "trees_size (items s) < size s"
  using trees_smaller [of s] by simp

section \<open>The environment\<close>

text \<open>
  \<^verbatim>\<open>tracked_env.rs\<close> and \<^verbatim>\<open>tracked_path.rs\<close>: the environment of the process is a parameter, a name's
  value or the bytes of one that is not text. Nothing is reported to the compiler.
\<close>

datatype var_error = NotPresent | NotUnicode "u8 list"

definition tracked_var :: "(rstr \<Rightarrow> (u8 list + rstr) option) \<Rightarrow> rstr \<Rightarrow> var_error + rstr" where
  "tracked_var process_env key = (case process_env key of
     None \<Rightarrow> Inl NotPresent | Some (Inl bytes) \<Rightarrow> Inl (NotUnicode bytes) | Some (Inr v) \<Rightarrow> Inr v)"

definition tracked_path :: "rstr \<Rightarrow> unit" where
  "tracked_path p = ()"

section \<open>Strings\<close>

definition trim :: "unicode \<Rightarrow> rstr \<Rightarrow> rstr" where
  "trim u s = rev (dropWhile (is_whitespace u) (rev (dropWhile (is_whitespace u) s)))"

definition trim_matches :: "rchar \<Rightarrow> rstr \<Rightarrow> rstr" where
  "trim_matches c s = rev (dropWhile ((=) c) (rev (dropWhile ((=) c) s)))"

fun contains :: "rstr \<Rightarrow> rstr \<Rightarrow> bool" where
  "contains [] p \<longleftrightarrow> p = []"
| "contains (c # s) p \<longleftrightarrow> take (length p) (c # s) = p \<or> contains s p"

abbreviation (input) c_amp :: rchar where "c_amp \<equiv> 38"
abbreviation (input) c_lt :: rchar where "c_lt \<equiv> 60"
abbreviation (input) c_gt :: rchar where "c_gt \<equiv> 62"
abbreviation (input) c_semi :: rchar where "c_semi \<equiv> 59"
abbreviation (input) c_comma :: rchar where "c_comma \<equiv> 44"
abbreviation (input) c_bang :: rchar where "c_bang \<equiv> 33"
abbreviation (input) c_bar :: rchar where "c_bar \<equiv> 124"
abbreviation (input) c_colon :: rchar where "c_colon \<equiv> 58"
abbreviation (input) c_s :: rchar where "c_s \<equiv> 115"

fun join :: "rstr \<Rightarrow> rstr list \<Rightarrow> rstr" where
  "join sep [] = []"
| "join sep [s] = s"
| "join sep (s # t # ss) = s @ sep @ join sep (t # ss)"

lemma contains_iff: "contains s p \<longleftrightarrow> (\<exists>a b. s = a @ p @ b)"
proof (induction s)
  case (Cons c s)
  have "take (length p) (c # s) = p \<longleftrightarrow> (\<exists>b. c # s = p @ b)"
    by (metis append_take_drop_id append_eq_conv_conj)
  then show ?case using Cons by (auto simp: Cons_eq_append_conv) 
qed auto

end
