(* ===== verification/Macros.thy ===== *)
theory Macros
  imports Client
begin

text \<open>
  The macros of \<^verbatim>\<open>tst/unit/aux/proc_macro_item_passthrough.rs\<close>, with which the units of the
  repository observe what reaches a macro and what comes back: each is a function on streams over
  the library of theory Client, with the assertions it makes as panics.
\<close>

section \<open>Handing the input back\<close>

definition echo :: "stream \<Rightarrow> stream client" where
  "echo input = Inr input"

definition echo_item :: "stream \<Rightarrow> stream \<Rightarrow> stream client" where
  "echo_item attribute item = Inr item"

definition echo_item_spelled :: "unicode \<Rightarrow> stream \<Rightarrow> stream \<Rightarrow> stream client" where
  "echo_item_spelled u attribute item =
     (let quoted = stream_display attribute; expected = trim_matches c_dquote (trim u quoted); shown = stream_display item in
      and_then (asserted (contains shown expected)) (\<lambda>_. Inr item))"

definition echo_item_spelled_compact :: "unicode \<Rightarrow> stream \<Rightarrow> stream \<Rightarrow> stream client" where
  "echo_item_spelled_compact u attribute item =
     (let quoted = stream_display attribute;
          expected = filter (\<lambda>c. \<not> is_whitespace u c) (trim_matches c_dquote (trim u quoted));
          shown = filter (\<lambda>c. \<not> is_whitespace u c) (stream_display item) in
      and_then (asserted (contains shown expected)) (\<lambda>_. Inr item))"

definition reemit :: "stream \<Rightarrow> stream client" where
  "reemit input = Inr (from_trees (items input))"

definition helper_forward_visited :: "stream \<Rightarrow> stream \<Rightarrow> stream client" where
  "helper_forward_visited attribute item = Inr item"

section \<open>Parentheses the source did not need\<close>

fun is_punct :: "stream token_tree option \<Rightarrow> rchar \<Rightarrow> bool" where
  "is_punct (Some (TPunct p)) c \<longleftrightarrow> punct_as_char p = c"
| "is_punct _ c \<longleftrightarrow> False"

fun is_ident :: "stream token_tree option \<Rightarrow> rstr \<Rightarrow> bool" where
  "is_ident (Some (TIdent i)) name \<longleftrightarrow> ident_display i = name"
| "is_ident _ name \<longleftrightarrow> False"

definition first_of :: "'a list \<Rightarrow> 'a option" where
  "first_of xs = (case xs of [] \<Rightarrow> None | x # _ \<Rightarrow> Some x)"

definition parens_needed :: "stream token_tree option \<Rightarrow> stream token_tree option \<Rightarrow> stream group \<Rightarrow> bool" where
  "parens_needed before previous g =
     (let inner = items (group_stream g);
          after_pointer = is_punct previous c_amp \<or>
            (is_ident previous (str ''mut'') \<or> is_ident previous (str ''const'')) \<and> (is_punct before c_amp \<or> is_punct before c_star);
          opens_dyn = is_ident (first_of inner) (str ''dyn'');
          several_bounds = list_ex (\<lambda>t. is_punct (Some t) c_plus) inner in
      \<not> (after_pointer \<or> opens_dyn) \<or> several_bounds)"

text \<open>\<open>walk\<close>: the tokens from index \<open>i\<close> on, with those at \<open>i - 2\<close> and \<open>i - 1\<close>.\<close>

function parens_walk :: "stream \<Rightarrow> unit client"
  and parens_tokens :: "stream token_tree option \<Rightarrow> stream token_tree option \<Rightarrow> stream token_tree list \<Rightarrow> unit client" where
  "parens_walk stream = parens_tokens None None (items stream)"
| "parens_tokens before previous [] = Inr ()"
| "parens_tokens before previous (TGroup g # ts) =
     and_then (if delimiter g = Parenthesis then asserted (parens_needed before previous g) else Inr ()) (\<lambda>_.
     and_then (parens_walk (group_stream g)) (\<lambda>_.
     parens_tokens previous (Some (TGroup g)) ts))"
| "parens_tokens before previous (TIdent i # ts) = parens_tokens previous (Some (TIdent i)) ts"
| "parens_tokens before previous (TPunct p # ts) = parens_tokens previous (Some (TPunct p)) ts"
| "parens_tokens before previous (TLiteral l # ts) = parens_tokens previous (Some (TLiteral l)) ts"
  by pat_completeness auto
termination
  by (relation "measure (case_sum size (\<lambda>(_, _, ts). trees_size ts))") (auto simp: items_smaller trees_smaller)

definition echo_item_without_added_type_parens :: "stream \<Rightarrow> stream \<Rightarrow> stream client" where
  "echo_item_without_added_type_parens attribute item = and_then (parens_walk item) (\<lambda>_. Inr item)"

section \<open>Raw identifiers and literals\<close>

definition raw_member :: "unicode \<Rightarrow> stream \<Rightarrow> stream client" where
  "raw_member u input =
     and_then (new_punct c_dot Alone) (\<lambda>dot.
     and_then call_site_now (\<lambda>sp.
     and_then (panicking (ident_new_raw u (str ''fn'') sp)) (\<lambda>name.
     Inr (from_trees (items input @ [dot, TIdent name])))))"

definition raw_name :: "unicode \<Rightarrow> stream \<Rightarrow> stream client" where
  "raw_name u input =
     and_then (some_unwrapped (first_of (items input))) (\<lambda>t.
     and_then (new_string u (tree_display t)) (\<lambda>l. Inr (tree_of l)))"

definition token_texts :: "unicode \<Rightarrow> stream \<Rightarrow> stream client" where
  "token_texts u input =
     and_then (new_string u (join (str '' '') (map tree_display (items input)))) (\<lambda>l. Inr (tree_of l))"

definition literal_from_text :: "unicode \<Rightarrow> stream \<Rightarrow> stream client" where
  "literal_from_text u input =
     (let quoted = stream_display input; v = trim_matches c_dquote (trim u quoted) in
      and_then (unwrapped (literal_from_str u True v)) (\<lambda>literal.
      and_then (is_err (literal_from_str u True (str ''- 5''))) (\<lambda>a.
      and_then (asserted a) (\<lambda>_.
      and_then (is_err (literal_from_str u True [c_minus, c_dquote, c_s, c_dquote])) (\<lambda>b.
      and_then (asserted b) (\<lambda>_. Inr (tree_of (TLiteral literal))))))))"

definition reparse_literals :: "unicode \<Rightarrow> stream \<Rightarrow> stream client" where
  "reparse_literals u input =
     and_then (map_client (\<lambda>token. case token of
         TLiteral literal \<Rightarrow> and_then (unwrapped (literal_from_str u True (literal_display literal))) (\<lambda>l. Inr (TLiteral l))
       | other \<Rightarrow> Inr other) (items input)) (\<lambda>ts. Inr (from_trees ts))"

definition tree_shape :: "stream token_tree \<Rightarrow> rstr" where
  "tree_shape tree = (case tree of
     TIdent _ \<Rightarrow> str ''ident'' | TPunct _ \<Rightarrow> str ''punct'' | TLiteral _ \<Rightarrow> str ''literal''
   | TGroup g \<Rightarrow> (case delimiter g of NoDelimiter \<Rightarrow> str ''none'' | Parenthesis \<Rightarrow> str ''paren''
       | Bracket \<Rightarrow> str ''bracket'' | Brace \<Rightarrow> str ''brace''))"

definition tree_shapes :: "unicode \<Rightarrow> stream \<Rightarrow> stream client" where
  "tree_shapes u input =
     and_then (new_string u (join (str '' '') (map tree_shape (items input)))) (\<lambda>l. Inr (tree_of l))"

section \<open>Tokens of the macro's own\<close>

definition made_unsafe_items :: "unicode \<Rightarrow> stream \<Rightarrow> stream client" where
  "made_unsafe_items u input =
     parse_stream u (str ''unsafe fn made_unsafe() -> u8 { 3 } fn call_made() -> u8 { unsafe { made_unsafe() } }'')"

definition hex_escaped_char :: "unicode \<Rightarrow> stream \<Rightarrow> stream client" where
  "hex_escaped_char u input = parse_stream u [c_squote, c_backslash, c_x, 52, 49, c_squote]"

definition made_crate_macro :: "unicode \<Rightarrow> stream \<Rightarrow> stream client" where
  "made_crate_macro u input = parse_stream u (str ''macro_rules! call_helper { () => { $crate::helper() } }'')"

definition call_crate_helper :: "unicode \<Rightarrow> stream \<Rightarrow> stream client" where
  "call_crate_helper u item = parse_stream u (str ''macro_rules! call_crate_helper { () => { $crate::crate_helper() } }'')"

definition joint_punct_before_group :: "unicode \<Rightarrow> stream \<Rightarrow> stream client" where
  "joint_punct_before_group u input =
     and_then (parse_stream u (str ''allow(dead_code)'')) (\<lambda>allow.
     and_then (new_group Bracket allow) (\<lambda>attribute.
     and_then (new_punct c_hash Joint) (\<lambda>hash.
     let tokens = from_trees [hash, attribute] in
     and_then (parse_stream u (str ''fn joint_made() -> u8 { 5 } const JOINT_END: u8 = 6'')) (\<lambda>made.
     let tokens = extend_items tokens (items made) in
     and_then (new_punct c_semi Joint) (\<lambda>semi. Inr (extend_items tokens [semi]))))))"

text \<open>The name of the item: the first identifier after a keyword that is itself one of the last two.\<close>

fun name_after :: "(rstr \<Rightarrow> bool) \<Rightarrow> bool \<Rightarrow> stream token_tree list \<Rightarrow> rstr option" where
  "name_after keyword after_keyword [] = None"
| "name_after keyword after_keyword (TIdent i # ts) =
     (if after_keyword then Some (ident_display i) else name_after keyword (keyword (ident_display i)) ts)"
| "name_after keyword after_keyword (t # ts) = name_after keyword after_keyword ts"

definition test_attribute :: "unicode \<Rightarrow> stream \<Rightarrow> stream \<Rightarrow> stream client" where
  "test_attribute u attribute item =
     and_then (some_unwrapped (name_after (\<lambda>s. s = str ''fn'') False (items item))) (\<lambda>name.
     parse_stream u (str ''#[::core::prelude::v1::test] fn '' @ name @ str ''() {}''))"

definition helper_forward :: "unicode \<Rightarrow> stream \<Rightarrow> stream \<Rightarrow> stream client" where
  "helper_forward u attribute item =
     and_then (parse_stream u (str ''#[derive(HelperForward)] #[helper_forward('' @ stream_display attribute
       @ str '')] #[helper_forward_visited]'')) (\<lambda>s.
     Inr (extend_items s (items item)))"

definition helper_forward_derive :: "unicode \<Rightarrow> stream \<Rightarrow> stream client" where
  "helper_forward_derive u item =
     and_then (some_unwrapped (name_after (\<lambda>s. s = str ''struct'' \<or> s = str ''enum'' \<or> s = str ''union'') False (items item)))
       (\<lambda>name. parse_stream u (str ''impl '' @ name @ str '' { fn helper_forward_seen() -> u8 { 1 } }''))"

section \<open>Pasting identifiers\<close>

text \<open>\<open>joined\<close>: a bracket group whose first and last tokens are angle brackets is the identifiers inside as one.\<close>

definition angle_group :: "stream group \<Rightarrow> bool" where
  "angle_group g \<longleftrightarrow> delimiter g = Bracket \<and> items (group_stream g) \<noteq> []
     \<and> is_punct (Some (hd (items (group_stream g)))) c_lt \<and> is_punct (Some (last (items (group_stream g)))) c_gt"

definition joined_name :: "stream token_tree list \<Rightarrow> rstr" where
  "joined_name tokens = concat (map (\<lambda>t. case t of TIdent i \<Rightarrow> ident_display i | _ \<Rightarrow> []) (butlast (tl tokens)))"

definition joined :: "unicode \<Rightarrow> stream group \<Rightarrow> stream token_tree option client" where
  "joined u g =
     (if \<not> angle_group g then Inr None
      else and_then (new_ident u (joined_name (items (group_stream g))) (group_span g)) (\<lambda>t. Inr (Some t)))"

function paste_walk :: "unicode \<Rightarrow> stream \<Rightarrow> stream client"
  and paste_trees :: "unicode \<Rightarrow> stream token_tree list \<Rightarrow> stream token_tree list client" where
  "paste_walk u input = and_then (paste_trees u (items input)) (\<lambda>ts. Inr (from_trees ts))"
| "paste_trees u [] = Inr []"
| "paste_trees u (TGroup g # ts) =
     and_then (joined u g) (\<lambda>name. case name of
         Some ident \<Rightarrow> and_then (paste_trees u ts) (\<lambda>ts. Inr (ident # ts))
       | None \<Rightarrow> and_then (paste_walk u (group_stream g)) (\<lambda>inner.
           and_then (new_group (delimiter g) inner) (\<lambda>rebuilt.
           and_then (paste_trees u ts) (\<lambda>ts. Inr (tree_set_span (group_span g) rebuilt # ts)))))"
| "paste_trees u (TIdent i # ts) = and_then (paste_trees u ts) (\<lambda>ts. Inr (TIdent i # ts))"
| "paste_trees u (TPunct p # ts) = and_then (paste_trees u ts) (\<lambda>ts. Inr (TPunct p # ts))"
| "paste_trees u (TLiteral l # ts) = and_then (paste_trees u ts) (\<lambda>ts. Inr (TLiteral l # ts))"
  by pat_completeness auto
termination
  by (relation "measure (case_sum (\<lambda>(_, s). size s) (\<lambda>(_, ts). trees_size ts))") (auto simp: items_smaller trees_smaller)

definition paste_idents :: "unicode \<Rightarrow> stream \<Rightarrow> stream client" where
  "paste_idents u input = paste_walk u input"

text \<open>No paste group at any depth, groups without one left being unwrapped by \<open>into_iter\<close> as they are.\<close>

function pasted :: "stream \<Rightarrow> bool" and pasted_trees :: "stream token_tree list \<Rightarrow> bool" where
  "pasted s \<longleftrightarrow> pasted_trees (trees s)"
| "pasted_trees [] \<longleftrightarrow> True"
| "pasted_trees (TGroup g # ts) \<longleftrightarrow> \<not> angle_group g \<and> pasted (group_stream g) \<and> pasted_trees ts"
| "pasted_trees (TIdent i # ts) \<longleftrightarrow> pasted_trees ts"
| "pasted_trees (TPunct p # ts) \<longleftrightarrow> pasted_trees ts"
| "pasted_trees (TLiteral l # ts) \<longleftrightarrow> pasted_trees ts"
  by pat_completeness auto
termination
  by (relation "measure (case_sum size trees_size)") (auto simp: trees_smaller)

text \<open>Pasting keeps the puncts where they are, so no group becomes a paste group on the way.\<close>

definition same_punct :: "stream token_tree \<Rightarrow> stream token_tree \<Rightarrow> bool" where
  "same_punct t t' \<longleftrightarrow> (\<forall>c. is_punct (Some t) c = is_punct (Some t') c)"

lemma same_punct_handed [simp]: "is_punct (Some (handed t)) c = is_punct (Some t) c"
  by (cases t) simp_all

lemma angle_group_cong:
  assumes "list_all2 same_punct (items (group_stream g)) (items (group_stream h))" "delimiter g = delimiter h"
  shows "angle_group g = angle_group h"
proof (cases "items (group_stream g) = []")
  case True
  then show ?thesis using assms by (simp add: angle_group_def)
next
  case False
  let ?xs = "items (group_stream g)" and ?ys = "items (group_stream h)"
  have l: "length ?xs = length ?ys" using assms(1) by (rule list_all2_lengthD)
  then have "?ys \<noteq> []" using False by auto
  have "same_punct (hd ?xs) (hd ?ys)" "same_punct (last ?xs) (last ?ys)"
    using list_all2_nthD [OF assms(1)] False \<open>?ys \<noteq> []\<close> l by (simp_all add: hd_conv_nth last_conv_nth)
  then show ?thesis using False \<open>?ys \<noteq> []\<close> assms(2) by (simp add: angle_group_def same_punct_def)
qed

lemma new_ident_Inr: "new_ident u name sp = Inr t \<longleftrightarrow> validate_ident u name = Inr () \<and> t = TIdent \<lparr>id_sym = name, id_raw = False, id_span = sp\<rparr>"
  by (auto simp: new_ident_def ident_new_def panicking_def split: sum.splits)

lemma joined_Inr:
  "joined u g = Inr name \<longleftrightarrow> (if angle_group g then (\<exists>i. name = Some (TIdent i) \<and>
     new_ident u (joined_name (items (group_stream g))) (group_span g) = Inr (TIdent i)) else name = None)"
  by (auto simp: joined_def new_ident_Inr)

lemma items_from_trees [simp]: "items (from_trees ts) = map handed ts"
  by (simp add: items_def from_trees_def)

lemma paste_result:
  "paste_walk u s = Inr s' \<Longrightarrow> pasted s' \<and> list_all2 same_punct (items s) (trees s')"
  "paste_trees u ts = Inr ts' \<Longrightarrow> pasted_trees ts' \<and> list_all2 same_punct ts ts'"
proof (induction u s and u ts arbitrary: s' and ts' rule: paste_walk_paste_trees.induct)
  case (1 u input)
  then show ?case by (auto simp: from_trees_def)
next
  case (3 u g ts)
  show ?case
  proof (cases "angle_group g")
    case True
    obtain i rest where i: "new_ident u (joined_name (items (group_stream g))) (group_span g) = Inr (TIdent i)"
      and rest: "paste_trees u ts = Inr rest" and ts': "ts' = TIdent i # rest"
      using "3.prems" True by (auto simp: joined_def new_ident_Inr)
    have j: "joined u g = Inr (Some (TIdent i))" using True i by (simp add: joined_def)
    from "3.IH"(3) [OF j refl rest] show ?thesis by (simp add: ts' same_punct_def)
  next
    case False
    then have j: "joined u g = Inr None" by (simp add: joined_def)
    obtain inner rest where inner: "paste_walk u (group_stream g) = Inr inner" and rest: "paste_trees u ts = Inr rest"
      and ts': "ts' = TGroup (group_set_span (group_span g) (Group (delimiter g) inner (delim_span_from_single 2) 0)) # rest"
      using "3.prems" j by auto
    note walk = "3.IH"(1) [OF j refl inner] and more = "3.IH"(2) [OF j refl inner new_group_Inr rest]
    let ?h = "group_set_span (group_span g) (Group (delimiter g) inner (delim_span_from_single 2) 0)"
    have "list_all2 same_punct (items (group_stream g)) (items (group_stream ?h))"
      using walk by (simp add: items_def list.rel_map group_set_span_def same_punct_def)
    then have "angle_group g = angle_group ?h" by (rule angle_group_cong) (simp add: group_set_span_def)
    then show ?thesis using False walk more by (simp add: ts' same_punct_def group_set_span_def)
  qed
qed (auto simp: same_punct_def)

text \<open>What is pasted stays as it is: its groups are the macro's own, with one span and no joins.\<close>

lemma paste_again:
  "paste_walk u s = Inr s' \<Longrightarrow> paste_walk u s' = Inr s'"
  "paste_trees u ts = Inr ts' \<Longrightarrow> map handed ts' = ts' \<and> paste_trees u ts' = Inr ts'"
proof (induction u s and u ts arbitrary: s' and ts' rule: paste_walk_paste_trees.induct)
  case (1 u input)
  obtain ts where ts: "paste_trees u (items input) = Inr ts" "s' = from_trees ts" using "1.prems" by auto
  from "1.IH" [OF ts(1)] show ?case by (simp add: ts(2))
next
  case (3 u g ts)
  show ?case
  proof (cases "angle_group g")
    case True
    obtain i rest where i: "new_ident u (joined_name (items (group_stream g))) (group_span g) = Inr (TIdent i)"
      and rest: "paste_trees u ts = Inr rest" and ts': "ts' = TIdent i # rest"
      using "3.prems" True by (auto simp: joined_def new_ident_Inr)
    have j: "joined u g = Inr (Some (TIdent i))" using True i by (simp add: joined_def)
    from "3.IH"(3) [OF j refl rest] show ?thesis by (simp add: ts')
  next
    case False
    then have j: "joined u g = Inr None" by (simp add: joined_def)
    obtain inner rest where inner: "paste_walk u (group_stream g) = Inr inner" and rest: "paste_trees u ts = Inr rest"
      and ts': "ts' = TGroup (group_set_span (group_span g) (Group (delimiter g) inner (delim_span_from_single 2) 0)) # rest"
      using "3.prems" j by auto
    note walk = "3.IH"(1) [OF j refl inner] and more = "3.IH"(2) [OF j refl inner new_group_Inr rest]
    let ?h = "group_set_span (group_span g) (Group (delimiter g) inner (delim_span_from_single 2) 0)"
    have "pasted_trees ts'" using paste_result(2) [OF "3.prems"] by simp
    then have "joined u ?h = Inr None" by (simp add: ts' joined_def)
    then show ?thesis using walk more by (simp add: ts' group_set_span_def group_span_def delim_span_from_single_def)
  qed
qed auto

text \<open>
  C26. \<open>paste_idents\<close> does the whole job: what it returns has no paste group left at any depth, and
  pasting it again returns it unchanged.
\<close>

theorem paste_idents_complete:
  assumes "paste_idents u s = Inr s'"
  shows "pasted s' \<and> paste_idents u s' = Inr s'"
  using assms paste_result(1) paste_again(1) unfolding paste_idents_def by blast

definition paste_sample :: stream where
  "paste_sample = from_trees [TIdent \<lparr>id_sym = str ''fn'', id_raw = False, id_span = 3\<rparr>,
     TGroup (Group Parenthesis (from_trees [TGroup (Group Bracket (from_trees
       [TPunct \<lparr>punct_ch = 60, punct_joint = False, punct_span = 3\<rparr>, TIdent \<lparr>id_sym = str ''ab'', id_raw = False, id_span = 3\<rparr>,
        TIdent \<lparr>id_sym = str ''c'', id_raw = False, id_span = 3\<rparr>, TPunct \<lparr>punct_ch = 62, punct_joint = False, punct_span = 3\<rparr>])
       (delim_span_from_single 4) 0)]) (delim_span_from_single 5) 7)]"

theorem paste_idents_complete_witness:
  "\<exists>s'. paste_idents ascii_only paste_sample = Inr s' \<and> stream_display s' = str ''fn ( abc )''
    \<and> pasted s' \<and> paste_idents ascii_only s' = Inr s'"
proof -
  have "case paste_idents ascii_only paste_sample of Inr s' \<Rightarrow> stream_display s' = str ''fn ( abc )'' | _ \<Rightarrow> False" by code_simp
  then obtain s' where "paste_idents ascii_only paste_sample = Inr s'" "stream_display s' = str ''fn ( abc )''"
    by (cases "paste_idents ascii_only paste_sample") auto
  with paste_idents_complete [OF this(1)] show ?thesis by blast
qed

end
