(* ===== verification/Lex_Typed.thy ===== *)
theory Lex_Typed
  imports LexErrors SendBack
begin

text \<open>
  What the lexer makes is well formed: every token is one the writer has a notation for, at every
  depth. So a stream a macro lexes from text can be sent, and the reader gets it back.
\<close>

section \<open>Well-formed tokens\<close>

fun leaf_ok :: "stream token_tree \<Rightarrow> bool" where
  "leaf_ok (TGroup g) = False"
| "leaf_ok (TIdent i) \<longleftrightarrow> \<not> id_raw i \<and> id_sym i \<noteq> [] \<and> c_hash \<notin> set (id_sym i) \<and> id_span i = 2"
| "leaf_ok (TPunct p) \<longleftrightarrow> punct_as_char p < 128 \<and> punct_span p = 2 \<and> (punct_as_char p = c_squote \<longrightarrow> punct_joint p)"
| "leaf_ok (TLiteral l) \<longleftrightarrow> from_spelling (literal_display l) 2 = Some l"

fun is_tick :: "stream token_tree \<Rightarrow> bool" where
  "is_tick (TPunct p) \<longleftrightarrow> punct_as_char p = c_squote"
| "is_tick _ \<longleftrightarrow> False"

fun heads_ident :: "flat list \<Rightarrow> bool" where
  "heads_ident (Leaf (TIdent i) # fs) \<longleftrightarrow> True"
| "heads_ident _ \<longleftrightarrow> False"

text \<open>An apostrophe stands before an identifier.\<close>

fun flat_ok :: "flat list \<Rightarrow> bool" where
  "flat_ok [] \<longleftrightarrow> True"
| "flat_ok (Delim c # fs) \<longleftrightarrow> flat_ok fs"
| "flat_ok (Leaf t # fs) \<longleftrightarrow> leaf_ok t \<and> (is_tick t \<longrightarrow> heads_ident fs) \<and> flat_ok fs"

lemma heads_ident_append: "heads_ident fs \<Longrightarrow> heads_ident (fs @ gs)"
  by (cases fs rule: heads_ident.cases) auto

lemma flat_ok_append: "flat_ok fs \<Longrightarrow> flat_ok gs \<Longrightarrow> flat_ok (fs @ gs)"
  by (induction fs rule: flat_ok.induct) (auto simp: heads_ident_append)

lemma heads_ident_Delim: "heads_ident (fs @ Delim c # gs) \<longleftrightarrow> heads_ident fs"
  by (cases fs rule: heads_ident.cases) auto

lemma flat_ok_Delim: "flat_ok (fs @ Delim c # gs) \<longleftrightarrow> flat_ok fs \<and> flat_ok gs"
  by (induction fs rule: flat_ok.induct) (auto simp: heads_ident_Delim)

section \<open>The tokens of one turn\<close>

definition typed :: "stream token_tree list \<Rightarrow> bool" where
  "typed ts \<longleftrightarrow> flat_ok (map flat_token ts)"

lemma typed_append: "typed ts \<Longrightarrow> typed us \<Longrightarrow> typed (ts @ us)"
  by (simp add: typed_def flat_ok_append)

lemma typed_Nil [simp]: "typed []"
  by (simp add: typed_def)

lemma typed_ident [simp]: "typed [TIdent i] \<longleftrightarrow> leaf_ok (TIdent i)"
  by (simp add: typed_def)

lemma typed_literal [simp]: "typed [TLiteral l] \<longleftrightarrow> leaf_ok (TLiteral l)"
  by (simp add: typed_def)

lemma typed_punct: "leaf_ok (TPunct p) \<Longrightarrow> punct_as_char p \<noteq> c_squote \<Longrightarrow> typed (TPunct p # ts) \<longleftrightarrow> typed ts"
  by (auto simp: typed_def flat_token_def)

text \<open>A branch of the lexer pushes well-formed tokens.\<close>

definition pushes_typed :: "(stream token_tree list \<times> char_stream) lexed \<Rightarrow> bool" where
  "pushes_typed m \<longleftrightarrow> (\<forall>ts it. m = Inr (ts, it) \<longrightarrow> typed ts)"

lemma pushes_typed_if: "(b \<Longrightarrow> pushes_typed m) \<Longrightarrow> (\<not> b \<Longrightarrow> pushes_typed m') \<Longrightarrow> pushes_typed (if b then m else m')"
  by simp

lemma pushes_typed_then: "(\<And>x. m = Inr x \<Longrightarrow> pushes_typed (f x)) \<Longrightarrow> pushes_typed (and_then m f)"
  by (auto simp: pushes_typed_def)

lemma pushes_typed_simps [simp]:
  "pushes_typed (err e)" "pushes_typed (Inl x)" "pushes_typed (Inr r) \<longleftrightarrow> typed (fst r)"
  by (cases r; auto simp: pushes_typed_def err_def)+

lemma call_site_Inr: "call_site available = Inr sp \<Longrightarrow> sp = 2"
  by (auto simp: call_site_def require_available_def from_raw_def split: if_splits)

lemma spelled_typed: "spelled available s = Inr l \<Longrightarrow> leaf_ok (TLiteral l)"
  by (auto simp: spelled_def err_def dest!: call_site_Inr split: option.splits) (use from_spelling_whole in blast)

lemma push_literal_typed: "pushes_typed (push_literal available r)"
  by (cases r) (auto simp: push_literal_def simp del: leaf_ok.simps intro!: pushes_typed_then dest: spelled_typed)

lemma ident_more_hash: "\<not> ident_more u c_hash"
  by (simp add: ident_more_def is_alphanumeric_def is_alphabetic_def is_numeric_def ascii_alphabetic_def ascii_digit_def)

lemma ident_loop_chars:
  "ident_loop u it s = (name, it') \<Longrightarrow> c_hash \<notin> set s \<Longrightarrow> c_hash \<notin> set name \<and> length s \<le> length name"
proof (induction u it s rule: ident_loop.induct)
  case (1 u it s)
  show ?case
  proof (cases "\<exists>c. cs_cur it = Some c \<and> ident_more u c")
    case True
    then obtain c where c: "cs_cur it = Some c" "ident_more u c" by blast
    then have "c \<noteq> c_hash" using ident_more_hash by metis
    then show ?thesis using "1.IH" [OF c] "1.prems" c by (simp add: ident_loop.simps [of u it])
  next
    case False
    then have "ident_loop u it s = (s, it)" by (subst ident_loop.simps) (auto split: option.splits)
    then show ?thesis using "1.prems" by simp
  qed
qed

lemma mk_ident_typed: "mk_ident available name = Inr t \<Longrightarrow> name \<noteq> [] \<Longrightarrow> c_hash \<notin> set name \<Longrightarrow> \<exists>i. t = TIdent i \<and> leaf_ok t"
  by (auto simp: mk_ident_def ident_from_name_def dest!: call_site_Inr)

lemma mk_new_ident_typed: "mk_new_ident u available name = Inr t \<Longrightarrow> c_hash \<notin> set name \<Longrightarrow> \<exists>i. t = TIdent i \<and> leaf_ok t"
  by (auto simp: mk_new_ident_def ident_new_def validate_ident_def panicking_def dest!: call_site_Inr split: sum.splits if_splits)

lemma push_ident_typed:
  "name \<noteq> [] \<Longrightarrow> c_hash \<notin> set name \<Longrightarrow> pushes_typed (push_ident available (name, it))"
  by (auto simp: push_ident_def intro!: pushes_typed_then dest!: mk_ident_typed)

lemma get_ident_typed:
  assumes "c_hash \<notin> set s" "s \<noteq> [] \<or> (\<exists>c. cs_cur it = Some c \<and> ident_more u c)"
  shows "pushes_typed (and_then (get_ident u it s) (push_ident available))"
proof (rule pushes_typed_then)
  fix r assume g: "get_ident u it s = Inr r"
  obtain name it' where r: "r = (name, it')" by (cases r)
  have l: "ident_loop u it s = (name, it')" using g r by (auto simp: get_ident_def)
  have "name \<noteq> []"
  proof (cases "s = []")
    case True
    then obtain c where c: "cs_cur it = Some c" "ident_more u c" using assms(2) by auto
    have "ident_loop u (consume it) [c] = (name, it')" using l c True by (simp add: ident_loop.simps [of u it])
    moreover have "c \<noteq> c_hash" using c(2) ident_more_hash by metis
    ultimately show ?thesis using ident_loop_chars [of u "consume it" "[c]" name it'] by auto
  qed (use ident_loop_chars [OF l assms(1)] in auto)
  then show "pushes_typed (push_ident available r)"
    using push_ident_typed ident_loop_chars [OF l assms(1)] r by blast
qed

section \<open>The branches of a turn\<close>

lemma lex_lifetime_typed:
  assumes "cs_cur it = Some c" "ident_more u c"
  shows "pushes_typed (lex_lifetime u available it)"
proof -
  have "typed ([p, i])" if g: "get_ident u it [] = Inr (name, it')" and p: "mk_punct available c_squote Joint = Inr p"
    and i: "mk_ident available name = Inr i" for name it' p i
  proof -
    have "pushes_typed (push_ident available (name, it'))"
      using get_ident_typed [of "[]" it u available] assms g by (simp add: pushes_typed_def)
    then have "typed [i]" using i by (simp add: push_ident_def)
    moreover obtain i' where "i = TIdent i'" using i by (auto simp: mk_ident_def)
    ultimately show ?thesis
      using p by (auto simp: mk_punct_def typed_def flat_token_def punct_from_char_def punct_as_char_def as_u8_def is_open_def
          is_close_def dest!: call_site_Inr)
  qed
  then show ?thesis by (auto simp: lex_lifetime_def intro!: pushes_typed_then)
qed

lemma lex_quote_typed: "pushes_typed (lex_quote u available it)"
proof -
  have "pushes_typed (lex_lifetime u available it')"
    if "consume_or m it = Inr (c, it')" "is_alphabetic u c \<or> c = c_underscore" for m c it'
    using that by (intro lex_lifetime_typed [of it' c]) (auto simp: consume_or_def Let_def err_def ident_more_def is_alphanumeric_def split: option.splits)
  then show ?thesis
    by (auto simp: lex_quote_def intro!: pushes_typed_then pushes_typed_if push_literal_typed)
qed

lemma push_hashes_typed: "push_hashes available n = Inr ts \<Longrightarrow> typed ts"
proof (induction n arbitrary: ts)
  case (Suc n)
  then obtain t ts' sep where t: "mk_punct available c_hash sep = Inr t" "push_hashes available n = Inr ts'" "ts = t # ts'"
    by auto
  from t(1) obtain p where "t = TPunct p" "leaf_ok (TPunct p)" "punct_as_char p \<noteq> c_squote"
    by (auto simp: mk_punct_def punct_from_char_def punct_as_char_def as_u8_def dest!: call_site_Inr)
  with Suc.IH [OF t(2)] t(3) show ?case by (simp add: typed_punct)
qed simp

lemma lex_not_raw_typed:
  assumes "s \<noteq> []" "c_hash \<notin> set s"
  shows "pushes_typed (lex_not_raw u available s hashes it)"
proof -
  have "pushes_typed (if hashes = 0 then and_then (get_ident u it s) (push_ident available)
      else and_then (mk_new_ident u available s) (\<lambda>t. Inr ([t], it)))"
    using assms by (intro pushes_typed_if get_ident_typed pushes_typed_then) (auto dest: mk_new_ident_typed)
  then show ?thesis
    by (auto simp: lex_not_raw_def pushes_typed_def intro!: typed_append dest: push_hashes_typed)
qed

lemma lex_raw_typed:
  assumes "s \<noteq> []" "c_hash \<notin> set s"
  shows "pushes_typed (lex_raw u available s it)"
  using assms lex_not_raw_typed [OF assms]
  by (auto simp: lex_raw_def Let_def intro!: pushes_typed_if pushes_typed_then push_literal_typed dest: mk_new_ident_typed)

lemma lex_byte_char_typed: "pushes_typed (lex_byte_char available is_byte it)"
  by (auto simp: lex_byte_char_def Let_def intro!: pushes_typed_if pushes_typed_then push_literal_typed dest: mk_ident_typed
      split: option.splits)

lemma lex_after_prefix_typed:
  assumes "pf = Some c_b \<or> pf = Some c_c \<or> (pf = None \<and> (c = c_r \<or> c = c_dquote))"
  shows "pushes_typed (lex_after_prefix u available pf c it)"
proof -
  have "pushes_typed (and_then (get_ident u it (case pf of Some p \<Rightarrow> [p] | None \<Rightarrow> [])) (push_ident available))"
    if "c \<noteq> c_r" "c \<noteq> c_dquote"
    using assms that by (intro get_ident_typed) auto
  then show ?thesis
    by (auto simp: lex_after_prefix_def Let_def intro!: pushes_typed_if pushes_typed_then push_literal_typed lex_raw_typed
        lex_byte_char_typed)
qed

lemma lex_prefixed_typed:
  "c = c_b \<or> c = c_c \<or> c = c_r \<or> c = c_dquote \<Longrightarrow> pushes_typed (lex_prefixed u available it c)"
  by (auto simp: lex_prefixed_def Let_def split: option.splits intro!: lex_after_prefix_typed pushes_typed_then dest: mk_ident_typed)

lemma lex_number_typed: "pushes_typed (lex_number u available it c)"
  by (auto simp: lex_number_def Let_def split: option.splits intro!: pushes_typed_if pushes_typed_then push_literal_typed)

text \<open>Operators: every byte of the table is ASCII and none is an apostrophe.\<close>

lemma syms_ascii: "list_all (list_all (\<lambda>b. unat b < 128 \<and> unat b \<noteq> c_squote)) syms"
  by (simp add: syms_value)

lemma sym_loop_in_table: "sym_loop start e ofs it c = Inr (s, ofs', it', c') \<Longrightarrow> start < 51 \<Longrightarrow> s < 51"
proof (induction start e ofs it c rule: sym_loop.induct)
  case (1 start e ofs it c)
  define table where "table = take (e - start) (drop start syms)"
  note step = sym_loop.simps [of start e ofs it c, folded table_def, unfolded Let_def]
  have len: "ofs = length (table ! 0)" using "1.prems"(1) step by (auto split: if_splits)
  show ?case
  proof (cases "s = start")
    case False
    then obtain d where d: "cs_cur (consume it) = Some d" using "1.prems"(1) step len by (cases "cs_cur (consume it)") auto
    then obtain r where r: "position_at ofs (as_u8 d) (drop 1 table) = Inr r"
      using "1.prems"(1) step len by (cases "position_at ofs (as_u8 d) (drop 1 table)") auto
    then obtain k where k: "cs_cur (consume it) = Some d" "position_at ofs (as_u8 d) (drop 1 table) = Inr (Some k)"
      using "1.prems"(1) step len d False by (cases r) auto
    then obtain e' where e': "grow_end table ofs (as_u8 d) (start + (k + 1) + 1) = Inr e'"
      "sym_loop (start + (k + 1)) e' (ofs + 1) (consume it) d = Inr (s, ofs', it', c')"
      using "1.prems"(1) step len k by (cases "grow_end table ofs (as_u8 d) (start + (k + 1) + 1)") auto
    have "start + (k + 1) < 51"
      using position_at_Some [OF k(2)] by (auto simp: table_def length_syms)
    then show ?thesis using "1.IH" [OF table_def _ refl k(1) k(2) refl refl e'(1) e'(2)] len by simp
  qed (use "1.prems"(2) in simp)
qed

lemma push_sym_typed: "push_sym available it c bs = Inr ts \<Longrightarrow> list_all (\<lambda>b. unat b < 128 \<and> unat b \<noteq> c_squote) bs \<Longrightarrow> typed ts"
proof (induction bs arbitrary: ts)
  case (Cons b bs)
  then obtain t ts' sep where t: "mk_punct available (unat b) sep = Inr t" "push_sym available it c bs = Inr ts'" "ts = t # ts'"
    by (auto simp: Let_def)
  from t(1) Cons.prems(2) obtain p where "t = TPunct p" "leaf_ok (TPunct p)" "punct_as_char p \<noteq> c_squote"
    by (auto simp: mk_punct_def punct_from_char_def punct_as_char_def as_u8_def dest!: call_site_Inr)
  with Cons.IH [OF t(2)] Cons.prems(2) t(3) show ?case by (simp add: typed_punct)
qed simp

lemma lex_punct_typed: "pushes_typed (lex_punct available it c)"
proof -
  have "typed ts" if "position_at 0 (as_u8 c) syms = Inr (Some start)" "sym_loop start e 1 it c = Inr (s, ofs, it', c')"
    "push_sym available it' c' (syms ! s) = Inr ts" for start e s ofs it' c' ts
  proof -
    have "s < 51" using sym_loop_in_table [OF that(2)] position_at_Some [OF that(1)] by (simp add: length_syms)
    then show ?thesis using push_sym_typed [OF that(3)] syms_ascii by (simp add: list_all_length length_syms)
  qed
  then show ?thesis by (auto simp: lex_punct_def pushes_typed_def err_def split: option.splits if_splits)
qed

lemma lex_one_typed:
  assumes "cs_cur it = Some c"
  shows "pushes_typed (lex_one u available it c)"
proof -
  have "pushes_typed (lex_line_comment it)" "pushes_typed (lex_block_comment it)"
    by (auto simp: lex_line_comment_def lex_block_comment_def pushes_typed_def split: option.splits)
  moreover have "pushes_typed (and_then (get_ident u it []) (push_ident available))"
    if "is_alphabetic u c \<or> c = c_underscore"
    using that assms by (intro get_ident_typed) (auto simp: ident_more_def is_alphanumeric_def)
  moreover have "pushes_typed (Inr ([], consume it))" by simp
  ultimately show ?thesis
    unfolding lex_one_def
    by (intro pushes_typed_if lex_quote_typed lex_prefixed_typed lex_number_typed lex_punct_typed pushes_typed_simps)
      assumption+
qed

lemma lex_loop_typed: "lex_loop u available it rv = Inr ts \<Longrightarrow> typed rv \<Longrightarrow> typed ts"
proof (induction u available it rv rule: lex_loop.induct)
  case (1 u available it rv)
  show ?case
  proof (cases "cs_cur it")
    case None
    then show ?thesis using "1.prems" by (subst (asm) lex_loop.simps) simp
  next
    case (Some c)
    then obtain us it' where one: "lex_one u available it c = Inr (us, it')" "lex_loop u available it' (rv @ us) = Inr ts"
      using "1.prems" by (subst (asm) lex_loop.simps) auto
    have "typed us" using lex_one_typed [OF Some, of u available] one(1) by (simp add: pushes_typed_def)
    then show ?thesis using "1.IH" [OF Some one(1) refl one(2)] "1.prems"(2) by (simp add: typed_append)
  qed
qed

section \<open>Well-formed streams\<close>

function well_formed :: "stream token_tree list \<Rightarrow> bool" where
  "well_formed [] \<longleftrightarrow> True"
| "well_formed (TGroup g # ts) \<longleftrightarrow>
     delimiter g \<noteq> NoDelimiter \<and> group_spans g = delim_span_from_single 2 \<and> fragment g = 0
     \<and> hidden (group_stream g) = [] \<and> well_formed (trees (group_stream g)) \<and> well_formed ts"
| "well_formed (TIdent i # ts) \<longleftrightarrow> leaf_ok (TIdent i) \<and> well_formed ts"
| "well_formed (TPunct p # ts) \<longleftrightarrow>
     leaf_ok (TPunct p) \<and> \<not> is_open (punct_as_char p) \<and> \<not> is_close (punct_as_char p)
     \<and> (punct_as_char p = c_squote \<longrightarrow> (case ts of TIdent i # _ \<Rightarrow> True | _ \<Rightarrow> False)) \<and> well_formed ts"
| "well_formed (TLiteral l # ts) \<longleftrightarrow> leaf_ok (TLiteral l) \<and> well_formed ts"
  by pat_completeness auto
termination
  using trees_smaller by (relation "measure trees_size") (auto simp: less_Suc_eq trans_less_add1)

lemma heads_ident_flatten: "heads_ident (flatten ts) \<Longrightarrow> (case ts of TIdent i # _ \<Rightarrow> True | _ \<Rightarrow> False)"
  by (cases ts rule: flatten.cases) auto

lemma flat_ok_well_formed: "grouped ts \<Longrightarrow> flat_ok (flatten ts) \<Longrightarrow> well_formed ts"
  by (induction ts rule: flatten.induct) (auto simp: flat_ok_Delim dest: heads_ident_flatten)

lemma from_str_parts:
  assumes "stream_from_str u available src = Inr s"
  obtains tokens where "text_tokens u [] tokens (c_space # src)" "typed tokens" "flatten (trees s) = map flat_token tokens"
    "grouped (trees s)" "hidden s = []"
proof -
  obtain tokens ts where t: "lex_loop u available (char_stream_new src) [] = Inr tokens"
    "group_delimiters available tokens = Inr ts" "s = from_trees ts"
    using assms by (auto simp: stream_from_str_def)
  have pieces: "text_tokens u [] tokens (c_space # src)" using lex_loop_tokens [OF t(1)] by auto
  from group_delimiters_sound [OF text_tokens_leaves [OF pieces] t(2)] pieces t lex_loop_typed [OF t(1)] show thesis
    by (intro that) (auto simp: from_trees_def)
qed

lemma from_str_well_formed:
  assumes "stream_from_str u available src = Inr s"
  shows "hidden s = [] \<and> well_formed (trees s)"
  using from_str_parts [OF assms] flat_ok_well_formed by (metis typed_def)

section \<open>Sizes\<close>

text \<open>The names and literals stand in the text, and there are no more tokens than characters.\<close>

lemma leaf_display_nonempty: "leaf_ok t \<Longrightarrow> tree_display t \<noteq> []"
  by (cases t) (auto simp: ident_display_def punct_display_def from_spelling_def)

lemma flat_ok_leaves: "flat_ok fs \<Longrightarrow> Leaf t \<in> set fs \<Longrightarrow> leaf_ok t"
  by (induction fs rule: flat_ok.induct) auto

fun punct_leaf :: "stream token_tree \<Rightarrow> bool" where
  "punct_leaf (TPunct p) \<longleftrightarrow> True"
| "punct_leaf _ \<longleftrightarrow> False"

lemma flat_token_not_punct: "\<not> punct_leaf t \<Longrightarrow> flat_token t = Leaf t"
  by (cases t) simp_all

lemma typed_display_nonempty:
  assumes "typed ts" "t \<in> set ts"
  shows "tree_display t \<noteq> []"
proof (cases "punct_leaf t")
  case True
  then show ?thesis by (cases t) (simp_all add: punct_display_def)
next
  case False
  then have "Leaf t \<in> set (map flat_token ts)" using assms(2) flat_token_not_punct by (metis image_eqI image_set)
  then show ?thesis using assms(1) flat_ok_leaves leaf_display_nonempty by (auto simp: typed_def)
qed

definition inside :: "rstr \<Rightarrow> rstr \<Rightarrow> bool" where
  "inside p s \<longleftrightarrow> (\<exists>a b. s = a @ p @ b)"

lemma inside_append: "inside p s \<Longrightarrow> inside p (a @ s)" "inside p s \<Longrightarrow> inside p (s @ b)"
  unfolding inside_def by (metis append.assoc)+

lemma inside_refl [simp]: "inside p p"
  by (auto simp: inside_def intro: exI [of _ "[]"])

lemma spell_inside: "t \<in> set ts \<Longrightarrow> inside (tree_display t) (spell ts)"
  by (induction ts) (auto simp: spell_def inside_append)

lemma piece_inside: "token_piece u ts p rest \<Longrightarrow> t \<in> set ts \<Longrightarrow> \<not> punct_leaf t \<Longrightarrow> inside (tree_display t) p"
  by (induction rule: token_piece.induct) (auto intro: spell_inside)

lemma text_inside: "text_tokens u rest ts s \<Longrightarrow> t \<in> set ts \<Longrightarrow> \<not> punct_leaf t \<Longrightarrow> inside (tree_display t) s"
  by (induction rule: text_tokens.induct) (auto intro: inside_append dest: piece_inside)

lemma spell_longer: "\<forall>t \<in> set ts. tree_display t \<noteq> [] \<Longrightarrow> length ts \<le> length (spell ts)"
proof (induction ts)
  case (Cons t ts)
  then have "0 < length (tree_display t)" "length ts \<le> length (spell ts)" by auto
  then show ?case unfolding spell_simps length_append length_Cons by linarith
qed simp

lemma text_longer: "text_tokens u rest ts s \<Longrightarrow> \<forall>t \<in> set ts. tree_display t \<noteq> [] \<Longrightarrow> length ts \<le> length s"
proof (induction rule: text_tokens.induct)
  case (text_piece ts p ts' s)
  have "length ts \<le> length p" using text_piece(1,4)
  proof (induction rule: token_piece.induct)
    case (piece_text ts p rest)
    then show ?case using spell_longer [of ts] by auto
  qed auto
  then show ?case using text_piece by auto
qed simp

text \<open>
  C18. Everything \<open>TokenStream::from_str\<close> returns is well formed at every depth: identifiers are not
  empty, not raw and hold no hash, an apostrophe is joint to the identifier after it, operators
  are ASCII and no loose delimiters, a literal is what its own spelling parses to, every span is
  the call site's, and there are no invisible groups and no joins.
\<close>

theorem from_str_typed:
  assumes "stream_from_str u available src = Inr s"
  shows "hidden s = [] \<and> well_formed (trees s)"
  using from_str_well_formed [OF assms] .

theorem from_str_typed_witness:
  "\<exists>s. stream_from_str ascii_only True (str ''fn f<'' @ [c_squote] @ str ''a>(x: u8) { b.0 += 1 }'') = Inr s \<and>
     well_formed (trees s) \<and> length (trees s) = 8"
proof -
  let ?src = "str ''fn f<'' @ [c_squote] @ str ''a>(x: u8) { b.0 += 1 }''"
  have "case stream_from_str ascii_only True ?src of Inr s \<Rightarrow> length (trees s) = 8 | _ \<Rightarrow> False" by code_simp
  then obtain s where s: "stream_from_str ascii_only True ?src = Inr s" "length (trees s) = 8" by (auto split: sum.splits)
  from from_str_typed [OF s(1)] s show ?thesis by blast
qed

end
