(* ===== verification/Lex_Send.thy ===== *)
theory Lex_Send
  imports Lex_Typed
begin

text \<open>
  From text to bytes and back: a stream the lexer makes has a notation of the writer, so it can be
  sent, and the reader gets back the same trees. The lexer records no joins; the reader records
  that there are none.
\<close>

section \<open>Joins that are not recorded\<close>

function pad_trees :: "stream token_tree list \<Rightarrow> stream token_tree list" where
  "pad_trees [] = []"
| "pad_trees (TGroup g # ts) =
     TGroup (Group (delimiter g) (Stream (pad_trees (trees (group_stream g)))
       (pad_joins (hidden (group_stream g)) (length (trees (group_stream g))))) (group_spans g) (fragment g)) # pad_trees ts"
| "pad_trees (TIdent i # ts) = TIdent i # pad_trees ts"
| "pad_trees (TPunct p # ts) = TPunct p # pad_trees ts"
| "pad_trees (TLiteral l # ts) = TLiteral l # pad_trees ts"
  by pat_completeness auto
termination
  using trees_smaller by (relation "measure trees_size") (auto simp: less_Suc_eq trans_less_add1)

definition padded :: "stream \<Rightarrow> stream" where
  "padded s = Stream (pad_trees (trees s)) (pad_joins (hidden s) (length (trees s)))"

lemma length_pad_trees [simp]: "length (pad_trees ts) = length ts"
  by (induction ts rule: pad_trees.induct) auto

lemma pad_trees_Nil [simp]: "pad_trees ts = [] \<longleftrightarrow> ts = []"
  using length_pad_trees [of ts] by (metis length_0_conv)

lemma joint_run_pad:
  "joint_run chars e j i (pad_trees ts) =
    (case joint_run chars e j i ts of (chars, e, j, i, ts) \<Rightarrow> (chars, e, j, i, pad_trees ts))"
  by (induction chars e j i ts rule: joint_run.induct) auto

lemma send_pad: "send_trees st (pad_joins hs n) i (pad_trees ts) = send_trees st hs i ts"
proof (induction st hs i ts arbitrary: n rule: send_trees.induct)
  case (4 st hs i p ts)
  show ?case
  proof (cases "punct_as_char p = c_squote")
    case True
    show ?thesis
    proof (cases "\<exists>v ts'. ts = TIdent v # ts'")
      case True
      then obtain v ts' where "ts = TIdent v # ts'" by blast
      then show ?thesis using "4.IH"(1) [OF \<open>punct_as_char p = c_squote\<close>] \<open>punct_as_char p = c_squote\<close> by simp
    next
      case False
      then have "\<nexists>v ts'. pad_trees ts = TIdent v # ts'" by (cases ts rule: pad_trees.cases) auto
      then show ?thesis using \<open>punct_as_char p = c_squote\<close> False by (auto split: list.splits token_tree.splits)
    qed
  next
    case False
    then show ?thesis
      using "4.IH"(2) [OF False] "4.IH"(3) [OF False] by (auto simp: joint_run_pad split: prod.splits)
  qed
qed auto

lemma send_padded: "send_token_stream st (padded s) = send_token_stream st s"
  by (simp add: send_token_stream_def padded_def send_pad)

text \<open>The padding shows in nothing a macro sees.\<close>

lemma trees_display_pad: "trees_display first joint (pad_trees ts) = trees_display first joint ts"
proof (induction ts arbitrary: first joint rule: pad_trees.induct)
  case (2 g ts)
  have "stream_display (Stream (pad_trees (trees (group_stream g))) hs) = stream_display (group_stream g)" for hs
    using "2.IH"(1) by (cases "group_stream g") simp
  then show ?case using "2.IH"(2) by (simp add: stream_is_empty_def)
qed auto

lemma stream_display_padded: "stream_display (padded s) = stream_display s"
  by (cases s) (simp add: padded_def trees_display_pad)

section \<open>Sending what was lexed\<close>

lemma sendable_punct:
  assumes "echoes st (punct_span p)" "sendable st ts hs" "char_ok p"
    and "case ts of TPunct q # _ \<Rightarrow> punct_as_char q \<noteq> c_squote \<longrightarrow> punct_span q = punct_span p | _ \<Rightarrow> True"
    and "punct_as_char p = c_squote \<Longrightarrow> punct_joint p"
    and "punct_as_char p = c_squote \<Longrightarrow> case ts of TIdent v # _ \<Rightarrow> id_span v = punct_span p | _ \<Rightarrow> False"
  shows "sendable st (TPunct p # ts) (0 # hs)"
  unfolding sendable.simps using assms by (cases "punct_as_char p = c_squote") (simp_all only: if_True if_False, auto)

lemma well_formed_sendable:
  assumes "echoes st 2"
  shows "well_formed ts \<Longrightarrow> length (flatten ts) < 2 ^ 30 \<Longrightarrow>
    (\<And>t. Leaf t \<in> set (flatten ts) \<Longrightarrow> \<not> punct_leaf t \<Longrightarrow> str_ok (tree_display t)) \<Longrightarrow>
    sendable st (pad_trees ts) (replicate (length ts) 0) \<and> length ts \<le> length (flatten ts)"
proof (induction ts rule: well_formed.induct)
  case (2 g ts)
  then show ?case using assms by (auto simp: delim_span_from_single_def)
next
  case (3 i ts)
  have "str_ok (ident_display i)" using "3.prems"(3) [of "TIdent i"] by simp
  moreover have "\<not> starts_with (id_sym i) (str ''r#'')"
    using "3.prems"(1) in_set_takeD [of c_hash 2 "id_sym i"] by (auto simp: starts_with_def str_def numeral_2_eq_2)
  ultimately show ?case using 3 assms by (auto simp: name_ok_def)
next
  case (4 p ts)
  have p: "punct_as_char p < 128" "punct_span p = 2" "punct_as_char p = c_squote \<longrightarrow> punct_joint p"
    "\<not> is_open (punct_as_char p)" "\<not> is_close (punct_as_char p)" "well_formed ts"
    and tick: "punct_as_char p = c_squote \<longrightarrow> (\<exists>i us. ts = TIdent i # us)"
    using "4.prems"(1) by (auto split: list.splits token_tree.splits)
  have "char_ok p" using p by (auto simp: char_ok_def delimiter_list_def is_open_def is_close_def)
  moreover have "case pad_trees ts of TPunct q # _ \<Rightarrow> punct_span q = punct_span p | _ \<Rightarrow> True"
    using p by (cases ts rule: pad_trees.cases) auto
  moreover have "punct_as_char p = c_squote \<longrightarrow> (case pad_trees ts of TIdent v # _ \<Rightarrow> id_span v = punct_span p | _ \<Rightarrow> False)"
    using p tick by auto
  moreover have "sendable st (pad_trees ts) (replicate (length ts) 0) \<and> length ts \<le> length (flatten ts)"
    using "4.IH" "4.prems" p(6) by simp
  ultimately have next_ok: "char_ok p" "case pad_trees ts of TPunct q # _ \<Rightarrow> punct_span q = punct_span p | _ \<Rightarrow> True"
    "punct_as_char p = c_squote \<longrightarrow> (case pad_trees ts of TIdent v # _ \<Rightarrow> id_span v = punct_span p | _ \<Rightarrow> False)"
    "sendable st (pad_trees ts) (replicate (length ts) 0)" "length ts \<le> length (flatten ts)"
    by auto
  have "case pad_trees ts of TPunct q # _ \<Rightarrow> punct_as_char q \<noteq> c_squote \<longrightarrow> punct_span q = punct_span p | _ \<Rightarrow> True"
    using next_ok(2) by (simp split: list.splits token_tree.splits)
  from sendable_punct [OF _ next_ok(4) next_ok(1) this]
  have "sendable st (pad_trees (TPunct p # ts)) (0 # replicate (length ts) 0)"
    unfolding pad_trees.simps using p(2,3) next_ok(3) assms by metis
  then show ?case using next_ok(5) by simp
next
  case (5 l ts)
  have "str_ok (literal_display l)" using "5.prems"(3) [of "TLiteral l"] by simp
  moreover have "from_spelling (literal_display l) 2 = Some l" using "5.prems"(1) by simp
  moreover from this have "lit_span l = 2" using from_spelling_whole by blast
  ultimately have "literal_ok l" "echoes st (lit_span l)" using assms by (simp_all add: literal_ok_def)
  then show ?case using "5.IH" "5.prems" by simp
qed auto

lemma echoes_bare: "spans_complete st \<Longrightarrow> spans st = [] \<Longrightarrow> echoes st 2"
  by (simp add: echoes_def to_raw_def entry_def span_index_def from_raw_def)

lemma inside_str_ok: "inside p s \<Longrightarrow> str_ok s \<Longrightarrow> str_ok p"
  by (auto simp: inside_def str_ok_def utf8_def)

lemma lexed_sendable:
  assumes "stream_from_str u available src = Inr s" "str_ok (c_space # src)" "echoes st 2"
  shows "sendable st (trees (padded s)) (hidden (padded s))" "length (trees (padded s)) < 2 ^ 30"
proof -
  obtain tokens where t: "text_tokens u [] tokens (c_space # src)" "typed tokens" "flatten (trees s) = map flat_token tokens"
    "grouped (trees s)" "hidden s = []" using from_str_parts [OF assms(1)] .
  have wf: "well_formed (trees s)" using from_str_well_formed [OF assms(1)] by simp
  have "length tokens \<le> length (c_space # src)"
    using text_longer [OF t(1)] typed_display_nonempty [OF t(2)] by blast
  also have "\<dots> \<le> length (utf8 (c_space # src))" by (rule length_utf8)
  also have "\<dots> < 2 ^ 30" using assms(2) by (simp add: str_ok_def)
  finally have n: "length (flatten (trees s)) < 2 ^ 30" by (simp add: t(3))
  have "str_ok (tree_display l)" if "Leaf l \<in> set (flatten (trees s))" "\<not> punct_leaf l" for l
  proof -
    have "l \<in> set tokens" using that(1) t(3) by (auto simp: flat_token_Leaf eq_commute [of "Leaf l"])
    then show ?thesis using text_inside [OF t(1) _ that(2)] inside_str_ok assms(2) by blast
  qed
  from well_formed_sendable [OF assms(3) wf n this]
  show "sendable st (trees (padded s)) (hidden (padded s))" "length (trees (padded s)) < 2 ^ 30"
    using n t(5) by (simp_all add: padded_def)
qed

text \<open>
  C5. Text crosses the process boundary: whatever text the lexer accepts (below a gigabyte), the
  stream it makes can be sent, and the bytes are read back as the same trees, with every delimiter,
  identifier, literal, spacing and span, and with no joins anywhere.
\<close>

theorem lexed_stream_crosses:
  assumes "stream_from_str u True src = Inr s" "str_ok (c_space # src)" "echoes st 2"
  shows "\<exists>body. send_token_stream st s = Inr (body @ [1, 0]) \<and>
    recv_token_stream env True (body @ [0] @ rest) tb = Inr (padded s, rest, tb) \<and> stream_display (padded s) = stream_display s"
  using sent_bytes_read [OF lexed_sendable [OF assms], of env rest tb] by (auto simp: send_padded stream_display_padded)

theorem lexed_stream_crosses_witness:
  "\<exists>s body. stream_from_str ascii_only True (str ''a[1] << b'') = Inr s \<and>
    send_token_stream \<lparr>spans = [], spans_complete = True\<rparr> s = Inr (body @ [1, 0]) \<and>
    recv_token_stream sample_env True (body @ [0]) empty_spans = Inr (padded s, [], empty_spans)"
proof -
  have "case stream_from_str ascii_only True (str ''a[1] << b'') of Inr s \<Rightarrow> True | _ \<Rightarrow> False" by code_simp
  then obtain s where s: "stream_from_str ascii_only True (str ''a[1] << b'') = Inr s" by (auto split: sum.splits)
  have "str_ok (c_space # str ''a[1] << b'')" by (simp add: str_ok_def utf8_def utf8_char_def str_def scalar_value_def)
  from lexed_stream_crosses [OF s this echoes_bare, of "\<lparr>spans = [], spans_complete = True\<rparr>" sample_env "[]" empty_spans] s
  show ?thesis by auto
qed

end
