(* ===== verification/Locality.thy ===== *)
theory Locality
  imports LexErrors LexBack
begin

text \<open>
  The lexer looks no further than one character past the token it reads. So a token lexed from one
  text is lexed again from any other text that starts with its spelling and goes on with a blank,
  or not at all. Each reader of the lexer is shown to be local in this sense.
\<close>

section \<open>Readers between delimiters\<close>

text \<open>
  A reader takes \<open>w\<close> off the text behind the current character. It is steady when it does the same
  for every other text after \<open>w\<close> that satisfies \<open>P\<close>.
\<close>

definition steady_at :: "(rstr \<Rightarrow> rstr \<Rightarrow> bool) \<Rightarrow> (char_stream \<Rightarrow> ('x \<times> char_stream) lexed) \<Rightarrow> char_stream \<Rightarrow> bool" where
  "steady_at P f it0 \<longleftrightarrow> (\<forall>x it. f it0 = Inr (x, it) \<longrightarrow> (\<exists>w. cs_inner it0 = w @ cs_inner it \<and>
     (\<forall>r. P (cs_inner it) r \<longrightarrow> f (it0\<lparr>cs_inner := w @ r\<rparr>) = Inr (x, it\<lparr>cs_inner := r\<rparr>))))"

abbreviation any_rest :: "rstr \<Rightarrow> rstr \<Rightarrow> bool" where
  "any_rest r0 r \<equiv> True"

definition same_next :: "rstr \<Rightarrow> rstr \<Rightarrow> bool" where
  "same_next r0 r \<longleftrightarrow> (\<exists>d y y'. r0 = d # y \<and> r = d # y')"

lemma steady_atI:
  "(\<And>x it. f it0 = Inr (x, it) \<Longrightarrow> \<exists>w. cs_inner it0 = w @ cs_inner it \<and>
     (\<forall>r. P (cs_inner it) r \<longrightarrow> f (it0\<lparr>cs_inner := w @ r\<rparr>) = Inr (x, it\<lparr>cs_inner := r\<rparr>))) \<Longrightarrow> steady_at P f it0"
  by (simp add: steady_at_def)

lemma steady_atE:
  assumes "steady_at P f it0" "f it0 = Inr (x, it)"
  obtains w where "cs_inner it0 = w @ cs_inner it"
    "\<And>r. P (cs_inner it) r \<Longrightarrow> f (it0\<lparr>cs_inner := w @ r\<rparr>) = Inr (x, it\<lparr>cs_inner := r\<rparr>)"
  using assms by (auto simp: steady_at_def)

lemma steady_weaken: "steady_at any_rest f it \<Longrightarrow> steady_at P f it"
  by (auto simp: steady_at_def)

lemma steady_done [simp]: "steady_at P (\<lambda>it. Inr (x, it)) it0"
  by (rule steady_atI) (auto intro: exI [of _ "[]"])

lemma steady_err [simp]: "steady_at P (\<lambda>it. err m) it0"
  by (simp add: steady_at_def)

lemma steady_if: "(b \<Longrightarrow> steady_at P f it) \<Longrightarrow> (\<not> b \<Longrightarrow> steady_at P g it) \<Longrightarrow> steady_at P (\<lambda>it. if b then f it else g it) it"
  by (cases b) simp_all

lemma steady_bind:
  assumes f: "steady_at any_rest f it0" and g: "\<And>x it. f it0 = Inr (x, it) \<Longrightarrow> steady_at P (g x) it"
  shows "steady_at P (\<lambda>it. and_then (f it) (\<lambda>(x, it). g x it)) it0"
proof (rule steady_atI)
  fix y it' assume "and_then (f it0) (\<lambda>(x, it). g x it) = Inr (y, it')"
  then obtain x it where x: "f it0 = Inr (x, it)" "g x it = Inr (y, it')"
    unfolding and_then_eq_Inr by (metis case_prod_conv surj_pair)
  obtain w where w: "cs_inner it0 = w @ cs_inner it" "\<And>r. f (it0\<lparr>cs_inner := w @ r\<rparr>) = Inr (x, it\<lparr>cs_inner := r\<rparr>)"
    by (rule steady_atE [OF f x(1)]) (rule that, simp_all)
  obtain v where v: "cs_inner it = v @ cs_inner it'"
    "\<And>r. P (cs_inner it') r \<Longrightarrow> g x (it\<lparr>cs_inner := v @ r\<rparr>) = Inr (y, it'\<lparr>cs_inner := r\<rparr>)"
    by (rule steady_atE [OF g [OF x(1)] x(2)]) (rule that, simp_all)
  show "\<exists>w. cs_inner it0 = w @ cs_inner it' \<and> (\<forall>r. P (cs_inner it') r \<longrightarrow>
      and_then (f (it0\<lparr>cs_inner := w @ r\<rparr>)) (\<lambda>(x, it). g x it) = Inr (y, it'\<lparr>cs_inner := r\<rparr>))"
    using w v by (intro exI [of _ "w @ v"]) simp
qed

lemma steady_consume_or: "steady_at any_rest (consume_or m) it0"
  by (rule steady_atI) (auto simp: consume_or_def consume_def err_def split: list.splits)

lemma steady_brace_loop: "steady_at any_rest (\<lambda>it. brace_loop it s) it0"
proof (induction it0 s rule: brace_loop.induct)
  case (1 it s)
  show ?case
    unfolding brace_loop.simps [of _ s] by (intro steady_bind steady_consume_or steady_if steady_done) (rule "1.IH", auto)
qed

lemma steady_hex_digits: "steady_at any_rest (\<lambda>it. hex_digits eof bad n it s) it0"
proof (induction n arbitrary: s it0)
  case (Suc n)
  show ?case unfolding hex_digits.simps by (intro steady_bind steady_consume_or steady_if steady_err Suc)
qed simp

lemma steady_char_escape: "steady_at any_rest (\<lambda>it. char_escape it s) it0"
  unfolding char_escape_def Let_def
  by (intro steady_bind steady_consume_or steady_if steady_err steady_done steady_brace_loop steady_hex_digits)

lemma steady_byte_escape: "steady_at any_rest (\<lambda>it. byte_escape it s) it0"
  unfolding byte_escape_def Let_def
  by (intro steady_bind steady_consume_or steady_if steady_err steady_done steady_hex_digits)

lemma steady_space_loop: "steady_at same_next (\<lambda>it. space_loop u it s) it0"
proof (induction u it0 s rule: space_loop.induct)
  case (1 u it s)
  let ?blank = "\<lambda>it. case next_char it of Some c \<Rightarrow> is_whitespace u c | None \<Rightarrow> False"
  show ?case
  proof (rule steady_atI)
    fix x it' assume r: "space_loop u it s = Inr (x, it')"
    show "\<exists>w. cs_inner it = w @ cs_inner it' \<and> (\<forall>r. same_next (cs_inner it') r \<longrightarrow>
        space_loop u (it\<lparr>cs_inner := w @ r\<rparr>) s = Inr (x, it'\<lparr>cs_inner := r\<rparr>))"
    proof (cases "?blank it")
      case True
      then obtain c y where i: "cs_inner it = c # y" "is_whitespace u c" by (auto simp: next_char_def split: list.splits)
      have step: "consume_or ''str eof'' it = Inr (c, \<lparr>cs_inner = y, cs_cur = Some c\<rparr>)"
        using i by (simp add: consume_or_def consume_def)
      have "space_loop u \<lparr>cs_inner = y, cs_cur = Some c\<rparr> (s @ [c]) = Inr (x, it')"
        using r True step by (subst (asm) space_loop.simps) simp
      from steady_atE [OF "1.IH" [OF True step refl] this] obtain w where w: "y = w @ cs_inner it'"
        "\<And>r. same_next (cs_inner it') r \<Longrightarrow>
          space_loop u \<lparr>cs_inner = w @ r, cs_cur = Some c\<rparr> (s @ [c]) = Inr (x, it'\<lparr>cs_inner := r\<rparr>)" by auto
      then show ?thesis using i
        by (intro exI [of _ "c # w"]) (auto simp: space_loop.simps [of u "it\<lparr>cs_inner := c # _\<rparr>"] next_char_def consume_or_def consume_def)
    next
      case False
      then have "space_loop u it s = Inr (s, it)" by (subst space_loop.simps) simp
      then have "x = s" "it' = it" using r by simp_all
      then show ?thesis using False
        by (intro exI [of _ "[]"]) (auto simp: same_next_def next_char_def space_loop.simps [of u "it\<lparr>cs_inner := _ # _\<rparr>"])
    qed
  qed
qed

lemma steady_string_escape: "steady_at same_next (\<lambda>it. string_escape u it s) it0"
  unfolding string_escape_def Let_def
  by (intro steady_bind steady_consume_or steady_if steady_err steady_done steady_space_loop
      steady_weaken [OF steady_brace_loop] steady_weaken [OF steady_hex_digits])

section \<open>Readers of a whole literal\<close>

text \<open>These read past their closing quote, and then the text after it does not matter at all.\<close>

definition closed_at :: "(char_stream \<Rightarrow> ('x \<times> char_stream) lexed) \<Rightarrow> char_stream \<Rightarrow> bool" where
  "closed_at f it0 \<longleftrightarrow> (\<forall>x it. f it0 = Inr (x, it) \<longrightarrow> (\<exists>w. w \<noteq> [] \<and> cs_inner it0 = w @ ahead it \<and>
     (\<forall>r. f (it0\<lparr>cs_inner := w @ r\<rparr>) = Inr (x, stream_at r))))"

lemma closed_atE:
  assumes "closed_at f it0" "f it0 = Inr (x, it)"
  obtains w where "w \<noteq> []" "cs_inner it0 = w @ ahead it" "\<And>r. f (it0\<lparr>cs_inner := w @ r\<rparr>) = Inr (x, stream_at r)"
  using assms by (auto simp: closed_at_def)

lemma closed_err [simp]: "closed_at (\<lambda>it. err m) it0"
  by (simp add: closed_at_def)

lemma closed_if: "(b \<Longrightarrow> closed_at f it) \<Longrightarrow> (\<not> b \<Longrightarrow> closed_at g it) \<Longrightarrow> closed_at (\<lambda>it. if b then f it else g it) it"
  by (cases b) simp_all

lemma same_next_append: "v \<noteq> [] \<Longrightarrow> same_next (v @ r0) (v @ r)"
  by (cases v) (auto simp: same_next_def)

lemma closed_bind:
  assumes f: "steady_at same_next f it0" and g: "\<And>x it. f it0 = Inr (x, it) \<Longrightarrow> closed_at (g x) it"
  shows "closed_at (\<lambda>it. and_then (f it) (\<lambda>(x, it). g x it)) it0"
  unfolding closed_at_def
proof (intro allI impI)
  fix y it' assume "and_then (f it0) (\<lambda>(x, it). g x it) = Inr (y, it')"
  then obtain x it where x: "f it0 = Inr (x, it)" "g x it = Inr (y, it')"
    unfolding and_then_eq_Inr by (metis case_prod_conv surj_pair)
  obtain v where v: "v \<noteq> []" "cs_inner it = v @ ahead it'" "\<And>r. g x (it\<lparr>cs_inner := v @ r\<rparr>) = Inr (y, stream_at r)"
    by (rule closed_atE [OF g [OF x(1)] x(2)]) (rule that)
  obtain w where w: "cs_inner it0 = w @ cs_inner it"
    "\<And>r. same_next (cs_inner it) r \<Longrightarrow> f (it0\<lparr>cs_inner := w @ r\<rparr>) = Inr (x, it\<lparr>cs_inner := r\<rparr>)"
    by (rule steady_atE [OF f x(1)]) (rule that, simp_all)
  show "\<exists>w. w \<noteq> [] \<and> cs_inner it0 = w @ ahead it' \<and>
      (\<forall>r. and_then (f (it0\<lparr>cs_inner := w @ r\<rparr>)) (\<lambda>(x, it). g x it) = Inr (y, stream_at r))"
    using v w by (intro exI [of _ "w @ v"]) (simp add: same_next_append)
qed

lemmas closed_bind_steady = closed_bind [OF steady_weaken]

lemma consume_stream: "consume it = stream_at (cs_inner it)"
  by (cases it) simp

lemma ahead_stream_at [simp]: "ahead (stream_at s) = s"
  by (cases s) (simp_all add: ahead_def stream_at_def)

lemma closed_consume: "closed_at (\<lambda>it. and_then (consume_or m it) (\<lambda>(c, it). if c = d then Inr (x, consume it) else err m')) it0"
proof -
  have "consume_or m (it0\<lparr>cs_inner := d # r\<rparr>) = Inr (d, \<lparr>cs_inner = r, cs_cur = Some d\<rparr>)" for r
    by (simp add: consume_or_Inr)
  then show ?thesis
    by (auto simp: closed_at_def consume_or_Inr consume_stream intro!: exI [of _ "[d]"] exI [of _ "\<lparr>cs_inner = _, cs_cur = Some d\<rparr>"])
qed

lemma closed_string_loop: "closed_at (\<lambda>it. string_loop u it s) it0"
proof (induction u it0 s rule: string_loop.induct)
  case (1 u it s)
  show ?case
    unfolding closed_at_def
  proof (intro allI impI)
    fix x it' assume r: "string_loop u it s = Inr (x, it')"
    then obtain c it1 where c: "consume_or ''str eof'' it = Inr (c, it1)"
      by (subst (asm) string_loop.simps) auto
    then have i: "cs_inner it = c # cs_inner it1" "cs_cur it1 = Some c" by (simp_all add: consume_or_Inr)
    have step: "consume_or m (it\<lparr>cs_inner := c # y\<rparr>) = Inr (c, it1\<lparr>cs_inner := y\<rparr>)" for m y
      using i(2) by (simp add: consume_or_Inr)
    have loop: "string_loop u (it\<lparr>cs_inner := c # y\<rparr>) s = (if c = c_dquote then Inr (s @ [c], stream_at y)
        else if c = c_backslash then and_then (string_escape u (it1\<lparr>cs_inner := y\<rparr>) (s @ [c])) (\<lambda>(s, it). string_loop u it s)
        else string_loop u (it1\<lparr>cs_inner := y\<rparr>) (s @ [c]))" for y
      by (subst string_loop.simps) (simp add: step consume_stream)
    show "\<exists>w. w \<noteq> [] \<and> cs_inner it = w @ ahead it' \<and> (\<forall>r. string_loop u (it\<lparr>cs_inner := w @ r\<rparr>) s = Inr (x, stream_at r))"
    proof (cases "c = c_dquote")
      case True
      then have "x = s @ [c]" "ahead it' = cs_inner it1" using r c by (auto simp: string_loop.simps [of u it])
      then show ?thesis using i True loop by (intro exI [of _ "[c]"]) simp
    next
      case False
      have "closed_at (\<lambda>it. if c = c_backslash then and_then (string_escape u it (s @ [c])) (\<lambda>(s, it). string_loop u it s)
          else string_loop u it (s @ [c])) it1"
        using "1.IH" [OF c refl refl False] by (intro closed_if closed_bind steady_string_escape) auto
      moreover have "(if c = c_backslash then and_then (string_escape u it1 (s @ [c])) (\<lambda>(s, it). string_loop u it s)
          else string_loop u it1 (s @ [c])) = Inr (x, it')"
        using r c False by (simp add: string_loop.simps [of u it] Let_def)
      ultimately obtain w where w: "cs_inner it1 = w @ ahead it'"
        "\<And>r. (if c = c_backslash then and_then (string_escape u (it1\<lparr>cs_inner := w @ r\<rparr>) (s @ [c])) (\<lambda>(s, it). string_loop u it s)
          else string_loop u (it1\<lparr>cs_inner := w @ r\<rparr>) (s @ [c])) = Inr (x, stream_at r)"
        by (rule closed_atE) (rule that)
      then show ?thesis using i False by (intro exI [of _ "c # w"]) (simp add: loop)
    qed
  qed
qed

lemma steady_cong:
  assumes "\<And>r. f (it0\<lparr>cs_inner := r\<rparr>) = g (it0\<lparr>cs_inner := r\<rparr>)"
  shows "steady_at P f it0 = steady_at P g it0"
  using assms assms [of "cs_inner it0"] by (simp add: steady_at_def)

lemma steady_hash_loop: "steady_at any_rest (\<lambda>it. hash_loop it n) it0"
proof (induction it0 n rule: hash_loop.induct)
  case (1 it n)
  show ?case
  proof (cases "cs_cur it = Some c_hash")
    case True
    have "steady_at any_rest (\<lambda>it. and_then (consume_or ''rawstr eof'' it) (\<lambda>(c, it). hash_loop it (n + 1))) it"
      by (intro steady_bind steady_consume_or) (rule "1.IH" [OF True], simp_all)
    moreover have "hash_loop (it\<lparr>cs_inner := r\<rparr>) n =
        and_then (consume_or ''rawstr eof'' (it\<lparr>cs_inner := r\<rparr>)) (\<lambda>(c, it). hash_loop it (n + 1))" for r
      using True by (simp add: hash_loop.simps [of _ n])
    ultimately show ?thesis using steady_cong [of "\<lambda>it. hash_loop it n" it] by simp
  next
    case False
    then show ?thesis unfolding steady_at_def by (auto simp: hash_loop.simps [of _ n] intro: exI [of _ "[]"])
  qed
qed

lemma steady_bind3:
  assumes f: "steady_at any_rest (\<lambda>it. and_then (f it) (\<lambda>(a, b, it). Inr ((a, b), it))) it0"
    and g: "\<And>a b it. f it0 = Inr (a, b, it) \<Longrightarrow> steady_at P (g a b) it"
  shows "steady_at P (\<lambda>it. and_then (f it) (\<lambda>(a, b, it). g a b it)) it0"
proof -
  have "and_then (and_then (f it) (\<lambda>(a, b, it). Inr ((a, b), it))) (\<lambda>(x, it). case x of (a, b) \<Rightarrow> g a b it) =
      and_then (f it) (\<lambda>(a, b, it). g a b it)" for it
    by (cases "f it") auto
  then show ?thesis
    using steady_bind [OF f, of P "\<lambda>(a, b). g a b"] g by (auto simp: case_prod_unfold)
qed

lemma steady_count_hashes: "steady_at any_rest (\<lambda>it. and_then (count_hashes k n c it) (\<lambda>(a, b, it). Inr ((a, b), it))) it0"
proof (induction k arbitrary: n c it0)
  case (Suc k)
  have "and_then (count_hashes (Suc k) n c it) (\<lambda>(a, b, it). Inr ((a, b), it)) =
      and_then (consume_or ''rawstr eof'' it) (\<lambda>(c, it). if c \<noteq> c_hash then Inr ((n, c), it)
        else and_then (count_hashes k (n + 1) c it) (\<lambda>(a, b, it). Inr ((a, b), it)))" for c it
    by (cases "consume_or ''rawstr eof'' it") auto
  then show ?case by (simp del: count_hashes.simps) (intro steady_bind steady_consume_or steady_if steady_done Suc)
qed simp

lemma steady_raw_loop: "steady_at any_rest (\<lambda>it. raw_loop req it s) it0"
proof (induction req it0 s rule: raw_loop.induct)
  case (1 req it s)
  show ?case
    unfolding raw_loop.simps [of req _ s]
    apply (rule steady_bind)
    apply (rule steady_consume_or)
    apply (rule steady_if)
    apply (rule steady_bind3)
    apply (rule steady_count_hashes)
    apply (rule steady_if)
      apply (rule "1.IH"(1) [OF _ refl _ _ refl refl]; assumption)
     apply (rule steady_done)
    apply (rule "1.IH"(2) [OF _ refl]; assumption)
    done
qed

lemma closed_lex_char: "closed_at (\<lambda>it. lex_char it c) it0"
proof -
  have e: "lex_char it c = and_then (if c = c_backslash then char_escape it [c_squote, c] else Inr ([c_squote, c], it)) (\<lambda>(spelling, it).
      and_then (consume_or ''Unterminated char literal'' it) (\<lambda>(c, it). if c = c_squote then Inr (spelling @ [c_squote], consume it)
        else err ''Multiple characters in char literal''))" for it
    unfolding lex_char_def by (rule arg_cong [of _ _ "and_then _"]) (auto simp: fun_eq_iff consume_or_def Let_def err_def split: option.splits)
  show ?thesis
    unfolding e by (intro closed_bind closed_consume steady_weaken [OF steady_char_escape] steady_if steady_done)
qed

section \<open>Readers that look at the next character\<close>

definition stops :: "rstr \<Rightarrow> bool" where
  "stops r \<longleftrightarrow> r = [] \<or> (\<exists>y. r = c_space # y)"

definition like :: "rstr \<Rightarrow> rstr \<Rightarrow> bool" where
  "like r0 r \<longleftrightarrow> stops r \<or> same_next r0 r"

definition firm_at :: "(char_stream \<Rightarrow> ('x \<times> char_stream) lexed) \<Rightarrow> rstr \<Rightarrow> bool" where
  "firm_at f t \<longleftrightarrow> (\<forall>x it. f (stream_at t) = Inr (x, it) \<longrightarrow> (\<exists>w r0. t = w @ r0 \<and> it = stream_at r0 \<and>
     (\<forall>r. like r0 r \<longrightarrow> f (stream_at (w @ r)) = Inr (x, stream_at r))))"

lemma firm_atI:
  "(\<And>x it. f (stream_at t) = Inr (x, it) \<Longrightarrow> \<exists>w r0. t = w @ r0 \<and> it = stream_at r0 \<and>
     (\<forall>r. like r0 r \<longrightarrow> f (stream_at (w @ r)) = Inr (x, stream_at r))) \<Longrightarrow> firm_at f t"
  by (simp add: firm_at_def)

lemma firm_atE:
  assumes "firm_at f t" "f (stream_at t) = Inr (x, it)"
  obtains w r0 where "t = w @ r0" "it = stream_at r0" "\<And>r. like r0 r \<Longrightarrow> f (stream_at (w @ r)) = Inr (x, stream_at r)"
  using assms by (auto simp: firm_at_def)

lemma like_append: "like r0 r \<Longrightarrow> like (w @ r0) (w @ r)"
  by (cases "w = []") (auto simp: like_def same_next_append)

lemma firm_bind:
  assumes f: "firm_at f t" and g: "\<And>x r0. f (stream_at t) = Inr (x, stream_at r0) \<Longrightarrow> firm_at (g x) r0"
  shows "firm_at (\<lambda>it. and_then (f it) (\<lambda>(x, it). g x it)) t"
proof (rule firm_atI)
  fix y it' assume "and_then (f (stream_at t)) (\<lambda>(x, it). g x it) = Inr (y, it')"
  then obtain x it where x: "f (stream_at t) = Inr (x, it)" "g x it = Inr (y, it')"
    unfolding and_then_eq_Inr by (metis case_prod_conv surj_pair)
  obtain w r0 where w: "t = w @ r0" "it = stream_at r0" "\<And>r. like r0 r \<Longrightarrow> f (stream_at (w @ r)) = Inr (x, stream_at r)"
    by (rule firm_atE [OF f x(1)]) (rule that)
  have "firm_at (g x) r0" "g x (stream_at r0) = Inr (y, it')" using g x w(2) by simp_all
  then obtain v r1 where v: "r0 = v @ r1" "it' = stream_at r1" "\<And>r. like r1 r \<Longrightarrow> g x (stream_at (v @ r)) = Inr (y, stream_at r)"
    by (rule firm_atE) (rule that)
  show "\<exists>w r0. t = w @ r0 \<and> it' = stream_at r0 \<and>
      (\<forall>r. like r0 r \<longrightarrow> and_then (f (stream_at (w @ r))) (\<lambda>(x, it). g x it) = Inr (y, stream_at r))"
    using w v like_append by (intro exI [of _ "w @ v"] exI [of _ r1]) simp
qed

text \<open>Loops that take what satisfies a test.\<close>

lemma ident_loop_while:
  "ident_loop u (stream_at t) s = (s @ takeWhile (ident_more u) t, stream_at (dropWhile (ident_more u) t))"
  by (induction t arbitrary: s) (subst ident_loop.simps; simp)+

abbreviation exponent_char :: "rchar \<Rightarrow> bool" where
  "exponent_char c \<equiv> c = c_underscore \<or> ascii_digit c"

lemma digit_run_while:
  "digit_run (stream_at t) s = (s @ takeWhile exponent_char t, stream_at (dropWhile exponent_char t))"
  by (induction t arbitrary: s) (subst digit_run.simps; simp)+

lemma exponent_run_while:
  "exponent_run (stream_at t) s h =
    (s @ takeWhile exponent_char t, stream_at (dropWhile exponent_char t), h \<or> list_ex ascii_digit (takeWhile exponent_char t))"
  by (induction t arbitrary: s h) (subst exponent_run.simps; auto simp: ascii_digit_def)+

lemma like_while:
  assumes "\<not> p c_space" "like (dropWhile p t) r"
  shows "takeWhile p (takeWhile p t @ r) = takeWhile p t" "dropWhile p (takeWhile p t @ r) = r"
proof -
  have "r = [] \<or> \<not> p (hd r)"
  proof (cases "stops r")
    case False
    then obtain d y y' where d: "dropWhile p t = d # y" "r = d # y'" using assms(2) by (auto simp: like_def same_next_def)
    then have "\<not> p d" using hd_dropWhile [of p t] by simp
    then show ?thesis using d(2) by simp
  qed (use assms(1) in \<open>auto simp: stops_def\<close>)
  then have nil: "takeWhile p r = []" "dropWhile p r = r" by (cases r; simp)+
  have all: "x \<in> set (takeWhile p t) \<Longrightarrow> p x" for x by (drule set_takeWhileD) simp
  show "takeWhile p (takeWhile p t @ r) = takeWhile p t"
    using takeWhile_append2 [of "takeWhile p t" p r, OF all] nil(1) by simp
  show "dropWhile p (takeWhile p t @ r) = r"
    using dropWhile_append2 [of "takeWhile p t" p r, OF all] nil(2) by simp
qed

lemma not_space [simp]: "\<not> ident_more u c_space" "\<not> ascii_digit c_space"
  by (simp_all add: ident_more_def is_alphanumeric_def is_alphabetic_def is_numeric_def ascii_alphabetic_def ascii_digit_def)

lemma firm_while:
  assumes "\<not> p c_space" "\<And>t. f (stream_at t) = (if q (takeWhile p t) then Inr (g (takeWhile p t), stream_at (dropWhile p t)) else err m)"
  shows "firm_at f t"
proof (rule firm_atI)
  fix x it assume "f (stream_at t) = Inr (x, it)"
  then have "q (takeWhile p t)" "x = g (takeWhile p t)" "it = stream_at (dropWhile p t)" by (simp_all add: assms(2) split: if_splits)
  then show "\<exists>w r0. t = w @ r0 \<and> it = stream_at r0 \<and> (\<forall>r. like r0 r \<longrightarrow> f (stream_at (w @ r)) = Inr (x, stream_at r))"
    using like_while [of p, OF assms(1)] by (intro exI [of _ "takeWhile p t"] exI [of _ "dropWhile p t"]) (simp add: assms(2))
qed

section \<open>Numbers\<close>

lemma firm_witness:
  "t = w @ r0 \<Longrightarrow> it = stream_at r0 \<Longrightarrow> (\<And>r. like r0 r \<Longrightarrow> f (stream_at (w @ r)) = Inr (x, stream_at r)) \<Longrightarrow>
    \<exists>w r0. t = w @ r0 \<and> it = stream_at r0 \<and> (\<forall>r. like r0 r \<longrightarrow> f (stream_at (w @ r)) = Inr (x, stream_at r))"
  by blast

lemma like_Nil: "like r0 [] \<longleftrightarrow> True" "like [] r \<longleftrightarrow> stops r" "like (c # y) (d # y') \<longleftrightarrow> d = c_space \<or> d = c"
  by (auto simp: like_def stops_def same_next_def)

lemma float_suffix_at:
  "float_suffix u (stream_at []) s = Inr (s, stream_at [])"
  "float_suffix u (stream_at (c # t)) s =
    (if c = c_f then let w = takeWhile (ident_more u) (c # t) in
       if w = str ''f32'' \<or> w = str ''f64'' then Inr (s @ w, stream_at (dropWhile (ident_more u) (c # t))) else err ''Unexpected float suffix''
     else if c = c_underscore \<or> is_alphabetic u c then err ''Unexpected float suffix'' else Inr (s, stream_at (c # t)))"
  by (simp_all add: float_suffix_def get_ident_def current_def expect_some_def panicking_def ident_loop_while Let_def)

lemma firm_float_suffix: "firm_at (\<lambda>it. float_suffix u it s) t"
proof (rule firm_atI)
  fix x it assume f: "float_suffix u (stream_at t) s = Inr (x, it)"
  have sp: "\<not> is_alphabetic u c_space" by (simp add: is_alphabetic_def ascii_alphabetic_def)
  show "\<exists>w r0. t = w @ r0 \<and> it = stream_at r0 \<and> (\<forall>r. like r0 r \<longrightarrow> float_suffix u (stream_at (w @ r)) s = Inr (x, stream_at r))"
  proof (cases "\<exists>t'. t = c_f # t'")
    case True
    then obtain t' where t: "t = c_f # t'" by blast
    let ?w = "takeWhile (ident_more u) t" and ?r = "dropWhile (ident_more u) t"
    have w: "?w = str ''f32'' \<or> ?w = str ''f64''" "x = s @ ?w" "it = stream_at ?r"
      using f by (auto simp: t float_suffix_at Let_def simp del: takeWhile.simps dropWhile.simps split: if_splits)
    then obtain v where v: "?w = c_f # v" by (auto simp: str_def)
    have "float_suffix u (stream_at (?w @ r)) s = Inr (x, stream_at r)" if "like ?r r" for r
      using like_while [of "ident_more u" t r] that w unfolding v append_Cons float_suffix_at by (simp add: Let_def)
    then show ?thesis using w by (intro firm_witness [of t ?w ?r]) simp_all
  next
    case False
    have "x = s \<and> it = stream_at t"
      using f False by (cases t) (auto simp: float_suffix_at split: if_splits)
    moreover have "float_suffix u (stream_at r) s = Inr (s, stream_at r)" if "like t r" for r
      using that f False sp by (cases r; cases t) (auto simp: float_suffix_at like_Nil stops_def split: if_splits)
    ultimately show ?thesis by (intro firm_witness [of t "[]" t]) simp_all
  qed
qed

fun sign_of :: "rstr \<Rightarrow> rstr" where
  "sign_of (c # t) = (if c = c_plus \<or> c = c_minus then [c] else [])"
| "sign_of [] = []"

lemma float_exponent_at:
  "float_exponent (stream_at []) s = Inr (s, stream_at [])"
  "float_exponent (stream_at (c # t)) s =
    (if c = c_e \<or> c = c_E then
       let t' = drop (length (sign_of t)) t; w = takeWhile exponent_char t' in
       if list_ex ascii_digit w then Inr (s @ c # sign_of t @ w, stream_at (dropWhile exponent_char t'))
       else err ''Missing digits in float exponent''
     else Inr (s, stream_at (c # t)))"
  by (cases t; simp add: float_exponent_def Let_def exponent_run_while)+

lemma firm_float_exponent: "firm_at (\<lambda>it. float_exponent it s) t"
proof (rule firm_atI)
  fix x it assume f: "float_exponent (stream_at t) s = Inr (x, it)"
  show "\<exists>w r0. t = w @ r0 \<and> it = stream_at r0 \<and> (\<forall>r. like r0 r \<longrightarrow> float_exponent (stream_at (w @ r)) s = Inr (x, stream_at r))"
  proof (cases "\<exists>c t'. t = c # t' \<and> (c = c_e \<or> c = c_E)")
    case True
    then obtain c t' where t: "t = c # t'" "c = c_e \<or> c = c_E" by blast
    let ?t = "drop (length (sign_of t')) t'"
    let ?w = "takeWhile exponent_char ?t" and ?r = "dropWhile exponent_char ?t"
    have w: "list_ex ascii_digit ?w" "x = s @ c # sign_of t' @ ?w" "it = stream_at ?r"
      using f t by (auto simp: float_exponent_at Let_def split: if_splits)
    have t': "t' = sign_of t' @ ?t" by (cases t') simp_all
    have "?w \<noteq> []" using w(1) by auto
    then have d: "exponent_char (hd ?w)" using set_takeWhileD [of "hd ?w" exponent_char ?t] hd_in_set [of ?w] by blast
    then have sgn: "sign_of (sign_of t' @ ?w @ r) = sign_of t'" for r
      using \<open>?w \<noteq> []\<close> by (cases t'; cases ?w) (auto simp: ascii_digit_def)
    have "float_exponent (stream_at (c # sign_of t' @ ?w @ r)) s = Inr (x, stream_at r)" if "like ?r r" for r
      using like_while [of exponent_char ?t r] that w t(2) sgn by (simp add: float_exponent_at Let_def)
    then show ?thesis using w t t' by (intro firm_witness [of t "c # sign_of t' @ ?w" ?r]) simp_all
  next
    case False
    have "x = s \<and> it = stream_at t"
      using f False by (cases t) (auto simp: float_exponent_at)
    moreover have "float_exponent (stream_at r) s = Inr (s, stream_at r)" if "like t r" for r
      using that False by (cases r; cases t) (auto simp: float_exponent_at like_Nil stops_def)
    ultimately show ?thesis by (intro firm_witness [of t "[]" t]) simp_all
  qed
qed

lemma firm_float_part: "firm_at (\<lambda>it. float_part u it s) t"
proof -
  define f where "f = (\<lambda>it. Inr (if cs_cur it = Some c_dot then digit_run (consume it) (s @ [c_dot]) else (s, it)) :: (rstr \<times> char_stream) lexed)"
  have "firm_at f t"
  proof (rule firm_atI)
    fix x it assume r: "f (stream_at t) = Inr (x, it)"
    show "\<exists>w r0. t = w @ r0 \<and> it = stream_at r0 \<and> (\<forall>r. like r0 r \<longrightarrow> f (stream_at (w @ r)) = Inr (x, stream_at r))"
    proof (cases "\<exists>t'. t = c_dot # t'")
      case True
      then obtain t' where t: "t = c_dot # t'" by blast
      then have "x = s @ c_dot # takeWhile exponent_char t'" "it = stream_at (dropWhile exponent_char t')"
        using r by (auto simp: f_def digit_run_while)
      then show ?thesis using t like_while [of exponent_char t']
        by (intro firm_witness [of t "c_dot # takeWhile exponent_char t'" "dropWhile exponent_char t'"])
          (simp_all add: f_def digit_run_while)
    next
      case False
      then have "x = s" "it = stream_at t" using r by (cases t; auto simp: f_def)+
      moreover have "f (stream_at r) = Inr (s, stream_at r)" if "like t r" for r
        using that False by (cases r; cases t) (auto simp: f_def like_Nil stops_def)
      ultimately show ?thesis by (intro firm_witness [of t "[]" t]) simp_all
    qed
  qed
  moreover have "float_part u it s = and_then (f it) (\<lambda>(s, it). and_then (float_exponent it s) (\<lambda>(s, it). float_suffix u it s))" for it
    by (simp add: float_part_def f_def Let_def case_prod_unfold)
  ultimately show ?thesis using firm_bind [OF _ firm_bind [OF firm_float_exponent firm_float_suffix]] by simp
qed

lemma local_witness:
  "t = w @ r0 \<Longrightarrow> it = stream_at r0 \<Longrightarrow> (\<And>r. stops r \<Longrightarrow> f (stream_at (w @ r)) = Inr (x, stream_at r)) \<Longrightarrow>
    \<exists>w r0. t = w @ r0 \<and> it = stream_at r0 \<and> (\<forall>r. stops r \<longrightarrow> f (stream_at (w @ r)) = Inr (x, stream_at r))"
  by blast

lemma to_digit_space: "base \<le> 16 \<Longrightarrow> to_digit base c_space = None"
  by (simp add: to_digit_def)

lemma int_loop_stops:
  assumes "stops r" "base \<le> 16"
  shows "int_loop u base (stream_at r) s = Inr (s, stream_at r)"
  using assms by (auto simp: stops_def int_loop.simps [of u base] to_digit_space)

lemma float_part_stops: "stops r \<Longrightarrow> float_part u (stream_at r) s = Inr (s, stream_at r)"
  by (auto simp: stops_def float_part_def float_exponent_at float_suffix_at is_alphabetic_def ascii_alphabetic_def)

lemma int_loop_local:
  assumes "base \<le> 16"
  shows "int_loop u base (stream_at t) s = Inr (x, it) \<Longrightarrow>
    \<exists>w r0. t = w @ r0 \<and> it = stream_at r0 \<and> (\<forall>r. stops r \<longrightarrow> int_loop u base (stream_at (w @ r)) s = Inr (x, stream_at r))"
proof (induction t arbitrary: s)
  case Nil
  then show ?case using int_loop_stops assms by (auto simp: int_loop.simps [of u base "stream_at []"])
next
  case (Cons c t)
  have skip: ?case if "x = s" "it = stream_at (c # t)"
    using that int_loop_stops [OF _ assms] by (intro local_witness [of _ "[]" "c # t"]) simp_all
  have more: ?case if run: "int_loop u base (stream_at t) (s @ [c]) = Inr (x, it)"
    and eq: "\<And>y. int_loop u base (stream_at (c # y)) s = int_loop u base (stream_at y) (s @ [c])"
  proof -
    obtain w r0 where "t = w @ r0" "it = stream_at r0"
      "\<forall>r. stops r \<longrightarrow> int_loop u base (stream_at (w @ r)) (s @ [c]) = Inr (x, stream_at r)"
      using Cons.IH [OF run] by blast
    then show ?thesis using eq by (intro local_witness [of _ "c # w" r0]) simp_all
  qed
  consider "c = c_underscore" | "c = c_u \<or> c = c_i" | "c \<noteq> c_underscore" "c \<noteq> c_u" "c \<noteq> c_i" "to_digit base c \<noteq> None"
    | "c \<noteq> c_underscore" "c \<noteq> c_u" "c \<noteq> c_i" "to_digit base c = None" by blast
  then show ?case
  proof cases
    case 1
    then have "int_loop u base (stream_at (c # y)) s = int_loop u base (stream_at y) (s @ [c])" for y
      by (subst int_loop.simps) simp
    then show ?thesis using more Cons.prems by simp
  next
    case 2
    let ?w = "takeWhile (ident_more u) (c # t)" and ?r = "dropWhile (ident_more u) (c # t)"
    have m: "ident_more u c" using 2 by (auto simp: ident_more_def is_alphanumeric_def is_alphabetic_def ascii_alphabetic_def)
    have i: "int_loop u base (stream_at (c # y)) s = (let v = takeWhile (ident_more u) (c # y) in
        if v \<in> set int_suffixes then Inr (s @ v, stream_at (dropWhile (ident_more u) (c # y))) else err ''Unexpected integer suffix'')" for y
      using 2 by (subst int_loop.simps) (auto simp: get_ident_def current_def expect_some_def panicking_def ident_loop_while Let_def)
    have w: "?w \<in> set int_suffixes" "x = s @ ?w" "it = stream_at ?r"
      using Cons.prems by (auto simp: i Let_def simp del: takeWhile.simps dropWhile.simps split: if_splits)
    have "int_loop u base (stream_at (?w @ r)) s = Inr (x, stream_at r)" if "stops r" for r
    proof -
      have "like ?r r" using that by (simp add: like_def)
      from like_while [OF not_space(1) this] show ?thesis
        using w m i [of "takeWhile (ident_more u) t @ r"] by (simp add: Let_def)
    qed
    then show ?thesis using w by (intro local_witness [of _ ?w ?r]) simp_all
  next
    case 3
    then have "int_loop u base (stream_at (c # y)) s = int_loop u base (stream_at y) (s @ [c])" for y
      by (subst int_loop.simps) simp
    then show ?thesis using more Cons.prems by simp
  next
    case 4
    let ?look = "\<lambda>y. case y of n # _ \<Rightarrow> n = c_dot \<or> n = c_underscore \<or> is_alphabetic u n | [] \<Rightarrow> False"
    have i: "int_loop u base (stream_at (c # y)) s = (if base = 10 \<and> (c = c_dot \<or> c = c_e \<or> c = c_E \<or> c = c_f)
        then (if c = c_dot \<and> ?look y then Inr (s, stream_at (c # y)) else float_part u (stream_at (c # y)) s)
        else Inr (s, stream_at (c # y)))" for y
      using 4 by (subst int_loop.simps) (cases y; auto simp: next_char_def stream_at_def)
    show ?thesis
    proof (cases "base = 10 \<and> (c = c_dot \<or> c = c_e \<or> c = c_E \<or> c = c_f) \<and> \<not> (c = c_dot \<and> ?look t)")
      case True
      then have "float_part u (stream_at (c # t)) s = Inr (x, it)" using Cons.prems i by auto
      then obtain w r0 where w: "c # t = w @ r0" "it = stream_at r0"
        "\<And>r. like r0 r \<Longrightarrow> float_part u (stream_at (w @ r)) s = Inr (x, stream_at r)"
        by (rule firm_atE [OF firm_float_part]) (rule that)
      have "int_loop u base (stream_at (w @ r)) s = Inr (x, stream_at r)" if "stops r" for r
      proof (cases w)
        case Nil
        then have "x = s" using w(3) [of r] float_part_stops [OF that, of u s] that by (simp add: like_def)
        then show ?thesis using Nil int_loop_stops [OF that assms] by simp
      next
        case (Cons d v)
        then have "d = c" "t = v @ r0" using w(1) by simp_all
        then have "\<not> (c = c_dot \<and> ?look (v @ r))"
          using True that by (cases v) (auto simp: stops_def is_alphabetic_def ascii_alphabetic_def)
        then show ?thesis using True w(3) [of r] that Cons \<open>d = c\<close> i [of "v @ r"] by (auto simp: like_def)
      qed
      then show ?thesis using w by blast
    next
      case False
      then show ?thesis using skip Cons.prems i by (auto split: if_splits)
    qed
  qed
qed

section \<open>The branches of a turn\<close>

text \<open>
  A bare \<^verbatim>\<open>0x\<close>, \<^verbatim>\<open>0o\<close> or \<^verbatim>\<open>0b\<close> is a literal, but the lexer panics when the text ends with it.
\<close>

definition lone_radix :: "stream token_tree list \<Rightarrow> bool" where
  "lone_radix ts \<longleftrightarrow> (case ts of [TLiteral l] \<Rightarrow> literal_display l \<in> {[c_0, c_x], [c_0, c_o], [c_0, c_b]} | _ \<Rightarrow> False)"

lemma lone_radix_iff:
  "lone_radix ts \<longleftrightarrow> (\<exists>l. ts = [TLiteral l] \<and> literal_display l \<in> {[c_0, c_x], [c_0, c_o], [c_0, c_b]})"
  unfolding lone_radix_def by (cases "case ts of [TLiteral l] \<Rightarrow> True | _ \<Rightarrow> False") (auto split: list.splits token_tree.splits)

definition stops_for :: "stream token_tree list \<Rightarrow> rstr \<Rightarrow> bool" where
  "stops_for ts r \<longleftrightarrow> stops r \<and> (lone_radix ts \<longrightarrow> r \<noteq> [])"

definition local_at :: "(char_stream \<Rightarrow> (stream token_tree list \<times> char_stream) lexed) \<Rightarrow> rstr \<Rightarrow> bool" where
  "local_at f t \<longleftrightarrow> (\<forall>ts it. f (stream_at t) = Inr (ts, it) \<longrightarrow> (\<exists>w r0. w \<noteq> [] \<and> t = w @ r0 \<and> it = stream_at r0 \<and>
     (\<forall>r. stops_for ts r \<longrightarrow> f (stream_at (w @ r)) = Inr (ts, stream_at r))))"

lemma local_atI:
  "(\<And>ts it. f (stream_at t) = Inr (ts, it) \<Longrightarrow> \<exists>w r0. w \<noteq> [] \<and> t = w @ r0 \<and> it = stream_at r0 \<and>
     (\<forall>r. stops_for ts r \<longrightarrow> f (stream_at (w @ r)) = Inr (ts, stream_at r))) \<Longrightarrow> local_at f t"
  by (simp add: local_at_def)

lemma local_at_witness:
  "w \<noteq> [] \<Longrightarrow> t = w @ r0 \<Longrightarrow> it = stream_at r0 \<Longrightarrow> (\<And>r. stops_for ts r \<Longrightarrow> f (stream_at (w @ r)) = Inr (ts, stream_at r)) \<Longrightarrow>
    \<exists>w r0. w \<noteq> [] \<and> t = w @ r0 \<and> it = stream_at r0 \<and> (\<forall>r. stops_for ts r \<longrightarrow> f (stream_at (w @ r)) = Inr (ts, stream_at r))"
  by blast

lemma push_literal_Inr: "push_literal a (x, it) = Inr (ts, it') \<Longrightarrow> it' = it \<and> push_literal a (x, it2) = Inr (ts, it2)"
  by (auto simp: push_literal_def)

lemma push_ident_Inr: "push_ident a (x, it) = Inr (ts, it') \<Longrightarrow> it' = it \<and> push_ident a (x, it2) = Inr (ts, it2)"
  by (auto simp: push_ident_def)

lemma current_at [simp]: "current (stream_at (c # y)) = Inr c"
  by simp

lemma local_then_literal:
  assumes "f (stream_at t) = Inr (x, stream_at r0)" "t = w @ r0" "w \<noteq> []"
    and "\<And>r. stops r \<Longrightarrow> f (stream_at (w @ r)) = Inr (x, stream_at r)"
  shows "local_at (\<lambda>it. and_then (f it) (push_literal a)) t"
proof (rule local_atI)
  fix ts it assume "and_then (f (stream_at t)) (push_literal a) = Inr (ts, it)"
  then have p: "push_literal a (x, stream_at r0) = Inr (ts, it)" using assms(1) by simp
  show "\<exists>w r0. w \<noteq> [] \<and> t = w @ r0 \<and> it = stream_at r0 \<and>
      (\<forall>r. stops_for ts r \<longrightarrow> and_then (f (stream_at (w @ r))) (push_literal a) = Inr (ts, stream_at r))"
    using assms push_literal_Inr [OF p] by (intro local_at_witness [of w t r0]) (simp_all add: stops_for_def)
qed

lemma local_failing: "f (stream_at t) = Inl e \<Longrightarrow> local_at (\<lambda>it. and_then (f it) g) t"
  by (simp add: local_at_def)

text \<open>The same branch seen from the turn, which may test what comes next.\<close>

lemma local_cong:
  assumes "\<And>y. Q y \<Longrightarrow> f (stream_at (c # y)) = g (stream_at (c # y))" "Q t"
    and "\<And>v r0 r. t = v @ r0 \<Longrightarrow> stops r \<Longrightarrow> Q (v @ r)" and "local_at g (c # t)"
  shows "local_at f (c # t)"
proof (rule local_atI)
  fix ts it assume "f (stream_at (c # t)) = Inr (ts, it)"
  then obtain w r0 where w: "w \<noteq> []" "c # t = w @ r0" "it = stream_at r0"
    "\<forall>r. stops_for ts r \<longrightarrow> g (stream_at (w @ r)) = Inr (ts, stream_at r)"
    using assms by (auto simp: local_at_def)
  then obtain v where "w = c # v" by (cases w) auto
  then show "\<exists>w r0. w \<noteq> [] \<and> c # t = w @ r0 \<and> it = stream_at r0 \<and>
      (\<forall>r. stops_for ts r \<longrightarrow> f (stream_at (w @ r)) = Inr (ts, stream_at r))"
    using w assms(1,3) by (intro local_at_witness [of w _ r0]) (simp_all add: stops_for_def)
qed

text \<open>A literal that is closed by a delimiter, read behind its first character.\<close>

lemma closed_at_end:
  assumes "closed_at f (stream_at (c # t))" "f (stream_at (c # t)) = Inr (x, it)"
  obtains w where "w \<noteq> []" "t = w @ ahead it" "it = stream_at (ahead it)" "\<And>r. f (stream_at (c # w @ r)) = Inr (x, stream_at r)"
proof -
  obtain w where w: "w \<noteq> []" "t = w @ ahead it" "\<And>r. f (stream_at (c # w @ r)) = Inr (x, stream_at r)"
    by (rule closed_atE [OF assms]) (simp add: stream_at_def)
  have "it = stream_at (ahead it)" using w(3) [of "ahead it"] assms(2) w(2) by simp
  from that [OF w(1,2) this w(3)] show thesis .
qed

lemma local_closed:
  assumes "closed_at f (stream_at (c # t))"
  shows "local_at (\<lambda>it. and_then (f it) (push_literal a)) (c # t)"
proof (cases "f (stream_at (c # t))")
  case (Inl e)
  then show ?thesis by (intro local_failing) simp
next
  case (Inr r)
  then obtain x it where x: "f (stream_at (c # t)) = Inr (x, it)" by (cases r) simp
  obtain w where w: "w \<noteq> []" "t = w @ ahead it" "it = stream_at (ahead it)" "\<And>r. f (stream_at (c # w @ r)) = Inr (x, stream_at r)"
    by (rule closed_at_end [OF assms x]) (rule that)
  show ?thesis
    by (rule local_then_literal [of f "c # t" x "ahead it" "c # w"]) (use x w in simp_all)
qed

lemma local_lex_quote: "local_at (lex_quote u True) (c_squote # t)"
proof (rule local_atI)
  fix ts it assume q: "lex_quote u True (stream_at (c_squote # t)) = Inr (ts, it)"
  let ?tick = "\<lambda>c y. (is_alphabetic u c \<or> c = c_underscore) \<and> (case y of x # _ \<Rightarrow> x \<noteq> c_squote | [] \<Rightarrow> True)"
  have lq: "lex_quote u True (stream_at (c_squote # c # y)) = (if ?tick c y then lex_lifetime u True (stream_at (c # y))
      else and_then (lex_char (stream_at (c # y)) c) (push_literal True))" for c y
    by (cases y) (auto simp: lex_quote_def consume_or_def next_char_def stream_at_def)
  obtain c y where t: "t = c # y" using q by (cases t) (auto simp: lex_quote_def consume_or_def)
  show "\<exists>w r0. w \<noteq> [] \<and> c_squote # t = w @ r0 \<and> it = stream_at r0 \<and>
      (\<forall>r. stops_for ts r \<longrightarrow> lex_quote u True (stream_at (w @ r)) = Inr (ts, stream_at r))"
  proof (cases "?tick c y")
    case True
    let ?w = "takeWhile (ident_more u) (c # y)" and ?r = "dropWhile (ident_more u) (c # y)"
    have m: "ident_more u c" using True by (auto simp: ident_more_def is_alphanumeric_def)
    have life: "lex_lifetime u True (stream_at (c # y)) = Inr ([TPunct (punct_from_char c_squote Joint 2),
        TIdent (ident_from_name (takeWhile (ident_more u) (c # y)) False 2)], stream_at (dropWhile (ident_more u) (c # y)))" for y
      by (simp add: lex_lifetime_def get_ident_def ident_loop_while mk_punct_def mk_ident_def)
    have ts: "ts = [TPunct (punct_from_char c_squote Joint 2), TIdent (ident_from_name ?w False 2)]" "it = stream_at ?r"
      using q t lq True life by simp_all
    have "lex_quote u True (stream_at ((c_squote # ?w) @ r)) = Inr (ts, stream_at r)" if "stops_for ts r" for r
    proof -
      have w: "takeWhile (ident_more u) (?w @ r) = ?w" "dropWhile (ident_more u) (?w @ r) = r"
        using like_while [of "ident_more u" "c # y" r] that by (simp_all add: like_def stops_for_def)
      obtain v where v: "?w = c # v" "v = takeWhile (ident_more u) y" using m by simp
      have "case v @ r of x # _ \<Rightarrow> x \<noteq> c_squote | [] \<Rightarrow> True"
        using True that v(2) by (cases y) (auto simp: stops_def stops_for_def)
      then have "?tick c (v @ r)" using True by blast
      then show ?thesis using lq [of c "v @ r"] life [of "v @ r"] w v ts by simp
    qed
    then show ?thesis using ts t by (intro local_at_witness [of "c_squote # ?w" _ ?r]) simp_all
  next
    case False
    then obtain x it1 where x: "lex_char (stream_at (c # y)) c = Inr (x, it1)" "push_literal True (x, it1) = Inr (ts, it)"
      using q t lq by auto
    obtain w where w: "w \<noteq> []" "y = w @ ahead it1" "it1 = stream_at (ahead it1)"
      "\<And>r. lex_char (stream_at (c # w @ r)) c = Inr (x, stream_at r)"
      by (rule closed_at_end [OF closed_lex_char x(1)]) (rule that)
    have nt: "\<not> ?tick c (w @ r)" for r using False w(1,2) by (cases w) auto
    have "lex_quote u True (stream_at ((c_squote # c # w) @ r)) = and_then (lex_char (stream_at (c # w @ r)) c) (push_literal True)" for r
      using nt [of r] unfolding append_Cons lq by (rule if_not_P)
    then have "lex_quote u True (stream_at ((c_squote # c # w) @ r)) = Inr (ts, stream_at r)" for r
      using w(4) push_literal_Inr [OF x(2)] by simp
    moreover have "it = stream_at (ahead it1)" using push_literal_Inr [OF x(2)] w(3) by simp
    ultimately show ?thesis using t w by (intro local_at_witness [of "c_squote # c # w" _ "ahead it1"]) simp_all
  qed
qed

lemma local_int_loop:
  assumes "base \<le> 16"
  shows "local_at (\<lambda>it. and_then (int_loop u base (consume it) s) (push_literal a)) (c # t)"
proof (cases "int_loop u base (stream_at t) s")
  case (Inl e)
  then show ?thesis by (intro local_failing) simp
next
  case (Inr r)
  then obtain x it where x: "int_loop u base (stream_at t) s = Inr (x, it)" by (cases r) simp
  obtain w r0 where w: "t = w @ r0" "it = stream_at r0" "\<forall>r. stops r \<longrightarrow> int_loop u base (stream_at (w @ r)) s = Inr (x, stream_at r)"
    using int_loop_local [OF assms x] by blast
  show ?thesis by (rule local_then_literal [of _ "c # t" x r0 "c # w"]) (use x w in simp_all)
qed

lemma number_radix:
  assumes "d \<in> {c_x, c_o, c_b}"
  obtains base where "base \<le> 16" "\<And>y. lex_number u True (stream_at (c_0 # d # y)) c_0 =
    and_then (current (stream_at y)) (\<lambda>_. and_then (int_loop u base (stream_at y) [c_0, d]) (push_literal True))"
  using assms that [of 16] that [of 8] that [of 2] by (auto simp: lex_number_def)

lemma number_decimal:
  assumes "ascii_digit c" "\<not> (c = c_0 \<and> (\<exists>d y'. y = d # y' \<and> d \<in> {c_x, c_o, c_b}))"
  shows "lex_number u True (stream_at (c # y)) c = and_then (int_loop u 10 (stream_at y) [c]) (push_literal True)"
proof (cases "c = c_0")
  case True
  then show ?thesis
  proof (cases y)
    case Nil
    then show ?thesis using True int_loop_stops [of "[]" 10 u] by (simp add: lex_number_def stops_def)
  next
    case (Cons d y')
    then show ?thesis using True assms(2) by (simp add: lex_number_def)
  qed
next
  case False
  have "to_digit 10 c \<noteq> None" "c \<noteq> c_u" "c \<noteq> c_i" "c \<noteq> c_underscore" using assms(1) by (auto simp: to_digit_def ascii_digit_def)
  then have "int_loop u 10 (stream_at (c # y)) [] = int_loop u 10 (stream_at y) [c]"
    by (subst int_loop.simps) simp
  then show ?thesis using False by (simp add: lex_number_def)
qed

lemma local_number:
  assumes "ascii_digit c"
  shows "local_at (\<lambda>it. lex_number u True it c) (c # t)"
proof (cases "c = c_0 \<and> (\<exists>d t'. t = d # t' \<and> d \<in> {c_x, c_o, c_b})")
  case True
  then obtain d t' where t: "c = c_0" "t = d # t'" "d \<in> {c_x, c_o, c_b}" by blast
  obtain base where b: "base \<le> 16" "\<And>y. lex_number u True (stream_at (c_0 # d # y)) c_0 =
      and_then (current (stream_at y)) (\<lambda>_. and_then (int_loop u base (stream_at y) [c_0, d]) (push_literal True))"
    by (rule number_radix [OF t(3)]) (rule that)
  show ?thesis
  proof (rule local_atI)
    fix ts it assume "lex_number u True (stream_at (c # t)) c = Inr (ts, it)"
    then obtain x it1 where x: "int_loop u base (stream_at t') [c_0, d] = Inr (x, it1)" "push_literal True (x, it1) = Inr (ts, it)"
      using t b(2) by auto
    obtain w r0 where w: "t' = w @ r0" "it1 = stream_at r0" "\<forall>r. stops r \<longrightarrow> int_loop u base (stream_at (w @ r)) [c_0, d] = Inr (x, stream_at r)"
      using int_loop_local [OF b(1) x(1)] by blast
    have "lone_radix ts" if "w = []"
    proof -
      have "x = [c_0, d]" using w(3) int_loop_stops [of "[]" base u "[c_0, d]"] b(1) that by (auto simp: stops_def)
      then show ?thesis using x(2) t(3) spelled_Inr by (auto simp: push_literal_def lone_radix_iff)
    qed
    then have "w @ r \<noteq> []" if "stops_for ts r" for r using that by (auto simp: stops_for_def)
    moreover have "current (stream_at y) = Inr (hd y)" if "y \<noteq> []" for y using that by (cases y) auto
    ultimately have "lex_number u True (stream_at ((c # d # w) @ r)) c = Inr (ts, stream_at r)" if "stops_for ts r" for r
      using that w(3) t b(2) push_literal_Inr [OF x(2)] by (auto simp: stops_for_def)
    then show "\<exists>w r0. w \<noteq> [] \<and> c # t = w @ r0 \<and> it = stream_at r0 \<and>
        (\<forall>r. stops_for ts r \<longrightarrow> lex_number u True (stream_at (w @ r)) c = Inr (ts, stream_at r))"
      using w t push_literal_Inr [OF x(2)] by (intro local_at_witness [of "c # d # w" _ r0]) simp_all
  qed
next
  case False
  let ?Q = "\<lambda>y. \<not> (c = c_0 \<and> (\<exists>d y'. y = d # y' \<and> d \<in> {c_x, c_o, c_b}))"
  show ?thesis
  proof (rule local_cong [where Q = ?Q and g = "\<lambda>it. and_then (int_loop u 10 (consume it) [c]) (push_literal True)"])
    show "lex_number u True (stream_at (c # y)) c = and_then (int_loop u 10 (consume (stream_at (c # y))) [c]) (push_literal True)"
      if "?Q y" for y
      using number_decimal [OF assms that] by simp
    show "?Q (v @ r)" if "t = v @ r0" "stops r" for v r0 r
      using that False by (cases v) (auto simp: stops_def)
    show "local_at (\<lambda>it. and_then (int_loop u 10 (consume it) [c]) (push_literal True)) (c # t)"
      by (rule local_int_loop) simp
  qed (rule False)
qed

section \<open>Identifiers\<close>

abbreviation name_token :: "rstr \<Rightarrow> stream token_tree" where
  "name_token n \<equiv> TIdent (ident_from_name n False 2)"

lemma stops_while:
  assumes "list_all (ident_more u) n" "stops r"
  shows "takeWhile (ident_more u) (n @ r) = n" "dropWhile (ident_more u) (n @ r) = r"
proof -
  have "takeWhile (ident_more u) r = []" "dropWhile (ident_more u) r = r" using assms(2) by (auto simp: stops_def)
  then show "takeWhile (ident_more u) (n @ r) = n" "dropWhile (ident_more u) (n @ r) = r"
    using assms(1) by (simp_all add: list_all_iff takeWhile_append2 dropWhile_append2)
qed

lemma get_ident_at:
  "t \<noteq> [] \<Longrightarrow> get_ident u (stream_at t) s = Inr (s @ takeWhile (ident_more u) t, stream_at (dropWhile (ident_more u) t))"
  by (cases t) (simp_all add: get_ident_def ident_loop_while)

lemma push_ident_at: "push_ident True (n, it) = Inr ([name_token n], it)"
  by (simp add: push_ident_def mk_ident_def)

lemma mk_ident_at: "mk_ident True n = Inr (name_token n)"
  by (simp add: mk_ident_def)

lemma mk_new_ident_at: "mk_new_ident u True n = Inr t \<Longrightarrow> t = name_token n"
  by (auto simp: mk_new_ident_def ident_new_def ident_from_name_def)

abbreviation raw_prefixes :: "rstr list" where
  "raw_prefixes \<equiv> [[c_r], [c_b, c_r], [c_c, c_r]]"

lemma raw_prefix_valid:
  assumes "s \<in> set raw_prefixes"
  shows "mk_new_ident u True s = Inr (name_token s)" "list_all (ident_more u) s"
  using assms
  by (auto simp: mk_new_ident_def ident_new_def validate_ident_def utf8_def utf8_char_def Let_def is_alphabetic_def ascii_alphabetic_def
      ident_char_def is_alphanumeric_def ident_from_name_def ident_more_def panicking_def)

lemma hash_loop_skip: "t = [] \<or> hd t \<noteq> c_hash \<Longrightarrow> hash_loop (stream_at t) k = Inr (k, stream_at t)"
  by (subst hash_loop.simps) (cases t; simp)

lemma hash_loop_step: "hash_loop (stream_at (c_hash # t)) k = (if t = [] then err ''rawstr eof'' else hash_loop (stream_at t) (k + 1))"
  by (subst hash_loop.simps) (cases t; simp add: consume_or_def consume_stream stream_at_def err_def)

lemma hash_loop_Inr:
  "hash_loop (stream_at t) k = Inr (m, it) \<Longrightarrow>
    \<exists>n y. m = k + n \<and> t = replicate n c_hash @ y \<and> it = stream_at y \<and> (y = [] \<or> hd y \<noteq> c_hash) \<and> (0 < n \<longrightarrow> y \<noteq> [])"
proof (induction t arbitrary: k)
  case Nil
  then show ?case by (simp add: hash_loop_skip)
next
  case (Cons c t)
  show ?case
  proof (cases "c = c_hash")
    case True
    then obtain n y where "m = k + 1 + n" "t = replicate n c_hash @ y" "it = stream_at y" "y = [] \<or> hd y \<noteq> c_hash"
      "0 < n \<longrightarrow> y \<noteq> []" "t \<noteq> []"
      using Cons.IH [of "k + 1"] Cons.prems by (auto simp: hash_loop_step split: if_splits)
    then show ?thesis using True by (intro exI [of _ "Suc n"] exI [of _ y]) auto
  next
    case False
    then show ?thesis using Cons.prems by (intro exI [of _ 0] exI [of _ "c # t"]) (simp add: hash_loop_skip)
  qed
qed

lemma hash_loop_replicate: "y \<noteq> [] \<Longrightarrow> hd y \<noteq> c_hash \<Longrightarrow> hash_loop (stream_at (replicate n c_hash @ y)) k = Inr (k + n, stream_at y)"
  by (induction n arbitrary: k) (simp_all add: hash_loop_skip hash_loop_step)

lemma lex_raw_at:
  "lex_raw u True s (stream_at (c_r # t)) = (if t = [] then and_then (mk_new_ident u True s) (\<lambda>t. Inr ([t], stream_at []))
    else and_then (hash_loop (stream_at t) 0) (\<lambda>(hashes, it).
      if cs_cur it \<noteq> Some c_dquote then lex_not_raw u True s hashes it
      else and_then (raw_loop hashes it []) (\<lambda>(rawstr, it).
        push_literal True (s @ replicate hashes c_hash @ [c_dquote] @ rawstr @ [c_dquote] @ replicate hashes c_hash, consume it))))"
  unfolding lex_raw_def Let_def by (cases t) simp_all

text \<open>A name is read as itself, prefixes included.\<close>

lemma lex_raw_name:
  assumes "s \<in> set raw_prefixes" "list_all (ident_more u) n" "stops r"
  shows "lex_raw u True s (stream_at (c_r # n @ r)) = Inr ([name_token (s @ n)], stream_at r)"
proof (cases "n @ r = []")
  case True
  then show ?thesis using raw_prefix_valid(1) [OF assms(1)] by (simp add: lex_raw_at)
next
  case False
  have "hd (n @ r) \<noteq> c_hash" "hd (n @ r) \<noteq> c_dquote"
    using assms(2,3) False by (cases n; auto simp: stops_def ident_more_def is_alphanumeric_def is_alphabetic_def is_numeric_def
        ascii_alphabetic_def ascii_digit_def)+
  moreover have "cs_cur (stream_at (n @ r)) = Some (hd (n @ r))" using False by (cases "n @ r") auto
  ultimately show ?thesis
    using False by (auto simp: lex_raw_at hash_loop_skip lex_not_raw_def get_ident_at push_ident_at stops_while [OF assms(2,3)])
qed

lemma lex_name:
  assumes c: "\<not> is_whitespace u c" "is_alphabetic u c \<or> c = c_underscore" and n: "list_all (ident_more u) n" and r: "stops r"
  shows "lex_one u True (stream_at (c # n @ r)) c = Inr ([name_token (c # n)], stream_at r)"
proof -
  have m: "ident_more u c" using c by (auto simp: ident_more_def is_alphanumeric_def)
  have no: "c \<noteq> c_squote" "c \<noteq> c_slash" "c \<noteq> c_dquote" using c by (auto simp: is_alphabetic_def ascii_alphabetic_def)
  consider "c = c_r" | "c = c_b \<or> c = c_c" | "c \<notin> {c_r, c_b, c_c}" by blast
  then show ?thesis
  proof cases
    case 1
    then show ?thesis using c no lex_raw_name [of "[c_r]" u n r] n r by (simp add: lex_one_def lex_prefixed_def lex_after_prefix_def Let_def)
  next
    case 2
    show ?thesis
    proof (cases "n @ r")
      case Nil
      then show ?thesis using 2 c no by (auto simp: lex_one_def lex_prefixed_def mk_ident_at)
    next
      case (Cons x y)
      then have x: "x \<noteq> c_squote" "x \<noteq> c_dquote" "x = c_r \<Longrightarrow> \<exists>n'. n = c_r # n'"
        using n r by (cases n; auto simp: stops_def ident_more_def is_alphanumeric_def is_alphabetic_def is_numeric_def
            ascii_alphabetic_def ascii_digit_def)+
      show ?thesis
      proof (cases "x = c_r")
        case True
        then obtain n' where n': "n = c_r # n'" using x(3) by blast
        have "lex_raw u True [c, c_r] (stream_at (c_r # n' @ r)) = Inr ([name_token ([c, c_r] @ n')], stream_at r)"
          using 2 n n' r by (intro lex_raw_name) auto
        then show ?thesis using 2 c no n' by (auto simp: lex_one_def lex_prefixed_def lex_after_prefix_def Let_def)
      next
        case False
        have "and_then (get_ident u (stream_at (n @ r)) [c]) (push_ident True) = Inr ([name_token (c # n)], stream_at r)"
          using Cons stops_while [OF n r] by (simp add: get_ident_at push_ident_at)
        then show ?thesis using 2 c no x Cons False by (auto simp: lex_one_def lex_prefixed_def lex_after_prefix_def Let_def)
      qed
    qed
  next
    case 3
    then show ?thesis using c no m stops_while [OF n r] by (simp add: lex_one_def get_ident_at push_ident_at)
  qed
qed

section \<open>What a turn reads\<close>

fun hash_tokens :: "nat \<Rightarrow> stream token_tree list" where
  "hash_tokens 0 = []"
| "hash_tokens (Suc n) = TPunct (punct_from_char c_hash (if n = 0 then Alone else Joint) 2) # hash_tokens n"

lemma push_hashes_at: "push_hashes True n = Inr (hash_tokens n)"
  by (induction n) (simp_all add: mk_punct_def)

text \<open>A name, possibly with the hashes that turned out not to start a raw string.\<close>

definition name_run :: "unicode \<Rightarrow> rstr \<Rightarrow> stream token_tree list \<Rightarrow> char_stream \<Rightarrow> bool" where
  "name_run u t ts it \<longleftrightarrow> (\<exists>n k r0. n \<noteq> [] \<and> t = n @ replicate k c_hash @ r0 \<and> list_all (ident_more u) n
     \<and> ts = name_token n # hash_tokens k \<and> it = stream_at r0)"

definition local_run :: "(char_stream \<Rightarrow> (stream token_tree list \<times> char_stream) lexed) \<Rightarrow> rstr \<Rightarrow> stream token_tree list \<Rightarrow> char_stream \<Rightarrow> bool" where
  "local_run f t ts it \<longleftrightarrow> (\<exists>w r0. w \<noteq> [] \<and> t = w @ r0 \<and> it = stream_at r0 \<and>
     (\<forall>r. stops_for ts r \<longrightarrow> f (stream_at (w @ r)) = Inr (ts, stream_at r)))"

lemma local_runI: "local_at f t \<Longrightarrow> f (stream_at t) = Inr (ts, it) \<Longrightarrow> local_run f t ts it"
  by (simp add: local_at_def local_run_def)

lemma name_runI:
  "t \<noteq> [] \<Longrightarrow> s @ takeWhile (ident_more u) t \<noteq> [] \<Longrightarrow> list_all (ident_more u) s \<Longrightarrow>
    name_run u (s @ t) [name_token (s @ takeWhile (ident_more u) t)] (stream_at (dropWhile (ident_more u) t))"
  unfolding name_run_def
  by (rule exI [of _ "s @ takeWhile (ident_more u) t"], rule exI [of _ 0], rule exI [of _ "dropWhile (ident_more u) t"])
    (auto simp: list_all_iff dest: set_takeWhileD)

text \<open>The tokens of a turn that reads one word: a literal, a name or a lifetime.\<close>

definition one_word :: "stream token_tree list \<Rightarrow> bool" where
  "one_word ts \<longleftrightarrow> (\<exists>l. ts = [TLiteral l]) \<or> (\<exists>i. ts = [TIdent i]) \<or> (\<exists>i. ts = [TPunct (punct_from_char c_squote Joint 2), TIdent i])"

lemma one_word_literal: "push_literal a x = Inr (ts, it) \<Longrightarrow> one_word ts"
  by (auto simp: push_literal_def one_word_def split: prod.splits)

lemma one_word_quote: "lex_quote u True it = Inr (ts, it') \<Longrightarrow> one_word ts"
  by (auto simp: lex_quote_def lex_lifetime_def mk_ident_def mk_punct_def one_word_def dest!: one_word_literal split: if_splits)

lemma one_word_number: "lex_number u True it c = Inr (ts, it') \<Longrightarrow> one_word ts"
  by (auto simp: lex_number_def Let_def dest!: one_word_literal split: if_splits option.splits)

lemma one_word_byte: "lex_byte_char True True it = Inr (ts, it') \<Longrightarrow> one_word ts"
  by (auto simp: lex_byte_char_def Let_def dest!: one_word_literal split: if_splits option.splits)

lemma lex_raw_result:
  assumes r: "lex_raw u True (p @ [c_r]) (stream_at (c_r # t)) = Inr (ts, it)" and s: "p @ [c_r] \<in> set raw_prefixes"
  shows "name_run u (p @ c_r # t) ts it \<or>
    one_word ts \<and> (\<exists>w r0. t = w @ r0 \<and> it = stream_at r0 \<and> (\<forall>r. lex_raw u True (p @ [c_r]) (stream_at (c_r # w @ r)) = Inr (ts, stream_at r)))"
proof (cases "t = []")
  case True
  then show ?thesis
    using r raw_prefix_valid [OF s]
    by (intro disjI1, unfold name_run_def, intro exI [of _ "p @ [c_r]"], intro exI [of _ 0]) (auto simp: lex_raw_at)
next
  case False
  obtain m it1 where h: "hash_loop (stream_at t) 0 = Inr (m, it1)"
    and rest: "(if cs_cur it1 \<noteq> Some c_dquote then lex_not_raw u True (p @ [c_r]) m it1
      else and_then (raw_loop m it1 []) (\<lambda>(rawstr, it).
        push_literal True ((p @ [c_r]) @ replicate m c_hash @ [c_dquote] @ rawstr @ [c_dquote] @ replicate m c_hash, consume it))) = Inr (ts, it)"
    using r False by (auto simp: lex_raw_at)
  obtain y where y: "t = replicate m c_hash @ y" "it1 = stream_at y" "y = [] \<or> hd y \<noteq> c_hash" "0 < m \<longrightarrow> y \<noteq> []"
    using hash_loop_Inr [OF h] by auto
  show ?thesis
  proof (cases "cs_cur it1 = Some c_dquote")
    case True
    then obtain y' where y': "y = c_dquote # y'" using y(2) by (cases y) auto
    obtain x it2 where x: "raw_loop m it1 [] = Inr (x, it2)" "push_literal True ((p @ [c_r]) @ replicate m c_hash @ [c_dquote] @ x @ [c_dquote] @ replicate m c_hash, consume it2) = Inr (ts, it)"
      using rest True by auto
    obtain w where w: "cs_inner it1 = w @ cs_inner it2" "\<And>r. raw_loop m (it1\<lparr>cs_inner := w @ r\<rparr>) [] = Inr (x, it2\<lparr>cs_inner := r\<rparr>)"
      by (rule steady_atE [OF steady_raw_loop x(1)]) (rule that, simp_all)
    have "lex_raw u True (p @ [c_r]) (stream_at (c_r # (replicate m c_hash @ c_dquote # w) @ r)) = Inr (ts, stream_at r)" for r
    proof -
      have "it1\<lparr>cs_inner := w @ r\<rparr> = stream_at (c_dquote # w @ r)" using y(2) y' by (simp add: stream_at_def)
      then have "raw_loop m (stream_at (c_dquote # w @ r)) [] = Inr (x, it2\<lparr>cs_inner := r\<rparr>)" using w(2) [of r] by simp
      then show ?thesis
        using push_literal_Inr [OF x(2)] by (simp add: lex_raw_at hash_loop_replicate consume_stream)
    qed
    moreover have "t = (replicate m c_hash @ c_dquote # w) @ cs_inner it2" using y y' w(1) by (simp add: stream_at_def)
    moreover have "it = stream_at (cs_inner it2)" using push_literal_Inr [OF x(2)] by (simp add: consume_stream)
    ultimately show ?thesis using one_word_literal [OF x(2)] by blast
  next
    case False
    then have n: "lex_not_raw u True (p @ [c_r]) m (stream_at y) = Inr (ts, it)" using rest y(2) by simp
    show ?thesis
    proof (cases "m = 0")
      case True
      then have "ts = [name_token ((p @ [c_r]) @ takeWhile (ident_more u) t)]" "it = stream_at (dropWhile (ident_more u) t)"
        using n y(1) \<open>t \<noteq> []\<close> by (auto simp: lex_not_raw_def get_ident_at push_ident_at)
      then show ?thesis using name_runI [OF \<open>t \<noteq> []\<close> _ raw_prefix_valid(2) [OF s], of u] by simp
    next
      case False
      then have "ts = name_token (p @ [c_r]) # hash_tokens m" "it = stream_at y"
        using n raw_prefix_valid(1) [OF s] by (auto simp: lex_not_raw_def push_hashes_at)
      then show ?thesis using raw_prefix_valid(2) [OF s] y(1)
        by (intro disjI1, unfold name_run_def, intro exI [of _ "p @ [c_r]"], intro exI [of _ m]) auto
    qed
  qed
qed

lemma local_byte_char: "local_at (lex_byte_char True True) (c_squote # t)"
proof -
  define f where "f = (\<lambda>it. and_then (consume_or ''Unterminated byte character literal'' it) (\<lambda>(c, it).
    and_then (if c = c_backslash then byte_escape it [c_b, c_squote, c]
      else if c \<le> 0x7F \<and> c \<noteq> c_newline \<and> c \<noteq> c_return then Inr ([c_b, c_squote, c], it)
      else err ''Invalid byte character literal'') (\<lambda>(spelling, it).
    and_then (consume_or ''Unterminated byte character literal'' it) (\<lambda>(d, it).
      if d = c_squote then Inr (spelling @ [c_squote], consume it) else err ''Multiple characters in byte character literal''))))"
  have "closed_at f (stream_at (c_squote # t))"
    unfolding f_def by (intro closed_bind_steady steady_consume_or closed_consume steady_if steady_byte_escape steady_done steady_err)
  then have "local_at (\<lambda>it. and_then (f it) (push_literal True)) (c_squote # t)" by (rule local_closed)
  moreover have "and_then (f it) (push_literal True) = lex_byte_char True True it" for it
    unfolding f_def lex_byte_char_def and_then_assoc
    by (auto simp: consume_or_def Let_def err_def fun_eq_iff and_then_assoc case_prod_unfold split: option.splits
        intro!: arg_cong2 [where f = and_then])
  ultimately show ?thesis by simp
qed

definition word_turn :: "unicode \<Rightarrow> rstr \<Rightarrow> stream token_tree list \<Rightarrow> char_stream \<Rightarrow> bool" where
  "word_turn u s ts it \<longleftrightarrow> one_word ts \<and> (\<exists>w r0. w \<noteq> [] \<and> s = w @ r0 \<and> it = stream_at r0 \<and>
     (\<forall>r. stops_for ts r \<longrightarrow> lex_one u True (stream_at (w @ r)) (hd w) = Inr (ts, stream_at r)))"

lemma word_turnI:
  assumes "local_at f (d # t)" "f (stream_at (d # t)) = Inr (ts, it)"
    and "\<And>y. lex_one u True (stream_at (q @ d # y)) (hd (q @ [d])) = f (stream_at (d # y))" "one_word ts"
  shows "word_turn u (q @ d # t) ts it"
proof -
  obtain w r0 where w: "w \<noteq> []" "d # t = w @ r0" "it = stream_at r0"
    "\<forall>r. stops_for ts r \<longrightarrow> f (stream_at (w @ r)) = Inr (ts, stream_at r)"
    using assms(1,2) by (auto simp: local_at_def)
  then obtain v where v: "w = d # v" by (cases w) auto
  have "hd (q @ [d]) = hd (q @ w)" by (cases q) (simp_all add: v)
  then show ?thesis
    unfolding word_turn_def using w v assms(3,4) by (intro conjI exI [of _ "q @ w"] exI [of _ r0]) auto
qed

lemma word_turn_raw:
  assumes "t = w @ r0" "it = stream_at r0" "\<And>r. lex_raw u True (p @ [c_r]) (stream_at (c_r # w @ r)) = Inr (ts, stream_at r)"
    and "\<And>y. lex_one u True (stream_at (p @ c_r # y)) (hd (p @ [c_r])) = lex_raw u True (p @ [c_r]) (stream_at (c_r # y))"
    and "one_word ts"
  shows "word_turn u (p @ c_r # t) ts it"
proof -
  have "hd (p @ c_r # w) = hd (p @ [c_r])" by (cases p) simp_all
  then have "lex_one u True (stream_at ((p @ c_r # w) @ r)) (hd (p @ c_r # w)) = Inr (ts, stream_at r)" for r
    using assms(3,4) by simp
  then show ?thesis
    unfolding word_turn_def using assms(1,2,5) by (intro conjI exI [of _ "p @ c_r # w"] exI [of _ r0]) simp_all
qed

text \<open>Turns that start with \<^verbatim>\<open>b\<close>, \<^verbatim>\<open>c\<close> or \<^verbatim>\<open>r\<close>.\<close>

lemma prefix_chars [simp]:
  "\<not> is_whitespace u c_b" "\<not> is_whitespace u c_c" "\<not> is_whitespace u c_r"
  by (simp_all add: is_whitespace_def)

lemma raw_turn:
  assumes "p \<in> {[], [c_b], [c_c]}" "lex_one u True (stream_at (p @ c_r # t)) (hd (p @ [c_r])) = Inr (ts, it)"
  shows "name_run u (p @ c_r # t) ts it \<or> word_turn u (p @ c_r # t) ts it"
proof -
  have one: "lex_one u True (stream_at (p @ c_r # y)) (hd (p @ [c_r])) = lex_raw u True (p @ [c_r]) (stream_at (c_r # y))" for y
    using assms(1) by (auto simp: lex_one_def lex_prefixed_def lex_after_prefix_def Let_def)
  have "p @ [c_r] \<in> set raw_prefixes" using assms(1) by auto
  from lex_raw_result [OF assms(2) [unfolded one] this] show ?thesis
    using word_turn_raw [OF _ _ _ one] by blast
qed

lemma prefix_turn:
  assumes c: "c \<in> {c_b, c_c}" and one: "lex_one u True (stream_at (c # t)) c = Inr (ts, it)"
  shows "name_run u (c # t) ts it \<or> word_turn u (c # t) ts it"
proof (cases t)
  case Nil
  then have "ts = [name_token [c]]" "it = stream_at []"
    using assms by (auto simp: lex_one_def lex_prefixed_def mk_ident_at)
  then show ?thesis
    unfolding name_run_def using Nil c
    by (intro disjI1 exI [of _ "[c]"], intro exI [of _ 0]) (auto simp: ident_more_def is_alphanumeric_def is_alphabetic_def ascii_alphabetic_def)
next
  case (Cons d y)
  have more: "list_all (ident_more u) [c]" using c by (auto simp: ident_more_def is_alphanumeric_def is_alphabetic_def ascii_alphabetic_def)
  have after: "lex_one u True (stream_at (c # d # z)) c = lex_after_prefix u True (Some c) d (stream_at (d # z))" for z
    using c by (auto simp: lex_one_def lex_prefixed_def)
  consider "d = c_r" | "d = c_squote" "c = c_c" | "d = c_squote" "c = c_b" | "d = c_dquote" | "d \<notin> {c_r, c_squote, c_dquote}"
    using c by auto
  then show ?thesis
  proof cases
    case 1
    then show ?thesis using raw_turn [of "[c]" u y ts it] c one Cons by auto
  next
    case 2
    then have "ts = [name_token [c]]" "it = stream_at t"
      using one Cons after by (auto simp: lex_after_prefix_def lex_byte_char_def mk_ident_at)
    then show ?thesis
      unfolding name_run_def using more by (intro disjI1 exI [of _ "[c]"], intro exI [of _ 0]) auto
  next
    case 3
    then have "word_turn u ([c] @ d # y) ts it"
      using one Cons after by (intro word_turnI [where f = "lex_byte_char True True"])
        (auto simp: local_byte_char lex_after_prefix_def dest: one_word_byte)
    then show ?thesis using Cons by simp
  next
    case 4
    then have "word_turn u ([c] @ d # y) ts it"
      using one Cons after c
      by (intro word_turnI [where f = "\<lambda>it. and_then (string_loop u it [c, c_dquote]) (push_literal True)"] local_closed closed_string_loop)
        (auto simp: lex_after_prefix_def dest: one_word_literal)
    then show ?thesis using Cons by simp
  next
    case 5
    then have "ts = [name_token ([c] @ takeWhile (ident_more u) t)]" "it = stream_at (dropWhile (ident_more u) t)"
      using one Cons after by (auto simp: lex_after_prefix_def get_ident_at push_ident_at)
    then show ?thesis using name_runI [of t "[c]" u] more Cons by simp
  qed
qed

text \<open>Every turn that reads a name, a lifetime or a literal.\<close>

definition starts_word :: "unicode \<Rightarrow> rchar \<Rightarrow> bool" where
  "starts_word u c \<longleftrightarrow> c = c_squote \<or> c = c_dquote \<or> c = c_underscore \<or> is_alphabetic u c \<or> ascii_digit c"

lemma word_turn_at:
  assumes "local_at f (c # t)" "\<And>y. lex_one u True (stream_at (c # y)) c = f (stream_at (c # y))"
    "lex_one u True (stream_at (c # t)) c = Inr (ts, it)" "f (stream_at (c # t)) = Inr (ts, it) \<Longrightarrow> one_word ts"
  shows "word_turn u (c # t) ts it"
  using word_turnI [of f c t ts it u "[]"] assms by simp

lemma words:
  assumes c: "\<not> is_whitespace u c" "starts_word u c" and one: "lex_one u True (stream_at (c # t)) c = Inr (ts, it)"
  shows "name_run u (c # t) ts it \<and> (is_alphabetic u c \<or> c = c_underscore) \<or> word_turn u (c # t) ts it"
proof -
  consider "c = c_squote" | "c = c_dquote" | "c \<in> {c_b, c_c}" | "c = c_r"
    | "is_alphabetic u c \<or> c = c_underscore" "c \<notin> {c_b, c_c, c_r}" | "ascii_digit c"
    using c(2) by (auto simp: starts_word_def)
  then show ?thesis
  proof cases
    case 1
    then show ?thesis
      using word_turn_at [of "lex_quote u True" c t u ts it] local_lex_quote one one_word_quote by (simp add: lex_one_def)
  next
    case 2
    then show ?thesis
      using word_turn_at [of "\<lambda>it. and_then (string_loop u it [c_dquote]) (push_literal True)" c t u ts it]
        local_closed [OF closed_string_loop] one
      by (auto simp: lex_one_def lex_prefixed_def lex_after_prefix_def dest: one_word_literal)
  next
    case 3
    have "is_alphabetic u c" using 3 by (auto simp: is_alphabetic_def ascii_alphabetic_def)
    then show ?thesis using prefix_turn [OF 3 one] by blast
  next
    case 4
    then have "is_alphabetic u c" by (auto simp: is_alphabetic_def ascii_alphabetic_def)
    then show ?thesis using raw_turn [of "[]" u t ts it] one 4 by auto
  next
    case 5
    have no: "c \<noteq> c_squote" "c \<noteq> c_slash" "c \<noteq> c_dquote" using 5(1) by (auto simp: is_alphabetic_def ascii_alphabetic_def)
    then have "ts = [name_token (takeWhile (ident_more u) (c # t))]" "it = stream_at (dropWhile (ident_more u) (c # t))"
      using one 5 c(1) by (auto simp: lex_one_def get_ident_at push_ident_at)
    moreover have "ident_more u c" using 5(1) by (auto simp: ident_more_def is_alphanumeric_def)
    ultimately show ?thesis using name_runI [of "c # t" "[]" u] 5(1) by simp
  next
    case 6
    then have "c \<notin> {c_squote, c_slash, c_b, c_c, c_r, c_dquote, c_underscore}" "\<not> is_alphabetic u c"
      by (auto simp: ascii_digit_def is_alphabetic_def ascii_alphabetic_def)
    then have "lex_one u True (stream_at (c # y)) c = lex_number u True (stream_at (c # y)) c" for y
      using 6 c(1) by (auto simp: lex_one_def)
    from word_turn_at [OF local_number this one] 6 one_word_number show ?thesis by blast
  qed
qed

section \<open>Operators\<close>

text \<open>The lexer takes one character, or two when the table has them; what follows sets the spacing.\<close>

definition next_sep :: "rstr \<Rightarrow> spacing" where
  "next_sep t = (case t of [] \<Rightarrow> Alone | d # _ \<Rightarrow> if starts_punctuation (stream_at t) d then Joint else Alone)"

definition pair_of :: "rchar \<Rightarrow> rstr \<Rightarrow> bool" where
  "pair_of c t \<longleftrightarrow> (case t of [] \<Rightarrow> False | d # _ \<Rightarrow> [as_u8 c, as_u8 d] \<in> set syms)"

definition op_tokens :: "rchar \<Rightarrow> rstr \<Rightarrow> stream token_tree list \<times> rstr" where
  "op_tokens c t =
     (if pair_of c t then ([TPunct (punct_from_char (unat (as_u8 c)) Joint 2),
        TPunct (punct_from_char (unat (as_u8 (hd t))) (next_sep (tl t)) 2)], tl t)
      else ([TPunct (punct_from_char (unat (as_u8 c)) (next_sep t) 2)], t))"

lemma push_sym_at: "cs_cur (stream_at t) = None \<or> cs_cur (stream_at t) = Some c \<Longrightarrow>
    push_sym True (stream_at t) c [b] = Inr [TPunct (punct_from_char (unat b) (next_sep t) 2)]
    \<and> push_sym True (stream_at t) c [a, b] = Inr [TPunct (punct_from_char (unat a) Joint 2), TPunct (punct_from_char (unat b) (next_sep t) 2)]"
  by (cases t) (auto simp: mk_punct_def is_complete_def next_sep_def stream_at_def)

text \<open>Facts of the table: the range of a first byte is everything that starts with it.\<close>

abbreviation with_first :: "u8 \<Rightarrow> u8 list list" where
  "with_first b \<equiv> filter (\<lambda>v. v ! 0 = b) syms"

lemma first_ranges: "list_all (\<lambda>b. case position_at 0 b syms of
     Inr (Some s) \<Rightarrow> (case grow_end syms 0 b (s + 1) of Inr e \<Rightarrow> take (e - s) (drop s syms) = with_first b | _ \<Rightarrow> False)
   | _ \<Rightarrow> False) (map (\<lambda>v. v ! 0) syms)"
  by code_simp

lemma short_first: "list_all (\<lambda>b. let vs = drop 1 (with_first b) in
     list_all (\<lambda>k. 2 < length (vs ! k) \<longrightarrow> list_ex (\<lambda>j. vs ! j ! 1 = vs ! k ! 1) [0..<k]) [0..<length vs]) (map (\<lambda>v. v ! 0) syms)"
  by code_simp

lemma single_first: "list_all (\<lambda>b. hd (with_first b) = [b] \<and> list_all (\<lambda>v. 1 < length v) (tl (with_first b))) (map (\<lambda>v. v ! 0) syms)"
  by code_simp

lemma position_at_None: "position_at ofs b vs = Inr None \<Longrightarrow> v \<in> set vs \<Longrightarrow> v ! ofs \<noteq> b"
  by (induction vs) (auto split: if_splits)

lemma position_at_short: "list_all (\<lambda>v. ofs < length v) vs \<Longrightarrow> position_at ofs b vs = Inr pos \<Longrightarrow>
    (case pos of None \<Rightarrow> \<forall>v \<in> set vs. v ! ofs \<noteq> b | Some k \<Rightarrow> k < length vs \<and> vs ! k ! ofs = b \<and> (\<forall>j < k. vs ! j ! ofs \<noteq> b))"
  using position_at_None [of ofs b vs] position_at_Some [of ofs b vs] position_at_first [of ofs b vs] by (cases pos) auto

lemma sym_loop_last:
  assumes "s < 51" "length (syms ! s) = ofs"
  shows "sym_loop s (s + 1) ofs (stream_at (d # t)) d = Inr (s, ofs, stream_at t, if t = [] then d else hd t)"
  using assms by (subst sym_loop.simps) (cases t; simp add: Let_def length_syms take_Suc_conv_app_nth)

lemma first_rangeE:
  assumes "b \<in> set (map (\<lambda>v. v ! 0) syms)"
  obtains s e where "position_at 0 b syms = Inr (Some s)" "grow_end syms 0 b (s + 1) = Inr e" "take (e - s) (drop s syms) = with_first b"
proof -
  have "case position_at 0 b syms of
     Inr (Some s) \<Rightarrow> (case grow_end syms 0 b (s + 1) of Inr e \<Rightarrow> take (e - s) (drop s syms) = with_first b | _ \<Rightarrow> False)
   | _ \<Rightarrow> False"
    using first_ranges assms unfolding list_all_iff by blast
  then show thesis
    by (cases "position_at 0 b syms"; (simp split: option.splits)?) (auto split: sum.splits intro: that)
qed

lemma lex_punct_known:
  assumes v: "v0 \<in> set syms" "v0 ! 0 = as_u8 c"
  shows "lex_punct True (stream_at (c # t)) c = Inr (fst (op_tokens c t), stream_at (snd (op_tokens c t)))"
proof -
  let ?b = "as_u8 c"
  have b: "?b \<in> set (map (\<lambda>v. v ! 0) syms)" using v by force
  obtain s e where s: "position_at 0 ?b syms = Inr (Some s)" "grow_end syms 0 ?b (s + 1) = Inr e"
    "take (e - s) (drop s syms) = with_first ?b"
    by (rule first_rangeE [OF b])
  define table where "table = with_first ?b"
  note sr = first_symbols [OF s(1,2)]
  have bounds: "s < e" "e \<le> 51" "e \<le> 2 * s + 2" using sr by (auto simp: sym_range_def)
  note tab = sym_range_table [OF sr, unfolded s(3), folded table_def]
  have "hd table = [?b]" "list_all (\<lambda>v. 1 < length v) (tl table)"
    using single_first b unfolding list_all_iff table_def by blast+
  moreover have "hd table = table ! 0" using tab(1) bounds(1) by (intro hd_conv_nth) auto
  ultimately have first: "syms ! s = [?b]" "table ! 0 = [?b]" "list_all (\<lambda>v. 1 < length v) (drop 1 table)"
    using tab(2) [of 0] tab(1) bounds(1) by (simp_all add: drop_Suc)
  have step: "sym_loop s e 1 (stream_at (c # t)) c = (case t of [] \<Rightarrow> Inr (s, 1, stream_at [], c)
      | d # t' \<Rightarrow> and_then (position_at 1 (as_u8 d) (drop 1 table)) (\<lambda>pos. case pos of
              None \<Rightarrow> Inr (s, 1, stream_at t, d)
            | Some k \<Rightarrow> (let s = s + (k + 1) in
                 and_then (grow_end table 1 (as_u8 d) (s + 1)) (\<lambda>e. sym_loop s e 2 (stream_at t) d))))"
    using first(2) by (subst sym_loop.simps) (cases t; simp add: s(3) table_def [symmetric] Let_def numeral_2_eq_2)
  have plain: "lex_punct True (stream_at (c # t)) c = Inr ([TPunct (punct_from_char (unat ?b) (next_sep t) 2)], stream_at t)"
    if "sym_loop s e 1 (stream_at (c # t)) c = Inr (s, 1, stream_at t, x)" "t = [] \<or> x = hd t" for x
  proof -
    have "cs_cur (stream_at t) = None \<or> cs_cur (stream_at t) = Some x" using that(2) by (cases t) auto
    from push_sym_at [OF this] show ?thesis using s first(1) that(1) by (simp add: lex_punct_def)
  qed
  show ?thesis
  proof (cases t)
    case Nil
    then show ?thesis using plain [of c] step by (simp add: op_tokens_def pair_of_def)
  next
    case (Cons d t')
    obtain pos where pos: "position_at 1 (as_u8 d) (drop 1 table) = Inr pos"
      using position_at_total [OF first(3)] by blast
    note pos' = position_at_short [OF first(3) pos]
    show ?thesis
    proof (cases pos)
      case None
      have "[?b, as_u8 d] \<notin> set syms"
      proof
        assume "[?b, as_u8 d] \<in> set syms"
        then have "[?b, as_u8 d] \<in> set table" by (simp add: table_def)
        moreover have "table = [?b] # drop 1 table" using first(2) tab(1) bounds(1) by (cases table) auto
        ultimately have "[?b, as_u8 d] \<in> set (drop 1 table)" by (metis list.inject list.discI set_ConsD)
        then show False using pos' None by fastforce
      qed
      then show ?thesis using plain [of d] step pos None Cons by (simp add: op_tokens_def pair_of_def)
    next
      case (Some k)
      let ?s = "s + (k + 1)"
      have k: "k < length (drop 1 table)" "drop 1 table ! k ! 1 = as_u8 d" "\<forall>j < k. drop 1 table ! j ! 1 \<noteq> as_u8 d"
        using pos' Some by auto
      have in_table: "drop 1 table ! k = syms ! ?s" "?s < 51" using tab k(1) bounds by auto
      have "\<not> 2 < length (drop 1 table ! k)"
        using short_first b k unfolding table_def by (fastforce simp: list_all_iff list_ex_iff Let_def)
      then have len: "length (syms ! ?s) = 2" using first(3) k(1) in_table(1) by (auto simp: list_all_length)
      have "drop 1 table ! k \<in> set table" using k(1) by (meson in_set_dropD nth_mem)
      then have "syms ! ?s ! 0 = ?b" "syms ! ?s \<in> set syms" using in_table by (simp_all add: table_def)
      then have sym: "syms ! ?s = [?b, as_u8 d]" using len k(2) in_table(1)
        by (auto simp: list_eq_iff_nth_eq less_2_cases_iff)
      have g: "grow_end table 1 (as_u8 d) (?s + 1) = Inr (?s + 1)"
        using bounds k(1) tab(1) by (intro grow_end_done) auto
      have l: "sym_loop s e 1 (stream_at (c # t)) c = Inr (?s, 2, stream_at t', if t' = [] then d else hd t')"
        using step pos Some g Cons sym_loop_last [OF in_table(2) len, of d t'] by (simp add: Let_def)
      have "pair_of c t" using \<open>syms ! ?s \<in> set syms\<close> sym Cons by (simp add: pair_of_def)
      moreover have "cs_cur (stream_at t') = None \<or> cs_cur (stream_at t') = Some (if t' = [] then d else hd t')"
        by (cases t') auto
      from push_sym_at [OF this] have "lex_punct True (stream_at (c # t)) c = Inr ([TPunct (punct_from_char (unat ?b) Joint 2),
          TPunct (punct_from_char (unat (as_u8 d)) (next_sep t') 2)], stream_at t')"
        using s sym len l by (simp add: lex_punct_def)
      ultimately show ?thesis using Cons by (simp add: op_tokens_def)
    qed
  qed
qed

end
