(* ===== verification/Relex.thy ===== *)
theory Relex
  imports Locality
begin

text \<open>
  Printing a lexed stream and lexing the text again gives the stream back. The text of a stream is
  the text of its flat tokens with a blank between any two that are not joint; each token, and each
  run of joint punctuation, is read from that text as it was read from the source.
\<close>

section \<open>Text of flat tokens\<close>

definition sticky :: "stream token_tree \<Rightarrow> bool" where
  "sticky t \<longleftrightarrow> (case t of TPunct p \<Rightarrow> punct_joint p | _ \<Rightarrow> False)"

fun is_delim :: "stream token_tree \<Rightarrow> bool" where
  "is_delim (TPunct p) \<longleftrightarrow> is_open (punct_as_char p) \<or> is_close (punct_as_char p)"
| "is_delim _ \<longleftrightarrow> False"

text \<open>Grouping forgets the spacing of a delimiter.\<close>

definition plain :: "stream token_tree \<Rightarrow> stream token_tree" where
  "plain t = (case t of TPunct p \<Rightarrow> if is_delim t then TPunct (punct_from_char (punct_as_char p) Alone 2) else t | _ \<Rightarrow> t)"

fun text_of :: "bool \<Rightarrow> stream token_tree list \<Rightarrow> rstr" where
  "text_of glued [] = []"
| "text_of glued (t # ts) = (if glued then [] else [c_space]) @ tree_display t @ text_of (sticky t) ts"

lemma plain_simps [simp]: "plain (TIdent i) = TIdent i" "plain (TLiteral l) = TLiteral l" "plain (TGroup g) = TGroup g"
  by (simp_all add: plain_def)

lemma plain_display [simp]: "tree_display (plain t) = tree_display t"
  by (auto simp: plain_def punct_display_def punct_as_char_def punct_from_char_def split: token_tree.splits)

lemma plain_flat [simp]: "flat_token (plain t) = flat_token t"
  by (auto simp: plain_def flat_token_def punct_as_char_def punct_from_char_def split: token_tree.splits)

lemma plain_leaf [simp]: "is_leaf (plain t) = is_leaf t"
  by (cases t) (simp_all add: plain_def)

lemma plain_sticky: "sticky (plain t) \<longleftrightarrow> sticky t \<and> \<not> is_delim t"
  by (cases t) (auto simp: plain_def sticky_def punct_from_char_def)

lemma spell_plain [simp]: "spell (map plain ts) = spell ts"
  by (simp add: spell_def comp_def)

lemma text_of_append:
  "list_all sticky (butlast ts) \<Longrightarrow> ts \<noteq> [] \<Longrightarrow> text_of True (ts @ us) = spell ts @ text_of (sticky (last ts)) us"
proof (induction ts)
  case (Cons t ts)
  then show ?case by (cases ts) auto
qed simp

lemma text_of_alone: "text_of False ts = (if ts = [] then [] else c_space # text_of True ts)"
  by (cases ts) simp_all

section \<open>A turn of the lexer, alone\<close>

definition next_punct :: "rstr \<Rightarrow> rchar option" where
  "next_punct s = (case s of [] \<Rightarrow> None | d # _ \<Rightarrow> if starts_punctuation (stream_at s) d then Some d else None)"

lemma next_sep_punct: "next_sep s = (if next_punct s = None then Alone else Joint)"
  by (auto simp: next_sep_def next_punct_def split: list.splits)

text \<open>
  The tokens of one turn, read again from their own text: before a blank or the end when the last
  is not joint, before the same punctuation character when it is.
\<close>

definition followed :: "stream token_tree list \<Rightarrow> rchar option \<Rightarrow> rstr \<Rightarrow> bool" where
  "followed ts d r \<longleftrightarrow> (case d of None \<Rightarrow> stops_for ts r | Some x \<Rightarrow> next_punct r = Some x)"

definition ends_in_radix :: "stream token_tree list \<Rightarrow> bool" where
  "ends_in_radix ts \<longleftrightarrow> ts \<noteq> [] \<and> lone_radix [last ts]"

definition turn :: "unicode \<Rightarrow> stream token_tree list \<Rightarrow> rchar option \<Rightarrow> bool" where
  "turn u ts d \<longleftrightarrow> ts \<noteq> [] \<and> spell ts \<noteq> [] \<and> list_all sticky (butlast ts) \<and> sticky (last ts) = (d \<noteq> None) \<and> (\<forall>t \<in> set (tl ts). \<not> is_delim t) \<and>
     (ends_in_radix ts \<longrightarrow> lone_radix ts) \<and>
     (\<forall>r. followed ts d r \<longrightarrow> lex_one u True (stream_at (spell ts @ r)) (hd (spell ts)) = Inr (ts, stream_at r))"

inductive relexes :: "unicode \<Rightarrow> stream token_tree list \<Rightarrow> bool" for u where
  relexes_end: "relexes u []"
| relexes_turn: "turn u ts d \<Longrightarrow> relexes u us \<Longrightarrow> d \<noteq> None \<longrightarrow> next_punct (text_of True us) = d \<Longrightarrow> relexes u (ts @ us)"

lemma lex_loop_at: "lex_loop u True (stream_at s) rv = (case s of [] \<Rightarrow> Inr rv
    | c # _ \<Rightarrow> and_then (lex_one u True (stream_at s) c) (\<lambda>(ts, it). lex_loop u True it (rv @ ts)))"
  by (subst lex_loop.simps) (cases s; simp)

lemma lex_loop_blank: "lex_loop u True (stream_at (c_space # s)) rv = lex_loop u True (stream_at s) rv"
  by (subst lex_loop_at) (simp add: lex_one_def is_whitespace_def)

lemma lone_radix_last: "ts \<noteq> [] \<Longrightarrow> lone_radix ts \<Longrightarrow> ends_in_radix ts"
  by (auto simp: ends_in_radix_def lone_radix_iff)

text \<open>Only a bare radix at the end of the text is not read again: the lexer has nothing current to read.\<close>

lemma radix_at_end:
  assumes "lone_radix ts"
  shows "lex_one u True (stream_at (spell ts)) (hd (spell ts)) = Inl (LexPanic (Panic ''CharStream::cur called with no current''))"
proof -
  obtain x where x: "spell ts = [c_0, x]" "x = c_x \<or> x = c_o \<or> x = c_b" using assms by (auto simp: lone_radix_iff)
  have "current (stream_at []) = Inl (LexPanic (Panic ''CharStream::cur called with no current''))"
    by (simp add: current_def panicking_def)
  then have "lex_number u True (stream_at [c_0, x]) c_0 = Inl (LexPanic (Panic ''CharStream::cur called with no current''))"
    using x(2) by (auto simp: lex_number_def)
  moreover have "lex_one u True (stream_at [c_0, x]) c_0 = lex_number u True (stream_at [c_0, x]) c_0"
    by (simp add: lex_one_def is_whitespace_def is_alphabetic_def ascii_alphabetic_def ascii_digit_def)
  ultimately show ?thesis using x(1) by simp
qed

lemma relexed:
  "relexes u ts \<Longrightarrow> lex_loop u True (stream_at (text_of True ts)) rv =
    (if ends_in_radix ts then Inl (LexPanic (Panic ''CharStream::cur called with no current'')) else Inr (rv @ ts))"
proof (induction arbitrary: rv rule: relexes.induct)
  case relexes_end
  show ?case by (subst lex_loop_at) (simp add: ends_in_radix_def)
next
  case (relexes_turn ts d us)
  note t = relexes_turn.hyps(1) [unfolded turn_def]
  let ?r = "text_of (sticky (last ts)) us"
  have whole: "text_of True (ts @ us) = spell ts @ ?r" using t by (intro text_of_append) auto
  have step: "lex_loop u True (stream_at (spell ts @ ?r)) rv =
      and_then (lex_one u True (stream_at (spell ts @ ?r)) (hd (spell ts))) (\<lambda>(ts, it). lex_loop u True it (rv @ ts))"
    using t by (subst lex_loop_at) (cases "spell ts"; simp)
  show ?case
  proof (cases "lone_radix ts \<and> us = []")
    case True
    then show ?thesis using whole step radix_at_end [of ts u] lone_radix_last [of ts] t by simp
  next
    case False
    have "followed ts d ?r"
    proof (cases d)
      case None
      then have "?r = (if us = [] then [] else c_space # text_of True us)" using t by (simp add: text_of_alone)
      then show ?thesis using None False by (auto simp: followed_def stops_for_def stops_def)
    next
      case (Some x)
      then show ?thesis using t relexes_turn.hyps(3) by (simp add: followed_def)
    qed
    then have one: "lex_one u True (stream_at (spell ts @ ?r)) (hd (spell ts)) = Inr (ts, stream_at ?r)" using t by blast
    have "lex_loop u True (stream_at ?r) (rv @ ts) = lex_loop u True (stream_at (text_of True us)) (rv @ ts)"
      using lex_loop_blank by (cases "sticky (last ts)") (auto simp: text_of_alone)
    moreover have "ends_in_radix (ts @ us) \<longleftrightarrow> ends_in_radix us"
    proof (cases "us = []")
      case True
      then have "\<not> ends_in_radix ts" using False t by blast
      then show ?thesis using True by (simp add: ends_in_radix_def)
    qed (simp add: ends_in_radix_def)
    ultimately show ?thesis using whole step one relexes_turn.IH [of "rv @ ts"] by simp
  qed
qed

section \<open>Words\<close>

lemma word_turn_spells:
  assumes "word_turn u s ts it"
  shows "turn u ts None" "map plain ts = ts" "\<exists>r. it = stream_at r \<and> s = spell ts @ r \<and> spell ts \<noteq> []"
proof -
  obtain w r0 where ts: "one_word ts" and w: "w \<noteq> []" "s = w @ r0" "it = stream_at r0"
    "\<forall>r. stops_for ts r \<longrightarrow> lex_one u True (stream_at (w @ r)) (hd w) = Inr (ts, stream_at r)"
    using assms by (auto simp: word_turn_def)
  have "stops_for ts [c_space]" by (simp add: stops_for_def stops_def)
  then have "lex_one u True (stream_at (w @ [c_space])) (hd w) = Inr (ts, stream_at [c_space])" using w(4) by blast
  moreover have "cs_cur (stream_at (w @ [c_space])) = Some (hd w)" using w(1) by (cases w) auto
  ultimately have "takes u (w @ [c_space]) (ts, stream_at [c_space])" using takes_lex_one [of u True "stream_at (w @ [c_space])" "hd w"] by simp
  then have "token_piece u ts w [c_space]" by (auto simp: takes_def)
  then have spell: "spell ts = w" using ts by (cases rule: token_piece.cases) (auto simp: one_word_def)
  show "map plain ts = ts" using ts by (auto simp: one_word_def plain_def punct_as_char_def punct_from_char_def is_open_def is_close_def)
  show "\<exists>r. it = stream_at r \<and> s = spell ts @ r \<and> spell ts \<noteq> []" using w spell by blast
  show "turn u ts None"
    using ts w(1,4) spell
    by (auto simp: turn_def followed_def one_word_def sticky_def punct_from_char_def ends_in_radix_def lone_radix_iff)
qed

lemma name_turn:
  assumes "\<not> is_whitespace u (hd n)" "is_alphabetic u (hd n) \<or> hd n = c_underscore" "list_all (ident_more u) n" "n \<noteq> []"
  shows "turn u [name_token n] None"
proof -
  obtain c n' where n: "n = c # n'" using assms(4) by (cases n) auto
  have "lex_one u True (stream_at (c # n' @ r)) c = Inr ([name_token (c # n')], stream_at r)" if "stops r" for r
    by (rule lex_name) (use that assms n in simp_all)
  then show ?thesis
    using n by (auto simp: turn_def followed_def stops_for_def sticky_def ident_display_def ident_from_name_def
        ends_in_radix_def lone_radix_iff)
qed

section \<open>Operators\<close>

lemma pair_facts:
  assumes "[a, b] \<in> set syms"
  shows "unat b \<in> set (str ''=&>.:<-|'')" "\<not> is_open (unat a)" "\<not> is_close (unat a)"
proof -
  have "list_all (\<lambda>v. length v = 2 \<longrightarrow> unat (v ! 1) \<in> set (str ''=&>.:<-|'') \<and> \<not> is_open (unat (v ! 0)) \<and> \<not> is_close (unat (v ! 0))) syms"
    by code_simp
  from this [unfolded list_all_iff] assms
  show "unat b \<in> set (str ''=&>.:<-|'')" "\<not> is_open (unat a)" "\<not> is_close (unat a)" by (auto dest!: bspec)
qed

definition comment_start :: "rchar \<Rightarrow> rstr \<Rightarrow> bool" where
  "comment_start c t \<longleftrightarrow> c = c_slash \<and> (\<exists>d t'. t = d # t' \<and> (d = c_slash \<or> d = c_star))"

definition op_char :: "unicode \<Rightarrow> rchar \<Rightarrow> bool" where
  "op_char u c \<longleftrightarrow> \<not> is_whitespace u c \<and> \<not> starts_word u c \<and> c < 256 \<and> (\<exists>v \<in> set syms. v ! 0 = as_u8 c)"

lemma lex_op:
  assumes "op_char u c" "\<not> comment_start c t"
  shows "lex_one u True (stream_at (c # t)) c = Inr (fst (op_tokens c t), stream_at (snd (op_tokens c t)))"
proof -
  have "c \<notin> {c_b, c_c, c_r}" using assms(1) by (auto simp: op_char_def starts_word_def is_alphabetic_def ascii_alphabetic_def)
  moreover have "\<not> (c = c_slash \<and> next_char (stream_at (c # t)) = Some c_slash)" "\<not> (c = c_slash \<and> next_char (stream_at (c # t)) = Some c_star)"
    using assms(2) by (auto simp: comment_start_def next_char_def stream_at_def split: list.splits)
  ultimately have "lex_one u True (stream_at (c # t)) c = lex_punct True (stream_at (c # t)) c"
    using assms(1) by (auto simp: lex_one_def op_char_def starts_word_def)
  then show ?thesis using lex_punct_known assms(1) by (auto simp: op_char_def)
qed

lemma next_punct_hd: "next_punct r = Some x \<Longrightarrow> \<exists>r'. r = x # r' \<and> \<not> comment_start x r' \<and> x \<in> set punctuation_chars"
  by (cases r) (auto simp: next_punct_def starts_punctuation_def next_char_def stream_at_def comment_start_def split: if_splits list.splits)

lemma next_punct_Cons: "x \<in> set punctuation_chars \<Longrightarrow> \<not> comment_start x r \<Longrightarrow> next_punct (x # r) = Some x"
  by (cases r) (auto simp: next_punct_def starts_punctuation_def next_char_def stream_at_def comment_start_def)

lemma stops_no_punct: "stops r \<Longrightarrow> next_punct r = None"
  using next_punct_hd [of r] by (cases "next_punct r") (auto simp: stops_def punctuation_chars_def str_def)

abbreviation sep_of :: "rchar option \<Rightarrow> spacing" where
  "sep_of d \<equiv> if d = None then Alone else Joint"

lemma pair_of_Cons: "pair_of c (x # r) \<longleftrightarrow> [as_u8 c, as_u8 x] \<in> set syms" "\<not> pair_of c []"
  by (simp_all add: pair_of_def)

lemma stops_no_pair: "stops r \<Longrightarrow> \<not> pair_of c r"
  using pair_facts(1) [of "as_u8 c" "as_u8 c_space"] by (auto simp: stops_def pair_of_Cons str_def)

lemma followed_sep: "followed ts d r \<Longrightarrow> next_punct r = d"
  using stops_no_punct by (auto simp: followed_def stops_for_def split: option.splits)

lemma single_turn:
  assumes c: "op_char u c" and x: "\<And>x r. d = Some x \<Longrightarrow> \<not> pair_of c (x # r) \<and> \<not> comment_start c (x # r)"
  shows "turn u [TPunct (punct_from_char c (sep_of d) 2)] d"
proof -
  have small: "unat (as_u8 c) = c" using c by (simp add: op_char_def)
  have "lex_one u True (stream_at (c # r)) c = Inr ([TPunct (punct_from_char c (sep_of d) 2)], stream_at r)"
    if "followed ts d r" for r ts
  proof -
    have "\<not> pair_of c r \<and> \<not> comment_start c r"
    proof (cases d)
      case None
      then have "stops r" using that by (simp add: followed_def stops_for_def)
      then show ?thesis using stops_no_pair by (auto simp: comment_start_def stops_def)
    next
      case (Some y)
      then show ?thesis using x next_punct_hd [of r y] followed_sep [OF that] by auto
    qed
    then show ?thesis
      using lex_op [OF c, of r] followed_sep [OF that] small by (simp add: op_tokens_def next_sep_punct)
  qed
  then show ?thesis
    using small by (auto simp: turn_def sticky_def punct_from_char_def punct_display_def punct_as_char_def ends_in_radix_def lone_radix_iff)
qed

lemma pair_turn:
  assumes c: "op_char u c" and b: "[as_u8 c, b] \<in> set syms"
  shows "turn u [TPunct (punct_from_char c Joint 2), TPunct (punct_from_char (unat b) (sep_of d) 2)] d"
proof -
  have small: "unat (as_u8 c) = c" using c by (simp add: op_char_def)
  have "\<not> comment_start c (unat b # r)" for r using pair_facts(1) [OF b] by (auto simp: comment_start_def str_def)
  then have "lex_one u True (stream_at (c # unat b # r)) c =
      Inr ([TPunct (punct_from_char c Joint 2), TPunct (punct_from_char (unat b) (sep_of d) 2)], stream_at r)"
    if "followed ts d r" for r ts
    using lex_op [OF c, of "unat b # r"] followed_sep [OF that] small b by (simp add: op_tokens_def pair_of_Cons next_sep_punct)
  moreover have "\<not> is_open (unat b)" "\<not> is_close (unat b)"
    using pair_facts(1) [OF b] by (auto simp: str_def is_open_def is_close_def)
  ultimately show ?thesis
    using small by (auto simp: turn_def sticky_def punct_from_char_def punct_display_def punct_as_char_def ends_in_radix_def lone_radix_iff)
qed

section \<open>A turn of the lexer, in its text\<close>

definition leads :: "rstr \<Rightarrow> stream token_tree list \<Rightarrow> bool" where
  "leads s ts \<longleftrightarrow> (\<forall>x. next_punct s = Some x \<longrightarrow> next_punct (text_of True ts) = Some x)"

text \<open>The tokens of a turn in front of tokens that can be read again from their text.\<close>

definition continues :: "unicode \<Rightarrow> rstr \<Rightarrow> stream token_tree list \<Rightarrow> char_stream \<Rightarrow> bool" where
  "continues u s ts it \<longleftrightarrow> (\<exists>s'. it = stream_at s' \<and> length s' < length s \<and> (\<forall>us. relexes u us \<longrightarrow> leads s' us \<longrightarrow>
     relexes u (map plain ts @ us) \<and> leads s (map plain ts @ us)))"

lemma leads_none: "next_punct s = None \<Longrightarrow> leads s ts"
  by (simp add: leads_def)

lemma starts_word_slash [simp]: "\<not> starts_word u c_slash"
  by (simp add: starts_word_def is_alphabetic_def ascii_alphabetic_def ascii_digit_def)

lemma leads_same:
  assumes "text_of True ts = c # r" "c \<noteq> c_slash"
  shows "leads (c # t) ts"
  unfolding leads_def
proof (intro allI impI)
  fix x assume "next_punct (c # t) = Some x"
  then have "x = c" "c \<in> set punctuation_chars" using next_punct_hd [of "c # t" x] by auto
  then show "next_punct (text_of True ts) = Some x" using assms by (simp add: next_punct_Cons comment_start_def)
qed

lemma continues_word:
  assumes "word_turn u (c # t) ts it" "starts_word u c"
  shows "continues u (c # t) ts it"
proof -
  note w = word_turn_spells [OF assms(1)]
  obtain r where r: "it = stream_at r" "c # t = spell ts @ r" "spell ts \<noteq> []" using w(3) by blast
  then obtain z where z: "spell ts = c # z" by (cases "spell ts") auto
  have "relexes u (ts @ us)" if "relexes u us" for us using relexes_turn [OF w(1) that] by simp
  moreover have "leads (c # t) (ts @ us)" for us
  proof (rule leads_same)
    show "text_of True (ts @ us) = c # z @ text_of (sticky (last ts)) us"
      using w(1) z by (subst text_of_append) (auto simp: turn_def)
    show "c \<noteq> c_slash" using assms(2) by auto
  qed
  ultimately show ?thesis
    unfolding continues_def using r w(2) by (intro exI [of _ r]) (auto dest: arg_cong [where f = length])
qed

lemma op_hash: "op_char u c_hash"
proof -
  have "list_ex (\<lambda>v. v ! 0 = as_u8 c_hash) syms" by code_simp
  then show ?thesis
    by (auto simp: op_char_def is_whitespace_def starts_word_def is_alphabetic_def ascii_alphabetic_def ascii_digit_def list_ex_iff)
qed

lemma relexes_hashes:
  "relexes u us \<Longrightarrow> relexes u (hash_tokens k @ us) \<and> (0 < k \<longrightarrow> next_punct (text_of True (hash_tokens k @ us)) = Some c_hash)"
proof (induction k)
  case (Suc k)
  let ?d = "if k = 0 then None else Some c_hash"
  have "\<not> pair_of c_hash (c_hash # r) \<and> \<not> comment_start c_hash (c_hash # r)" for r
    using pair_facts(1) [of "as_u8 c_hash" "as_u8 c_hash"] by (auto simp: pair_of_Cons comment_start_def str_def)
  then have "turn u [TPunct (punct_from_char c_hash (sep_of ?d) 2)] ?d"
    by (intro single_turn [OF op_hash]) (auto split: if_splits)
  from relexes_turn [OF this, of "hash_tokens k @ us"] Suc have "relexes u (hash_tokens (Suc k) @ us)" by (cases "k = 0") auto
  moreover have "next_punct (c_hash # r) = Some c_hash" for r
    by (intro next_punct_Cons) (auto simp: comment_start_def punctuation_chars_def str_def)
  ultimately show ?case by (simp add: punct_display_def punct_as_char_def punct_from_char_def)
qed simp

lemma plain_hashes [simp]: "map plain (hash_tokens k) = hash_tokens k"
  by (induction k) (simp_all add: plain_def punct_as_char_def punct_from_char_def is_open_def is_close_def)

lemma continues_name:
  assumes "name_run u (c # t) ts it" "is_alphabetic u c \<or> c = c_underscore" "\<not> is_whitespace u c"
  shows "continues u (c # t) ts it"
proof -
  obtain n k r0 where n: "n \<noteq> []" "c # t = n @ replicate k c_hash @ r0" "list_all (ident_more u) n"
    "ts = name_token n # hash_tokens k" "it = stream_at r0" using assms(1) by (auto simp: name_run_def)
  then have "hd n = c" by (cases n) auto
  then have "turn u [name_token n] None" using name_turn assms(2,3) n by metis
  from relexes_turn [OF this] have "relexes u (ts @ us)" if "relexes u us" for us
    using relexes_hashes [OF that, of k] n(4) by force
  moreover have "next_punct (c # t) = None"
    using assms(2) next_punct_hd [of "c # t"] by (cases "next_punct (c # t)")
      (auto simp: punctuation_chars_def str_def is_alphabetic_def ascii_alphabetic_def)
  moreover have "length r0 < length (c # t)" using n(1) by (subst n(2)) simp
  ultimately show ?thesis
    unfolding continues_def using n(4,5) by (intro exI [of _ r0]) (auto simp: leads_none)
qed

lemma plain_punct: "plain (TPunct (punct_from_char c sep 2)) =
    TPunct (punct_from_char c (if is_open (unat (as_u8 c)) \<or> is_close (unat (as_u8 c)) then Alone else sep) 2)"
  by (simp add: plain_def punct_as_char_def punct_from_char_def)

lemma punct_text: "text_of True (TPunct (punct_from_char c sep 2) # ts) = unat (as_u8 c) # text_of (sep = Joint) ts"
  by (simp add: punct_display_def punct_as_char_def sticky_def punct_from_char_def)

lemma leads_glued: "leads s us \<Longrightarrow> next_punct s \<noteq> None \<Longrightarrow> next_punct (text_of True us) = next_punct s"
  by (auto simp: leads_def)

lemma continues_pair:
  assumes c: "op_char u c" and p: "pair_of c t"
  shows "continues u (c # t) (fst (op_tokens c t)) (stream_at (snd (op_tokens c t)))"
proof -
  obtain x t' where t: "t = x # t'" "[as_u8 c, as_u8 x] \<in> set syms" using p by (cases t) (auto simp: pair_of_Cons)
  have small: "unat (as_u8 c) = c" using c by (simp add: op_char_def)
  define b where "b = unat (as_u8 x)"
  note f = pair_facts [OF t(2), folded b_def]
  have b: "as_u8 b = as_u8 x" "\<not> is_open b" "\<not> is_close b" "b \<noteq> c_slash" "b \<noteq> c_star"
    using f(1) by (auto simp: b_def str_def is_open_def is_close_def)
  let ?ts = "[TPunct (punct_from_char c Joint 2), TPunct (punct_from_char b (next_sep t') 2)]"
  have op: "op_tokens c t = (?ts, t')" using t p small by (simp add: op_tokens_def b_def)
  have "unat (as_u8 b) = b" by (simp add: b_def)
  then have plain: "map plain ?ts = ?ts" using f b(2,3) small by (simp add: plain_punct)
  have "relexes u (?ts @ us) \<and> leads (c # t) (?ts @ us)" if us: "relexes u us" "leads t' us" for us
  proof
    have "turn u ?ts (next_punct t')"
      using pair_turn [OF c t(2), of "next_punct t'"] by (simp add: next_sep_punct b_def)
    then show "relexes u (?ts @ us)" using relexes_turn [OF _ us(1)] leads_glued [OF us(2)] by blast
    have glued: "text_of True (?ts @ us) = c # b # text_of (next_sep t' = Joint) us"
      using small by (simp add: punct_text b_def del: text_of.simps)
    show "leads (c # t) (?ts @ us)"
      unfolding leads_def glued using next_punct_hd [of "c # t"] b(4,5)
      by (auto simp: comment_start_def intro!: next_punct_Cons)
  qed
  then show ?thesis using t op plain unfolding continues_def by (intro exI [of _ t']) simp
qed

lemma continues_single:
  assumes c: "op_char u c" and p: "\<not> pair_of c t" and n: "\<not> comment_start c t"
  shows "continues u (c # t) (fst (op_tokens c t)) (stream_at (snd (op_tokens c t)))"
proof -
  have small: "unat (as_u8 c) = c" using c by (simp add: op_char_def)
  let ?d = "if is_open c \<or> is_close c then None else next_punct t"
  let ?t = "TPunct (punct_from_char c (sep_of ?d) 2)"
  have op: "snd (op_tokens c t) = t" "map plain (fst (op_tokens c t)) = [?t]"
    using p small by (auto simp: op_tokens_def plain_punct next_sep_punct)
  have "turn u [?t] ?d"
  proof (rule single_turn [OF c])
    fix x r assume "?d = Some x"
    then obtain t' where "t = x # t'" using next_punct_hd [of t x] by (auto split: if_splits)
    then show "\<not> pair_of c (x # r) \<and> \<not> comment_start c (x # r)"
      using p n by (auto simp: pair_of_Cons comment_start_def)
  qed
  then have relexes: "relexes u (?t # us)" if "relexes u us" "leads t us" for us
    using relexes_turn [OF _ that(1), of "[?t]" ?d] leads_glued [OF that(2)] by (auto split: if_splits)
  have "leads (c # t) (?t # us)" if us: "leads t us" for us
    unfolding leads_def
  proof (intro allI impI)
    fix x assume x: "next_punct (c # t) = Some x"
    then have xc: "x = c" "c \<in> set punctuation_chars" using next_punct_hd [of "c # t" x] by auto
    have "\<not> comment_start c (text_of (sep_of ?d = Joint) us)"
    proof (cases ?d)
      case None
      then show ?thesis by (auto simp: comment_start_def text_of_alone)
    next
      case (Some y)
      then have "next_punct t = Some y" by (auto split: if_splits)
      then have "\<exists>t' r. t = y # t' \<and> text_of True us = y # r"
        using us next_punct_hd [of t y] next_punct_hd [of "text_of True us" y] by (auto simp: leads_def)
      then show ?thesis using n Some by (auto simp: comment_start_def)
    qed
    then show "next_punct (text_of True (?t # us)) = Some x"
      using xc small by (simp only: punct_text) (simp add: next_punct_Cons)
  qed
  then show ?thesis using op relexes unfolding continues_def by (intro exI [of _ t]) simp
qed

lemma comment_streams:
  "skip_line t = Some it \<Longrightarrow> \<exists>r. it = stream_at r"
  by (induction t) (auto simp: stream_at_def split: if_splits intro: exI [of _ "_ # _"])

lemma block_comment_stream: "block_comment level it = Inr it' \<Longrightarrow> \<exists>r. it' = stream_at r"
proof (induction level it rule: block_comment.induct)
  case (1 level it)
  from "1.prems" obtain c where c: "panicking (expect_some ''Unexpected EOF in block comment'' (cs_cur (consume it))) = Inr c"
    by (subst (asm) block_comment.simps) auto
  note ih = "1.IH" [OF c refl]
  show ?case
    using "1.prems" c ih
    by (subst (asm) block_comment.simps) (auto simp: Let_def consume_stream split: if_splits)
qed

lemma continues_silent:
  assumes "next_punct s = None" "it = stream_at r" "length r < length s"
  shows "continues u s [] it"
  using assms by (auto simp: continues_def leads_none)

lemma silent_turn:
  assumes one: "lex_one u True (stream_at (c # t)) c = Inr (ts, it)" and s: "is_whitespace u c \<or> comment_start c t"
  shows "continues u (c # t) ts it"
proof -
  have "ts = [] \<and> (\<exists>r. it = stream_at r)"
  proof (cases "is_whitespace u c")
    case True
    then show ?thesis using one by (auto simp: lex_one_def)
  next
    case False
    then obtain d t' where t: "c = c_slash" "t = d # t'" "d = c_slash \<or> d = c_star" using s by (auto simp: comment_start_def)
    have slash: "\<not> is_whitespace u c_slash" by (simp add: is_whitespace_def)
    have nc: "next_char (stream_at (c_slash # d # t')) = Some d" by (simp add: next_char_def stream_at_def)
    from t(3) show ?thesis
    proof
      assume d: "d = c_slash"
      then have "lex_line_comment (stream_at (c_slash # d # t')) = Inr (ts, it)" using one t slash nc by (simp add: lex_one_def)
      then show ?thesis
        using comment_streams by (auto simp: lex_line_comment_def line_comment_skip split: option.splits)
    next
      assume d: "d = c_star"
      then have "lex_block_comment (stream_at (c_slash # d # t')) = Inr (ts, it)" using one t slash nc by (simp add: lex_one_def)
      then show ?thesis using block_comment_stream by (auto simp: lex_block_comment_def)
    qed
  qed
  then obtain r where r: "ts = []" "it = stream_at r" by blast
  have "length r < length (c # t)" using lex_one_shorter [OF one] r by simp
  moreover have "next_punct (c # t) = None"
    using s next_punct_hd [of "c # t"] by (cases "next_punct (c # t)") (auto simp: is_whitespace_def punctuation_chars_def str_def)
  ultimately show ?thesis using r continues_silent by blast
qed

lemma turn_continues:
  assumes one: "lex_one u True (stream_at (c # t)) c = Inr (ts, it)"
  shows "continues u (c # t) ts it"
proof -
  consider "is_whitespace u c \<or> comment_start c t" | "\<not> is_whitespace u c" "starts_word u c"
    | "\<not> is_whitespace u c" "\<not> comment_start c t" "\<not> starts_word u c" by blast
  then show ?thesis
  proof cases
    case 1
    then show ?thesis by (rule silent_turn [OF one])
  next
    case 2
    then show ?thesis using words [OF 2 one] continues_name continues_word by blast
  next
    case 3
    have "c \<notin> {c_b, c_c, c_r}" using 3(3) by (auto simp: starts_word_def is_alphabetic_def ascii_alphabetic_def)
    moreover have "\<not> (c = c_slash \<and> next_char (stream_at (c # t)) = Some c_slash)" "\<not> (c = c_slash \<and> next_char (stream_at (c # t)) = Some c_star)"
      using 3(2) by (auto simp: comment_start_def next_char_def stream_at_def split: list.splits)
    ultimately have p: "c < 256" "lex_punct True (stream_at (c # t)) c = Inr (ts, it)"
      using one 3 by (auto simp: lex_one_def starts_word_def split: if_splits)
    have "\<exists>v \<in> set syms. v ! 0 = as_u8 c"
    proof (cases "position_at 0 (as_u8 c) syms")
      case (Inr pos)
      then show ?thesis using p(2) position_at_Some [of 0 "as_u8 c" syms] by (cases pos) (auto simp: lex_punct_def)
    qed (use p(2) in \<open>simp add: lex_punct_def\<close>)
    then have c: "op_char u c" using p(1) 3 by (simp add: op_char_def)
    have "ts = fst (op_tokens c t)" "it = stream_at (snd (op_tokens c t))" using lex_op [OF c 3(2)] one by simp_all
    then show ?thesis using continues_pair [OF c] continues_single [OF c _ 3(2)] by blast
  qed
qed

lemma lexed_relexes:
  "lex_loop u True (stream_at s) rv = Inr toks \<Longrightarrow> \<exists>ts. toks = rv @ ts \<and> relexes u (map plain ts) \<and> leads s (map plain ts)"
proof (induction s arbitrary: rv rule: length_induct)
  case (1 s)
  show ?case
  proof (cases s)
    case Nil
    then show ?thesis using "1.prems" by (subst (asm) lex_loop_at) (auto simp: relexes_end leads_def next_punct_def)
  next
    case (Cons c t)
    then obtain ts it where one: "lex_one u True (stream_at (c # t)) c = Inr (ts, it)" "lex_loop u True it (rv @ ts) = Inr toks"
      using "1.prems" by (subst (asm) lex_loop_at) auto
    from turn_continues [OF one(1)] obtain r where r: "it = stream_at r" "length r < length (c # t)"
      "\<And>us. relexes u us \<Longrightarrow> leads r us \<Longrightarrow> relexes u (map plain ts @ us) \<and> leads (c # t) (map plain ts @ us)"
      unfolding continues_def by blast
    obtain ts' where "toks = (rv @ ts) @ ts'" "relexes u (map plain ts')" "leads r (map plain ts')"
      using "1.IH" r(1,2) one(2) Cons by blast
    then show ?thesis using r(3) Cons by (intro exI [of _ "ts @ ts'"]) simp
  qed
qed

section \<open>The text of a stream\<close>

fun flat_text :: "bool \<Rightarrow> flat list \<Rightarrow> rstr" where
  "flat_text glued [] = []"
| "flat_text glued (Delim c # fs) = (if glued then [] else [c_space]) @ [c] @ flat_text False fs"
| "flat_text glued (Leaf t # fs) = (if glued then [] else [c_space]) @ tree_display t @ flat_text (sticky t) fs"

fun glues :: "flat \<Rightarrow> bool" where
  "glues (Delim c) = False"
| "glues (Leaf t) = sticky t"

fun delim_flat :: "flat \<Rightarrow> bool" where
  "delim_flat (Delim c) = True"
| "delim_flat (Leaf t) = False"

text \<open>No joint token stands directly before a delimiter.\<close>

abbreviation apart :: "flat list \<Rightarrow> bool" where
  "apart fs \<equiv> successively (\<lambda>a b. glues a \<longrightarrow> \<not> delim_flat b) fs"

lemma delim_flat_token [simp]: "delim_flat (flat_token t) = is_delim t"
  by (cases t) (auto simp: flat_token_def)

lemma glues_plain [simp]: "glues (flat_token t) = sticky (plain t)"
  by (cases t) (auto simp: flat_token_def plain_def sticky_def punct_as_char_def punct_from_char_def)

lemma text_flat: "text_of glued (map plain ts) = flat_text glued (map flat_token ts)"
proof (induction ts arbitrary: glued)
  case (Cons t ts)
  have "flat_text glued (flat_token t # fs) = (if glued then [] else [c_space]) @ tree_display t @ flat_text (glues (flat_token t)) fs" for fs
    by (cases t) (auto simp: flat_token_def punct_display_def punct_as_char_def)
  then show ?case using Cons by simp
qed simp

lemma relexes_apart: "relexes u ts \<Longrightarrow> successively (\<lambda>a b. sticky a \<longrightarrow> \<not> is_delim b) ts"
proof (induction rule: relexes.induct)
  case (relexes_turn ts d us)
  have "\<forall>t \<in> set (tl ts). \<not> is_delim t" using relexes_turn.hyps(1) by (simp add: turn_def)
  then have "successively (\<lambda>a b. sticky a \<longrightarrow> \<not> is_delim b) ts"
    by (cases ts) (auto simp: successively_conv_nth nth_tl [symmetric])
  moreover have "\<not> is_delim (hd us)" if s: "sticky (last ts)" "us \<noteq> []"
  proof -
    obtain x where x: "d = Some x" "next_punct (text_of True us) = Some x"
      using relexes_turn.hyps(1,3) s by (auto simp: turn_def)
    obtain t us' where us: "us = t # us'" using s(2) by (cases us) auto
    have "x \<in> set punctuation_chars" "\<exists>r. text_of True us = x # r" using next_punct_hd [OF x(2)] by auto
    then show ?thesis
      using us by (cases t) (auto simp: punct_display_def is_open_def is_close_def punctuation_chars_def str_def)
  qed
  ultimately show ?case using relexes_turn.IH by (auto simp: successively_append_iff)
qed simp

lemma is_delim_plain [simp]: "is_delim (plain t) = is_delim t"
  by (cases t) (auto simp: plain_def punct_as_char_def punct_from_char_def)

lemma lexed_apart: "relexes u (map plain ts) \<Longrightarrow> apart (map flat_token ts)"
  using relexes_apart [of u "map plain ts"]
  by (simp add: successively_map)

lemma trees_display_flat:
  "grouped ts \<Longrightarrow> apart (flatten ts @ fs) \<Longrightarrow>
    flat_text (first \<or> joint) (flatten ts @ fs) =
      trees_display first joint ts @ flat_text (if ts = [] then first \<or> joint else glues (last (flatten ts))) fs"
proof (induction ts arbitrary: first joint fs rule: flatten.induct)
  case 1
  then show ?case by simp
next
  case (2 g ts)
  let ?op = "fst (delimiter_chars (delimiter g))" and ?cl = "snd (delimiter_chars (delimiter g))"
  let ?in = "trees (group_stream g)"
  have d: "stream_delimiters (delimiter g) = ([?op], [?cl])"
    using "2.prems"(1) by (cases "delimiter g") (simp_all add: stream_delimiters_def delimiter_chars_def str_def)
  have apart: "apart (flatten ?in @ Delim ?cl # flatten ts @ fs)" "apart (flatten ts @ fs)"
    using "2.prems"(2) by (auto simp: successively_append_iff successively_Cons)
  have inner: "flat_text True (flatten ?in @ Delim ?cl # flatten ts @ fs) =
      stream_display (group_stream g) @ c_space # ?cl # flat_text False (flatten ts @ fs)" if "?in \<noteq> []"
  proof -
    have "flatten ?in \<noteq> []" using that by (cases ?in rule: flatten.cases) auto
    then have "\<not> glues (last (flatten ?in))" using apart(1) by (simp add: successively_append_iff)
    then show ?thesis using "2.IH"(1) [where first = True and joint = False] "2.prems"(1) apart(1) that by (cases "group_stream g") simp
  qed
  have blank: "flat_text False fs' = (if fs' = [] then [] else c_space # flat_text True fs')" for fs'
    by (cases "(False, fs')" rule: flat_text.cases) auto
  have rest: "flat_text False (flatten ts @ fs) = trees_display False False ts @
      flat_text (if ts = [] then False else glues (last (flatten ts))) fs"
    using "2.IH"(2) [where first = False and joint = False and fs = fs] "2.prems"(1) apart(2) by simp
  have last: "glues (last (flatten (TGroup g # ts))) = (if ts = [] then False else glues (last (flatten ts)))"
    by (cases ts rule: flatten.cases) auto
  show ?case
  proof (cases "?in = []")
    case True
    then show ?thesis using d rest last by (simp add: stream_is_empty_def)
  next
    case False
    then have "flatten ?in \<noteq> []" by (cases ?in rule: flatten.cases) auto
    then show ?thesis using d rest last inner [OF False] False blank [of "flatten ?in @ Delim ?cl # flatten ts @ fs"]
      by (simp add: stream_is_empty_def)
  qed
next
  case (3 i ts)
  then show ?case by (cases ts rule: flatten.cases) (auto simp: successively_Cons sticky_def)
next
  case (4 p ts)
  then show ?case
    by (cases ts rule: flatten.cases) (auto simp: successively_Cons sticky_def punct_spacing_def punct_display_def)
next
  case (5 l ts)
  then show ?case by (cases ts rule: flatten.cases) (auto simp: successively_Cons sticky_def)
qed

lemma last_leaf: "last (flatten ts) = Leaf (TLiteral l) \<Longrightarrow> ts \<noteq> [] \<Longrightarrow> last ts = TLiteral l"
proof (cases ts rule: rev_cases)
  case (snoc us t)
  assume "last (flatten ts) = Leaf (TLiteral l)"
  then show ?thesis using snoc by (cases t) auto
qed simp

lemma ends_in_radix_flat:
  assumes "flatten ts = map flat_token toks"
  shows "ends_in_radix (map plain toks) \<longleftrightarrow> ends_in_radix ts"
proof (cases ts rule: rev_cases)
  case Nil
  then show ?thesis using assms by (simp add: ends_in_radix_def)
next
  case (snoc us t)
  have f: "flatten ts \<noteq> []" using snoc by (cases t) auto
  then have toks: "toks \<noteq> []" "flat_token (last toks) = last (flatten ts)" using assms by (auto simp: last_map)
  have "plain (last toks) = TLiteral l \<longleftrightarrow> last ts = TLiteral l" for l
    using toks(2) snoc by (cases t; cases "last toks") (auto simp: flat_token_def plain_def split: if_splits)
  then show ?thesis using snoc toks(1) by (auto simp: ends_in_radix_def lone_radix_iff last_map)
qed

lemma lexes_back:
  assumes "stream_from_str u True src = Inr s"
  shows "stream_from_str u True (stream_display s) =
    (if ends_in_radix (trees s) then Inl (LexPanic (Panic ''CharStream::cur called with no current'')) else Inr s)"
proof -
  obtain toks ts where t: "lex_loop u True (char_stream_new src) [] = Inr toks" "group_delimiters True toks = Inr ts" "s = from_trees ts"
    using assms by (auto simp: stream_from_str_def)
  have new: "char_stream_new x = stream_at (c_space # x)" for x by (simp add: char_stream_new_def stream_at_def)
  have re: "relexes u (map plain toks)" using lexed_relexes t(1) by (force simp: new)
  have leaves: "list_all is_leaf toks" using lex_loop_tokens [OF t(1)] text_tokens_leaves by auto
  have g: "grouped ts" "flatten ts = map flat_token toks" using group_delimiters_sound [OF leaves t(2)] by auto
  have "stream_display s = flat_text True (flatten ts)"
    using trees_display_flat [of ts "[]" True False] g lexed_apart [OF re] t(3) by (simp add: from_trees_def)
  then have "stream_display s = text_of True (map plain toks)" by (simp add: text_flat g(2))
  then have "lex_loop u True (char_stream_new (stream_display s)) [] = (if ends_in_radix ts
      then Inl (LexPanic (Panic ''CharStream::cur called with no current'')) else Inr (map plain toks))"
    using relexed [OF re, of "[]"] ends_in_radix_flat [OF g(2)] by (simp add: new lex_loop_blank)
  moreover have "group_delimiters True (map plain toks) = Inr ts"
    using g leaves by (subst group_delimiters_iff) (auto simp: list_all_iff)
  ultimately show ?thesis using t(3) by (simp add: stream_from_str_def from_trees_def)
qed

section \<open>Properties\<close>

text \<open>
  C1. The text of a lexed stream lexes to the same stream: every tree, its spacing and its groups are
  the same again, for any text \<open>from_str\<close> accepts. The one exception is a stream whose last tree
  is a bare radix, \<^verbatim>\<open>0x\<close>, \<^verbatim>\<open>0o\<close> or \<^verbatim>\<open>0b\<close>: it can be lexed before a blank, which printing drops,
  and the lexer panics at the end of its text.
\<close>

theorem display_lexes_back:
  assumes "stream_from_str u True src = Inr s"
  shows "stream_from_str u True (stream_display s) =
    (if ends_in_radix (trees s) then Inl (LexPanic (Panic ''CharStream::cur called with no current'')) else Inr s)"
  using assms by (rule lexes_back)

theorem display_lexes_back_witness:
  "\<exists>s. stream_from_str ascii_only True (str ''f(&'a x,y..=z) /**/ += 1.5e-3'') = Inr s \<and> length (flatten (trees s)) = 16
     \<and> stream_from_str ascii_only True (stream_display s) = Inr s"
proof -
  have "case stream_from_str ascii_only True (str ''f(&'a x,y..=z) /**/ += 1.5e-3'') of
      Inr s \<Rightarrow> length (flatten (trees s)) = 16 \<and> \<not> ends_in_radix (trees s) | _ \<Rightarrow> False"
    by code_simp
  then obtain s where s: "stream_from_str ascii_only True (str ''f(&'a x,y..=z) /**/ += 1.5e-3'') = Inr s"
    "length (flatten (trees s)) = 16" "\<not> ends_in_radix (trees s)"
    by (cases "stream_from_str ascii_only True (str ''f(&'a x,y..=z) /**/ += 1.5e-3'')") auto
  from display_lexes_back [OF s(1)] s show ?thesis by auto
qed

end
