(* ===== verification/Hosted.thy ===== *)
theory Hosted
  imports Host Macros Lex_Send Relex
begin

text \<open>
  The parts together: a macro that returns, run by the host on streams sent to it in the library's
  own notation, from the bytes of the requests to the bytes of the replies.
\<close>

text \<open>The span table a macro finds when the compiler defined no spans, and the bytes of a stream before its end.\<close>

abbreviation bare_table :: span_table where
  "bare_table \<equiv> freeze_definitions empty_spans"

definition fit :: "stream \<Rightarrow> bool" where
  "fit s \<longleftrightarrow> sendable bare_table (trees (padded s)) (hidden (padded s)) \<and> length (trees s) < 2 ^ 30"

definition sent_body :: "stream \<Rightarrow> u8 list" where
  "sent_body s = (case send_token_stream bare_table s of Inl p \<Rightarrow> [] | Inr bs \<Rightarrow> butlast (butlast bs))"

lemma fit_body:
  assumes "fit s"
  obtains body where "send_token_stream bare_table s = Inr (body @ [1, 0])" "sent_body s = body"
    "recv_token_stream env True (body @ 0 # rest) tb = Inr (padded s, rest, tb)"
proof -
  have "length (trees (padded s)) < 2 ^ 30" using assms by (simp add: fit_def padded_def)
  then show thesis
    using that sent_bytes_read [of bare_table "padded s" env rest tb] assms by (auto simp: fit_def sent_body_def butlast_append send_padded)
qed

lemma fit_sent:
  assumes "fit s"
  shows "send_token_stream bare_table s = Inr (sent_body s @ [1, 0])"
  by (rule fit_body [OF assms, of sample_env "[]" empty_spans]) simp

lemma fit_received:
  assumes "fit s"
  shows "recv_token_stream env True (sent_body s @ 0 # rest) tb = Inr (padded s, rest, tb)"
  by (rule fit_body [OF assms, of env rest tb]) simp

lemma lexed_fit:
  assumes "stream_from_str u available src = Inr s" "str_ok (c_space # src)"
  shows "fit s"
  using lexed_sendable [OF assms, of bare_table]
  by (simp add: fit_def padded_def echoes_bare freeze_definitions_def empty_spans_def)

text \<open>A macro that returns and touches neither spans nor statics.\<close>

definition returning :: "(stream \<Rightarrow> stream) \<Rightarrow> 'g macro_type" where
  "returning f = SingleStream (\<lambda>s st g. (Inr (f s), st, g))"

lemma delivers_fit: "fit s \<Longrightarrow> delivers env (returning f) (sent_body s @ [0]) (\<lambda>st g. (Inr (f (padded s)), st, g)) bare_table"
  by (simp add: delivers_def decode_input_def returning_def fit_received)

lemma session_applies:
  assumes "find_macro macros name = Some m" "handler m = returning f"
  shows "list_all (\<lambda>s. fit s \<and> fit (f (padded s))) ss \<Longrightarrow>
    session env macros g (map (\<lambda>s. (name, sent_body s @ [0])) ss) (concat (map (\<lambda>s. 0 # sent_body (f (padded s)) @ [1, 0]) ss)) g"
proof (induction ss)
  case (Cons s ss)
  have d: "delivers env (handler m) (sent_body s @ [0]) (\<lambda>st g. (Inr (f (padded s)), st, g)) bare_table"
    using delivers_fit [of s env f] Cons.prems assms(2) by simp
  have "session env macros g ((name, sent_body s @ [0]) # map (\<lambda>s. (name, sent_body s @ [0])) ss)
      (0 # (sent_body (f (padded s)) @ [1, 0]) @ concat (map (\<lambda>s. 0 # sent_body (f (padded s)) @ [1, 0]) ss)) g"
    by (rule session_stream [OF assms(1) d refl]) (use Cons fit_sent in auto)
  then show ?case by simp
qed (simp add: session_end)

lemma hosted_runs:
  assumes "find_macro macros name = Some m" "handler m = returning f" "token_ok (Ident name)"
    and "list_all (\<lambda>s. fit s \<and> fit (f (padded s))) ss" "\<not> is_available h"
    and "host_in h = concat (map (\<lambda>s. request (name, sent_body s @ [0])) ss)"
  shows "(\<exists>x. (serve env message macros)\<^sup>*\<^sup>* (Waiting h) x \<and> (\<nexists>t. serve env message macros x t)) \<and>
    (\<forall>x. (serve env message macros)\<^sup>*\<^sup>* (Waiting h) x \<longrightarrow> (\<nexists>t. serve env message macros x t) \<longrightarrow>
      ended (host_out h @ concat (map (\<lambda>s. 0 # sent_body (f (padded s)) @ [1, 0]) ss)) (host_statics h) x)"
proof -
  have i: "host_in h = concat (map request (map (\<lambda>s. (name, sent_body s @ [0])) ss))" using assms(6) by (simp add: comp_def)
  have n: "list_all (\<lambda>(name, bs). token_ok (Ident name)) (map (\<lambda>s. (name, sent_body s @ [0])) ss)"
    using assms(3) by (simp add: list_all_iff)
  show ?thesis
    using session_runs [OF session_applies [OF assms(1,2,4)] assms(5) i n, of env message]
      serving.normal_form [of env message macros "Waiting h"] by blast
qed

text \<open>
  C4. A hosted macro is applied to every stream it is sent: each request, the macro's name and a
  stream in the library's notation, is answered by the bytes of exactly the stream the macro makes
  of it, in order, and then the host returns. So \<open>echo\<close> gives every stream back byte for byte.
\<close>

theorem host_applies_macro:
  assumes "find_macro macros name = Some m" "handler m = returning f" "token_ok (Ident name)"
    and "list_all (\<lambda>s. fit s \<and> fit (f (padded s))) ss" "\<not> is_available h"
    and "host_in h = concat (map (\<lambda>s. request (name, sent_body s @ [0])) ss)"
  shows "(\<exists>x. (serve env message macros)\<^sup>*\<^sup>* (Waiting h) x \<and> (\<nexists>t. serve env message macros x t)) \<and>
    (\<forall>x. (serve env message macros)\<^sup>*\<^sup>* (Waiting h) x \<longrightarrow> (\<nexists>t. serve env message macros x t) \<longrightarrow>
      ended (host_out h @ concat (map (\<lambda>s. 0 # sent_body (f (padded s)) @ [1, 0]) ss)) (host_statics h) x)"
  using assms by (rule hosted_runs)

text \<open>
  A macro that computes a text from its input, by any function \<open>w\<close>, and unwraps what
  \<open>TokenStream::from_str\<close> makes of it. A \<open>LexError\<close> is a panic of \<open>unwrap\<close>, with its text; a panic of the lexer is
  reported as any other, by \<open>message\<close>.
\<close>

fun unwrap_panic :: "(panic \<Rightarrow> rstr option) \<Rightarrow> lex_fail \<Rightarrow> rstr option" where
  "unwrap_panic message (LexError m) = Some (str ''called `Result::unwrap()` on an `Err` value: '' @ lex_error_debug m)"
| "unwrap_panic message (LexPanic p) = message p"
| "unwrap_panic message LexDiverges = None"

definition parsing :: "unicode \<Rightarrow> (panic \<Rightarrow> rstr option) \<Rightarrow> (stream \<Rightarrow> rstr) \<Rightarrow> 'g macro_type" where
  "parsing u message w = SingleStream (\<lambda>s st g.
     (case stream_from_str u True (w s) of Inl e \<Rightarrow> Inl (unwrap_panic message e) | Inr t \<Rightarrow> Inr t, st, g))"

text \<open>What it is answered: the bytes of the stream, or the panic.\<close>

definition parsed_reply :: "unicode \<Rightarrow> (panic \<Rightarrow> rstr option) \<Rightarrow> rstr \<Rightarrow> u8 list" where
  "parsed_reply u message src = (case stream_from_str u True src of
     Inl e \<Rightarrow> send_panic (unwrap_panic message e) | Inr t \<Rightarrow> sent_body t @ [1, 0])"

lemma session_parses:
  assumes "find_macro macros name = Some m" "handler m = parsing u message w"
  shows "list_all (\<lambda>s. fit s \<and> (\<forall>t. stream_from_str u True (w (padded s)) = Inr t \<longrightarrow> fit t)) ss \<Longrightarrow>
    session env macros g (map (\<lambda>s. (name, sent_body s @ [0])) ss) (concat (map (\<lambda>s. 0 # parsed_reply u message (w (padded s))) ss)) g"
proof (induction ss)
  case (Cons s ss)
  let ?call = "\<lambda>st g. (case stream_from_str u True (w (padded s)) of Inl e \<Rightarrow> Inl (unwrap_panic message e) | Inr t \<Rightarrow> Inr t, st, g)"
  have d: "delivers env (handler m) (sent_body s @ [0]) ?call bare_table"
    using Cons.prems fit_received [of s] by (simp add: delivers_def decode_input_def assms(2) parsing_def)
  have rest: "session env macros g (map (\<lambda>s. (name, sent_body s @ [0])) ss) (concat (map (\<lambda>s. 0 # parsed_reply u message (w (padded s))) ss)) g"
    using Cons by simp
  show ?case
  proof (cases "stream_from_str u True (w (padded s))")
    case (Inl e)
    then show ?thesis using session_panic [OF assms(1) d _ rest] by (simp add: parsed_reply_def)
  next
    case (Inr t)
    then have "fit t" using Cons.prems by simp
    then show ?thesis using session_stream [OF assms(1) d _ fit_sent rest] Inr by (simp add: parsed_reply_def)
  qed
qed (simp add: session_end)

lemma parsing_runs:
  assumes "find_macro macros name = Some m" "handler m = parsing u message w" "token_ok (Ident name)"
    and "list_all (\<lambda>s. fit s \<and> (\<forall>t. stream_from_str u True (w (padded s)) = Inr t \<longrightarrow> fit t)) ss" "\<not> is_available h"
    and "host_in h = concat (map (\<lambda>s. request (name, sent_body s @ [0])) ss)"
    and "(serve env message macros)\<^sup>*\<^sup>* (Waiting h) x" "\<nexists>t. serve env message macros x t"
  shows "ended (host_out h @ concat (map (\<lambda>s. 0 # parsed_reply u message (w (padded s))) ss)) (host_statics h) x"
proof -
  have i: "host_in h = concat (map request (map (\<lambda>s. (name, sent_body s @ [0])) ss))" using assms(6) by (simp add: comp_def)
  have n: "list_all (\<lambda>(name, bs). token_ok (Ident name)) (map (\<lambda>s. (name, sent_body s @ [0])) ss)"
    using assms(3) by (simp add: list_all_iff)
  show ?thesis using session_runs [OF session_parses [OF assms(1,2,4)] assms(5) i n, of env message] assms(7,8) by blast
qed


text \<open>
  C7. Printing and parsing inside a macro changes nothing: sent streams that were lexed from text, a
  macro that prints its input and parses the text again is answered with the very bytes it was
  sent, whatever the texts; only a stream that ends in a bare radix is answered with the panic of
  the lexer.
\<close>

theorem host_reprints:
  assumes "find_macro macros name = Some m" "handler m = parsing u message stream_display" "token_ok (Ident name)"
    and "list_all (\<lambda>s. \<exists>src. str_ok (c_space # src) \<and> stream_from_str u True src = Inr s) ss"
    and "\<not> is_available h" "host_in h = concat (map (\<lambda>s. request (name, sent_body s @ [0])) ss)"
    and "(serve env message macros)\<^sup>*\<^sup>* (Waiting h) x" "\<nexists>t. serve env message macros x t"
  shows "ended (host_out h @ concat (map (\<lambda>s. 0 # (if ends_in_radix (trees s)
      then send_panic (message (Panic ''CharStream::cur called with no current'')) else sent_body s @ [1, 0])) ss)) (host_statics h) x"
proof -
  have s: "fit s \<and> stream_from_str u True (stream_display (padded s)) =
      (if ends_in_radix (trees s) then Inl (LexPanic (Panic ''CharStream::cur called with no current'')) else Inr s)"
    if s: "s \<in> set ss" for s
  proof -
    obtain src where "stream_from_str u True src = Inr s" "str_ok (c_space # src)"
      using s assms(4) by (auto simp: list_all_iff)
    then show ?thesis using lexed_fit lexes_back by (simp add: stream_display_padded)
  qed
  then have "list_all (\<lambda>s. fit s \<and> (\<forall>t. stream_from_str u True (stream_display (padded s)) = Inr t \<longrightarrow> fit t)) ss"
    by (auto simp: list_all_iff split: if_splits)
  note ends = parsing_runs [OF assms(1-3) this assms(5-8)]
  have "map (\<lambda>s. 0 # parsed_reply u message (stream_display (padded s))) ss =
      map (\<lambda>s. 0 # (if ends_in_radix (trees s) then send_panic (message (Panic ''CharStream::cur called with no current''))
        else sent_body s @ [1, 0])) ss"
    using s by (auto simp: parsed_reply_def)
  with ends show ?thesis by (simp only:)
qed

definition echo_host :: "u8 list \<Rightarrow> unit host" where
  "echo_host bs = \<lparr>host_available = False, host_in = bs, host_out = [], host_spans = empty_spans, host_statics = ()\<rparr>"

definition echoing :: "unit macro_desc" where
  "echoing = \<lparr>macro_name = str ''echo'', handler = returning (\<lambda>s. projr (echo s))\<rparr>"

theorem host_applies_macro_witness:
  "\<exists>x. (serve sample_env (\<lambda>_. None) [echoing])\<^sup>*\<^sup>* (Waiting (echo_host (request (str ''echo'', sent_body sample_stream @ [0])))) x
    \<and> ended (0 # sent_body sample_stream @ [1, 0]) () x"
proof -
  have f: "find_macro [echoing] (str ''echo'') = Some echoing" by (simp add: find_macro_def echoing_def)
  have t: "token_ok (Ident (str ''echo''))" by (simp add: str_ok_def utf8_def utf8_char_def str_def scalar_value_def)
  have "sendable bare_table (trees sample_stream) (hidden sample_stream)"
    by (simp add: sample_stream_def name_ok_def char_ok_def delimiter_list_def echoes_def to_raw_def entry_def span_index_def
        from_raw_def str_ok_def ident_display_def utf8_def utf8_char_def str_def starts_with_def scalar_value_def punct_as_char_def
        freeze_definitions_def empty_spans_def)
  moreover have pad: "padded sample_stream = sample_stream" by (simp add: padded_def sample_stream_def)
  ultimately have fit: "list_all (\<lambda>s. fit s \<and> fit (projr (echo (padded s)))) [sample_stream]"
    by (simp add: fit_def echo_def) (simp add: sample_stream_def)
  have h: "\<not> is_available (echo_host bs)" "host_in (echo_host bs) = bs" "host_out (echo_host bs) = []" "host_statics (echo_host bs) = ()" for bs
    by (simp_all add: echo_host_def is_available_def)
  from host_applies_macro [OF f _ t fit h(1), of "request (str ''echo'', sent_body sample_stream @ [0])" sample_env "\<lambda>_. None"]
  show ?thesis by (auto simp: h pad echoing_def echo_def)
qed


definition reprint :: "unit macro_desc" where
  "reprint = \<lparr>macro_name = str ''reprint'', handler = parsing ascii_only (\<lambda>_. None) stream_display\<rparr>"

lemma echo_host_simps [simp]:
  "\<not> is_available (echo_host bs)" "host_in (echo_host bs) = bs" "host_out (echo_host bs) = []" "host_statics (echo_host bs) = ()"
  by (simp_all add: echo_host_def is_available_def)


theorem host_reprints_witness:
  "\<exists>s x. stream_from_str ascii_only True (str ''f(7)'') = Inr s \<and>
    (serve sample_env (\<lambda>_. None) [reprint])\<^sup>*\<^sup>* (Waiting (echo_host (request (str ''reprint'', sent_body s @ [0])))) x \<and>
    ended (0 # sent_body s @ [1, 0]) () x"
proof -
  have "case stream_from_str ascii_only True (str ''f(7)'') of Inr s \<Rightarrow> \<not> ends_in_radix (trees s) | _ \<Rightarrow> False" by code_simp
  then obtain s where s: "stream_from_str ascii_only True (str ''f(7)'') = Inr s" "\<not> ends_in_radix (trees s)" by (auto split: sum.splits)
  let ?h = "echo_host (request (str ''reprint'', sent_body s @ [0]))"
  have f: "find_macro [reprint] (str ''reprint'') = Some reprint" by (simp add: find_macro_def reprint_def)
  have m: "handler reprint = parsing ascii_only (\<lambda>_. None) stream_display" by (simp add: reprint_def)
  have t: "token_ok (Ident (str ''reprint''))" "str_ok (c_space # str ''f(7)'')"
    by (simp_all add: str_ok_def utf8_def utf8_char_def str_def scalar_value_def)
  have e: "list_all (\<lambda>s. \<exists>src. str_ok (c_space # src) \<and> stream_from_str ascii_only True src = Inr s) [s]"
    using t(2) s(1) by auto
  obtain x where x: "(serve sample_env (\<lambda>_. None) [reprint])\<^sup>*\<^sup>* (Waiting ?h) x" "\<nexists>t. serve sample_env (\<lambda>_. None) [reprint] x t"
    using serving.normal_form [of sample_env "\<lambda>_. None" "[reprint]" "Waiting ?h"] by blast
  from host_reprints [OF f m t(1) e _ _ x] s x(1) show ?thesis by auto
qed

end
