(* ===== verification/Unit_Macros.thy ===== *)
theory Unit_Macros
  imports Macros SendBack
begin

text \<open>
  The other macros of the repository's units (\<^verbatim>\<open>tst/unit\<close>): counting raw identifiers, reporting
  positions, wrapping the caller's tokens, remembering between invocations, and re-reading what the
  library prints.
\<close>

section \<open>\<^verbatim>\<open>proc_macro_raw_identifiers\<close>\<close>

text \<open>The two counters \<open>raw\<close> and \<open>bare\<close>, far below \<open>2 ^ 64\<close> for a stream in memory.\<close>

function count_in :: "stream \<Rightarrow> nat \<times> nat \<Rightarrow> nat \<times> nat"
  and count_trees :: "stream token_tree list \<Rightarrow> nat \<times> nat \<Rightarrow> nat \<times> nat" where
  "count_in stream n = count_trees (items stream) n"
| "count_trees [] n = n"
| "count_trees (TIdent i # ts) (raw, bare) = count_trees ts
     (if ident_display i = str ''r#in'' then (raw + 1, bare) else if ident_display i = str ''in'' then (raw, bare + 1) else (raw, bare))"
| "count_trees (TGroup g # ts) n = count_trees ts (count_in (group_stream g) n)"
| "count_trees (TPunct p # ts) n = count_trees ts n"
| "count_trees (TLiteral l # ts) n = count_trees ts n"
  by pat_completeness auto
termination
  by (relation "measure (case_sum (\<lambda>(s, _). size s) (\<lambda>(ts, _). trees_size ts))") (auto simp: items_smaller trees_smaller)

definition raw_idents :: "unicode \<Rightarrow> stream \<Rightarrow> stream \<Rightarrow> stream client" where
  "raw_idents u args item =
     (case count_in item (0, 0) of (raw, bare) \<Rightarrow>
       and_then (parse_stream u (str ''const RAW: usize = '' @ decimal raw @ str ''; const BARE: usize = '' @ decimal bare @ str '';''))
         (\<lambda>out. Inr (extend_items out (items item))))"

section \<open>\<^verbatim>\<open>proc_macro_call_site_locals\<close>\<close>

definition own_tokens :: "unicode \<Rightarrow> string \<Rightarrow> stream client" where
  "own_tokens u v = parse_stream u (str v)"

definition group_stream_of :: "delimiter \<Rightarrow> stream \<Rightarrow> stream client" where
  "group_stream_of d s = and_then (new_group d s) (\<lambda>t. Inr (tree_of t))"

definition pick_only :: "unicode \<Rightarrow> stream \<Rightarrow> stream client" where
  "pick_only u input =
     and_then (own_tokens u ''enum Picked<T> { Only(T) } let __picked = Picked::Only'') (\<lambda>own.
     let body = extend_items empty_stream (items own) in
     and_then (group_stream_of Parenthesis input) (\<lambda>g.
     let body = extend_items body (items g) in
     and_then (own_tokens u ''; match __picked { Picked::Only(__value) => __value }'') (\<lambda>own.
     let body = extend_items body (items own) in
     group_stream_of Brace body)))"

definition after_a_local_of_its_own :: "unicode \<Rightarrow> stream \<Rightarrow> stream client" where
  "after_a_local_of_its_own u input =
     and_then (own_tokens u ''let __value = 100u32;'') (\<lambda>own.
     let body = extend_items empty_stream (items own); body = extend_items body (items input) in
     group_stream_of Brace body)"

section \<open>\<^verbatim>\<open>proc_macro_span_location\<close>\<close>

definition tuple :: "unicode \<Rightarrow> usize list \<Rightarrow> stream client" where
  "tuple u values = parse_stream u (str ''('' @ join (str '', '') (map (\<lambda>v. decimal (unat v)) values) @ str '')'')"

definition call_site_location :: "unicode \<Rightarrow> span_table \<Rightarrow> stream \<Rightarrow> stream client" where
  "call_site_location u st input =
     and_then call_site_now (\<lambda>sp.
     and_then (panicking (span_line st sp)) (\<lambda>line.
     and_then (panicking (span_column st sp)) (\<lambda>column.
     and_then (panicking (span_file st sp)) (\<lambda>source.
     parse_stream u (str ''('' @ decimal (unat line) @ str '', '' @ decimal (unat column) @ str '', '' @ str_debug u source @ str '')'')))))"

definition first_token_location :: "unicode \<Rightarrow> span_table \<Rightarrow> stream \<Rightarrow> stream client \<times> span_table" where
  "first_token_location u st input = (case first_of (items input) of
     None \<Rightarrow> (panics ''a token'', st)
   | Some token \<Rightarrow> (case span_start (tree_span token) st of
       (Inl p, st) \<Rightarrow> (Inl (LexPanic p), st)
     | (Inr start, st) \<Rightarrow> (case span_end (tree_span token) st of
         (Inl p, st) \<Rightarrow> (Inl (LexPanic p), st)
       | (Inr end_, st) \<Rightarrow>
           (and_then (map_client panicking
              [span_line st (tree_span token), span_column st (tree_span token),
               span_line st start, span_column st start, span_line st end_, span_column st end_]) (tuple u), st))))"

section \<open>\<^verbatim>\<open>aux/remember_recall.rs\<close>\<close>

text \<open>The static \<open>REMEMBERED\<close> is threaded through.\<close>

definition remember :: "stream \<Rightarrow> stream \<Rightarrow> rstr \<Rightarrow> stream client \<times> rstr" where
  "remember attribute item remembered = (Inr item, stream_display item)"

definition recall :: "unicode \<Rightarrow> stream \<Rightarrow> rstr \<Rightarrow> stream client \<times> rstr" where
  "recall u input remembered = (parse_stream u (str_debug u remembered), remembered)"

section \<open>\<^verbatim>\<open>aux/serial_like.rs\<close>\<close>

fun has_arrow :: "stream token_tree list \<Rightarrow> bool" where
  "has_arrow (t # t' # ts) \<longleftrightarrow>
     (case (t, t') of (TPunct a, TPunct b) \<Rightarrow> punct_as_char a = c_minus \<and> punct_as_char b = c_gt | _ \<Rightarrow> False)
     \<or> has_arrow (t' # ts)"
| "has_arrow _ \<longleftrightarrow> False"

definition serial :: "unicode \<Rightarrow> stream \<Rightarrow> stream \<Rightarrow> stream client" where
  "serial u attribute item =
     (let tokens = items item in
      if tokens = [] then panics ''called Option::unwrap() on a None value''
      else let block = last tokens; head = butlast tokens; returns = has_arrow head;
               runner = (if returns then str ''run_serial_returning'' else str ''run_serial'') in
        and_then call_site_now (\<lambda>sp.
        and_then (new_ident u runner sp) (\<lambda>name.
        and_then (new_punct c_bar Joint) (\<lambda>bar.
        and_then (new_punct c_bar Alone) (\<lambda>bar'.
        and_then (new_group Parenthesis (from_trees [bar, bar', block])) (\<lambda>arguments.
        and_then (if \<not> returns then and_then (new_punct c_semi Alone) (\<lambda>semi. Inr [semi]) else Inr []) (\<lambda>semi.
        let call = extend_items (extend_items empty_stream [name, arguments]) semi in
        and_then (new_group Brace call) (\<lambda>body.
        Inr (extend_items (from_trees head) [body])))))))))"

section \<open>\<^verbatim>\<open>aux/receiver_shorthand.rs\<close>\<close>

function receivers_check :: "stream \<Rightarrow> unit client"
  and receivers_tokens :: "stream token_tree list \<Rightarrow> unit client" where
  "receivers_check stream = receivers_tokens (items stream)"
| "receivers_tokens [] = Inr ()"
| "receivers_tokens (TIdent i # ts) =
     and_then (if ident_display i = str ''self''
       then asserted (\<not> is_punct (first_of ts) c_colon) else Inr ()) (\<lambda>_. receivers_tokens ts)"
| "receivers_tokens (TGroup g # ts) = and_then (receivers_check (group_stream g)) (\<lambda>_. receivers_tokens ts)"
| "receivers_tokens (TPunct p # ts) = receivers_tokens ts"
| "receivers_tokens (TLiteral l # ts) = receivers_tokens ts"
  by pat_completeness auto
termination
  by (relation "measure (case_sum size trees_size)") (auto simp: items_smaller trees_smaller)

definition receivers_are_shorthand :: "stream \<Rightarrow> stream \<Rightarrow> stream client" where
  "receivers_are_shorthand attribute item = and_then (receivers_check item) (\<lambda>_. Inr item)"

section \<open>\<^verbatim>\<open>aux/mixed_site_local.rs\<close>\<close>

definition mixed :: "unicode \<Rightarrow> stream \<Rightarrow> rstr \<Rightarrow> stream client" where
  "mixed u stream name =
     and_then (map_client (\<lambda>token. case token of
         TIdent i \<Rightarrow> if ident_display i = name
           then and_then (panicking (mixed_site True)) (\<lambda>sp. new_ident u name sp) else Inr (TIdent i)
       | other \<Rightarrow> Inr other) (items stream)) (\<lambda>ts. Inr (from_trees ts))"

definition add_hidden :: "unicode \<Rightarrow> stream \<Rightarrow> stream client" where
  "add_hidden u input =
     and_then (parse_stream u (str ''let value = 100u32; value +'')) (\<lambda>own.
     and_then (mixed u own (str ''value'')) (\<lambda>body.
     and_then (new_group Parenthesis input) (\<lambda>g.
     and_then (new_group Brace (extend_items body [g])) (\<lambda>t. Inr (tree_of t)))))"

definition hidden_located_at_input :: "unicode \<Rightarrow> span_table \<Rightarrow> stream \<Rightarrow> stream client \<times> span_table" where
  "hidden_located_at_input u st input = (case first_of (items input) of
     None \<Rightarrow> (panics ''called Option::unwrap() on a None value'', st)
   | Some token \<Rightarrow> (case located_at 2 (tree_span token) st of
       (Inl p, st) \<Rightarrow> (Inl (LexPanic p), st)
     | (Inr sp, st) \<Rightarrow>
         (and_then (new_ident u (str ''value'') sp) (\<lambda>local.
          and_then (parse_stream u (str ''let value = 7u32;'')) (\<lambda>body.
          and_then (new_group Brace (extend_items body [local])) (\<lambda>t. Inr (tree_of t)))), st)))"

section \<open>Literals printed and read again\<close>

text \<open>\<^verbatim>\<open>aux/literal_roundtrip.rs\<close>; the two floats are the bit patterns of -2.5 and 0.125.\<close>

definition constructed :: "std_env \<Rightarrow> stream \<Rightarrow> stream client" where
  "constructed env input =
     (let u = env_unicode env in
      and_then (map_client panicking
        [int_suffixed True U128 (2 ^ 128 - 1), int_suffixed True I128 (- (2 ^ 127)),
         f32_suffixed (env_show_f32 env) True 0xC0200000, f64_unsuffixed (env_show_f64 env) True 0x3FC0000000000000,
         lit_string u True [97, 10, 0x3BB], lit_byte_string u True [0, 255, 34], lit_character u True 0x3BB]) (\<lambda>literals.
      and_then (map_client (\<lambda>l. and_then (new_punct c_comma Alone) (\<lambda>comma. Inr [TLiteral l, comma])) literals) (\<lambda>pairs.
      and_then (new_group Parenthesis (fold (\<lambda>pair values. extend_items values pair) pairs empty_stream)) (\<lambda>t.
      Inr (tree_of t)))))"

definition forwarded :: "stream \<Rightarrow> stream client" where
  "forwarded input = Inr input"

definition reparsed :: "unicode \<Rightarrow> stream \<Rightarrow> stream client" where
  "reparsed u input = parse_stream u (stream_display input)"

text \<open>\<^verbatim>\<open>aux/literal_spelling_relay.rs\<close>\<close>

definition spelling_relay :: "unicode \<Rightarrow> stream \<Rightarrow> stream client" where
  "spelling_relay u input = parse_stream u (stream_display input)"

text \<open>\<^verbatim>\<open>aux/parsed_symbol_stringification.rs\<close> and \<^verbatim>\<open>aux/strict_parsed_symbol_rejection.rs\<close>\<close>

definition stringified :: "unicode \<Rightarrow> stream \<Rightarrow> stream client" where
  "stringified u tokens =
     and_then (new_ident u (str ''stringify'') 2) (\<lambda>name.
     and_then (new_punct c_bang Alone) (\<lambda>bang.
     and_then (new_group Parenthesis tokens) (\<lambda>g. Inr (from_trees [name, bang, g]))))"

definition classify :: "unicode \<Rightarrow> rstr \<Rightarrow> stream client" where
  "classify u source = (case stream_from_str u True source of
     Inl (LexError e) \<Rightarrow> and_then (new_string u (str ''rejected'')) (\<lambda>l. Inr (tree_of l))
   | Inl f \<Rightarrow> Inl f
   | Inr tokens \<Rightarrow> stringified u tokens)"

definition reject :: "unicode \<Rightarrow> rstr \<Rightarrow> stream client" where
  "reject u source = (case stream_from_str u True source of
     Inl (LexError e) \<Rightarrow> parse_stream u (str ''compile_error!('' @ [c_dquote] @ str ''invalid parsed punctuation rejected''
       @ [c_dquote] @ str '');'')
   | Inl f \<Rightarrow> Inl f
   | Inr tokens \<Rightarrow> stringified u tokens)"

definition backslash_macro :: "unicode \<Rightarrow> stream \<Rightarrow> stream client" where
  "backslash_macro u input = classify u [c_backslash]"

definition backtick_macro :: "unicode \<Rightarrow> stream \<Rightarrow> stream client" where
  "backtick_macro u input = classify u [96]"

definition legal_macro :: "unicode \<Rightarrow> stream \<Rightarrow> stream client" where
  "legal_macro u input = classify u [c_plus]"

definition strict_backslash :: "unicode \<Rightarrow> stream \<Rightarrow> stream client" where
  "strict_backslash u input = reject u [c_backslash]"

definition strict_backtick :: "unicode \<Rightarrow> stream \<Rightarrow> stream client" where
  "strict_backtick u input = reject u [96]"

text \<open>\<^verbatim>\<open>aux/synthesized_byte_roundtrip.rs\<close>\<close>

definition produce :: "unicode \<Rightarrow> stream \<Rightarrow> stream client" where
  "produce u input =
     and_then (panicking (lit_byte_string u True [0, 34, 92, 255])) (\<lambda>literal.
     let payload = tree_of (TLiteral literal) in
     and_then (new_ident u (str ''echo'') 2) (\<lambda>name.
     and_then (new_punct c_bang Alone) (\<lambda>bang.
     and_then (new_group Parenthesis payload) (\<lambda>g. Inr (from_trees [name, bang, g])))))"

section \<open>Looking at the text\<close>

text \<open>\<^verbatim>\<open>aux/nested_cfg_token_checks.rs\<close> and \<^verbatim>\<open>aux/precise_capture_tokens.rs\<close>\<close>

definition raw_shape :: "stream \<Rightarrow> stream \<Rightarrow> stream client" where
  "raw_shape attribute input =
     (let shown = stream_display input in
      and_then (asserted (contains shown (str ''cfg_attr''))) (\<lambda>_.
      and_then (asserted (contains shown (str ''removed''))) (\<lambda>_. Inr input)))"

definition only_live :: "stream \<Rightarrow> stream client" where
  "only_live input =
     (let shown = stream_display input in
      and_then (asserted (\<not> contains shown (str ''removed''))) (\<lambda>_.
      and_then (asserted (\<not> contains shown (str ''Missing''))) (\<lambda>_. Inr empty_stream)))"

text \<open>\<open>str::replace\<close> of a two-character pattern by its second character.\<close>

fun drop_comma :: "rchar \<Rightarrow> rstr \<Rightarrow> rstr" where
  "drop_comma c (a # b # s) = (if a = c_comma \<and> b = c then c # drop_comma c s else a # drop_comma c (b # s))"
| "drop_comma c s = s"

definition keep :: "unicode \<Rightarrow> stream \<Rightarrow> stream \<Rightarrow> stream client" where
  "keep u expected item =
     (let expected = trim_matches c_dquote (trim u (stream_display expected));
          actual = filter (\<lambda>c. \<not> is_whitespace u c) (stream_display item);
          actual = drop_comma c_rparen (drop_comma c_gt actual) in
      and_then (asserted (contains actual expected)) (\<lambda>_. Inr item))"

text \<open>\<^verbatim>\<open>aux/trait_attribute_edits.rs\<close>\<close>

definition expand_to :: "stream \<Rightarrow> stream \<Rightarrow> stream client" where
  "expand_to attribute item = Inr attribute"

definition discard :: "stream \<Rightarrow> stream \<Rightarrow> stream client" where
  "discard attribute item = Inr empty_stream"

definition passthrough :: "stream \<Rightarrow> stream \<Rightarrow> stream client" where
  "passthrough attribute item = Inr item"

section \<open>Counting is counting\<close>

text \<open>The names of all identifiers of a stream, in order, however deep.\<close>

function idents_in :: "stream \<Rightarrow> rstr list"
  and idents_of :: "stream token_tree list \<Rightarrow> rstr list" where
  "idents_in s = idents_of (trees s)"
| "idents_of [] = []"
| "idents_of (TIdent i # ts) = ident_display i # idents_of ts"
| "idents_of (TGroup g # ts) = idents_in (group_stream g) @ idents_of ts"
| "idents_of (TPunct p # ts) = idents_of ts"
| "idents_of (TLiteral l # ts) = idents_of ts"
  by pat_completeness auto
termination
  by (relation "measure (case_sum size trees_size)") (auto simp: trees_smaller)

lemma idents_of_append: "idents_of (ts @ us) = idents_of ts @ idents_of us"
  by (induction ts rule: idents_in_idents_of.induct(2) [where P = "\<lambda>_. True"]) simp_all

lemma idents_of_handed [simp]: "idents_of (map handed ts) = idents_of ts"
proof (induction ts)
  case (Cons t ts)
  then show ?case by (cases t) simp_all
qed simp

lemma count_idents:
  "count_in s (raw, bare) = (raw + length (filter ((=) (str ''r#in'')) (idents_in s)),
     bare + length (filter ((=) (str ''in'')) (idents_in s)))"
  "count_trees ts (raw, bare) = (raw + length (filter ((=) (str ''r#in'')) (idents_of ts)),
     bare + length (filter ((=) (str ''in'')) (idents_of ts)))"
proof (induction s "(raw, bare)" and ts "(raw, bare)" arbitrary: raw bare and raw bare rule: count_in_count_trees.induct)
  case (1 s raw bare)
  then show ?case by (simp add: items_def)
next
  case (3 i ts raw bare)
  have "str ''r#in'' \<noteq> str ''in''" by (simp add: str_def)
  then show ?case using 3 by (auto simp del: ident_display_def)
qed auto

text \<open>
  \<open>raw_idents\<close> counts right: the two numbers it writes are how many of the item's identifiers, at
  any depth, display as the raw and as the bare keyword.
\<close>

theorem raw_idents_counts:
  "count_in item (0, 0) = (count_list (idents_in item) (str ''r#in''), count_list (idents_in item) (str ''in''))"
  by (simp add: count_idents(1) count_list_eq_length_filter del: count_in.simps idents_in.simps)

section \<open>Remembering\<close>

text \<open>The standard library's \<open>Debug\<close> of a string is how the library writes a string literal.\<close>

lemma str_debug_literal:
  assumes "valid_str s"
  obtains l where "lit_string u True s = Inr l" "literal_display l = str_debug u s" "stream_from_str u True (str_debug u s) = Inr (tree_of (TLiteral l))"
    "unescape (lit_symbol l) = Some (utf8 s)"
proof
  let ?opt = "\<lparr>escape_single_quote = False, escape_double_quote = True, escape_nonascii = False\<rparr>"
  let ?l = "\<lparr>lit_kind = LStr, lit_symbol = escape_bytes u (utf8 s) ?opt, lit_suffix = None, lit_span = 2\<rparr>"
  show "lit_string u True s = Inr ?l" by (simp add: lit_string_def literal_new_True Let_def)
  have "char_piece u ?opt = (\<lambda>c. if c = c_squote then [c] else escape_debug u c)"
    by (rule ext) (simp add: char_piece_def escape_single_char_def)
  then have "escape_bytes u (utf8 s) ?opt = concat (map (\<lambda>c. if c = c_squote then [c] else escape_debug u c) s)"
    using assms by (simp add: escape_bytes_utf8)
  then show d: "literal_display ?l = str_debug u s"
    by (simp add: literal_display_def stringify_parts_def str_debug_def)
  have "literal_from_str_unsigned u True (literal_display ?l) = Inr ?l"
    by (rule lex_string_literal [OF accepted_escape_bytes, where pre = "[]"]) simp_all
  then obtain t where t: "stream_from_str u True (str_debug u s) = Inr t" "last_literal (trees t) = Inr ?l"
    unfolding d by (auto simp: literal_from_str_unsigned_def)
  have "hidden t = []" using t(1) by (auto simp: stream_from_str_def from_trees_def)
  moreover have "trees t = [TLiteral ?l]" using t(2) by (auto simp: err_def elim!: last_literal.elims)
  ultimately have "t = tree_of (TLiteral ?l)" by (cases t) (simp add: from_trees_def)
  then show "stream_from_str u True (str_debug u s) = Inr (tree_of (TLiteral ?l))" using t(1) by simp
  show "unescape (lit_symbol ?l) = Some (utf8 s)" by (simp add: unescape_escape)
qed

text \<open>
  What one invocation remembers, a later one recalls: the expansion of \<open>recall\<close> is one string
  literal whose value is exactly the text of the item \<open>remember\<close> was put on, whatever the text.
\<close>

theorem recall_remembers:
  assumes "valid_str (stream_display item)"
  shows "\<exists>l. recall u input (snd (remember attribute item before)) = (Inr (tree_of (TLiteral l)), stream_display item)
    \<and> lit_kind l = LStr \<and> unescape (lit_symbol l) = Some (utf8 (stream_display item))"
proof -
  obtain l where l: "lit_string u True (stream_display item) = Inr l"
    "stream_from_str u True (str_debug u (stream_display item)) = Inr (tree_of (TLiteral l))"
    "unescape (lit_symbol l) = Some (utf8 (stream_display item))"
    using str_debug_literal [OF assms] by blast
  moreover have "lit_kind l = LStr" using l(1) by (auto simp: lit_string_def literal_new_True Let_def)
  ultimately show ?thesis by (auto simp: recall_def remember_def parse_stream_def unwrapped_def)
qed

theorem recall_remembers_witness:
  "\<exists>l. recall ascii_only empty_stream (snd (remember empty_stream paste_sample []))
      = (Inr (tree_of (TLiteral l)), str ''fn ( [ < ab c > ] )'') \<and> lit_kind l = LStr"
proof -
  have d: "stream_display paste_sample = str ''fn ( [ < ab c > ] )''" by code_simp
  have "valid_str (str ''fn ( [ < ab c > ] )'')" by (simp add: str_def scalar_value_def)
  then show ?thesis using recall_remembers [of paste_sample ascii_only empty_stream empty_stream "[]"] unfolding d by blast
qed

section \<open>The caller's tokens\<close>

text \<open>Every span of the trees, groups' delimiters included, is \<open>sp\<close>.\<close>

function all_spans :: "span \<Rightarrow> stream token_tree list \<Rightarrow> bool" where
  "all_spans sp [] \<longleftrightarrow> True"
| "all_spans sp (TGroup g # ts) \<longleftrightarrow> group_spans g = delim_span_from_single sp \<and> all_spans sp (trees (group_stream g)) \<and> all_spans sp ts"
| "all_spans sp (TIdent i # ts) \<longleftrightarrow> id_span i = sp \<and> all_spans sp ts"
| "all_spans sp (TPunct p # ts) \<longleftrightarrow> punct_span p = sp \<and> all_spans sp ts"
| "all_spans sp (TLiteral l # ts) \<longleftrightarrow> lit_span l = sp \<and> all_spans sp ts"
  by pat_completeness auto
termination by (relation "measure (trees_size \<circ> snd)") (use trees_smaller in \<open>auto simp: less_Suc_eq trans_less_add1\<close>)

definition own_ok :: "unicode \<Rightarrow> string \<Rightarrow> bool" where
  "own_ok u v \<longleftrightarrow> (case own_tokens u v of Inr s \<Rightarrow> trees s \<noteq> [] \<and> all_spans 2 (items s) | Inl _ \<Rightarrow> False)"

lemma own_local: "own_ok u ''let __value = 100u32;''"
  by code_simp

lemma own_enum: "own_ok u ''enum Picked<T> { Only(T) } let __picked = Picked::Only''"
  by code_simp

lemma own_match: "own_ok u ''; match __picked { Picked::Only(__value) => __value }''"
  by code_simp

lemma own_okE:
  assumes "own_ok u v"
  obtains s where "own_tokens u v = Inr s" "items s \<noteq> []" "all_spans 2 (items s)"
  using assms by (auto simp: own_ok_def items_def split: sum.splits)

text \<open>
  The caller's tokens cross both macros untouched, between tokens that all stand at the call site:
  one hands them on as the contents of a group, the other in line.
\<close>

theorem own_tokens_around_the_callers:
  "(\<exists>a b. pick_only u input = Inr (tree_of (TGroup (Group Brace
       (Stream (a @ [TGroup (Group Parenthesis input (delim_span_from_single 2) 0)] @ b) []) (delim_span_from_single 2) 0)))
     \<and> all_spans 2 a \<and> all_spans 2 b) \<and>
   (\<exists>a. after_a_local_of_its_own u input = Inr (tree_of (TGroup (Group Brace
       (Stream (a @ items input) []) (delim_span_from_single 2) 0))) \<and> all_spans 2 a)"
proof
  obtain s where s: "own_tokens u ''enum Picked<T> { Only(T) } let __picked = Picked::Only'' = Inr s" "items s \<noteq> []" "all_spans 2 (items s)"
    using own_enum by (rule own_okE)
  obtain t where t: "own_tokens u ''; match __picked { Picked::Only(__value) => __value }'' = Inr t" "items t \<noteq> []" "all_spans 2 (items t)"
    using own_match by (rule own_okE)
  have "pick_only u input = Inr (tree_of (TGroup (Group Brace
      (Stream (items s @ [TGroup (Group Parenthesis input (delim_span_from_single 2) 0)] @ items t) []) (delim_span_from_single 2) 0)))"
    using s(2) t(2) by (simp add: pick_only_def s(1) t(1) group_stream_of_def extend_items_def empty_stream_def)
  then show "\<exists>a b. pick_only u input = Inr (tree_of (TGroup (Group Brace
       (Stream (a @ [TGroup (Group Parenthesis input (delim_span_from_single 2) 0)] @ b) []) (delim_span_from_single 2) 0)))
     \<and> all_spans 2 a \<and> all_spans 2 b" using s(3) t(3) by blast
next
  obtain s where s: "own_tokens u ''let __value = 100u32;'' = Inr s" "items s \<noteq> []" "all_spans 2 (items s)"
    using own_local by (rule own_okE)
  have "after_a_local_of_its_own u input = Inr (tree_of (TGroup (Group Brace
       (Stream (items s @ items input) []) (delim_span_from_single 2) 0)))"
    using s(2) by (cases "items input") (simp_all add: after_a_local_of_its_own_def s(1) group_stream_of_def extend_items_def empty_stream_def)
  then show "\<exists>a. after_a_local_of_its_own u input = Inr (tree_of (TGroup (Group Brace
       (Stream (a @ items input) []) (delim_span_from_single 2) 0))) \<and> all_spans 2 a" using s(3) by blast
qed

end
