(* ===== verification/Macro_Checks.thy ===== *)
theory Macro_Checks
  imports Unit_Macros
begin

text \<open>
  The repository's own checks, run on the model: the macro of
  \<^verbatim>\<open>tst/unit/proc_macro_token_streams\<close>, which lexes and prints streams inside a macro, and the
  unit tests at the end of \<^verbatim>\<open>lex.rs\<close> and \<^verbatim>\<open>serialisation.rs\<close>, which run outside one.
\<close>

section \<open>Assertions\<close>

fun in_order :: "unit client list \<Rightarrow> unit client" where
  "in_order [] = Inr ()"
| "in_order (c # cs) = and_then c (\<lambda>_. in_order cs)"

lemma in_order_passes: "list_all (\<lambda>c. c = Inr ()) cs \<Longrightarrow> in_order cs = Inr ()"
  by (induction cs) simp_all

lemma in_order_append [simp]: "in_order (as @ bs) = and_then (in_order as) (\<lambda>_. in_order bs)"
  by (induction as) (simp_all add: and_then_def split: sum.split)

text \<open>\<open>assert_eq!(TokenStream::from_str(v).unwrap().to_string(), w)\<close>\<close>

definition prints :: "unicode \<Rightarrow> rstr \<Rightarrow> rstr \<Rightarrow> unit client" where
  "prints u v w = and_then (parse_stream u v) (\<lambda>s. asserted (stream_display s = w))"

definition prints_same :: "unicode \<Rightarrow> rstr \<Rightarrow> unit client" where
  "prints_same u v = prints u v v"

definition expect_ident :: "stream token_tree option \<Rightarrow> rstr \<Rightarrow> unit client" where
  "expect_ident token expected = (case token of
     Some (TIdent i) \<Rightarrow> asserted (ident_display i = expected) | _ \<Rightarrow> panics ''expected ident'')"

definition expect_empty_group :: "stream token_tree option \<Rightarrow> delimiter \<Rightarrow> unit client" where
  "expect_empty_group token expected = (case token of
     Some (TGroup g) \<Rightarrow> and_then (asserted (delimiter g = expected)) (\<lambda>_. asserted (stream_is_empty (group_stream g)))
   | _ \<Rightarrow> panics ''expected group'')"

section \<open>\<^verbatim>\<open>check_token_streams\<close>\<close>

definition ident_checks :: "unicode \<Rightarrow> unit client list" where
  "ident_checks u =
     map (\<lambda>invalid. asserted (case ident_new u invalid 2 of Inl p \<Rightarrow> True | Inr i \<Rightarrow> False))
       [[], [c_squote] @ str ''static'', str ''255'', str ''a#'']
     @ map (\<lambda>name. and_then (panicking (ident_new u name 2)) (\<lambda>i. asserted (ident_display i = name))) [str ''_'', str ''String'']"

definition byte_checks :: "unicode \<Rightarrow> unit client list" where
  "byte_checks u =
     map (\<lambda>body. prints_same u ([c_b, c_squote] @ body @ [c_squote]))
       [[97], [c_backslash, c_n], [c_backslash, c_r], [c_backslash, c_t], [c_backslash, c_squote], [c_dquote], [c_backslash, c_x, 55, 102]]
     @ map (\<lambda>(byte, body). and_then (panicking (lit_byte_character u True byte)) (\<lambda>l. asserted (literal_display l = [c_b, c_squote] @ body @ [c_squote])))
       [(97, [97]), (10, [c_backslash, c_n])]"

definition number_checks :: "unicode \<Rightarrow> unit client list" where
  "number_checks u = map (prints_same u)
     ([str ''5.5'', str ''5.5E12'', str ''5.5e12'', str ''1.0__3e-12'', str ''1.03e+12'', str ''1f32'']
      @ [str ''0_4'', str ''0x__7___F_'', str ''5u32''])"

definition spacing_checks :: "unicode \<Rightarrow> unit client list" where
  "spacing_checks u =
     [prints u (str ''1..2'') (str ''1 .. 2''), prints u (str ''Vec<Attribute>,'') (str ''Vec < Attribute >,''),
      prints u (str ''Vec<Attribute> ,'') (str ''Vec < Attribute > ,''), prints u (str ''>=,'') (str ''>=,''),
      prints u (str ''>/* comment */,'') (str ''> ,'')]"

definition function_checks :: "unicode \<Rightarrow> unit client" where
  "function_checks u = and_then (parse_stream u (str ''async fn process() {}'')) (\<lambda>function.
     and_then (asserted (stream_display function = str ''async fn process ( ) { }'')) (\<lambda>_.
     let function = items function in
     in_order [expect_ident (get_at function 0) (str ''async''), expect_ident (get_at function 1) (str ''fn''),
       expect_ident (get_at function 2) (str ''process''), expect_empty_group (get_at function 3) Parenthesis,
       expect_empty_group (get_at function 4) Brace, asserted (get_at function 5 = None)]))"

definition closure_checks :: "unicode \<Rightarrow> unit client" where
  "closure_checks u = and_then (parse_stream u (str ''async || { [] }'')) (\<lambda>closure.
     and_then (asserted (stream_display closure = str ''async || { [ ] }'')) (\<lambda>_.
     let closure = items closure;
         any_punct = (\<lambda>t. asserted (case t of Some (TPunct p) \<Rightarrow> True | _ \<Rightarrow> False)) in
     in_order [expect_ident (get_at closure 0) (str ''async''), any_punct (get_at closure 1), any_punct (get_at closure 2),
       case get_at closure 3 of
         Some (TGroup body) \<Rightarrow> and_then (asserted (delimiter body = Brace)) (\<lambda>_.
           let body = items (group_stream body) in
           in_order [expect_empty_group (get_at body 0) Bracket, asserted (get_at body 1 = None)])
       | _ \<Rightarrow> panics ''expected closure body group'',
       asserted (get_at closure 4 = None)]))"

definition text_checks :: "unicode \<Rightarrow> unit client list" where
  "text_checks u =
     (let hello = [c_dquote] @ str ''Hello, world!'' @ [c_dquote];
          raw = [c_r, c_dquote] @ str '' See the std::result module documentation for details.'' @ [c_dquote];
          bytes = str ''br##'' @ [c_dquote, 97, c_dquote, c_hash, 98, c_dquote] @ str ''## tail'' in
      [prints u (str ''fn main() { assert_eq!(foo(), '' @ hello @ str ''); }'')
         (str ''fn main ( ) { assert_eq ! ( foo ( ) , '' @ hello @ str '' ) ; }''),
       prints u (str ''<T>'') (str ''< T >''), prints_same u (str ''= '' @ raw), prints_same u bytes])"

definition error_checks :: "unicode \<Rightarrow> unit client list" where
  "error_checks u = map (\<lambda>v. and_then (is_err (stream_from_str u True v)) asserted) [str ''(]'', str ''{'']"

definition check_token_streams :: "unicode \<Rightarrow> stream \<Rightarrow> stream client" where
  "check_token_streams u input =
     and_then (in_order (ident_checks u @ byte_checks u @ number_checks u @ spacing_checks u
       @ [function_checks u, closure_checks u] @ text_checks u @ error_checks u)) (\<lambda>_. Inr empty_stream)"

definition check_source_literals :: "stream \<Rightarrow> stream client" where
  "check_source_literals input =
     (let written = map tree_display (items input) in
      and_then (asserted (written =
        [[c_r, c_hash, c_dquote, c_newline] @ str ''    a '' @ [c_dquote, 98, c_dquote, c_newline] @ str ''    '' @ [c_dquote, c_hash],
         [c_dquote, c_newline] @ str ''    c'' @ [c_backslash, c_n, c_dquote],
         [c_b, c_r, c_dquote, c_newline] @ str ''    d'' @ [c_dquote]])) (\<lambda>_. Inr empty_stream))"

lemma ident_checks_pass: "in_order (ident_checks u) = Inr ()"
  by code_simp

lemma byte_checks_pass: "in_order (byte_checks u) = Inr ()"
  by code_simp

lemma number_checks_pass: "in_order (number_checks u) = Inr ()"
  by code_simp

lemma spacing_checks_pass: "in_order (spacing_checks u) = Inr ()"
  by code_simp

lemma function_checks_pass: "function_checks u = Inr ()"
  by code_simp

lemma closure_checks_pass: "closure_checks u = Inr ()"
  by code_simp

lemma text_checks_pass: "in_order (text_checks u) = Inr ()"
  by code_simp

lemma error_checks_pass: "in_order (error_checks u) = Inr ()"
  by code_simp

text \<open>Whatever the character tables are, every assertion holds.\<close>

lemma token_streams_check_out: "check_token_streams u input = Inr empty_stream"
  by (simp add: check_token_streams_def ident_checks_pass byte_checks_pass number_checks_pass spacing_checks_pass
      function_checks_pass closure_checks_pass text_checks_pass error_checks_pass)

section \<open>The unit tests of \<^verbatim>\<open>lex.rs\<close>\<close>

text \<open>
  The expected trees are made with \<open>Span::call_site()\<close>, as everything the lexer pushes is:
  \<open>available\<close> says whether a macro runs. Under the test runner none does.
\<close>

definition made_ident :: "unicode \<Rightarrow> bool \<Rightarrow> string \<Rightarrow> stream token_tree client" where
  "made_ident u available name = and_then (panicking (call_site available)) (\<lambda>sp. new_ident u (str name) sp)"

definition made_punct :: "bool \<Rightarrow> rchar \<Rightarrow> spacing \<Rightarrow> stream token_tree client" where
  "made_punct available c spacing =
     and_then (panicking (call_site available)) (\<lambda>sp. Inr (TPunct (punct_from_char c spacing sp)))"

definition made_literal :: "bool \<Rightarrow> rstr \<Rightarrow> stream token_tree client" where
  "made_literal available v =
     and_then (panicking (call_site available)) (\<lambda>sp. and_then (some_unwrapped (from_spelling v sp)) (\<lambda>l. Inr (TLiteral l)))"

text \<open>\<open>assert_tt_matches!\<close>\<close>

definition tt_matches :: "stream token_tree option \<Rightarrow> stream token_tree client \<Rightarrow> unit client" where
  "tt_matches have expected = and_then expected (\<lambda>e. case have of
     None \<Rightarrow> panics ''Unexpected end of stream'' | Some h \<Rightarrow> asserted (tt_eq h e))"

definition tt_ends :: "stream token_tree option \<Rightarrow> unit client" where
  "tt_ends have = (case have of Some h \<Rightarrow> panics ''Expected end of stream'' | None \<Rightarrow> Inr ())"

definition test_lexed :: "unicode \<Rightarrow> bool \<Rightarrow> rstr \<Rightarrow> stream token_tree client list \<Rightarrow> unit client" where
  "test_lexed u available v expected =
     and_then (unwrapped (stream_from_str u available v)) (\<lambda>rv. let it = items rv in
     in_order (map (\<lambda>(i, e). tt_matches (get_at it i) e) (enumerate 0 expected) @ [tt_ends (get_at it (length expected))]))"

definition test_char_literals :: "unicode \<Rightarrow> bool \<Rightarrow> unit client" where
  "test_char_literals u available =
     and_then (unwrapped (stream_from_str u available [c_squote, c_bang, c_squote])) (\<lambda>_.
     and_then (unwrapped (stream_from_str u available ([c_squote, c_backslash] @ str ''u{2764}'' @ [c_squote]))) (\<lambda>_. Inr ()))"

definition test_lifetime :: "unicode \<Rightarrow> bool \<Rightarrow> unit client" where
  "test_lifetime u available = test_lexed u available (str ''foo::bar<'' @ [c_squote, 97, c_gt])
     [made_ident u available ''foo'', made_punct available c_colon Joint, made_punct available c_colon Alone,
      made_ident u available ''bar'', made_punct available c_lt Alone, made_punct available c_squote Joint,
      made_ident u available ''a'', made_punct available c_gt Alone]"

definition test_trailing_zero :: "unicode \<Rightarrow> bool \<Rightarrow> unit client" where
  "test_trailing_zero u available = test_lexed u available [c_0] [made_literal available [c_0]]"

definition test_tuple_index_method :: "unicode \<Rightarrow> bool \<Rightarrow> unit client" where
  "test_tuple_index_method u available = test_lexed u available (str ''key . 1 . def_id'')
     [made_ident u available ''key'', made_punct available c_dot Alone, made_literal available (str ''1''),
      made_punct available c_dot Alone, made_ident u available ''def_id'']"

abbreviation unavailable :: "unit client" where
  "unavailable \<equiv> panics ''procedural macro API is used outside of a procedural macro''"

text \<open>
  Inside a macro all hold but that for lifetimes, which wants the angle bracket before the
  lifetime's quote alone; the lexer makes it joint. Run as tests, outside a macro, all panic in
  \<open>Span::call_site()\<close>.
\<close>

lemma lex_tests_inside:
  "test_char_literals u True = Inr ()" "test_trailing_zero u True = Inr ()" "test_tuple_index_method u True = Inr ()"
  "test_lifetime u True = panics ''assertion failed''"
  by code_simp+

lemma lex_tests_outside:
  "test_char_literals u False = unavailable" "test_lifetime u False = unavailable" "test_trailing_zero u False = unavailable"
  "test_tuple_index_method u False = unavailable"
  by code_simp+

section \<open>The unit tests of \<^verbatim>\<open>serialisation.rs\<close>\<close>

definition received_or :: "'a received \<Rightarrow> 'a client" where
  "received_or r = (case r of Inr x \<Rightarrow> Inr x | Inl (RecvPanic p) \<Rightarrow> Inl (LexPanic p) | Inl RecvFuel \<Rightarrow> Inl LexDiverges)"

definition test_writes :: "span_table \<Rightarrow> stream \<Rightarrow> u8 list \<Rightarrow> unit client" where
  "test_writes st ts expected = and_then (panicking (send_token_stream st ts)) (\<lambda>out. asserted (out = expected))"

definition write_empty :: "bool \<Rightarrow> span_table \<Rightarrow> unit client" where
  "write_empty available st = test_writes st empty_stream [0, 0]"

definition write_symbols :: "bool \<Rightarrow> span_table \<Rightarrow> unit client" where
  "write_symbols available st =
     and_then (map_client (\<lambda>sp. panicking (and_then (punct_new available c_lt sp) (\<lambda>p. Inr (TPunct p)))) [Joint, Alone, Alone]) (\<lambda>ts.
     test_writes st (from_trees ts) [0, 2, 60, 60, 0, 1, 60, 0, 0])"

definition lifetime_trees :: "unicode \<Rightarrow> bool \<Rightarrow> stream token_tree list client" where
  "lifetime_trees u available =
     and_then (panicking (punct_new available c_squote Joint)) (\<lambda>p.
     and_then (made_ident u available ''a'') (\<lambda>i. Inr [TPunct p, i]))"

definition write_lifetime :: "unicode \<Rightarrow> bool \<Rightarrow> span_table \<Rightarrow> unit client" where
  "write_lifetime u available st =
     and_then (lifetime_trees u available) (\<lambda>ts. test_writes st (from_trees ts) [2, 1, 97, 0, 0])"

definition read_lifetime :: "std_env \<Rightarrow> bool \<Rightarrow> span_table \<Rightarrow> unit client" where
  "read_lifetime env available st =
     and_then (received_or (recv_token_stream env available [2, 1, 97, 0, 0] st)) (\<lambda>(rv, rest, st).
     let it = items rv in
     and_then (lifetime_trees (env_unicode env) available) (\<lambda>ts.
     in_order [tt_matches (get_at it 0) (Inr (ts ! 0)), tt_matches (get_at it 1) (Inr (ts ! 1)), tt_ends (get_at it 2)]))"

definition serialisation_tests :: "std_env \<Rightarrow> bool \<Rightarrow> span_table \<Rightarrow> unit client list" where
  "serialisation_tests env available st =
     [write_empty available st, write_symbols available st, write_lifetime (env_unicode env) available st, read_lifetime env available st]"

text \<open>
  None can pass: inside a macro each finds other bytes or trees than it expects, those of an older
  protocol, and outside one three of them panic before they serialise anything.
\<close>

lemma serialisation_tests_inside:
  "serialisation_tests env True (freeze_definitions empty_spans) = replicate 4 (panics ''assertion failed'')"
  by code_simp

lemma serialisation_tests_outside:
  "serialisation_tests env False empty_spans = panics ''assertion failed'' # replicate 3 unavailable"
  by code_simp

end
