(* ===== verification/Derives.thy ===== *)
theory Derives
  imports Unit_Macros Relex
begin

text \<open>
  The derive macros of the repository's units (\<^verbatim>\<open>tst/unit\<close>): they look for the name and the fields
  of a struct among the trees of the input and write an item around them, some of it at the span of
  a tree they were handed.
\<close>

section \<open>Shared steps\<close>

text \<open>\<open>expect\<close> on a parsed text and on an option; \<open>unwrap\<close> of an index into a vector.\<close>

definition lex_expected :: "string \<Rightarrow> stream lexed \<Rightarrow> stream client" where
  "lex_expected msg r = (case r of Inl (LexError e) \<Rightarrow> panics msg | _ \<Rightarrow> r)"

definition some_expected :: "string \<Rightarrow> 'a option \<Rightarrow> 'a client" where
  "some_expected msg x = panicking (expect_some msg x)"

definition head_or_panic :: "'a list \<Rightarrow> 'a client" where
  "head_or_panic ts = (case ts of [] \<Rightarrow> panics ''index out of bounds'' | t # _ \<Rightarrow> Inr t)"

section \<open>\<^verbatim>\<open>aux/default_from_path.rs\<close>\<close>

function respan :: "stream \<Rightarrow> span \<Rightarrow> stream client"
  and respan_trees :: "stream token_tree list \<Rightarrow> span \<Rightarrow> stream token_tree list client" where
  "respan stream sp = and_then (respan_trees (items stream) sp) (\<lambda>ts. Inr (from_trees ts))"
| "respan_trees [] sp = Inr []"
| "respan_trees (TGroup g # ts) sp =
     and_then (respan (group_stream g) sp) (\<lambda>s.
     and_then (new_group (delimiter g) s) (\<lambda>inner.
     and_then (respan_trees ts sp) (\<lambda>ts. Inr (tree_set_span sp inner # ts))))"
| "respan_trees (TIdent i # ts) sp = and_then (respan_trees ts sp) (\<lambda>ts. Inr (tree_set_span sp (TIdent i) # ts))"
| "respan_trees (TPunct p # ts) sp = and_then (respan_trees ts sp) (\<lambda>ts. Inr (tree_set_span sp (TPunct p) # ts))"
| "respan_trees (TLiteral l # ts) sp = and_then (respan_trees ts sp) (\<lambda>ts. Inr (tree_set_span sp (TLiteral l) # ts))"
  by pat_completeness auto
termination
  by (relation "measure (case_sum (\<lambda>(s, _). size s) (\<lambda>(ts, _). trees_size ts))") (auto simp: items_smaller trees_smaller)

definition lexed_own :: "unicode \<Rightarrow> rstr \<Rightarrow> stream client" where
  "lexed_own u v = lex_expected ''the macro's own tokens lex'' (stream_from_str u True v)"

text \<open>The loop of \<open>made_from\<close>: the name after \<open>struct\<close>, the first field between braces.\<close>

fun struct_scan :: "stream token_tree list \<Rightarrow> rstr option \<Rightarrow> rstr option \<Rightarrow> (rstr option \<times> rstr option) client" where
  "struct_scan [] name field = Inr (name, field)"
| "struct_scan (TIdent keyword # ts) name field =
     (if ident_display keyword = str ''struct''
      then and_then (head_or_panic ts) (\<lambda>t. struct_scan ts (Some (tree_display t)) field)
      else struct_scan ts name field)"
| "struct_scan (TGroup g # ts) name field =
     (if delimiter g = Brace then struct_scan ts name (map_option tree_display (first_of (items (group_stream g))))
      else struct_scan ts name field)"
| "struct_scan (t # ts) name field = struct_scan ts name field"

definition made_from :: "unicode \<Rightarrow> literal \<Rightarrow> stream token_tree list \<Rightarrow> stream client" where
  "made_from u literal tokens =
     and_then (struct_scan tokens None None) (\<lambda>(name, field).
     and_then (some_expected ''a struct'' name) (\<lambda>name.
     and_then (some_expected ''a named field'' field) (\<lambda>field.
     and_then (lexed_own u (trim_matches c_dquote (literal_display literal))) (\<lambda>callee.
     and_then (lexed_own u (str ''let __default: '' @ name @ str '' ='')) (\<lambda>binding.
     let binding = extend_items binding (items callee) in
     and_then (lexed_own u (str ''();'')) (\<lambda>call.
     let binding = extend_items binding (items call) in
     and_then (respan binding (lit_span literal)) (\<lambda>body.
     and_then (lexed_own u (str ''__default.'' @ field)) (\<lambda>read.
     let body = extend_items body (items read) in
     and_then (lexed_own u (str ''pub fn made() -> u32'')) (\<lambda>item.
     and_then (group_stream_of Brace body) (\<lambda>g.
     let item = extend_items item (items g) in
     and_then (lexed_own u (str ''impl '' @ name)) (\<lambda>out.
     and_then (group_stream_of Brace item) (\<lambda>g. Inr (extend_items out (items g))))))))))))))"

text \<open>The loop of \<open>default_from\<close>: the last attribute with a literal wins.\<close>

fun path_scan :: "stream token_tree list \<Rightarrow> literal option \<Rightarrow> literal option" where
  "path_scan [] found = found"
| "path_scan (TGroup g # ts) found = path_scan ts (case items (group_stream g) of
     [TIdent attr, TPunct _, TLiteral lit] \<Rightarrow> if ident_display attr = str ''default_from'' then Some lit else found
   | _ \<Rightarrow> found)"
| "path_scan (t # ts) found = path_scan ts found"

definition default_from :: "unicode \<Rightarrow> stream \<Rightarrow> stream client" where
  "default_from u input =
     (let tokens = items input in
      and_then (some_expected ''#[default_from = path]'' (path_scan tokens None)) (\<lambda>path_lit. made_from u path_lit tokens))"

definition default_from_attr :: "unicode \<Rightarrow> stream \<Rightarrow> stream \<Rightarrow> stream client" where
  "default_from_attr u attribute item = (case first_of (items attribute) of
     Some (TLiteral literal) \<Rightarrow>
       (let tokens = items item in
        and_then (made_from u literal tokens) (\<lambda>made. Inr (extend_items item (items made))))
   | _ \<Rightarrow> panics ''#[default_from_attr(path)]'')"

section \<open>\<^verbatim>\<open>rust_1_92/aux/replace_derive.rs\<close>\<close>

definition with_replace :: "unicode \<Rightarrow> stream \<Rightarrow> stream \<Rightarrow> stream client" where
  "with_replace u arguments item =
     and_then (parse_stream u (str ''#[derive(::replace_derive::Replace)]'')) (\<lambda>out.
     and_then (parse_stream u (str ''#'')) (\<lambda>hash.
     let out = extend_items out (items hash) in
     and_then (parse_stream u (str ''replace'')) (\<lambda>helper.
     and_then (new_group Parenthesis arguments) (\<lambda>g.
     let helper = extend_items helper [g] in
     and_then (new_group Bracket helper) (\<lambda>g.
     let out = extend_items out [g] in Inr (extend_items out (items item)))))))"

fun replace_scan :: "stream token_tree list \<Rightarrow> span option \<Rightarrow> rstr option \<Rightarrow> span option \<times> rstr option" where
  "replace_scan [] argument_span name = (argument_span, name)"
| "replace_scan (TGroup g # ts) argument_span name = replace_scan ts (case items (group_stream g) of
     TIdent word # TGroup arguments # _ \<Rightarrow>
       if ident_display word = str ''replace'' then map_option tree_span (first_of (items (group_stream arguments))) else argument_span
   | _ \<Rightarrow> argument_span) name"
| "replace_scan (TIdent word # ts) argument_span name =
     replace_scan ts argument_span (if ident_display word = str ''struct'' then map_option tree_display (first_of ts) else name)"
| "replace_scan (t # ts) argument_span name = replace_scan ts argument_span name"

definition derive_replace :: "unicode \<Rightarrow> stream \<Rightarrow> stream client" where
  "derive_replace u item =
     (case replace_scan (items item) None None of (argument_span, name) \<Rightarrow>
      and_then (parse_stream u (str ''self,'')) (\<lambda>parameters.
      and_then (some_unwrapped argument_span) (\<lambda>sp.
      and_then (new_ident u (str ''__replacement'') sp) (\<lambda>replacement.
      let parameters = extend_items parameters [replacement] in
      and_then (parse_stream u (str '': u32'')) (\<lambda>ty.
      let parameters = extend_items parameters (items ty) in
      and_then call_site_now (\<lambda>sp.
      and_then (new_ident u (str ''__replacement'') sp) (\<lambda>replacement.
      let body = tree_of replacement in
      and_then (parse_stream u (str ''pub fn replace'')) (\<lambda>fn.
      and_then (new_group Parenthesis parameters) (\<lambda>g.
      let fn = extend_items fn [g] in
      and_then (parse_stream u (str ''-> u32'')) (\<lambda>returns.
      let fn = extend_items fn (items returns) in
      and_then (new_group Brace body) (\<lambda>g.
      let fn = extend_items fn [g] in
      and_then (some_unwrapped name) (\<lambda>name.
      and_then (parse_stream u (str ''impl '' @ name)) (\<lambda>out.
      and_then (new_group Brace fn) (\<lambda>g. Inr (extend_items out [g])))))))))))))))"

section \<open>\<^verbatim>\<open>aux/field_tokens_derive.rs\<close>\<close>

function flatten_strings :: "stream \<Rightarrow> rstr list"
  and tree_strings :: "stream token_tree list \<Rightarrow> rstr list" where
  "flatten_strings stream = tree_strings (items stream)"
| "tree_strings [] = []"
| "tree_strings (TGroup g # ts) =
     (let (op, cl) = stream_delimiters (delimiter g)
      in [op] @ flatten_strings (group_stream g) @ [cl] @ tree_strings ts)"
| "tree_strings (TIdent i # ts) = tree_display (TIdent i) # tree_strings ts"
| "tree_strings (TPunct p # ts) = tree_display (TPunct p) # tree_strings ts"
| "tree_strings (TLiteral l # ts) = tree_display (TLiteral l) # tree_strings ts"
  by pat_completeness auto
termination
  by (relation "measure (case_sum size trees_size)") (auto simp: items_smaller trees_smaller)

fun fields_scan :: "stream token_tree list \<Rightarrow> rstr option \<Rightarrow> bool \<Rightarrow> rstr list \<Rightarrow> rstr option \<times> rstr list" where
  "fields_scan [] name after_struct texts = (name, texts)"
| "fields_scan (TIdent i # ts) name after_struct texts =
     (if after_struct \<and> name = None then fields_scan ts (Some (ident_display i)) after_struct texts
      else fields_scan ts name (ident_display i = str ''struct'') texts)"
| "fields_scan (TGroup g # ts) name after_struct texts =
     fields_scan ts name after_struct (if delimiter g = Brace then texts @ flatten_strings (group_stream g) else texts)"
| "fields_scan (t # ts) name after_struct texts = fields_scan ts name after_struct texts"

definition field_tokens :: "unicode \<Rightarrow> stream \<Rightarrow> stream client" where
  "field_tokens u item = (case fields_scan (items item) None False [] of (name, texts) \<Rightarrow>
     and_then (some_unwrapped name) (\<lambda>name.
     parse_stream u (str ''impl '' @ name @ str '' { pub const FIELD_TOKENS: &str = '' @ str_debug u (join [c_space] texts) @ str ''; }'')))"

section \<open>\<^verbatim>\<open>aux/field_getter_derive.rs\<close>\<close>

fun getter_scan :: "stream token_tree list \<Rightarrow> rstr option \<Rightarrow> bool \<Rightarrow> stream option \<Rightarrow> rstr option \<times> stream option" where
  "getter_scan [] name after_struct field = (name, field)"
| "getter_scan (TIdent i # ts) name after_struct field =
     (if after_struct \<and> name = None then getter_scan ts (Some (ident_display i)) after_struct field
      else getter_scan ts name (ident_display i = str ''struct'') field)"
| "getter_scan (TGroup g # ts) name after_struct field =
     getter_scan ts name after_struct (if delimiter g = Parenthesis then Some (group_stream g) else field)"
| "getter_scan (t # ts) name after_struct field = getter_scan ts name after_struct field"

definition field_getter :: "unicode \<Rightarrow> stream \<Rightarrow> stream client" where
  "field_getter u item = (case getter_scan (items item) None False None of (name, field) \<Rightarrow>
     and_then (some_unwrapped field) (\<lambda>field.
     let field_type = from_trees (takeWhile (\<lambda>tt. \<not> is_punct (Some tt) c_comma) (drop 1 (items field))) in
     and_then (parse_stream u (str ''pub fn get(&self) -> &'')) (\<lambda>head.
     and_then (parse_stream u (str ''{ &self.0 }'')) (\<lambda>tail.
     let body = from_trees (items head @ items field_type @ items tail) in
     and_then (some_unwrapped name) (\<lambda>name.
     and_then (parse_stream u (str ''impl '' @ name)) (\<lambda>out.
     and_then (new_group Brace body) (\<lambda>g. Inr (extend_items out [g]))))))))"

section \<open>\<^verbatim>\<open>aux/imported_debug_derive.rs\<close> and \<^verbatim>\<open>aux/fn_pointer_token_order.rs\<close>\<close>

fun debug_scan :: "stream token_tree list \<Rightarrow> rstr option \<Rightarrow> rstr option client" where
  "debug_scan [] name = Inr name"
| "debug_scan (TIdent keyword # ts) name =
     (if ident_display keyword = str ''struct''
      then and_then (head_or_panic ts) (\<lambda>t. debug_scan ts (Some (tree_display t))) else debug_scan ts name)"
| "debug_scan (t # ts) name = debug_scan ts name"

definition debug_derive :: "unicode \<Rightarrow> stream \<Rightarrow> stream client" where
  "debug_derive u input =
     and_then (debug_scan (items input) None) (\<lambda>name.
     and_then (some_expected ''a struct'' name) (\<lambda>name.
     parse_stream u (str ''impl '' @ name @ str '' { fn derived_by() -> &'' @ [c_squote] @ str ''static str { ''
       @ [c_dquote] @ str ''imported'' @ [c_dquote] @ str '' } }'')))"

fun word_at :: "rstr list \<Rightarrow> rstr \<Rightarrow> nat option" where
  "word_at [] word = None"
| "word_at (w # ws) word = (if w = word then Some 0 else map_option Suc (word_at ws word))"

definition field_order :: "unicode \<Rightarrow> stream \<Rightarrow> stream client" where
  "field_order u input =
     (let groups = concat (map (\<lambda>tree. case tree of TGroup g \<Rightarrow> [group_stream g] | _ \<Rightarrow> []) (items input)) in
      and_then (some_unwrapped (first_of (rev groups))) (\<lambda>last_group.
      let words = map tree_display (items last_group); at = (\<lambda>word. some_unwrapped (word_at words (str word))) in
      and_then (at ''unsafe'') (\<lambda>a. and_then (at ''extern'') (\<lambda>b.
      and_then (if a < b then and_then (at ''extern'') (\<lambda>b. and_then (at ''fn'') (\<lambda>c. Inr (b < c))) else Inr False) (\<lambda>ordered.
      let ordered = (ordered \<and> list_ex (\<lambda>w. first_of w = Some c_lparen \<and> contains w (str ''...'')) words) in
      parse_stream u (str ''const FIELD_ORDER: bool = '' @ str (if ordered then ''true'' else ''false'') @ str '';'')))))) "

section \<open>\<^verbatim>\<open>aux/inspect_restricted_byte_field.rs\<close>\<close>

function byte_literal_count :: "stream \<Rightarrow> nat"
  and byte_literals :: "stream token_tree list \<Rightarrow> nat" where
  "byte_literal_count tokens = byte_literals (items tokens)"
| "byte_literals [] = 0"
| "byte_literals (TLiteral l # ts) = (if take 2 (literal_display l) = [c_b, c_dquote] then 1 else 0) + byte_literals ts"
| "byte_literals (TGroup g # ts) = byte_literal_count (group_stream g) + byte_literals ts"
| "byte_literals (TIdent i # ts) = byte_literals ts"
| "byte_literals (TPunct p # ts) = byte_literals ts"
  by pat_completeness auto
termination
  by (relation "measure (case_sum size trees_size)") (auto simp: items_smaller trees_smaller)

fun inspect_scan :: "stream \<Rightarrow> stream token_tree list \<Rightarrow> stream client" where
  "inspect_scan input [] = panics ''missing visibility''"
| "inspect_scan input (TIdent i # ts) =
     (if ident_display i = str ''pub'' then
        and_then (some_unwrapped (first_of ts)) (\<lambda>token.
        and_then (case token of
            TGroup g \<Rightarrow>
              and_then (asserted (delimiter g = Parenthesis)) (\<lambda>_.
              let names = concat (map (\<lambda>token. case token of TIdent i \<Rightarrow> [ident_display i] | _ \<Rightarrow> []) (items (group_stream g))) in
              asserted (names = [str ''in'', str ''crate'', str ''outer'']))
          | _ \<Rightarrow> panics ''missing restricted visibility'') (\<lambda>_.
        and_then (asserted (byte_literal_count input = 1)) (\<lambda>_. Inr empty_stream)))
      else inspect_scan input ts)"
| "inspect_scan input (t # ts) = inspect_scan input ts"

definition inspect_bytes :: "stream \<Rightarrow> stream client" where
  "inspect_bytes input = inspect_scan input (items input)"

section \<open>Setting spans\<close>

lemma respan_ok:
  "\<exists>s'. respan s sp = Inr s' \<and> all_spans sp (trees s') \<and> hidden s' = [] \<and> stream_display s' = stream_display s \<and> length (trees s') = length (trees s)"
  "\<exists>ts'. respan_trees ts sp = Inr ts' \<and> all_spans sp ts' \<and> (\<forall>first joint. trees_display first joint ts' = trees_display first joint ts)
     \<and> length ts' = length ts"
proof (induction s sp and ts sp rule: respan_respan_trees.induct)
  case (1 s sp)
  have "trees_display first joint (map handed ts) = trees_display first joint ts" for first joint ts
  proof (induction ts arbitrary: first joint)
    case (Cons t ts)
    then show ?case by (cases t) simp_all
  qed simp
  then show ?case using 1 by (cases s) (auto simp: items_def from_trees_def)
next
  case (3 g ts sp)
  from "3.IH"(1) obtain s' where s': "respan (group_stream g) sp = Inr s'" "all_spans sp (trees s')"
    "stream_display s' = stream_display (group_stream g)" "length (trees s') = length (trees (group_stream g))" by blast
  from "3.IH"(2) [OF s'(1) new_group_Inr] obtain ts' where ts': "respan_trees ts sp = Inr ts'" "all_spans sp ts'"
    "\<forall>first joint. trees_display first joint ts' = trees_display first joint ts" "length ts' = length ts" by blast
  have "trees s' = [] \<longleftrightarrow> trees (group_stream g) = []" using s'(4) by (metis length_0_conv)
  moreover have "respan_trees (TGroup g # ts) sp = Inr (TGroup (Group (delimiter g) s' (delim_span_from_single sp) 0) # ts')"
    using s'(1) ts'(1) by (simp add: group_set_span_def del: respan.simps)
  ultimately show ?case
    using s'(2,3) ts'(2,3,4) by (simp add: stream_is_empty_def del: respan_trees.simps)
next
  case (4 i ts sp)
  then show ?case by (auto simp: ident_set_span_def ident_display_def)
next
  case (5 p ts sp)
  then show ?case by (auto simp: punct_set_span_def punct_as_char_def punct_spacing_def)
next
  case (6 l ts sp)
  then show ?case by (auto simp: literal_set_span_def literal_display_def stringify_parts_def)
qed simp

text \<open>
  C28. \<open>respan\<close> of \<^verbatim>\<open>default_from_path\<close> always returns, puts every token at every depth, delimiters
  included, at the given span, and changes neither the text nor the number of trees.
\<close>

theorem respan_everywhere:
  "\<exists>s'. respan s sp = Inr s' \<and> all_spans sp (trees s') \<and> stream_display s' = stream_display s \<and> length (trees s') = length (trees s)"
  using respan_ok(1) by blast

section \<open>Text with a name in it\<close>

definition plain_name :: "unicode \<Rightarrow> rstr \<Rightarrow> bool" where
  "plain_name u n \<longleftrightarrow> n \<noteq> [] \<and> \<not> is_whitespace u (hd n) \<and> (is_alphabetic u (hd n) \<or> hd n = c_underscore) \<and> list_all (ident_more u) n"

abbreviation names_text :: "rstr list \<Rightarrow> rstr" where
  "names_text ns \<equiv> text_of True (map name_token ns)"

lemma relexes_names: "list_all (plain_name u) ns \<Longrightarrow> relexes u (map name_token ns)"
proof (induction ns)
  case (Cons n ns)
  then have "turn u [name_token n] None" by (intro name_turn) (auto simp: plain_name_def)
  from relexes_turn [OF this] Cons show ?case by simp
qed (simp add: relexes_end)

lemma flat_leaves: "list_all (\<lambda>t. \<not> is_delim t \<and> is_leaf t) ts \<Longrightarrow> grouped ts \<and> flatten ts = map flat_token ts"
proof (induction ts)
  case (Cons t ts)
  then show ?case by (cases t) (auto simp: flat_token_def)
qed simp

lemma lex_flat:
  assumes "lex_loop u True (stream_at s) [] = Inr ts" "list_all (\<lambda>t. \<not> is_delim t \<and> is_leaf t) ts"
  shows "stream_from_str u True s = Inr (from_trees ts)"
proof -
  have new: "char_stream_new s = stream_at (c_space # s)" by (simp add: char_stream_new_def stream_at_def)
  have "list_all is_leaf ts" using assms(2) by (simp add: list_all_iff)
  then have "group_delimiters True ts = Inr ts" using group_delimiters_iff flat_leaves [OF assms(2)] by blast
  then show ?thesis using assms(1) by (simp add: stream_from_str_def new lex_loop_blank)
qed

lemma lex_names:
  assumes "list_all (plain_name u) ns"
  shows "stream_from_str u True (names_text ns) = Inr (from_trees (map name_token ns))"
proof (rule lex_flat)
  have "\<not> ends_in_radix (map name_token ns)" by (cases ns rule: rev_cases) (auto simp: ends_in_radix_def lone_radix_iff)
  then show "lex_loop u True (stream_at (names_text ns)) [] = Inr (map name_token ns)"
    using relexed [OF relexes_names [OF assms], of "[]"] by simp
qed (simp add: list_all_iff)

lemma lex_impl:
  assumes "plain_name u n"
  shows "stream_from_str u True (str ''impl '' @ n) = Inr (from_trees [name_token (str ''impl''), name_token n])"
proof -
  have "plain_name u (str ''impl'')"
    by (simp add: plain_name_def str_def is_whitespace_def is_alphabetic_def ascii_alphabetic_def ident_more_def is_alphanumeric_def)
  then show ?thesis
    using lex_names [of u "[str ''impl'', n]"] assms by (simp add: ident_display_def ident_from_name_def sticky_def str_def)
qed

section \<open>Constant text\<close>

text \<open>What a macro's own text lexes to, whatever the character tables: where it stands, and how it prints.\<close>

definition own_text :: "unicode \<Rightarrow> string \<Rightarrow> string \<Rightarrow> bool" where
  "own_text u v w \<longleftrightarrow> (case stream_from_str u True (str v) of
     Inr s \<Rightarrow> trees s \<noteq> [] \<and> hidden s = [] \<and> all_spans 2 (trees s) \<and> items s = trees s \<and> stream_display s = str w | Inl _ \<Rightarrow> False)"

lemma own_textE:
  assumes "own_text u v w"
  obtains s where "stream_from_str u True (str v) = Inr s" "parse_stream u (str v) = Inr s" "lexed_own u (str v) = Inr s"
    "trees s \<noteq> []" "s = from_trees (trees s)" "all_spans 2 (trees s)" "items s = trees s" "stream_display s = str w"
proof -
  obtain s where s: "stream_from_str u True (str v) = Inr s" "trees s \<noteq> []" "hidden s = []" "all_spans 2 (trees s)" "items s = trees s"
    "stream_display s = str w" using assms by (auto simp: own_text_def split: sum.splits)
  have "s = from_trees (trees s)" using s(3) by (cases s) (simp add: from_trees_def)
  from that [OF s(1) _ _ s(2) this s(4-6)] s(1) show thesis
    by (simp add: parse_stream_def unwrapped_def lexed_own_def lex_expected_def)
qed

lemma own_texts:
  "own_text u ''pub fn get(&self) -> &'' ''pub fn get ( & self ) -> &''"
  "own_text u ''{ &self.0 }'' ''{ & self . 0 }''"
  "own_text u ''self,'' ''self ,''" "own_text u '': u32'' '': u32''"
  "own_text u ''pub fn replace'' ''pub fn replace''" "own_text u ''-> u32'' ''-> u32''"
  "own_text u ''();'' ''( ) ;''" "own_text u ''pub fn made() -> u32'' ''pub fn made ( ) -> u32''"
  by code_simp+

lemma handed_handed [simp]: "handed (handed t) = handed t"
  by (cases t) simp_all

abbreviation in_group :: "delimiter \<Rightarrow> stream token_tree list \<Rightarrow> stream token_tree" where
  "in_group d ts \<equiv> TGroup (Group d (from_trees ts) (delim_span_from_single 2) 0)"

text \<open>
  The getter that \<open>FieldGetter\<close> writes hands on the field's type: whatever trees stand between the
  field's first token and its first comma come out as they were, with their own spans, between
  tokens of the call site.
\<close>

theorem getter_hands_on_type:
  assumes "getter_scan (items item) None False None = (Some n, Some field)" "plain_name u n"
  shows "\<exists>head tail. field_getter u item = Inr (from_trees [name_token (str ''impl''), name_token n,
      in_group Brace (head @ takeWhile (\<lambda>t. \<not> is_punct (Some t) c_comma) (drop 1 (items field)) @ tail)])
    \<and> stream_display (from_trees head) = str ''pub fn get ( & self ) -> &'' \<and> stream_display (from_trees tail) = str ''{ & self . 0 }''
    \<and> all_spans 2 head \<and> all_spans 2 tail"
proof -
  obtain h where h: "parse_stream u (str ''pub fn get(&self) -> &'') = Inr h" "h = from_trees (trees h)" "all_spans 2 (trees h)"
    "items h = trees h" "stream_display h = str ''pub fn get ( & self ) -> &''"
    by (rule own_textE [OF own_texts(1)]) (rule that)
  obtain t where t: "parse_stream u (str ''{ &self.0 }'') = Inr t" "t = from_trees (trees t)" "all_spans 2 (trees t)"
    "items t = trees t" "stream_display t = str ''{ & self . 0 }''"
    by (rule own_textE [OF own_texts(2)]) (rule that)
  let ?ty = "takeWhile (\<lambda>t. \<not> is_punct (Some t) c_comma) (drop 1 (items field))"
  have "set ?ty \<subseteq> set (items field)" by (meson in_set_dropD set_takeWhileD subsetI)
  then have "handed t = t" if "t \<in> set ?ty" for t using that by (auto simp: items_def)
  then have ty: "items (from_trees ?ty) = ?ty" unfolding items_from_trees by (rule map_idI)
  have "parse_stream u (str ''impl '' @ n) = Inr (from_trees [name_token (str ''impl''), name_token n])"
    using lex_impl [OF assms(2)] by (simp add: parse_stream_def unwrapped_def)
  then have "field_getter u item = Inr (from_trees [name_token (str ''impl''), name_token n, in_group Brace (trees h @ ?ty @ trees t)])"
    using h(1,4) t(1,4) ty assms(1)
    by (simp add: field_getter_def some_unwrapped_def Let_def extend_items_def from_trees_def)
  then show ?thesis using h t by (metis (no_types, lifting))
qed

lemma new_replacement: "new_ident u (str ''__replacement'') sp = Inr (TIdent (ident_from_name (str ''__replacement'') False sp))"
proof -
  have "validate_ident u (str ''__replacement'') = Inr ()"
    by (simp add: validate_ident_def utf8_def utf8_char_def str_def ident_char_def is_alphanumeric_def is_alphabetic_def ascii_alphabetic_def)
  then show ?thesis by (simp add: new_ident_def ident_new_def ident_from_name_def)
qed

text \<open>
  The method that \<open>Replace\<close> derives has its parameter at the span of the helper attribute's argument
  and the use of it at the call site; everything else stands at the call site too.
\<close>

theorem replace_spans_parameter:
  assumes "replace_scan (items item) None None = (Some sp, Some n)" "plain_name u n"
  shows "\<exists>f a b r. derive_replace u item = Inr (from_trees [name_token (str ''impl''), name_token n,
      in_group Brace (f @ in_group Parenthesis (a @ TIdent (ident_from_name (str ''__replacement'') False sp) # b) # r
        @ [in_group Brace [name_token (str ''__replacement'')]])])
    \<and> stream_display (from_trees f) = str ''pub fn replace'' \<and> stream_display (from_trees a) = str ''self ,''
    \<and> stream_display (from_trees b) = str '': u32'' \<and> stream_display (from_trees r) = str ''-> u32''
    \<and> all_spans 2 f \<and> all_spans 2 a \<and> all_spans 2 b \<and> all_spans 2 r"
proof -
  obtain a where a: "parse_stream u (str ''self,'') = Inr a" "trees a \<noteq> []" "a = from_trees (trees a)" "all_spans 2 (trees a)"
    "items a = trees a" "stream_display a = str ''self ,''" by (rule own_textE [OF own_texts(3)]) (rule that)
  obtain b where b: "parse_stream u (str '': u32'') = Inr b" "trees b \<noteq> []" "b = from_trees (trees b)" "all_spans 2 (trees b)"
    "items b = trees b" "stream_display b = str '': u32''" by (rule own_textE [OF own_texts(4)]) (rule that)
  obtain f where f: "parse_stream u (str ''pub fn replace'') = Inr f" "trees f \<noteq> []" "f = from_trees (trees f)" "all_spans 2 (trees f)"
    "items f = trees f" "stream_display f = str ''pub fn replace''" by (rule own_textE [OF own_texts(5)]) (rule that)
  obtain r where r: "parse_stream u (str ''-> u32'') = Inr r" "trees r \<noteq> []" "r = from_trees (trees r)" "all_spans 2 (trees r)"
    "items r = trees r" "stream_display r = str ''-> u32''" by (rule own_textE [OF own_texts(6)]) (rule that)
  have "parse_stream u (str ''impl '' @ n) = Inr (from_trees [name_token (str ''impl''), name_token n])"
    using lex_impl [OF assms(2)] by (simp add: parse_stream_def unwrapped_def)
  then have "derive_replace u item = Inr (from_trees [name_token (str ''impl''), name_token n,
      in_group Brace (trees f @ in_group Parenthesis (trees a @ TIdent (ident_from_name (str ''__replacement'') False sp) # trees b) # trees r
        @ [in_group Brace [name_token (str ''__replacement'')]])])"
    using a(1) b(1,2,5) f(1) r(1,2,5) assms(1) new_replacement
    by (simp add: derive_replace_def some_unwrapped_def Let_def extend_items_def from_trees_def)
  then show ?thesis using a b f r by (metis (no_types, lifting))
qed

section \<open>The default of a field\<close>

lemma lex_loop_name:
  assumes "plain_name u w" "stops r"
  shows "lex_loop u True (stream_at (w @ r)) rv = lex_loop u True (stream_at r) (rv @ [name_token w])"
proof -
  obtain c n where w: "w = c # n" using assms(1) by (cases w) (auto simp: plain_name_def)
  have "lex_one u True (stream_at (c # n @ r)) c = Inr ([name_token (c # n)], stream_at r)"
    by (rule lex_name) (use assms w in \<open>auto simp: plain_name_def\<close>)
  then show ?thesis using w by (subst lex_loop_at) simp
qed

lemma lex_loop_op:
  assumes "op_char u c" "\<not> pair_of c t" "\<not> comment_start c t" "next_punct t = None"
  shows "lex_loop u True (stream_at (c # t)) rv = lex_loop u True (stream_at t) (rv @ [TPunct (punct_from_char c Alone 2)])"
proof -
  have "unat (as_u8 c) = c" using assms(1) by (simp add: op_char_def)
  then show ?thesis using lex_op [OF assms(1,3)] assms(2,4) by (subst lex_loop_at) (simp add: op_tokens_def next_sep_punct)
qed

lemma lex_loop_op_stop:
  "op_char u c \<Longrightarrow> stops t \<Longrightarrow>
    lex_loop u True (stream_at (c # t)) rv = lex_loop u True (stream_at t) (rv @ [TPunct (punct_from_char c Alone 2)])"
  using stops_no_pair stops_no_punct by (intro lex_loop_op) (auto simp: comment_start_def stops_def)

abbreviation c_equal :: rchar where "c_equal \<equiv> 61"

lemma op_chars: "op_char u c_colon" "op_char u c_equal" "op_char u c_dot"
proof -
  have "list_ex (\<lambda>v. v ! 0 = as_u8 c_colon) syms" "list_ex (\<lambda>v. v ! 0 = as_u8 c_equal) syms" "list_ex (\<lambda>v. v ! 0 = as_u8 c_dot) syms"
    by code_simp+
  then show "op_char u c_colon" "op_char u c_equal" "op_char u c_dot"
    by (auto simp: op_char_def is_whitespace_def starts_word_def is_alphabetic_def ascii_alphabetic_def ascii_digit_def list_ex_iff)
qed

lemma lex_word_then:
  assumes "plain_name u w" "hd w \<notin> {c_b, c_c, c_r}" "t \<noteq> []" "\<not> ident_more u (hd t)"
  shows "lex_loop u True (stream_at (w @ t)) rv = lex_loop u True (stream_at t) (rv @ [name_token w])"
proof -
  obtain c n where w: "w = c # n" using assms(1) by (cases w) (auto simp: plain_name_def)
  have no: "c \<noteq> c_squote" "c \<noteq> c_slash" "c \<noteq> c_dquote" using assms(1) w by (auto simp: plain_name_def is_alphabetic_def ascii_alphabetic_def)
  have "takeWhile (ident_more u) (w @ t) = w" "dropWhile (ident_more u) (w @ t) = t"
    using assms(1,3,4) by (auto simp: plain_name_def list_all_iff takeWhile_append2 dropWhile_append2 neq_Nil_conv)
  then have "lex_one u True (stream_at (w @ t)) c = Inr ([name_token w], stream_at t)"
    using assms(1,2) w no by (auto simp: lex_one_def get_ident_at push_ident_at plain_name_def)
  then show ?thesis using w by (subst lex_loop_at) simp
qed

lemma default_name: "plain_name u (str ''__default'')" "plain_name u (str ''let'')"
  by (simp_all add: plain_name_def str_def is_whitespace_def is_alphabetic_def ascii_alphabetic_def ident_more_def is_alphanumeric_def)

abbreviation alone :: "rchar \<Rightarrow> stream token_tree" where
  "alone c \<equiv> TPunct (punct_from_char c Alone 2)"

lemma lex_binding:
  assumes "plain_name u n"
  shows "stream_from_str u True (str ''let __default: '' @ n @ str '' ='') =
    Inr (from_trees [name_token (str ''let''), name_token (str ''__default''), alone c_colon, name_token n, alone c_equal])"
proof (rule lex_flat)
  have t: "str ''let __default: '' @ n @ str '' ='' =
      str ''let'' @ c_space # str ''__default'' @ c_colon # c_space # n @ c_space # [c_equal]" by (simp add: str_def)
  have nm: "\<not> ident_more u c_colon" by (simp add: ident_more_def is_alphanumeric_def is_alphabetic_def is_numeric_def ascii_alphabetic_def ascii_digit_def)
  have "lex_loop u True (stream_at (str ''__default'' @ c_colon # c_space # n @ c_space # [c_equal])) rv =
      lex_loop u True (stream_at (c_colon # c_space # n @ c_space # [c_equal])) (rv @ [name_token (str ''__default'')])" for rv
    by (rule lex_word_then [OF default_name(1)]) (use nm in \<open>auto simp: str_def\<close>)
  then show "lex_loop u True (stream_at (str ''let __default: '' @ n @ str '' ='')) [] =
      Inr [name_token (str ''let''), name_token (str ''__default''), alone c_colon, name_token n, alone c_equal]"
    unfolding t by (simp add: lex_loop_name [OF default_name(2)] lex_loop_blank lex_loop_op_stop [OF op_chars(1)] lex_loop_op_stop [OF op_chars(2)]
        lex_loop_name [OF assms] stops_def) (subst lex_loop_at, simp)
qed (simp add: punct_as_char_def punct_from_char_def is_open_def is_close_def)

lemma lex_read:
  assumes "plain_name u f" "hd f < 128"
  shows "stream_from_str u True (str ''__default.'' @ f) = Inr (from_trees [name_token (str ''__default''), alone c_dot, name_token f])"
proof (rule lex_flat)
  obtain x y where f: "f = x # y" using assms(1) by (cases f) (auto simp: plain_name_def)
  have x: "x < 128" "is_alphabetic u x \<or> x = c_underscore" using assms f by (auto simp: plain_name_def)
  then have "x \<notin> set (str ''=&>.:<-|'')" "x \<notin> set punctuation_chars"
    by (auto simp: str_def punctuation_chars_def is_alphabetic_def ascii_alphabetic_def)
  then have dot: "\<not> pair_of c_dot f" "next_punct f = None" "\<not> comment_start c_dot f"
    using pair_facts(1) [of "as_u8 c_dot" "as_u8 x"] next_punct_hd [of f] x(1) f
    by (auto simp: pair_of_Cons comment_start_def) (cases "next_punct f"; simp)
  have nm: "\<not> ident_more u c_dot" by (simp add: ident_more_def is_alphanumeric_def is_alphabetic_def is_numeric_def ascii_alphabetic_def ascii_digit_def)
  have t: "str ''__default.'' @ f = str ''__default'' @ c_dot # f" by (simp add: str_def)
  have "lex_loop u True (stream_at (str ''__default'' @ c_dot # f)) [] = lex_loop u True (stream_at (c_dot # f)) ([] @ [name_token (str ''__default'')])"
    by (rule lex_word_then [OF default_name(1)]) (use nm in \<open>auto simp: str_def\<close>)
  also have "\<dots> = lex_loop u True (stream_at (f @ [])) [name_token (str ''__default''), alone c_dot]"
    using lex_loop_op [OF op_chars(3) dot(1,3,2)] by simp
  also have "\<dots> = Inr [name_token (str ''__default''), alone c_dot, name_token f]"
    by (subst lex_loop_name [OF assms(1)]) (simp_all add: stops_def, subst lex_loop_at, simp)
  finally show "lex_loop u True (stream_at (str ''__default.'' @ f)) [] = Inr [name_token (str ''__default''), alone c_dot, name_token f]"
    unfolding t .
qed (simp add: punct_as_char_def punct_from_char_def is_open_def is_close_def)

text \<open>
  C27. \<open>DefaultFrom\<close> writes the binding of the default at the span of the literal that names it, and the
  read of the field at the call site: the tokens of the path inside the literal go out with their
  text, but at the literal's span, after the struct's name and before the call.
\<close>

theorem default_from_spans:
  assumes "struct_scan (items input) None None = Inr (Some n, Some f)" "path_scan (items input) None = Some l"
    and "lexed_own u (trim_matches c_dquote (literal_display l)) = Inr callee"
    and "plain_name u n" "plain_name u f" "hd f < 128"
  shows "\<exists>head binding call. default_from u input = Inr (from_trees [name_token (str ''impl''), name_token n,
      in_group Brace (head @ [in_group Brace (binding @ [name_token (str ''__default''), alone c_dot, name_token f])])])
    \<and> respan (from_trees ([name_token (str ''let''), name_token (str ''__default''), alone c_colon, name_token n, alone c_equal]
        @ items callee @ call)) (lit_span l) = Inr (from_trees binding)
    \<and> all_spans (lit_span l) binding \<and> stream_display (from_trees call) = str ''( ) ;''
    \<and> stream_display (from_trees head) = str ''pub fn made ( ) -> u32'' \<and> all_spans 2 head"
proof -
  let ?let = "[name_token (str ''let''), name_token (str ''__default''), alone c_colon, name_token n, alone c_equal]"
  obtain c where c: "lexed_own u (str ''();'') = Inr c" "trees c \<noteq> []" "c = from_trees (trees c)" "items c = trees c"
    "stream_display c = str ''( ) ;''" by (rule own_textE [OF own_texts(7)]) (rule that)
  obtain h where h: "lexed_own u (str ''pub fn made() -> u32'') = Inr h" "h = from_trees (trees h)" "all_spans 2 (trees h)"
    "stream_display h = str ''pub fn made ( ) -> u32''" by (rule own_textE [OF own_texts(8)]) (rule that)
  obtain b where b: "respan (from_trees (?let @ items callee @ trees c)) (lit_span l) = Inr b" "all_spans (lit_span l) (trees b)" "hidden b = []"
    using respan_ok(1) by blast
  have b': "b = from_trees (trees b)" using b(3) by (cases b) (simp add: from_trees_def)
  have own: "lexed_own u (str ''let __default: '' @ n @ str '' ='') = Inr (from_trees ?let)"
    "lexed_own u (str ''__default.'' @ f) = Inr (from_trees [name_token (str ''__default''), alone c_dot, name_token f])"
    "lexed_own u (str ''impl '' @ n) = Inr (from_trees [name_token (str ''impl''), name_token n])"
    using lex_binding [OF assms(4)] lex_read [OF assms(5,6)] lex_impl [OF assms(4)] by (simp_all add: lexed_own_def lex_expected_def)
  have join: "extend_items (extend_items (from_trees ?let) (items callee)) (items c) = from_trees (?let @ items callee @ trees c)"
    using c(2,4) by (auto simp: extend_items_def from_trees_def)
  have "made_from u l (items input) = Inr (from_trees [name_token (str ''impl''), name_token n,
      in_group Brace (trees h @ [in_group Brace (trees b @ [name_token (str ''__default''), alone c_dot, name_token f])])])"
    using assms(1,3) own c(1) h(1) b(1)
    by (simp add: made_from_def some_expected_def join group_stream_of_def Let_def del: respan.simps)
      (simp add: extend_items_def items_def from_trees_def)
  then have "default_from u input = Inr (from_trees [name_token (str ''impl''), name_token n,
      in_group Brace (trees h @ [in_group Brace (trees b @ [name_token (str ''__default''), alone c_dot, name_token f])])])"
    using assms(2) by (simp add: default_from_def some_expected_def)
  then show ?thesis using b c(3,5) h b' by (metis (no_types, lifting))
qed

section \<open>Witnesses\<close>

definition lexed_sample :: "rstr \<Rightarrow> stream" where
  "lexed_sample v = (case stream_from_str ascii_only True v of Inr s \<Rightarrow> s | Inl _ \<Rightarrow> empty_stream)"

definition default_sample :: stream where
  "default_sample = lexed_sample (str ''#[default_from = '' @ [c_dquote] @ str ''a::b'' @ [c_dquote] @ str ''] struct S { f: u32 }'')"

definition getter_sample :: stream where
  "getter_sample = lexed_sample (str ''struct S(pub Vec<u8>, u16);'')"

definition replace_sample :: stream where
  "replace_sample = lexed_sample (str ''#[replace(x)] struct S { f: u32 }'')"

theorem getter_hands_on_type_witness:
  "\<exists>head tail ty. field_getter ascii_only getter_sample = Inr (from_trees [name_token (str ''impl''), name_token (str ''S''),
      in_group Brace (head @ ty @ tail)]) \<and> stream_display (from_trees ty) = str ''Vec < u8 >''"
proof -
  have "case getter_scan (items getter_sample) None False None of (n, f) \<Rightarrow> n = Some (str ''S'') \<and>
      (case f of Some s \<Rightarrow> stream_display (from_trees (takeWhile (\<lambda>t. \<not> is_punct (Some t) c_comma) (drop 1 (items s)))) = str ''Vec < u8 >'' | None \<Rightarrow> False)"
    by code_simp
  then obtain s where s: "getter_scan (items getter_sample) None False None = (Some (str ''S''), Some s)"
    "stream_display (from_trees (takeWhile (\<lambda>t. \<not> is_punct (Some t) c_comma) (drop 1 (items s)))) = str ''Vec < u8 >''"
    by (auto split: prod.splits option.splits)
  have "plain_name ascii_only (str ''S'')" by code_simp
  from getter_hands_on_type [OF s(1) this] s(2) show ?thesis by blast
qed

theorem replace_spans_parameter_witness:
  "\<exists>f a b r. derive_replace ascii_only replace_sample = Inr (from_trees [name_token (str ''impl''), name_token (str ''S''),
      in_group Brace (f @ in_group Parenthesis (a @ TIdent (ident_from_name (str ''__replacement'') False 2) # b) # r
        @ [in_group Brace [name_token (str ''__replacement'')]])])"
proof -
  have s: "replace_scan (items replace_sample) None None = (Some 2, Some (str ''S''))" by code_simp
  have "plain_name ascii_only (str ''S'')" by code_simp
  from replace_spans_parameter [OF s this] show ?thesis by blast
qed

theorem default_from_spans_witness:
  "\<exists>head binding. default_from ascii_only default_sample = Inr (from_trees [name_token (str ''impl''), name_token (str ''S''),
      in_group Brace (head @ [in_group Brace (binding @ [name_token (str ''__default''), alone c_dot, name_token (str ''f'')])])])
    \<and> all_spans 2 binding"
proof -
  have s: "struct_scan (items default_sample) None None = Inr (Some (str ''S''), Some (str ''f''))" by code_simp
  have "case path_scan (items default_sample) None of None \<Rightarrow> False | Some l \<Rightarrow> lit_span l = 2 \<and>
      (case lexed_own ascii_only (trim_matches c_dquote (literal_display l)) of Inr c \<Rightarrow> True | Inl _ \<Rightarrow> False)"
    by code_simp
  then obtain l c where l: "path_scan (items default_sample) None = Some l" "lit_span l = 2"
    "lexed_own ascii_only (trim_matches c_dquote (literal_display l)) = Inr c" by (auto split: option.splits sum.splits)
  have n: "plain_name ascii_only (str ''S'')" "plain_name ascii_only (str ''f'')" "hd (str ''f'') < 128" by code_simp+
  from default_from_spans [OF s l(1,3) n] l(2) show ?thesis by (metis (no_types, lifting))
qed

end
