(* ===== verification/Attributes.thy ===== *)
theory Attributes
  imports Derives
begin

text \<open>
  The attribute macros of the repository's units (\<^verbatim>\<open>tst/unit\<close>) that read the item they are put on:
  they count or look for identifiers at any depth, take attributes out, or write the item's text
  into a constant.
\<close>

section \<open>\<^verbatim>\<open>aux/inspect_type_expansion_order.rs\<close>\<close>

function contains_name :: "stream \<Rightarrow> rstr \<Rightarrow> bool"
  and trees_contain :: "stream token_tree list \<Rightarrow> rstr \<Rightarrow> bool" where
  "contains_name input name \<longleftrightarrow> trees_contain (items input) name"
| "trees_contain [] name \<longleftrightarrow> False"
| "trees_contain (TIdent i # ts) name \<longleftrightarrow> ident_display i = name \<or> trees_contain ts name"
| "trees_contain (TGroup g # ts) name \<longleftrightarrow> contains_name (group_stream g) name \<or> trees_contain ts name"
| "trees_contain (TPunct p # ts) name \<longleftrightarrow> trees_contain ts name"
| "trees_contain (TLiteral l # ts) name \<longleftrightarrow> trees_contain ts name"
  by pat_completeness auto
termination
  by (relation "measure (case_sum (\<lambda>(s, _). size s) (\<lambda>(ts, _). trees_size ts))") (auto simp: items_smaller trees_smaller)

text \<open>The sum of a \<open>usize\<close>, far below \<open>2 ^ 64\<close> for a stream in memory.\<close>

function inferred_arrays :: "stream \<Rightarrow> nat"
  and trees_arrays :: "stream token_tree list \<Rightarrow> nat" where
  "inferred_arrays input = trees_arrays (items input)"
| "trees_arrays [] = 0"
| "trees_arrays (TGroup g # ts) =
     (let direct = (delimiter g = Bracket \<and> contains_name (group_stream g) (str ''_''))
      in (if direct then 1 else 0) + inferred_arrays (group_stream g) + trees_arrays ts)"
| "trees_arrays (TIdent i # ts) = trees_arrays ts"
| "trees_arrays (TPunct p # ts) = trees_arrays ts"
| "trees_arrays (TLiteral l # ts) = trees_arrays ts"
  by pat_completeness auto
termination
  by (relation "measure (case_sum size trees_size)") (auto simp: items_smaller trees_smaller)

fun name_after_fn :: "stream token_tree list \<Rightarrow> bool \<Rightarrow> rstr client" where
  "name_after_fn [] found = panics ''function expected''"
| "name_after_fn (TIdent i # ts) found =
     (if found then Inr (ident_display i) else name_after_fn ts (ident_display i = str ''fn''))"
| "name_after_fn (t # ts) found = name_after_fn ts found"

definition function_name :: "stream \<Rightarrow> rstr client" where
  "function_name input = name_after_fn (items input) False"

definition bool_text :: "bool \<Rightarrow> rstr" where
  "bool_text b = str (if b then ''true'' else ''false'')"

definition replace_inferred_arrays :: "unicode \<Rightarrow> stream \<Rightarrow> stream \<Rightarrow> stream client" where
  "replace_inferred_arrays u attr input =
     parse_stream u (str ''const '' @ stream_display attr @ str '': usize = '' @ decimal (inferred_arrays input) @ str '';'')"

definition inspect_types :: "unicode \<Rightarrow> stream \<Rightarrow> stream client" where
  "inspect_types u input =
     parse_stream u (str ''const OBSERVED_SELF: bool = '' @ bool_text (contains_name input (str ''Self''))
       @ str ''; const OBSERVED_PATTERN: bool = '' @ bool_text (contains_name input (str ''pattern_type'')) @ str '';'')"

definition erase_nested_block :: "unicode \<Rightarrow> stream \<Rightarrow> stream \<Rightarrow> stream client" where
  "erase_nested_block u attr input =
     and_then (function_name input) (\<lambda>name. parse_stream u (str ''fn '' @ name @ str ''() -> bool { true }''))"

definition observe_nested_pattern :: "unicode \<Rightarrow> stream \<Rightarrow> stream \<Rightarrow> stream client" where
  "observe_nested_pattern u attr input =
     and_then (function_name input) (\<lambda>name.
     parse_stream u (str ''fn '' @ name @ str ''() -> bool { '' @ bool_text (contains_name input (str ''pattern_type'')) @ str '' }''))"

section \<open>\<^verbatim>\<open>aux/expression_attribute_controls.rs\<close>\<close>

definition identity :: "stream \<Rightarrow> stream \<Rightarrow> stream client" where
  "identity attr input = Inr input"

definition twice :: "unicode \<Rightarrow> stream \<Rightarrow> stream \<Rightarrow> stream client" where
  "twice u attr input = parse_stream u (str ''('' @ stream_display input @ str '') * 2u32'')"

definition increment :: "unicode \<Rightarrow> stream \<Rightarrow> stream \<Rightarrow> stream client" where
  "increment u attr input = parse_stream u (str ''('' @ stream_display input @ str '') + 1u32'')"

definition generate :: "unicode \<Rightarrow> stream \<Rightarrow> stream \<Rightarrow> stream client" where
  "generate u attr input = parse_stream u (str ''#[expression_attribute_controls::twice] 23u32'')"

definition local_selected :: "unicode \<Rightarrow> stream \<Rightarrow> stream \<Rightarrow> stream client" where
  "local_selected u attr input = parse_stream u (str ''selected!()'')"

definition erase :: "unicode \<Rightarrow> stream \<Rightarrow> stream \<Rightarrow> stream client" where
  "erase u attr input = parse_stream u (str ''17u32'')"

definition empty_attr :: "stream \<Rightarrow> stream \<Rightarrow> stream client" where
  "empty_attr attr input = Inr empty_stream"

definition trailing :: "unicode \<Rightarrow> stream \<Rightarrow> stream \<Rightarrow> stream client" where
  "trailing u attr input = parse_stream u (str ''1u32 2u32'')"

definition broken :: "stream \<Rightarrow> stream \<Rightarrow> stream client" where
  "broken attr input = panics ''expression attribute control panic''"

section \<open>\<^verbatim>\<open>aux/doc_token_observer.rs\<close>\<close>

function docs :: "stream \<Rightarrow> rstr list"
  and docs_in :: "stream token_tree list \<Rightarrow> rstr list" where
  "docs input = docs_in (items input)"
| "docs_in [] = []"
| "docs_in (TGroup g # ts) =
     (case items (group_stream g) of
        TIdent name # TPunct equal # TLiteral value # _ \<Rightarrow>
          if ident_display name = str ''doc'' \<and> punct_as_char equal = c_equal then [literal_display value] else []
      | _ \<Rightarrow> []) @ docs (group_stream g) @ docs_in ts"
| "docs_in (TIdent i # ts) = docs_in ts"
| "docs_in (TPunct p # ts) = docs_in ts"
| "docs_in (TLiteral l # ts) = docs_in ts"
  by pat_completeness auto
termination
  by (relation "measure (case_sum size trees_size)") (auto simp: items_smaller trees_smaller)

definition observed_docs :: "stream \<Rightarrow> stream \<Rightarrow> stream client" where
  "observed_docs attr item =
     (let found = docs item in
      and_then (map_client (\<lambda>marker. if list_ex (\<lambda>v. contains v (str marker)) found then Inr () else panics ''missing'')
        [''outer orchard'', ''inner lantern'', ''field river'', ''method mountain'']) (\<lambda>_. Inr item))"

definition discard_documented :: "unicode \<Rightarrow> stream \<Rightarrow> stream client" where
  "discard_documented u input = parse_stream u (str ''73u32'')"

section \<open>\<^verbatim>\<open>rust_1_92/aux/strips_test_attributes.rs\<close>\<close>

fun stripped_attribute :: "stream token_tree \<Rightarrow> bool" where
  "stripped_attribute (TGroup g) \<longleftrightarrow> delimiter g = Bracket \<and>
     (case first_of (items (group_stream g)) of
        Some (TIdent name) \<Rightarrow> ident_display name = str ''should_panic'' \<or> ident_display name = str ''ignore'' | _ \<Rightarrow> False)"
| "stripped_attribute _ \<longleftrightarrow> False"

fun strip_loop :: "stream token_tree list \<Rightarrow> stream token_tree list" where
  "strip_loop (token # peeked # ts) =
     (if is_punct (Some token) c_hash \<and> stripped_attribute peeked then strip_loop ts else token # strip_loop (peeked # ts))"
| "strip_loop ts = ts"

definition strips_test_attributes :: "stream \<Rightarrow> stream \<Rightarrow> stream client" where
  "strips_test_attributes attr item = Inr (from_trees (strip_loop (items item)))"

section \<open>\<^verbatim>\<open>rust_1_92/aux/item_passthrough_attribute.rs\<close>\<close>

definition passthrough_attribute :: "stream \<Rightarrow> stream \<Rightarrow> stream client" where
  "passthrough_attribute attribute item = Inr item"

fun windows_check :: "stream token_tree list \<Rightarrow> unit client" where
  "windows_check (a # b # c # ts) =
     and_then (if is_ident (Some a) (str ''type'')
       then (if is_punct (Some c) c_semi then Inr () else panics ''a foreign type is spelled'') else Inr ()) (\<lambda>_.
     windows_check (b # c # ts))"
| "windows_check _ = Inr ()"

definition foreign_types_end_at_their_name :: "stream \<Rightarrow> stream \<Rightarrow> stream client" where
  "foreign_types_end_at_their_name attribute item =
     and_then (map_client (\<lambda>token. case token of TGroup block \<Rightarrow> windows_check (items (group_stream block)) | _ \<Rightarrow> Inr ()) (items item))
       (\<lambda>_. Inr item)"

abbreviation c_at :: rchar where "c_at \<equiv> 64"

function subpattern_walk :: "stream \<Rightarrow> unit client"
  and subpattern_trees :: "stream token_tree list \<Rightarrow> unit client" where
  "subpattern_walk stream = subpattern_trees (items stream)"
| "subpattern_trees [] = Inr ()"
| "subpattern_trees (TPunct p # ts) =
     and_then (if punct_as_char p \<noteq> c_at then Inr () else panics ''a binding has a subpattern'') (\<lambda>_. subpattern_trees ts)"
| "subpattern_trees (TGroup g # ts) = and_then (subpattern_walk (group_stream g)) (\<lambda>_. subpattern_trees ts)"
| "subpattern_trees (TIdent i # ts) = subpattern_trees ts"
| "subpattern_trees (TLiteral l # ts) = subpattern_trees ts"
  by pat_completeness auto
termination
  by (relation "measure (case_sum size trees_size)") (auto simp: items_smaller trees_smaller)

definition no_subpatterns :: "stream \<Rightarrow> stream \<Rightarrow> stream client" where
  "no_subpatterns attribute item = and_then (subpattern_walk item) (\<lambda>_. Inr item)"

section \<open>\<^verbatim>\<open>rust_1_92/aux/item_text.rs\<close> and \<^verbatim>\<open>aux/item_head_text.rs\<close>\<close>

definition item_text :: "unicode \<Rightarrow> stream \<Rightarrow> stream \<Rightarrow> stream client" where
  "item_text u attribute item = parse_stream u (str ''const ITEM: &str = '' @ str_debug u (stream_display item) @ str '';'')"

definition input_text :: "unicode \<Rightarrow> stream \<Rightarrow> stream client" where
  "input_text u item = parse_stream u (str ''const DERIVE_INPUT: &str = '' @ str_debug u (stream_display item) @ str '';'')"

definition with_input_text :: "unicode \<Rightarrow> stream \<Rightarrow> stream \<Rightarrow> stream client" where
  "with_input_text u attribute item =
     and_then (parse_stream u (str ''#[derive(item_text::InputText)]'')) (\<lambda>out. Inr (extend_items out (items item)))"

definition item_head :: "unicode \<Rightarrow> stream \<Rightarrow> stream \<Rightarrow> stream client" where
  "item_head u attribute item =
     parse_stream u (str ''pub const ITEM_HEAD: &str = '' @ str_debug u (join [c_space] (map tree_display (take 3 (items item)))) @ str '';'')"

section \<open>Short macros\<close>

text \<open>\<^verbatim>\<open>aux/dollar_crate_probe.rs\<close>\<close>

definition first_token :: "unicode \<Rightarrow> stream \<Rightarrow> stream client" where
  "first_token u input =
     (let v = (case first_of (items input) of
          Some (TIdent i) \<Rightarrow> str ''ident:'' @ ident_display i
        | Some (TPunct p) \<Rightarrow> str ''punct:'' @ [punct_as_char p]
        | Some (TGroup _) \<Rightarrow> str ''group''
        | Some (TLiteral l) \<Rightarrow> str ''literal:'' @ literal_display l
        | None \<Rightarrow> str ''none'')
      in parse_stream u (str_debug u v))"

definition echo_probe :: "stream \<Rightarrow> stream client" where
  "echo_probe input = Inr input"

text \<open>\<^verbatim>\<open>aux/inspect_trait_qualifiers.rs\<close>\<close>

fun qualifier_mask :: "stream token_tree list \<Rightarrow> u8 \<Rightarrow> u8" where
  "qualifier_mask [] bits = bits"
| "qualifier_mask (TIdent name # ts) bits = qualifier_mask ts
     (if ident_display name = str ''unsafe'' then or bits 1 else if ident_display name = str ''auto'' then or bits 2 else bits)"
| "qualifier_mask (t # ts) bits = qualifier_mask ts bits"

definition qualifiers :: "unicode \<Rightarrow> stream \<Rightarrow> stream \<Rightarrow> stream client" where
  "qualifiers u attr input =
     parse_stream u (str ''const QUALIFIERS: u8 = '' @ decimal (unat (qualifier_mask (items input) 0)) @ str '';'')"

text \<open>\<^verbatim>\<open>aux/late_module_attributes.rs\<close>\<close>

definition pass :: "stream \<Rightarrow> stream \<Rightarrow> stream client" where
  "pass attr item = Inr item"

definition require_source :: "stream \<Rightarrow> stream \<Rightarrow> stream client" where
  "require_source attr item =
     (let shown = stream_display item in
      and_then (if contains shown (str ''derive'') then Inr () else panics ''derive tokens disappeared'') (\<lambda>_.
      and_then (if \<not> contains shown (str ''impl'') then Inr () else panics ''generated impl leaked into macro input'') (\<lambda>_. Inr item)))"

text \<open>\<^verbatim>\<open>proc_macro_attribute/tracing-attributes\<close> and \<^verbatim>\<open>rust_1_92/aux/item_replacer.rs\<close>\<close>

definition instrument :: "unicode \<Rightarrow> stream \<Rightarrow> stream \<Rightarrow> stream client" where
  "instrument u attribute item = parse_stream u
     (str ''fn instrument_was_invoked() -> u32 { 42 }'' @ [c_newline]
      @ str ''fn unicode_char_from_token_stream() -> char { '' @ [c_squote, c_backslash] @ str ''u{2764}'' @ [c_squote] @ str '' }'' @ [c_newline]
      @ str ''fn raw_integer_from_token_stream() -> u32 { 0_4 }'' @ [c_newline]
      @ str ''fn joint_punctuation_from_token_stream() -> u32 {'' @ [c_newline]
      @ str ''let pair = (0,|value: u32| value);'' @ [c_newline]
      @ str ''(pair.1)(4)'' @ [c_newline] @ str ''}'')"

definition instrument_identity :: "stream \<Rightarrow> stream \<Rightarrow> stream client" where
  "instrument_identity attribute item = Inr item"

definition make_seven :: "unicode \<Rightarrow> stream \<Rightarrow> stream \<Rightarrow> stream client" where
  "make_seven u attribute item = parse_stream u (str ''fn seven() -> u32 { 7 }'')"

section \<open>Counting at every depth\<close>

text \<open>All trees of a stream, however deep, outermost first.\<close>

function nodes_in :: "stream \<Rightarrow> stream token_tree list"
  and nodes_of :: "stream token_tree list \<Rightarrow> stream token_tree list" where
  "nodes_in s = nodes_of (trees s)"
| "nodes_of [] = []"
| "nodes_of (TGroup g # ts) = TGroup g # nodes_in (group_stream g) @ nodes_of ts"
| "nodes_of (TIdent i # ts) = TIdent i # nodes_of ts"
| "nodes_of (TPunct p # ts) = TPunct p # nodes_of ts"
| "nodes_of (TLiteral l # ts) = TLiteral l # nodes_of ts"
  by pat_completeness auto
termination
  by (relation "measure (case_sum size trees_size)") (auto simp: trees_smaller)

text \<open>A count that a macro takes by recursion over groups, of the trees it looks for.\<close>

locale counting =
  fixes count :: "stream \<Rightarrow> nat" and counts :: "stream token_tree list \<Rightarrow> nat" and sought :: "stream token_tree \<Rightarrow> bool"
  assumes count_items: "count s = counts (items s)"
    and counts_Nil: "counts [] = 0"
    and counts_Cons: "counts (t # ts) = (if sought t then 1 else 0) + (case t of TGroup g \<Rightarrow> count (group_stream g) | _ \<Rightarrow> 0) + counts ts"
    and sought_handed: "sought (handed t) = sought t"
begin

lemma counts_handed: "counts (map handed ts) = counts ts"
proof (induction ts)
  case (Cons t ts)
  then show ?case using sought_handed [of t] by (cases t) (simp_all add: counts_Cons)
qed simp

lemma counts_nodes:
  "count s = length (filter sought (nodes_in s))"
  "counts ts = length (filter sought (nodes_of ts))"
proof (induction s and ts rule: nodes_in_nodes_of.induct)
  case (1 s)
  then show ?case by (simp add: count_items items_def counts_handed)
qed (simp_all add: counts_Nil counts_Cons del: nodes_in.simps)

end

fun inferred_array :: "stream token_tree \<Rightarrow> bool" where
  "inferred_array (TGroup g) \<longleftrightarrow> delimiter g = Bracket \<and> str ''_'' \<in> set (idents_in (group_stream g))"
| "inferred_array _ \<longleftrightarrow> False"

fun byte_string :: "stream token_tree \<Rightarrow> bool" where
  "byte_string (TLiteral l) \<longleftrightarrow> take 2 (literal_display l) = [c_b, c_dquote]"
| "byte_string _ \<longleftrightarrow> False"

lemma contains_idents:
  "contains_name s n \<longleftrightarrow> n \<in> set (idents_in s)"
  "trees_contain ts n \<longleftrightarrow> n \<in> set (idents_of ts)"
  by (induction s n and ts n rule: contains_name_trees_contain.induct) (auto simp: items_def)

interpretation arrays: counting inferred_arrays trees_arrays inferred_array
proof
  show "trees_arrays (t # ts) = (if inferred_array t then 1 else 0)
      + (case t of TGroup g \<Rightarrow> inferred_arrays (group_stream g) | _ \<Rightarrow> 0) + trees_arrays ts" for t ts
    by (cases t) (simp_all add: contains_idents(1) del: inferred_arrays.simps contains_name.simps idents_in.simps)
  show "inferred_array (handed t) = inferred_array t" for t by (cases t) simp_all
qed simp_all

interpretation byte_strings: counting byte_literal_count byte_literals byte_string
proof
  show "byte_literals (t # ts) = (if byte_string t then 1 else 0)
      + (case t of TGroup g \<Rightarrow> byte_literal_count (group_stream g) | _ \<Rightarrow> 0) + byte_literals ts" for t ts
    by (cases t) (simp_all del: byte_literal_count.simps)
  show "byte_string (handed t) = byte_string t" for t by (cases t) simp_all
qed simp_all

text \<open>
  C30. The recursive counts of the macros are counts over all trees of the item at every depth: of the
  bracketed groups with an underscore somewhere inside, and of the byte strings; and
  \<open>contains_name\<close> is membership in the identifiers at every depth.
\<close>

theorem macro_counts:
  "inferred_arrays s = length (filter inferred_array (nodes_in s))
    \<and> byte_literal_count s = length (filter byte_string (nodes_in s))
    \<and> (contains_name s n \<longleftrightarrow> n \<in> set (idents_in s))"
  by (intro conjI arrays.counts_nodes(1) byte_strings.counts_nodes(1) contains_idents(1))

section \<open>Attributes taken out\<close>

fun has_test_attribute :: "stream token_tree list \<Rightarrow> bool" where
  "has_test_attribute (a # b # ts) \<longleftrightarrow> is_punct (Some a) c_hash \<and> stripped_attribute b \<or> has_test_attribute (b # ts)"
| "has_test_attribute _ \<longleftrightarrow> False"

abbreviation hashes_apart :: "stream token_tree list \<Rightarrow> bool" where
  "hashes_apart ts \<equiv> successively (\<lambda>a b. \<not> (is_punct (Some a) c_hash \<and> is_punct (Some b) c_hash)) ts"

lemma test_not_punct: "stripped_attribute t \<Longrightarrow> \<not> is_punct (Some t) c"
  by (cases t) auto

lemma strip_keeps: "\<not> has_test_attribute ts \<Longrightarrow> strip_loop ts = ts"
  by (induction ts rule: strip_loop.induct) auto

text \<open>What follows a kept hash stays: it is no hash and no test attribute itself.\<close>

lemma strip_next: "\<not> is_punct (Some b) c_hash \<Longrightarrow> strip_loop (b # ts) = b # strip_loop ts"
  by (cases ts) auto

lemma strip_clean: "hashes_apart ts \<Longrightarrow> \<not> has_test_attribute (strip_loop ts)"
proof (induction ts rule: strip_loop.induct)
  case (1 a b ts)
  show ?case
  proof (cases "is_punct (Some a) c_hash \<and> stripped_attribute b")
    case True
    then show ?thesis using 1 by (cases ts) (auto simp: successively_Cons)
  next
    case False
    have ih: "\<not> has_test_attribute (strip_loop (b # ts))" using 1 False by (auto simp: successively_Cons)
    show ?thesis
    proof (cases "is_punct (Some a) c_hash")
      case True
      then have b: "\<not> is_punct (Some b) c_hash" "\<not> stripped_attribute b" using "1.prems" False by auto
      then show ?thesis using True ih False by (simp add: strip_next)
    next
      case nothash: False
      then show ?thesis using ih by (cases "strip_loop (b # ts)") auto
    qed
  qed
qed auto

text \<open>
  Where no two hashes follow one another, as in any item, \<open>strips_test_attributes\<close> leaves no
  \<open>#[ignore]\<close> and no \<open>#[should_panic]\<close> among the trees of the item, and an item without them as it is.
\<close>

theorem strips_all_test_attributes:
  assumes "hashes_apart (items item)"
  shows "\<exists>ts. strips_test_attributes attr item = Inr (from_trees ts) \<and> \<not> has_test_attribute ts
    \<and> (\<not> has_test_attribute (items item) \<longrightarrow> ts = items item)"
  using strip_clean [OF assms] strip_keeps by (auto simp: strips_test_attributes_def)

theorem strips_all_test_attributes_witness:
  "\<exists>ts. strips_test_attributes empty_stream (lexed_sample (str ''#[test] #[ignore] fn f() {}'')) = Inr (from_trees ts)
    \<and> \<not> has_test_attribute ts \<and> length ts = 6"
proof -
  let ?item = "lexed_sample (str ''#[test] #[ignore] fn f() {}'')"
  have h: "hashes_apart (items ?item)" "length (strip_loop (items ?item)) = 6" by code_simp+
  from strips_all_test_attributes [OF h(1), of empty_stream] h(2) show ?thesis by (auto simp: strips_test_attributes_def from_trees_def)
qed

section \<open>The text of an item\<close>

lemma lex_debug_string:
  assumes "valid_str s" "lit_string u True s = Inr l"
  shows "lex_loop u True (stream_at (str_debug u s @ r)) rv = lex_loop u True (stream_at r) (rv @ [TLiteral l])"
proof -
  let ?opt = "\<lparr>escape_single_quote = False, escape_double_quote = True, escape_nonascii = False\<rparr>"
  define body where "body = escape_bytes u (utf8 s) ?opt"
  have l: "l = \<lparr>lit_kind = LStr, lit_symbol = body, lit_suffix = None, lit_span = 2\<rparr>"
    using assms(2) by (simp add: lit_string_def literal_new_True Let_def body_def)
  have d: "str_debug u s = c_dquote # body @ [c_dquote]"
  proof -
    obtain l' where "lit_string u True s = Inr l'" "literal_display l' = str_debug u s" by (rule str_debug_literal [OF assms(1)]) (rule that)
    moreover have "literal_display l = c_dquote # body @ [c_dquote]" unfolding l by (simp add: literal_display_def stringify_parts_def)
    ultimately show ?thesis using assms(2) by simp
  qed
  have "accepted u body" unfolding body_def by (rule accepted_escape_bytes) simp
  then have "string_loop u \<lparr>cs_inner = body @ c_dquote # r, cs_cur = Some c_dquote\<rparr> [c_dquote] =
      string_loop u \<lparr>cs_inner = c_dquote # r, cs_cur = if body = [] then Some c_dquote else Some (last body)\<rparr> ([c_dquote] @ body)"
    unfolding accepted_def by blast
  also have "\<dots> = Inr (c_dquote # body @ [c_dquote], stream_at r)" by (subst string_loop.simps) simp
  finally have loop: "string_loop u (stream_at (c_dquote # body @ c_dquote # r)) [c_dquote] = Inr (c_dquote # body @ [c_dquote], stream_at r)"
    by (simp add: stream_at_def)
  have "push_literal True (c_dquote # body @ [c_dquote], it) = Inr ([TLiteral l], it)" for it
    using push_literal_back [of l it] l by (simp add: suffix_ok_def literal_display_def stringify_parts_def)
  then have "lex_one u True (stream_at (c_dquote # body @ c_dquote # r)) c_dquote = Inr ([TLiteral l], stream_at r)"
    using loop by (simp add: lex_one_def lex_prefixed_def lex_after_prefix_def)
  then show ?thesis by (subst lex_loop_at) (simp add: d)
qed

lemma const_names: "plain_name u (str ''const'')" "plain_name u (str ''ITEM'')" "plain_name u (str ''str'')"
  by (simp_all add: plain_name_def str_def is_whitespace_def is_alphabetic_def ascii_alphabetic_def ident_more_def is_alphanumeric_def)

lemma more_op_chars: "op_char u c_amp" "op_char u c_semi"
proof -
  have "list_ex (\<lambda>v. v ! 0 = as_u8 c_amp) syms" "list_ex (\<lambda>v. v ! 0 = as_u8 c_semi) syms"
    by code_simp+
  then show "op_char u c_amp" "op_char u c_semi"
    by (auto simp: op_char_def is_whitespace_def starts_word_def is_alphabetic_def ascii_alphabetic_def ascii_digit_def list_ex_iff)
qed

lemma lex_item_text:
  assumes "valid_str s" "lit_string u True s = Inr l"
  shows "stream_from_str u True (str ''const ITEM: &str = '' @ str_debug u s @ str '';'') =
    Inr (from_trees [name_token (str ''const''), name_token (str ''ITEM''), alone c_colon, alone c_amp, name_token (str ''str''),
      alone c_equal, TLiteral l, alone c_semi])"
proof (rule lex_flat)
  let ?tail = "c_space # str_debug u s @ [c_semi]"
  have t: "str ''const ITEM: &str = '' @ str_debug u s @ str '';'' = str ''const'' @ c_space # str ''ITEM'' @ c_colon
      # c_space # c_amp # str ''str'' @ c_space # c_equal # ?tail" by (simp add: str_def)
  have nm: "\<not> ident_more u c_colon" by (simp add: ident_more_def is_alphanumeric_def is_alphabetic_def is_numeric_def ascii_alphabetic_def ascii_digit_def)
  have item: "lex_loop u True (stream_at (str ''ITEM'' @ c_colon # y)) rv = lex_loop u True (stream_at (c_colon # y)) (rv @ [name_token (str ''ITEM'')])" for y rv
    by (rule lex_word_then [OF const_names(2)]) (use nm in \<open>auto simp: str_def\<close>)
  have amp: "lex_loop u True (stream_at (c_amp # str ''str'' @ y)) rv = lex_loop u True (stream_at (str ''str'' @ y)) (rv @ [alone c_amp])" for y rv
  proof (rule lex_loop_op [OF more_op_chars(1)])
    have n: "str ''str'' @ y = c_s # str ''tr'' @ y" by (simp add: str_def)
    show "\<not> pair_of c_amp (str ''str'' @ y)"
      unfolding n using pair_facts(1) [of "as_u8 c_amp" "as_u8 c_s"] by (auto simp: pair_of_Cons str_def)
    show "\<not> comment_start c_amp (str ''str'' @ y)" by (simp add: comment_start_def)
    show "next_punct (str ''str'' @ y) = None"
      unfolding n using next_punct_hd [of "c_s # str ''tr'' @ y"]
      by (cases "next_punct (c_s # str ''tr'' @ y)") (auto simp: punctuation_chars_def str_def)
  qed
  have stop: "stops (c_space # y)" "stops []" for y by (simp_all add: stops_def)
  show "lex_loop u True (stream_at (str ''const ITEM: &str = '' @ str_debug u s @ str '';'')) [] =
      Inr [name_token (str ''const''), name_token (str ''ITEM''), alone c_colon, alone c_amp, name_token (str ''str''), alone c_equal,
        TLiteral l, alone c_semi]"
    unfolding t lex_loop_name [OF const_names(1) stop(1)] lex_loop_blank item lex_loop_op_stop [OF op_chars(1) stop(1)] amp
      lex_loop_name [OF const_names(3) stop(1)] lex_loop_op_stop [OF op_chars(2) stop(1)] lex_debug_string [OF assms]
      lex_loop_op_stop [OF more_op_chars(2) stop(2)]
    by (subst lex_loop_at) simp
qed (simp add: punct_as_char_def punct_from_char_def is_open_def is_close_def)

text \<open>
  C29. \<open>item_text\<close> replaces its item by a constant whose value is the item's text, for every item: the
  expansion is the constant's declaration with one string literal, which denotes exactly the text
  that \<open>Display\<close> gives of the item.
\<close>

theorem item_text_denotes_item:
  assumes "valid_str (stream_display item)"
  shows "\<exists>l. item_text u attribute item = Inr (from_trees [name_token (str ''const''), name_token (str ''ITEM''), alone c_colon, alone c_amp,
      name_token (str ''str''), alone c_equal, TLiteral l, alone c_semi])
    \<and> lit_kind l = LStr \<and> unescape (lit_symbol l) = Some (utf8 (stream_display item))"
proof -
  obtain l where l: "lit_string u True (stream_display item) = Inr l" "unescape (lit_symbol l) = Some (utf8 (stream_display item))"
    by (rule str_debug_literal [OF assms]) (rule that)
  moreover have "lit_kind l = LStr" using l(1) by (auto simp: lit_string_def literal_new_True Let_def)
  ultimately show ?thesis
    using lex_item_text [OF assms l(1)] by (auto simp: item_text_def parse_stream_def unwrapped_def)
qed

theorem item_text_denotes_item_witness:
  "\<exists>l. item_text ascii_only empty_stream paste_sample = Inr (from_trees [name_token (str ''const''), name_token (str ''ITEM''), alone c_colon, alone c_amp,
      name_token (str ''str''), alone c_equal, TLiteral l, alone c_semi])
    \<and> unescape (lit_symbol l) = Some (utf8 (str ''fn ( [ < ab c > ] )''))"
proof -
  have d: "stream_display paste_sample = str ''fn ( [ < ab c > ] )''" by code_simp
  have "valid_str (str ''fn ( [ < ab c > ] )'')" by (simp add: str_def scalar_value_def)
  then show ?thesis using item_text_denotes_item [of paste_sample ascii_only empty_stream] unfolding d by blast
qed

end
