(* ===== verification/Legacy_Codec.thy ===== *)
theory Legacy_Codec
  imports Rust_Base
begin

text \<open>
  The legacy codec contract (\<^verbatim>\<open>tst/unit/aux/rustc_serialize.rs\<close>), the code its two derives write
  for a struct or an enum, and the buffer and test of
  \<^verbatim>\<open>tst/unit/test_derive_legacy_serialization.rs\<close>. An operation on a stream takes the stream's
  state and returns an error or a value together with the state it leaves.
\<close>

section \<open>Fallible steps\<close>

type_synonym u64 = "64 word"
type_synonym ('s, 'e, 'a) step = "'s \<Rightarrow> ('e + 'a) \<times> 's"

definition return_ok :: "'a \<Rightarrow> ('s, 'e, 'a) step" where
  "return_ok x s = (Inr x, s)"

text \<open>The operator \<open>?\<close>: an error ends the function, with the state it was met in.\<close>

definition try_then :: "('s, 'e, 'a) step \<Rightarrow> ('a \<Rightarrow> ('s, 'e, 'b) step) \<Rightarrow> ('s, 'e, 'b) step" where
  "try_then m f s = (case m s of (Inl e, s') \<Rightarrow> (Inl e, s') | (Inr x, s') \<Rightarrow> f x s')"

lemma try_then_return [simp]: "try_then (return_ok x) f = f x"
  by (rule ext) (simp add: try_then_def return_ok_def)

lemma try_then_assoc: "try_then (try_then m f) g = try_then m (\<lambda>x. try_then (f x) g)"
  by (rule ext) (simp add: try_then_def split: sum.split prod.split)

lemma try_then_done [simp]: "try_then m return_ok = m"
  by (rule ext) (simp add: try_then_def return_ok_def split: sum.split prod.split)

lemma try_then_Inr: "m s = (Inr x, s') \<Longrightarrow> try_then m f s = f x s'"
  by (simp add: try_then_def)

lemma try_then_Inl: "m s = (Inl e, s') \<Longrightarrow> try_then m f s = (Inl e, s')"
  by (simp add: try_then_def)

section \<open>The methods of \<open>Encoder\<close>\<close>

text \<open>
  A stream gives \<open>emit_u64\<close>; the other methods are provided by the trait. Names, lengths and
  positions are handed over and not used.
\<close>

definition emit_struct :: "rstr \<Rightarrow> usize \<Rightarrow> ('s, 'e, unit) step \<Rightarrow> ('s, 'e, unit) step" where
  "emit_struct name len f = f"

definition emit_struct_field :: "rstr \<Rightarrow> usize \<Rightarrow> ('s, 'e, unit) step \<Rightarrow> ('s, 'e, unit) step" where
  "emit_struct_field name i f = f"

definition emit_tuple_struct :: "rstr \<Rightarrow> usize \<Rightarrow> ('s, 'e, unit) step \<Rightarrow> ('s, 'e, unit) step" where
  "emit_tuple_struct name len f = f"

definition emit_tuple_struct_arg :: "usize \<Rightarrow> ('s, 'e, unit) step \<Rightarrow> ('s, 'e, unit) step" where
  "emit_tuple_struct_arg i f = f"

definition emit_enum :: "rstr \<Rightarrow> ('s, 'e, unit) step \<Rightarrow> ('s, 'e, unit) step" where
  "emit_enum name f = f"

definition emit_enum_variant :: "(u64 \<Rightarrow> ('s, 'e, unit) step) \<Rightarrow> rstr \<Rightarrow> usize \<Rightarrow> usize
    \<Rightarrow> ('s, 'e, unit) step \<Rightarrow> ('s, 'e, unit) step" where
  "emit_enum_variant emit name i len f = try_then (emit (ucast i)) (\<lambda>_. f)"

definition emit_enum_variant_arg :: "usize \<Rightarrow> ('s, 'e, unit) step \<Rightarrow> ('s, 'e, unit) step" where
  "emit_enum_variant_arg i f = f"

definition emit_enum_struct_variant :: "(u64 \<Rightarrow> ('s, 'e, unit) step) \<Rightarrow> rstr \<Rightarrow> usize \<Rightarrow> usize
    \<Rightarrow> ('s, 'e, unit) step \<Rightarrow> ('s, 'e, unit) step" where
  "emit_enum_struct_variant emit name i len f = try_then (emit (ucast i)) (\<lambda>_. f)"

definition emit_enum_struct_variant_field :: "rstr \<Rightarrow> usize \<Rightarrow> ('s, 'e, unit) step \<Rightarrow> ('s, 'e, unit) step" where
  "emit_enum_struct_variant_field name i f = f"

lemmas emit_defs = emit_struct_def emit_struct_field_def emit_tuple_struct_def emit_tuple_struct_arg_def
  emit_enum_def emit_enum_variant_def emit_enum_variant_arg_def emit_enum_struct_variant_def
  emit_enum_struct_variant_field_def

section \<open>The methods of \<open>Decoder\<close>\<close>

definition read_struct :: "rstr \<Rightarrow> usize \<Rightarrow> ('s, 'e, 'a) step \<Rightarrow> ('s, 'e, 'a) step" where
  "read_struct name len f = f"

definition read_struct_field :: "rstr \<Rightarrow> usize \<Rightarrow> ('s, 'e, 'a) step \<Rightarrow> ('s, 'e, 'a) step" where
  "read_struct_field name i f = f"

definition read_tuple_struct :: "rstr \<Rightarrow> usize \<Rightarrow> ('s, 'e, 'a) step \<Rightarrow> ('s, 'e, 'a) step" where
  "read_tuple_struct name len f = f"

definition read_tuple_struct_arg :: "usize \<Rightarrow> ('s, 'e, 'a) step \<Rightarrow> ('s, 'e, 'a) step" where
  "read_tuple_struct_arg i f = f"

definition read_enum :: "rstr \<Rightarrow> ('s, 'e, 'a) step \<Rightarrow> ('s, 'e, 'a) step" where
  "read_enum name f = f"

definition read_enum_variant :: "('s, 'e, u64) step \<Rightarrow> rstr list \<Rightarrow> (usize \<Rightarrow> ('s, 'e, 'a) step) \<Rightarrow> ('s, 'e, 'a) step" where
  "read_enum_variant rd names f = try_then rd (\<lambda>w. let i = ucast w in f i)"

definition read_enum_variant_arg :: "usize \<Rightarrow> ('s, 'e, 'a) step \<Rightarrow> ('s, 'e, 'a) step" where
  "read_enum_variant_arg i f = f"

definition read_enum_struct_variant_field :: "rstr \<Rightarrow> usize \<Rightarrow> ('s, 'e, 'a) step \<Rightarrow> ('s, 'e, 'a) step" where
  "read_enum_struct_variant_field name i f = f"

lemmas read_defs = read_struct_def read_struct_field_def read_tuple_struct_def read_tuple_struct_arg_def
  read_enum_def read_enum_variant_def read_enum_variant_arg_def read_enum_struct_variant_field_def

section \<open>\<open>Encodable\<close> and \<open>Decodable\<close> for the integers\<close>

definition encode_u8 :: "(u64 \<Rightarrow> ('s, 'e, unit) step) \<Rightarrow> u8 \<Rightarrow> ('s, 'e, unit) step" where
  "encode_u8 emit n = emit (ucast n)"

definition decode_u8 :: "('s, 'e, u64) step \<Rightarrow> ('s, 'e, u8) step" where
  "decode_u8 rd = try_then rd (\<lambda>w. return_ok (ucast w))"

definition encode_u16 :: "(u64 \<Rightarrow> ('s, 'e, unit) step) \<Rightarrow> u16 \<Rightarrow> ('s, 'e, unit) step" where
  "encode_u16 emit n = emit (ucast n)"

definition decode_u16 :: "('s, 'e, u64) step \<Rightarrow> ('s, 'e, u16) step" where
  "decode_u16 rd = try_then rd (\<lambda>w. return_ok (ucast w))"

section \<open>What the derives write\<close>

text \<open>
  The data of a struct or of an enum's variant, with what belongs to each field: its type, its value
  or the code the derive writes for it.
\<close>

datatype 'a payload = Unit_data | Tuple_data "'a list" | Struct_data "(rstr \<times> 'a) list"

datatype rust_type = U8_ty | U16_ty
  | Struct_ty rstr "rust_type payload"
  | Enum_ty rstr "(rstr \<times> rust_type payload) list"

text \<open>A value of an enum carries the position and the name of its variant.\<close>

datatype rust_value = U8_val u8 | U16_val u16
  | Struct_val rstr "rust_value payload"
  | Enum_val rstr nat rstr "rust_value payload"

text \<open>A block of statements \<open>method(.., idx, code)?;\<close>, one for each field, and \<open>Ok(())\<close> at the end.\<close>

fun field_block :: "(usize \<Rightarrow> 'x \<Rightarrow> ('s, 'e, unit) step) \<Rightarrow> nat \<Rightarrow> 'x list \<Rightarrow> ('s, 'e, unit) step" where
  "field_block m i [] = return_ok ()"
| "field_block m i (x # xs) = try_then (m (of_nat i) x) (\<lambda>_. field_block m (Suc i) xs)"

definition encode_struct :: "rstr \<Rightarrow> ('s, 'e, unit) step payload \<Rightarrow> ('s, 'e, unit) step" where
  "encode_struct name data = (case data of
     Unit_data \<Rightarrow> return_ok ()
   | Struct_data fs \<Rightarrow> emit_struct name (of_nat (length fs)) (field_block (\<lambda>i (fld, code). emit_struct_field fld i code) 0 fs)
   | Tuple_data cs \<Rightarrow> emit_tuple_struct name (of_nat (length cs)) (field_block emit_tuple_struct_arg 0 cs))"

definition encode_enum :: "(u64 \<Rightarrow> ('s, 'e, unit) step) \<Rightarrow> rstr \<Rightarrow> nat \<Rightarrow> rstr \<Rightarrow> ('s, 'e, unit) step payload
    \<Rightarrow> ('s, 'e, unit) step" where
  "encode_enum emit name i variant data = emit_enum name (case data of
     Unit_data \<Rightarrow> emit_enum_variant emit variant (of_nat i) 0 (return_ok ())
   | Tuple_data cs \<Rightarrow> emit_enum_variant emit variant (of_nat i) (of_nat (length cs))
       (field_block emit_enum_variant_arg 0 cs)
   | Struct_data fs \<Rightarrow> emit_enum_struct_variant emit variant (of_nat i) (of_nat (length fs))
       (field_block (\<lambda>i (fld, code). emit_enum_struct_variant_field fld i code) 0 fs))"

primrec encode :: "(u64 \<Rightarrow> ('s, 'e, unit) step) \<Rightarrow> rust_value \<Rightarrow> ('s, 'e, unit) step" where
  "encode emit (U8_val n) = encode_u8 emit n"
| "encode emit (U16_val n) = encode_u16 emit n"
| "encode emit (Struct_val name data) = encode_struct name (map_payload (encode emit) data)"
| "encode emit (Enum_val name i variant data) = encode_enum emit name i variant (map_payload (encode emit) data)"

text \<open>The fields of a constructor are read in their order; the first error ends the function.\<close>

fun field_values :: "(usize \<Rightarrow> 'x \<Rightarrow> ('s, 'e, 'a) step) \<Rightarrow> nat \<Rightarrow> 'x list \<Rightarrow> ('s, 'e, 'a list) step" where
  "field_values m i [] = return_ok []"
| "field_values m i (x # xs) =
     try_then (m (of_nat i) x) (\<lambda>v. try_then (field_values m (Suc i) xs) (\<lambda>vs. return_ok (v # vs)))"

definition named_field :: "(rstr \<Rightarrow> usize \<Rightarrow> ('s, 'e, 'a) step \<Rightarrow> ('s, 'e, 'a) step) \<Rightarrow> usize \<Rightarrow> rstr \<times> ('s, 'e, 'a) step
    \<Rightarrow> ('s, 'e, rstr \<times> 'a) step" where
  "named_field m i fld = try_then (m (fst fld) i (snd fld)) (\<lambda>v. return_ok (fst fld, v))"

definition decode_struct :: "rstr \<Rightarrow> ('s, 'e, rust_value) step payload \<Rightarrow> ('s, 'e, rust_value) step" where
  "decode_struct name data = (case data of
     Unit_data \<Rightarrow> return_ok (Struct_val name Unit_data)
   | Struct_data fs \<Rightarrow> read_struct name (of_nat (length fs))
       (try_then (field_values (named_field read_struct_field) 0 fs) (\<lambda>vs. return_ok (Struct_val name (Struct_data vs))))
   | Tuple_data cs \<Rightarrow> read_tuple_struct name (of_nat (length cs))
       (try_then (field_values read_tuple_struct_arg 0 cs) (\<lambda>vs. return_ok (Struct_val name (Tuple_data vs)))))"

definition decode_variant :: "rstr \<Rightarrow> nat \<Rightarrow> rstr \<Rightarrow> ('s, 'e, rust_value) step payload \<Rightarrow> ('s, 'e, rust_value) step" where
  "decode_variant name i variant data = (case data of
     Unit_data \<Rightarrow> return_ok (Enum_val name i variant Unit_data)
   | Tuple_data cs \<Rightarrow>
       try_then (field_values read_enum_variant_arg 0 cs) (\<lambda>vs. return_ok (Enum_val name i variant (Tuple_data vs)))
   | Struct_data fs \<Rightarrow>
       try_then (field_values (named_field read_enum_struct_variant_field) 0 fs)
         (\<lambda>vs. return_ok (Enum_val name i variant (Struct_data vs))))"

text \<open>The arms of the \<open>match\<close> on the index, the last one for every other number.\<close>

fun variant_arms :: "(rstr \<Rightarrow> 's \<Rightarrow> 'e \<times> 's) \<Rightarrow> rstr \<Rightarrow> nat \<Rightarrow> (rstr \<times> ('s, 'e, rust_value) step payload) list \<Rightarrow> usize
    \<Rightarrow> ('s, 'e, rust_value) step" where
  "variant_arms err name i [] k s = (case err (str ''enum value unknown'') s of (e, s') \<Rightarrow> (Inl e, s'))"
| "variant_arms err name i ((variant, data) # vs) k s =
     (if k = of_nat i then decode_variant name i variant data s else variant_arms err name (Suc i) vs k s)"

definition decode_enum :: "('s, 'e, u64) step \<Rightarrow> (rstr \<Rightarrow> 's \<Rightarrow> 'e \<times> 's) \<Rightarrow> rstr
    \<Rightarrow> (rstr \<times> ('s, 'e, rust_value) step payload) list \<Rightarrow> ('s, 'e, rust_value) step" where
  "decode_enum rd err name variants = read_enum name (read_enum_variant rd (map fst variants) (variant_arms err name 0 variants))"

primrec decode :: "('s, 'e, u64) step \<Rightarrow> (rstr \<Rightarrow> 's \<Rightarrow> 'e \<times> 's) \<Rightarrow> rust_type \<Rightarrow> ('s, 'e, rust_value) step" where
  "decode rd err U8_ty = try_then (decode_u8 rd) (\<lambda>n. return_ok (U8_val n))"
| "decode rd err U16_ty = try_then (decode_u16 rd) (\<lambda>n. return_ok (U16_val n))"
| "decode rd err (Struct_ty name data) = decode_struct name (map_payload (decode rd err) data)"
| "decode rd err (Enum_ty name variants) = decode_enum rd err name (map (map_prod id (map_payload (decode rd err))) variants)"

section \<open>The numbers of a value, and the values of a type\<close>

primrec payload_items :: "'a payload \<Rightarrow> 'a list" where
  "payload_items Unit_data = []"
| "payload_items (Tuple_data xs) = xs"
| "payload_items (Struct_data fs) = map snd fs"

text \<open>The format: the fields one after the other, after the position of the variant.\<close>

primrec numbers :: "rust_value \<Rightarrow> u64 list" where
  "numbers (U8_val n) = [ucast n]"
| "numbers (U16_val n) = [ucast n]"
| "numbers (Struct_val name data) = concat (payload_items (map_payload numbers data))"
| "numbers (Enum_val name i variant data) = of_nat i # concat (payload_items (map_payload numbers data))"

primrec emit_all :: "(u64 \<Rightarrow> ('s, 'e, unit) step) \<Rightarrow> u64 list \<Rightarrow> ('s, 'e, unit) step" where
  "emit_all emit [] = return_ok ()"
| "emit_all emit (w # ws) = try_then (emit w) (\<lambda>_. emit_all emit ws)"

primrec payload_fits :: "('a \<Rightarrow> bool) payload \<Rightarrow> 'a payload \<Rightarrow> bool" where
  "payload_fits Unit_data d \<longleftrightarrow> d = Unit_data"
| "payload_fits (Tuple_data ps) d \<longleftrightarrow> (case d of Tuple_data xs \<Rightarrow> list_all2 (\<lambda>p x. p x) ps xs | _ \<Rightarrow> False)"
| "payload_fits (Struct_data ps) d \<longleftrightarrow>
     (case d of Struct_data xs \<Rightarrow> list_all2 (\<lambda>p x. fst p = fst x \<and> snd p (snd x)) ps xs | _ \<Rightarrow> False)"

definition variant_fits :: "(rstr \<times> (rust_value \<Rightarrow> bool) payload) list \<Rightarrow> nat \<Rightarrow> rstr \<Rightarrow> rust_value payload \<Rightarrow> bool" where
  "variant_fits vs i variant data \<longleftrightarrow>
     i < length vs \<and> fst (vs ! i) = variant \<and> payload_fits (snd (vs ! i)) data"

primrec has_type :: "rust_type \<Rightarrow> rust_value \<Rightarrow> bool" where
  "has_type U8_ty v \<longleftrightarrow> (case v of U8_val _ \<Rightarrow> True | _ \<Rightarrow> False)"
| "has_type U16_ty v \<longleftrightarrow> (case v of U16_val _ \<Rightarrow> True | _ \<Rightarrow> False)"
| "has_type (Struct_ty name data) v \<longleftrightarrow>
     (case v of Struct_val n d \<Rightarrow> n = name \<and> payload_fits (map_payload has_type data) d | _ \<Rightarrow> False)"
| "has_type (Enum_ty name variants) v \<longleftrightarrow>
     (case v of Enum_val n i variant d \<Rightarrow>
        n = name \<and> variant_fits (map (map_prod id (map_payload has_type)) variants) i variant d
      | _ \<Rightarrow> False)"

text \<open>The compiler counts the variants of an enum with a 32-bit integer.\<close>

primrec countable_variants :: "rust_type \<Rightarrow> bool" where
  "countable_variants U8_ty \<longleftrightarrow> True"
| "countable_variants U16_ty \<longleftrightarrow> True"
| "countable_variants (Struct_ty name data) \<longleftrightarrow> list_all id (payload_items (map_payload countable_variants data))"
| "countable_variants (Enum_ty name variants) \<longleftrightarrow> length variants \<le> 2 ^ 32 \<and>
     list_all (\<lambda>v. list_all id (payload_items (snd v))) (map (map_prod id (map_payload countable_variants)) variants)"

section \<open>The derived encoder emits the numbers of the value\<close>

lemma emit_all_append: "emit_all emit (a @ b) = try_then (emit_all emit a) (\<lambda>_. emit_all emit b)"
  by (induction a) (simp_all add: try_then_assoc)

lemma field_block_emits:
  "(\<And>i x. x \<in> set xs \<Longrightarrow> m i (g x) = emit_all emit (f x)) \<Longrightarrow>
   field_block m i (map g xs) = emit_all emit (concat (map f xs))"
  by (induction xs arbitrary: i) (simp_all add: emit_all_append)

lemma payload_items_map [simp]: "payload_items (map_payload f d) = map f (payload_items d)"
  by (cases d) (auto simp: comp_def)

lemma set_payload_items: "set_payload d = set (payload_items d)"
  by (cases d) force+

lemma ucast_of_nat_usize [simp]: "(ucast (of_nat i :: usize) :: u64) = of_nat i"
  by simp

lemma fields_emit:
  assumes "\<And>v. v \<in> set_payload d \<Longrightarrow> code v = emit_all emit (f v)"
  shows "encode_struct name (map_payload code d) = emit_all emit (concat (map f (payload_items d)))"
    and "encode_enum emit name i variant (map_payload code d)
      = try_then (emit (of_nat i)) (\<lambda>_. emit_all emit (concat (map f (payload_items d))))"
  using assms
  by (cases d; force simp: encode_struct_def encode_enum_def emit_defs set_payload_items comp_def
    intro!: field_block_emits [where f = "\<lambda>x. f (snd x)"] field_block_emits [where f = f]
      arg_cong [where f = "try_then (emit (of_nat i))"])+

lemma ucast_widened: "(ucast (ucast (n :: u8) :: u64) :: u8) = n" "(ucast (ucast (m :: u16) :: u64) :: u16) = m"
  by (rule bit_word_eqI, simp only: bit_ucast_iff, auto dest: bit_imp_le_length)+

lemma variant_arms_Cons:
  "variant_arms err name n (c # vs) w =
     (if w = of_nat n then decode_variant name n (fst c) (snd c) else variant_arms err name (Suc n) vs w)"
  by (rule ext, cases c) simp

lemma encode_emits: "encode emit v = emit_all emit (numbers v)"
  by (induction v) (simp_all add: fields_emit [where f = numbers] encode_u8_def encode_u16_def)

section \<open>Streams that are written to\<close>

text \<open>
  What a stream owes an encoder: \<open>out\<close> is what it holds; a number is added to it, or the step fails
  and adds nothing.
\<close>

locale number_sink =
  fixes emit :: "u64 \<Rightarrow> ('s, 'e, unit) step"
    and out :: "'s \<Rightarrow> u64 list"
  assumes emit_adds: "emit w s = (Inr u, s') \<Longrightarrow> out s' = out s @ [w]"
    and emit_fails: "emit w s = (Inl e, s') \<Longrightarrow> out s' = out s"
begin

lemma emit_all_outcome:
  "emit_all emit ws s = (r, s') \<Longrightarrow>
   \<exists>sent rest. ws = sent @ rest \<and> out s' = out s @ sent \<and> (rest = [] \<longleftrightarrow> r = Inr ())"
proof (induction ws arbitrary: s)
  case Nil
  then show ?case by (simp add: return_ok_def)
next
  case (Cons w ws)
  obtain q t where t: "emit w s = (q, t)" by (cases "emit w s")
  show ?case
  proof (cases q)
    case (Inl e)
    then have "r = Inl e" "out s' = out s"
      using Cons.prems t emit_fails [of w s e t] by (simp_all add: try_then_Inl)
    then have "w # ws = [] @ (w # ws) \<and> out s' = out s @ [] \<and> (w # ws = [] \<longleftrightarrow> r = Inr ())" by simp
    then show ?thesis by blast
  next
    case (Inr u)
    with t have "out t = out s @ [w]" using emit_adds [of w s u t] by simp
    moreover have "emit_all emit ws t = (r, s')" using Cons.prems t Inr by (simp add: try_then_Inr)
    then obtain sent rest where "ws = sent @ rest" "out s' = out t @ sent" "rest = [] \<longleftrightarrow> r = Inr ()"
      using Cons.IH by blast
    ultimately have "w # ws = (w # sent) @ rest \<and> out s' = out s @ w # sent \<and> (rest = [] \<longleftrightarrow> r = Inr ())" by simp
    then show ?thesis by blast
  qed
qed

lemma encode_outcome:
  "encode emit v s = (r, s') \<Longrightarrow>
   \<exists>sent rest. numbers v = sent @ rest \<and> out s' = out s @ sent \<and> (rest = [] \<longleftrightarrow> r = Inr ())"
  using emit_all_outcome [of "numbers v"] by (simp add: encode_emits)

end

section \<open>Streams that are read from\<close>

text \<open>What a stream owes a decoder: \<open>left\<close> is what it still has, and it fails with \<open>eof\<close> when that is nothing.\<close>

text \<open>A number written again after it was read as an integer: the same, or cut to its low bits.\<close>

definition kept_low :: "u64 \<Rightarrow> u64 \<Rightarrow> bool" where
  "kept_low w n \<longleftrightarrow> n = w \<or> n = ucast (ucast w :: u8) \<or> n = ucast (ucast w :: u16)"

locale number_source =
  fixes rd :: "('s, 'e, u64) step"
    and err :: "rstr \<Rightarrow> 's \<Rightarrow> 'e \<times> 's"
    and left :: "'s \<Rightarrow> u64 list"
    and eof :: 'e
  assumes read_next: "left s = w # ws \<Longrightarrow> \<exists>s'. rd s = (Inr w, s') \<and> left s' = ws"
    and read_end: "left s = [] \<Longrightarrow> \<exists>s'. rd s = (Inl eof, s') \<and> left s' = []"
begin

text \<open>A step reads \<open>v\<close> from \<open>ws\<close> and from nothing shorter.\<close>

definition decodes :: "('s, 'e, 'a) step \<Rightarrow> u64 list \<Rightarrow> 'a \<Rightarrow> bool" where
  "decodes f ws v \<longleftrightarrow>
     (\<forall>s rest. left s = ws @ rest \<longrightarrow> (\<exists>s'. f s = (Inr v, s') \<and> left s' = rest)) \<and>
     (\<forall>s w us. left s @ w # us = ws \<longrightarrow> (\<exists>s'. f s = (Inl eof, s')))"

lemma decodesD:
  "decodes f ws v \<Longrightarrow> left s = ws @ rest \<Longrightarrow> \<exists>s'. f s = (Inr v, s') \<and> left s' = rest"
  "decodes f ws v \<Longrightarrow> left s @ w # us = ws \<Longrightarrow> \<exists>s'. f s = (Inl eof, s')"
  unfolding decodes_def by blast+

lemma decodes_read: "decodes rd [w] w"
proof -
  have "left s = []" if "left s @ w' # us = [w]" for s w' us
    using that by (cases "left s") simp_all
  then show ?thesis unfolding decodes_def using read_end by (fastforce dest: read_next)
qed

lemma decodes_return: "decodes (return_ok v) [] v"
  by (simp add: decodes_def return_ok_def)

lemma decodes_then:
  assumes f: "decodes f ws v" and g: "decodes (g v) us x"
  shows "decodes (try_then f g) (ws @ us) x"
  unfolding decodes_def
proof (intro conjI allI impI)
  fix s rest
  assume "left s = (ws @ us) @ rest"
  then obtain t where t: "f s = (Inr v, t)" "left t = us @ rest" using decodesD(1) [OF f, of s "us @ rest"] by auto
  then show "\<exists>s'. try_then f g s = (Inr x, s') \<and> left s' = rest"
    using decodesD(1) [OF g, of t rest] by (simp add: try_then_Inr)
next
  fix s w zs
  assume "left s @ w # zs = ws @ us"
  then consider qs where "left s @ qs = ws" "w # zs = qs @ us" | qs where "left s = ws @ qs" "qs @ w # zs = us"
    by (auto simp: append_eq_append_conv2)
  then show "\<exists>s'. try_then f g s = (Inl eof, s')"
  proof cases
    case 1
    show ?thesis
    proof (cases qs)
      case Nil
      with 1 obtain t where "f s = (Inr v, t)" "left t = []" using decodesD(1) [OF f, of s "[]"] by auto
      with 1 Nil show ?thesis using decodesD(2) [OF g, of t w zs] by (auto simp: try_then_Inr)
    next
      case (Cons q qs')
      with 1 obtain t where "f s = (Inl eof, t)" using decodesD(2) [OF f, of s q qs'] by auto
      then show ?thesis by (simp add: try_then_Inl)
    qed
  next
    case 2
    then obtain t where "f s = (Inr v, t)" "left t = qs" using decodesD(1) [OF f, of s qs] by auto
    with 2 show ?thesis using decodesD(2) [OF g, of t w zs] by (auto simp: try_then_Inr)
  qed
qed

lemma decodes_map: "decodes f ws v \<Longrightarrow> decodes (try_then f (\<lambda>x. return_ok (h x))) ws (h v)"
  using decodes_then [of f ws v "\<lambda>x. return_ok (h x)" "[]" "h v"] by (simp add: decodes_return)

lemma decodes_field_values:
  "list_all2 (\<lambda>c x. \<forall>i. decodes (m i c) (f x) x) cs xs \<Longrightarrow>
   decodes (field_values m i cs) (concat (map f xs)) xs"
proof (induction arbitrary: i rule: list_all2_induct)
  case (Cons c cs x xs)
  then show ?case by (auto intro!: decodes_then decodes_map)
qed (simp add: decodes_return)

lemma decodes_args:
  assumes "\<And>t v. t \<in> set ts \<Longrightarrow> P t v \<Longrightarrow> decodes (code t) (numbers v) v"
    and "\<And>i c. m i c = c" and "list_all2 P ts vs"
  shows "decodes (field_values m i (map code ts)) (concat (map numbers vs)) vs"
  using assms by (intro decodes_field_values) (auto simp: list_all2_conv_all_nth)

lemma decodes_named:
  assumes "\<And>t v. t \<in> snd ` set fs \<Longrightarrow> P t v \<Longrightarrow> decodes (code t) (numbers v) v"
    and "\<And>f i c. m f i c = c" and "list_all2 (\<lambda>p x. fst p = fst x \<and> P (snd p) (snd x)) fs vs"
  shows "decodes (field_values (named_field m) i (map (map_prod id code) fs)) (concat (map (numbers \<circ> snd) vs)) vs"
proof (rule decodes_field_values, rule list_all2_all_nthI)
  fix n
  assume n: "n < length (map (map_prod id code) fs)"
  then have "fst (fs ! n) = fst (vs ! n)" "P (snd (fs ! n)) (snd (vs ! n))"
    using list_all2_nthD [OF assms(3), of n] by simp_all
  then show "\<forall>i. decodes (named_field m i (map (map_prod id code) fs ! n)) ((numbers \<circ> snd) (vs ! n)) (vs ! n)"
    using assms(1) [of "snd (fs ! n)" "snd (vs ! n)"] n
      decodes_map [of "code (snd (fs ! n))" _ "snd (vs ! n)" "Pair (fst (vs ! n))"]
    by (simp add: named_field_def assms(2))
qed (use assms(3) in \<open>simp add: list_all2_lengthD\<close>)

text \<open>All the fields, of a struct and of a variant.\<close>

lemma decodes_payload:
  assumes "\<And>t v. t \<in> set (payload_items ts) \<Longrightarrow> P t v \<Longrightarrow> decodes (code t) (numbers v) v"
    and "payload_fits (map_payload P ts) d"
  shows "decodes (decode_struct name (map_payload code ts)) (concat (map numbers (payload_items d))) (Struct_val name d)"
    and "decodes (decode_variant name i variant (map_payload code ts)) (concat (map numbers (payload_items d)))
      (Enum_val name i variant d)"
  using assms
  by (cases ts; cases d;
    auto simp: decode_struct_def decode_variant_def read_defs decodes_return list_all2_map1 comp_def
      intro!: decodes_map decodes_args [where P = P] decodes_named [where P = P, unfolded comp_def])+

lemma decodes_arms:
  "n + length vs \<le> 2 ^ 64 \<Longrightarrow> k < length vs \<Longrightarrow>
   decodes (decode_variant name (n + k) (fst (vs ! k)) (snd (vs ! k))) ws v \<Longrightarrow>
   decodes (variant_arms err name n vs (of_nat (n + k))) ws v"
proof (induction vs arbitrary: n k)
  case (Cons c vs)
  have "(of_nat (n + k) :: usize) = of_nat n \<longleftrightarrow> k = 0"
    using Cons.prems(1,2) by (simp add: of_nat_eq_0_small)
  moreover have "decodes (variant_arms err name (Suc n) vs (of_nat (Suc n + (k - 1)))) ws v" if "0 < k"
    using Cons that by (intro Cons.IH) auto
  ultimately show ?case
    using Cons.prems by (cases c; cases k) (auto simp: decodes_def)
qed simp

lemma decodes_integer:
  "decodes (try_then (try_then rd (\<lambda>w. return_ok (f w))) (\<lambda>n. return_ok (h n))) [w] (h (f w))"
  by (rule decodes_map [OF decodes_map [OF decodes_read]])

lemma decode_numbers: "has_type t v \<Longrightarrow> countable_variants t \<Longrightarrow> decodes (decode rd err t) (numbers v) v"
proof (induction t arbitrary: v)
  case U8_ty
  then obtain n where "v = U8_val n" by (auto split: rust_value.splits)
  then show ?case
    using decodes_integer [of ucast U8_val "ucast n"] by (simp only: decode_u8_def decode.simps numbers.simps ucast_widened)
next
  case U16_ty
  then obtain n where "v = U16_val n" by (auto split: rust_value.splits)
  then show ?case
    using decodes_integer [of ucast U16_val "ucast n"] by (simp only: decode_u16_def decode.simps numbers.simps ucast_widened)
next
  case (Struct_ty name ts)
  then obtain d where v: "v = Struct_val name d" "payload_fits (map_payload has_type ts) d"
    by (auto split: rust_value.splits)
  show ?case
    using decodes_payload(1) [of ts has_type "decode rd err", OF _ v(2)] Struct_ty
    by (simp add: v(1) set_payload_items list_all_iff)
next
  case (Enum_ty name vs)
  then obtain i variant d where v: "v = Enum_val name i variant d"
    "variant_fits (map (map_prod id (map_payload has_type)) vs) i variant d"
    by (auto split: rust_value.splits)
  then have i: "i < length vs" "fst (vs ! i) = variant" "payload_fits (map_payload has_type (snd (vs ! i))) d"
    by (auto simp: variant_fits_def)
  have all: "countable_variants t" if "t \<in> set (payload_items (snd (vs ! i)))" for t
    using Enum_ty.prems(2) i(1) that by (auto simp: list_all_iff dest: nth_mem)
  have "decodes (decode_variant name i variant (map_payload (decode rd err) (snd (vs ! i))))
      (concat (map numbers (payload_items d))) v"
    unfolding v(1)
  proof (rule decodes_payload(2) [OF _ i(3)])
    fix t w assume t: "t \<in> set (payload_items (snd (vs ! i)))" "has_type t w"
    then show "decodes (decode rd err t) (numbers w) w"
      using Enum_ty.IH [of "vs ! i" "snd (vs ! i)" t w] all nth_mem [OF i(1)] by (cases "vs ! i") (auto simp: set_payload_items)
  qed
  then have "decodes (variant_arms err name 0 (map (map_prod id (map_payload (decode rd err))) vs) (of_nat i))
      (concat (map numbers (payload_items d))) v"
    using decodes_arms [of 0 "map (map_prod id (map_payload (decode rd err))) vs" i] Enum_ty.prems(2) i by simp
  then have "decodes (try_then rd (\<lambda>w. variant_arms err name 0 (map (map_prod id (map_payload (decode rd err))) vs) (ucast w)))
      ([of_nat i] @ concat (map numbers (payload_items d))) v"
    by (intro decodes_then [OF decodes_read]) simp
  then show ?case by (simp add: decode_enum_def read_defs v(1) Let_def)
qed

text \<open>
  Whatever the stream holds, a step reads a value that is related to what it took off the stream, or
  fails at the end of the stream, or fails with an error of \<open>error\<close>.
\<close>

definition accounts :: "('s, 'e, 'a) step \<Rightarrow> (u64 list \<Rightarrow> 'a \<Rightarrow> bool) \<Rightarrow> bool" where
  "accounts f R \<longleftrightarrow> (\<forall>s r s'. f s = (r, s') \<longrightarrow> (case r of
     Inr v \<Rightarrow> \<exists>ws. left s = ws @ left s' \<and> R ws v
   | Inl e \<Rightarrow> (e = eof \<and> left s' = []) \<or> (\<exists>m t. e = fst (err m t))))"

lemma accounts_Inr: "accounts f R \<Longrightarrow> f s = (Inr v, s') \<Longrightarrow> \<exists>ws. left s = ws @ left s' \<and> R ws v"
  unfolding accounts_def by force

lemma accounts_Inl:
  "accounts f R \<Longrightarrow> f s = (Inl e, s') \<Longrightarrow> (e = eof \<and> left s' = []) \<or> (\<exists>m t. e = fst (err m t))"
  unfolding accounts_def by force

lemma accounts_read:
  assumes "\<And>w. R [w] w"
  shows "accounts rd R"
  unfolding accounts_def
proof (intro allI impI)
  fix s r s'
  assume "rd s = (r, s')"
  then show "case r of Inr v \<Rightarrow> \<exists>ws. left s = ws @ left s' \<and> R ws v
    | Inl e \<Rightarrow> (e = eof \<and> left s' = []) \<or> (\<exists>m t. e = fst (err m t))"
    using read_end [of s] read_next [of s] assms by (cases "left s") auto
qed

lemma accounts_return: "R [] v \<Longrightarrow> accounts (return_ok v) R"
  by (auto simp: accounts_def return_ok_def)

lemma accounts_then:
  assumes f: "accounts f R" and g: "\<And>ws v. R ws v \<Longrightarrow> accounts (g v) (\<lambda>us x. Q (ws @ us) x)"
  shows "accounts (try_then f g) Q"
  unfolding accounts_def
proof (intro allI impI)
  fix s r s'
  assume eq: "try_then f g s = (r, s')"
  obtain q t where t: "f s = (q, t)" by (cases "f s")
  show "case r of Inr v \<Rightarrow> \<exists>ws. left s = ws @ left s' \<and> Q ws v
    | Inl e \<Rightarrow> (e = eof \<and> left s' = []) \<or> (\<exists>m t. e = fst (err m t))"
  proof (cases q)
    case (Inl e)
    then have "r = Inl e" "s' = t" using eq t by (simp_all add: try_then_Inl)
    then show ?thesis using Inl t accounts_Inl [OF f, of s e t] by simp
  next
    case (Inr v)
    then obtain ws where ws: "left s = ws @ left t" "R ws v" using t accounts_Inr [OF f] by blast
    have gv: "g v t = (r, s')" using eq t Inr by (simp add: try_then_Inr)
    show ?thesis
      using accounts_Inr [OF g [OF ws(2)]] accounts_Inl [OF g [OF ws(2)]] gv ws(1)
      by (cases r) fastforce+
  qed
qed

lemma accounts_map: "accounts f R \<Longrightarrow> (\<And>ws v. R ws v \<Longrightarrow> Q ws (h v)) \<Longrightarrow> accounts (try_then f (\<lambda>v. return_ok (h v))) Q"
  by (erule accounts_then) (simp add: accounts_return)

lemma accounts_field_values:
  assumes "\<And>i c. c \<in> set cs \<Longrightarrow> accounts (m i (g c)) (\<lambda>ws x. P c x \<and> list_all2 kept_low ws (f x))"
  shows "accounts (field_values m i (map g cs)) (\<lambda>ws xs. list_all2 P cs xs \<and> list_all2 kept_low ws (concat (map f xs)))"
  using assms
proof (induction cs arbitrary: i)
  case (Cons c cs)
  have IH: "accounts (field_values m j (map g cs)) (\<lambda>ws xs. list_all2 P cs xs \<and> list_all2 kept_low ws (concat (map f xs)))" for j
    using Cons by simp
  have "accounts (m (of_nat i) (g c)) (\<lambda>ws x. P c x \<and> list_all2 kept_low ws (f x))" using Cons.prems by simp
  then show ?case
    by (auto intro!: accounts_then accounts_map [OF IH] list_all2_appendI)
qed (simp add: accounts_return)

lemma accounts_args:
  assumes "\<And>t. t \<in> set ts \<Longrightarrow> accounts (code t) (\<lambda>ws v. P t v \<and> list_all2 kept_low ws (numbers v))" and "\<And>i c. m i c = c"
  shows "accounts (field_values m i (map code ts))
    (\<lambda>ws vs. list_all2 P ts vs \<and> list_all2 kept_low ws (concat (map numbers vs)))"
  using assms by (intro accounts_field_values) simp

lemma accounts_named:
  assumes "\<And>t. t \<in> snd ` set fs \<Longrightarrow> accounts (code t) (\<lambda>ws v. P t v \<and> list_all2 kept_low ws (numbers v))"
    and "\<And>f i c. m f i c = c"
  shows "accounts (field_values (named_field m) i (map (map_prod id code) fs))
    (\<lambda>ws vs. list_all2 (\<lambda>p x. fst p = fst x \<and> P (snd p) (snd x)) fs vs \<and>
      list_all2 kept_low ws (concat (map (\<lambda>x. numbers (snd x)) vs)))"
  using assms by (intro accounts_field_values) (auto simp: named_field_def intro!: accounts_map)

lemma accounts_payload:
  assumes "\<And>t. t \<in> set (payload_items ts) \<Longrightarrow> accounts (code t) (\<lambda>ws v. P t v \<and> list_all2 kept_low ws (numbers v))"
  shows "accounts (decode_struct name (map_payload code ts)) (\<lambda>ws v. \<exists>d. v = Struct_val name d \<and>
      payload_fits (map_payload P ts) d \<and> list_all2 kept_low ws (concat (map numbers (payload_items d))))"
    and "accounts (decode_variant name i variant (map_payload code ts)) (\<lambda>ws v. \<exists>d. v = Enum_val name i variant d \<and>
      payload_fits (map_payload P ts) d \<and> list_all2 kept_low ws (concat (map numbers (payload_items d))))"
proof -
  have args: "accounts (try_then (field_values m i (map code cs)) (\<lambda>vs. return_ok (h vs))) Q"
    if "ts = Tuple_data cs" "\<And>i c. m i c = c"
      "\<And>ws vs. list_all2 P cs vs \<Longrightarrow> list_all2 kept_low ws (concat (map numbers vs)) \<Longrightarrow> Q ws (h vs)" for m i cs h Q
    by (rule accounts_map [OF accounts_args [where P = P]]) (use that assms in simp_all)
  have named: "accounts (try_then (field_values (named_field m) i (map (map_prod id code) fs)) (\<lambda>vs. return_ok (h vs))) Q"
    if "ts = Struct_data fs" "\<And>f i c. m f i c = c"
      "\<And>ws vs. list_all2 (\<lambda>p x. fst p = fst x \<and> P (snd p) (snd x)) fs vs \<Longrightarrow>
        list_all2 kept_low ws (concat (map (\<lambda>x. numbers (snd x)) vs)) \<Longrightarrow> Q ws (h vs)" for m i fs h Q
    by (rule accounts_map [OF accounts_named [where P = P]]) (use that assms in simp_all)
  show "accounts (decode_struct name (map_payload code ts)) (\<lambda>ws v. \<exists>d. v = Struct_val name d \<and>
      payload_fits (map_payload P ts) d \<and> list_all2 kept_low ws (concat (map numbers (payload_items d))))"
    by (cases ts) (simp_all add: decode_struct_def read_defs accounts_return args named list_all2_map1 comp_def)
  show "accounts (decode_variant name i variant (map_payload code ts)) (\<lambda>ws v. \<exists>d. v = Enum_val name i variant d \<and>
      payload_fits (map_payload P ts) d \<and> list_all2 kept_low ws (concat (map numbers (payload_items d))))"
    by (cases ts) (simp_all add: decode_variant_def read_defs accounts_return args named list_all2_map1 comp_def)
qed

lemma accounts_weaken:
  assumes f: "accounts f R" and w: "\<And>ws v. R ws v \<Longrightarrow> Q ws v"
  shows "accounts f Q"
  unfolding accounts_def
proof (intro allI impI)
  fix s r s'
  assume eq: "f s = (r, s')"
  show "case r of Inr v \<Rightarrow> \<exists>ws. left s = ws @ left s' \<and> Q ws v
    | Inl e \<Rightarrow> (e = eof \<and> left s' = []) \<or> (\<exists>m t. e = fst (err m t))"
  proof (cases r)
    case (Inl e)
    then show ?thesis using accounts_Inl [OF f, of s e s'] eq by simp
  next
    case (Inr v)
    then show ?thesis using accounts_Inr [OF f, of s v s'] eq w by (auto split: sum.split)
  qed
qed

lemma accounts_no_arm: "accounts (variant_arms err name n [] w) R"
  unfolding accounts_def
proof (intro allI impI)
  fix s r s'
  assume "variant_arms err name n [] w s = (r, s')"
  then have "r = Inl (fst (err (str ''enum value unknown'') s))" by (simp add: case_prod_beta)
  then show "case r of Inr v \<Rightarrow> \<exists>ws. left s = ws @ left s' \<and> R ws v
    | Inl e \<Rightarrow> (e = eof \<and> left s' = []) \<or> (\<exists>m t. e = fst (err m t))" by auto
qed

text \<open>The value an arm reads: of the variant at the index, from the fields of that variant.\<close>

definition of_variant :: "rstr \<Rightarrow> (rstr \<times> (rust_value \<Rightarrow> bool) payload) list \<Rightarrow> nat \<Rightarrow> usize \<Rightarrow> u64 list \<Rightarrow> rust_value \<Rightarrow> bool" where
  "of_variant name vs n w ws v \<longleftrightarrow> (\<exists>k variant d. v = Enum_val name (n + k) variant d \<and> variant_fits vs k variant d \<and>
     w = of_nat (n + k) \<and> list_all2 kept_low ws (concat (map numbers (payload_items d))))"

lemma of_variant_here:
  "payload_fits (snd c) d \<Longrightarrow> list_all2 kept_low ws (concat (map numbers (payload_items d))) \<Longrightarrow>
   of_variant name (c # vs) n (of_nat n) ws (Enum_val name n (fst c) d)"
  unfolding of_variant_def by (rule exI [of _ 0]) (simp add: variant_fits_def)

lemma of_variant_later: "of_variant name vs (Suc n) w ws v \<Longrightarrow> of_variant name (c # vs) n w ws v"
  unfolding of_variant_def by (elim exE) (rule_tac x = "Suc k" in exI, auto simp: variant_fits_def)

lemma accounts_arms:
  assumes "\<And>c t. c \<in> set vs \<Longrightarrow> t \<in> set (payload_items (snd c)) \<Longrightarrow>
    accounts (code t) (\<lambda>ws v. P t v \<and> list_all2 kept_low ws (numbers v))"
  shows "accounts (variant_arms err name n (map (map_prod id (map_payload code)) vs) w)
    (of_variant name (map (map_prod id (map_payload P)) vs) n w)"
  using assms
proof (induction vs arbitrary: n)
  case (Cons c vs)
  have "accounts (decode_variant name n (fst c) (map_payload code (snd c))) (\<lambda>ws v. \<exists>d. v = Enum_val name n (fst c) d \<and>
    payload_fits (map_payload P (snd c)) d \<and> list_all2 kept_low ws (concat (map numbers (payload_items d))))"
    using Cons.prems [of c] by (intro accounts_payload) simp
  then have "accounts (decode_variant name n (fst c) (map_payload code (snd c)))
      (of_variant name (map_prod id (map_payload P) c # map (map_prod id (map_payload P)) vs) n (of_nat n))"
    by (rule accounts_weaken) (use of_variant_here [of "map_prod id (map_payload P) c"] in \<open>simp only: fst_map_prod snd_map_prod id_apply, blast\<close>)
  moreover have "accounts (variant_arms err name (Suc n) (map (map_prod id (map_payload code)) vs) w)
      (of_variant name (map (map_prod id (map_payload P)) vs) (Suc n) w)"
    by (rule Cons.IH, rule Cons.prems) auto
  then have "accounts (variant_arms err name (Suc n) (map (map_prod id (map_payload code)) vs) w)
      (of_variant name (map_prod id (map_payload P) c # map (map_prod id (map_payload P)) vs) n w)"
    by (rule accounts_weaken) (rule of_variant_later)
  moreover have "fst (map_prod id (map_payload code) c) = fst c" by simp
  ultimately show ?case
    by (cases "w = of_nat n") (simp_all only: list.map variant_arms_Cons snd_map_prod simp_thms if_True if_False)
qed (simp add: accounts_no_arm)

lemma accounts_integer:
  "accounts (try_then (try_then rd (\<lambda>w. return_ok (f w))) (\<lambda>n. return_ok (h n))) (\<lambda>ws v. \<exists>w. ws = [w] \<and> v = h (f w))"
  by (rule accounts_map [where R = "\<lambda>ws v. \<exists>w. ws = [w] \<and> v = f w"],
      rule accounts_map [where R = "\<lambda>ws w. ws = [w]"], rule accounts_read) auto

lemma decode_accounts: "accounts (decode rd err t) (\<lambda>ws v. has_type t v \<and> list_all2 kept_low ws (numbers v))"
proof (induction t)
  case U8_ty
  show ?case
    unfolding decode.simps decode_u8_def by (rule accounts_weaken [OF accounts_integer]) (auto simp: kept_low_def)
next
  case U16_ty
  show ?case
    unfolding decode.simps decode_u16_def by (rule accounts_weaken [OF accounts_integer]) (auto simp: kept_low_def)
next
  case (Struct_ty name ts)
  then have "accounts (decode_struct name (map_payload (decode rd err) ts)) (\<lambda>ws v. \<exists>d. v = Struct_val name d \<and>
      payload_fits (map_payload has_type ts) d \<and> list_all2 kept_low ws (concat (map numbers (payload_items d))))"
    by (intro accounts_payload) (simp add: set_payload_items)
  then show ?case by (auto elim!: accounts_weaken)
next
  case (Enum_ty name vs)
  then have arms: "accounts (variant_arms err name 0 (map (map_prod id (map_payload (decode rd err))) vs) w)
      (of_variant name (map (map_prod id (map_payload has_type)) vs) 0 w)" for w
    by (intro accounts_arms) (auto simp: set_payload_items snds.simps)
  have "accounts (try_then rd (\<lambda>w. variant_arms err name 0 (map (map_prod id (map_payload (decode rd err))) vs) (ucast w)))
      (\<lambda>ws v. has_type (Enum_ty name vs) v \<and> list_all2 kept_low ws (numbers v))"
    by (rule accounts_then [OF accounts_read [where R = "\<lambda>ws w. ws = [w]"]], simp)
      (auto simp: of_variant_def kept_low_def intro!: accounts_weaken [OF arms])
  then show ?case by (simp add: decode_enum_def read_defs Let_def)
qed

end

section \<open>The buffer of the test\<close>

record buffer =
  buf_values :: "u64 list"
  buf_index :: nat
  fail_at :: "nat option"

definition buffer_emit :: "u64 \<Rightarrow> (buffer, rstr, unit) step" where
  "buffer_emit value b =
     (if fail_at b = Some (length (buf_values b)) then (Inl (str ''write failed''), b)
      else (Inr (), b\<lparr>buf_values := buf_values b @ [value]\<rparr>))"

definition buffer_read :: "(buffer, rstr, u64) step" where
  "buffer_read b =
     (if buf_index b < length (buf_values b)
      then (Inr (buf_values b ! buf_index b), b\<lparr>buf_index := buf_index b + 1\<rparr>)
      else (Inl (str ''eof''), b))"

definition buffer_error :: "rstr \<Rightarrow> buffer \<Rightarrow> rstr \<times> buffer" where
  "buffer_error message b = (str ''invalid variant'', b)"

definition buffer_left :: "buffer \<Rightarrow> u64 list" where
  "buffer_left b = drop (buf_index b) (buf_values b)"

interpretation legacy: number_sink buffer_emit buf_values
  by unfold_locales (auto simp: buffer_emit_def split: if_splits)

lemma buffer_left_Cons:
  "buffer_left b = w # ws \<longleftrightarrow> buf_index b < length (buf_values b) \<and> buf_values b ! buf_index b = w \<and>
     drop (Suc (buf_index b)) (buf_values b) = ws"
  unfolding buffer_left_def
  by (cases "buf_index b < length (buf_values b)") (simp_all add: Cons_nth_drop_Suc [symmetric])

interpretation legacy: number_source buffer_read buffer_error buffer_left "str ''eof''"
  by unfold_locales (simp add: buffer_left_Cons buffer_read_def, simp add: buffer_left_def, simp add: buffer_left_def buffer_read_def)

section \<open>\<^verbatim>\<open>test_derive_legacy_serialization.rs\<close>\<close>

definition unit_ty :: rust_type where
  "unit_ty = Struct_ty (str ''Unit'') Unit_data"

definition tuple_ty :: rust_type where
  "tuple_ty = Struct_ty (str ''Tuple'') (Tuple_data [U8_ty, U16_ty])"

definition named_ty :: "rust_type \<Rightarrow> rust_type" where
  "named_ty t = Struct_ty (str ''Named'') (Struct_data [(str ''first'', U8_ty), (str ''value'', t)])"

definition choice_ty :: rust_type where
  "choice_ty = Enum_ty (str ''Choice'')
     [(str ''Unit'', Unit_data), (str ''Tuple'', Tuple_data [U8_ty, U16_ty]), (str ''Named'', Struct_data [(str ''value'', U8_ty)])]"

definition empty_ty :: rust_type where
  "empty_ty = Enum_ty (str ''Empty'') []"

definition checked :: "bool \<Rightarrow> unit result" where
  "checked b = (if b then Inr () else Inl (Panic ''assertion failed''))"

definition step_unwrap :: "(rstr + 'a) \<times> 's \<Rightarrow> ('a \<times> 's) result" where
  "step_unwrap r = (case r of (Inr x, s) \<Rightarrow> Inr (x, s) | (Inl e, s) \<Rightarrow> Inl (Panic ''called `Result::unwrap()` on an `Err` value''))"

definition fresh_buffer :: "u64 list \<Rightarrow> nat option \<Rightarrow> buffer" where
  "fresh_buffer vs limit = \<lparr>buf_values = vs, buf_index = 0, fail_at = limit\<rparr>"

text \<open>The loop over the limits; a \<open>Result<T, E>\<close> is compared with an error by its error.\<close>

fun limits_checked :: "rust_type \<Rightarrow> rust_value \<Rightarrow> u64 list \<Rightarrow> nat list \<Rightarrow> unit result" where
  "limits_checked t v expected [] = Inr ()"
| "limits_checked t v expected (limit # ls) =
     (case encode buffer_emit v (fresh_buffer [] (Some limit)) of (r, failing) \<Rightarrow>
      and_then (checked (r = Inl (str ''write failed''))) (\<lambda>_.
      and_then (checked (buf_values failing = take limit expected)) (\<lambda>_.
      and_then (checked (fst (decode buffer_read buffer_error t (fresh_buffer (take limit expected) None)) = Inl (str ''eof''))) (\<lambda>_.
      limits_checked t v expected ls))))"

definition round_trip :: "rust_type \<Rightarrow> rust_value \<Rightarrow> u64 list \<Rightarrow> unit result" where
  "round_trip t v expected =
     and_then (step_unwrap (encode buffer_emit v (fresh_buffer [] None))) (\<lambda>(_, b).
     and_then (checked (buf_values b = expected)) (\<lambda>_.
     and_then (step_unwrap (decode buffer_read buffer_error t b)) (\<lambda>(w, b).
     and_then (checked (w = v)) (\<lambda>_.
     and_then (checked (buf_index b = length expected)) (\<lambda>_.
     limits_checked t v expected [0..<length expected])))))"

definition legacy_main :: "unit result" where
  "legacy_main =
     and_then (round_trip unit_ty (Struct_val (str ''Unit'') Unit_data) []) (\<lambda>_.
     and_then (round_trip tuple_ty (Struct_val (str ''Tuple'') (Tuple_data [U8_val 7, U16_val 300])) [7, 300]) (\<lambda>_.
     and_then (round_trip (named_ty U16_ty)
       (Struct_val (str ''Named'') (Struct_data [(str ''first'', U8_val 4), (str ''value'', U16_val 500)])) [4, 500]) (\<lambda>_.
     and_then (round_trip choice_ty (Enum_val (str ''Choice'') 0 (str ''Unit'') Unit_data) [0]) (\<lambda>_.
     and_then (round_trip choice_ty (Enum_val (str ''Choice'') 1 (str ''Tuple'') (Tuple_data [U8_val 8, U16_val 900])) [1, 8, 900]) (\<lambda>_.
     and_then (round_trip choice_ty (Enum_val (str ''Choice'') 2 (str ''Named'') (Struct_data [(str ''value'', U8_val 9)])) [2, 9]) (\<lambda>_.
     case decode buffer_read buffer_error choice_ty (fresh_buffer [9] None) of (r, invalid) \<Rightarrow>
     and_then (checked (r = Inl (str ''invalid variant''))) (\<lambda>_.
     let invalid = invalid\<lparr>buf_index := 0\<rparr> in
     checked (fst (decode buffer_read buffer_error empty_ty invalid) = Inl (str ''invalid variant'')))))))))"

section \<open>What the test shows, for every type\<close>

lemma buffer_emit_all:
  "emit_all buffer_emit ws b =
     (case fail_at b of
        Some limit \<Rightarrow>
          if length (buf_values b) \<le> limit \<and> limit < length (buf_values b) + length ws
          then (Inl (str ''write failed''), b\<lparr>buf_values := buf_values b @ take (limit - length (buf_values b)) ws\<rparr>)
          else (Inr (), b\<lparr>buf_values := buf_values b @ ws\<rparr>)
      | None \<Rightarrow> (Inr (), b\<lparr>buf_values := buf_values b @ ws\<rparr>))"
proof (induction ws arbitrary: b)
  case (Cons w ws)
  show ?case
  proof (cases "fail_at b = Some (length (buf_values b))")
    case True
    then have "buffer_emit w b = (Inl (str ''write failed''), b)" by (simp add: buffer_emit_def)
    then show ?thesis using True by (simp add: try_then_Inl)
  next
    case False
    then have "buffer_emit w b = (Inr (), b\<lparr>buf_values := buf_values b @ [w]\<rparr>)" by (simp add: buffer_emit_def)
    then show ?thesis
      using False by (auto simp: try_then_Inr Cons.IH Suc_le_eq take_Cons' split: option.splits)
  qed
qed (auto simp: return_ok_def split: option.splits)

text \<open>What every read and every error keep, a derived decoder keeps.\<close>

definition keeps :: "('s \<Rightarrow> bool) \<Rightarrow> ('s, 'e, 'a) step \<Rightarrow> bool" where
  "keeps I f \<longleftrightarrow> (\<forall>s. I s \<longrightarrow> I (snd (f s)))"

lemma keeps_return: "keeps I (return_ok v)"
  by (simp add: keeps_def return_ok_def)

lemma keeps_then: "keeps I f \<Longrightarrow> (\<And>v. keeps I (g v)) \<Longrightarrow> keeps I (try_then f g)"
  unfolding keeps_def try_then_def by (force split: prod.splits sum.splits)

lemma keeps_field_values: "(\<And>i c. c \<in> set cs \<Longrightarrow> keeps I (m i c)) \<Longrightarrow> keeps I (field_values m i cs)"
  by (induction cs arbitrary: i) (simp_all add: keeps_return keeps_then)

lemma keeps_named: "keeps I (m (fst fld) i (snd fld)) \<Longrightarrow> keeps I (named_field m i fld)"
  unfolding named_field_def by (rule keeps_then) (auto intro: keeps_return)

lemma keeps_payload:
  assumes "\<And>c. c \<in> set (payload_items ts) \<Longrightarrow> keeps I c"
  shows "keeps I (decode_struct name ts)" and "keeps I (decode_variant name i variant ts)"
proof -
  have args: "keeps I (field_values m i cs)" if "ts = Tuple_data cs" "\<And>i c. m i c = c" for m i cs
    using that assms by (intro keeps_field_values) simp
  have named: "keeps I (field_values (named_field m) i fs)" if "ts = Struct_data fs" "\<And>f i c. m f i c = c" for m i fs
    using that assms by (intro keeps_field_values keeps_named) simp
  show "keeps I (decode_struct name ts)" "keeps I (decode_variant name i variant ts)"
    by (cases ts; simp add: decode_struct_def decode_variant_def read_defs keeps_return keeps_then args named)+
qed

lemma decode_keeps:
  assumes rd: "keeps I rd" and er: "\<And>m s. I s \<Longrightarrow> I (snd (er m s))"
  shows "keeps I (decode rd er t)"
proof (induction t)
  case (Struct_ty name ts)
  then show ?case by (auto simp: set_payload_items intro!: keeps_payload)
next
  case (Enum_ty name vs)
  have arms: "keeps I (variant_arms er name n cs w)"
    if "\<And>c d. c \<in> set cs \<Longrightarrow> d \<in> set (payload_items (snd c)) \<Longrightarrow> keeps I d" for n w and cs :: "(rstr \<times> _ payload) list"
    using that
  proof (induction cs arbitrary: n)
    case Nil
    show ?case using er by (simp add: keeps_def case_prod_beta)
  next
    case (Cons c cs)
    have "keeps I (variant_arms er name (Suc n) cs w)" by (rule Cons.IH, rule Cons.prems) auto
    moreover have "keeps I (decode_variant name n (fst c) (snd c))" by (rule keeps_payload, rule Cons.prems) auto
    ultimately show ?case by (simp add: variant_arms_Cons)
  qed
  have "keeps I (variant_arms er name 0 (map (map_prod id (map_payload (decode rd er))) vs) w)" for w
    by (rule arms) (use Enum_ty in \<open>force simp: set_payload_items snds.simps\<close>)
  then show ?case by (simp add: decode_enum_def read_defs Let_def keeps_then rd)
qed (simp_all add: decode_u8_def decode_u16_def rd keeps_then keeps_return)

definition buffer_ok :: "u64 list \<Rightarrow> buffer \<Rightarrow> bool" where
  "buffer_ok vs b \<longleftrightarrow> buf_values b = vs \<and> buf_index b \<le> length vs"

lemma decode_keeps_buffer: "buffer_ok vs b \<Longrightarrow> buffer_ok vs (snd (decode buffer_read buffer_error t b))"
  using decode_keeps [of "buffer_ok vs" buffer_read buffer_error t]
  by (auto simp: keeps_def buffer_ok_def buffer_read_def buffer_error_def)

lemma buffer_index: "buffer_ok vs b \<Longrightarrow> buf_index b = length vs - length (buffer_left b)"
  by (auto simp: buffer_ok_def buffer_left_def)

lemma fresh_buffer_simps [simp]:
  "buf_values (fresh_buffer vs l) = vs" "buf_index (fresh_buffer vs l) = 0" "fail_at (fresh_buffer vs l) = l"
  "buffer_left (fresh_buffer vs l) = vs" "(fresh_buffer us l)\<lparr>buf_values := vs\<rparr> = fresh_buffer vs l"
  by (simp_all add: fresh_buffer_def buffer_left_def)

lemma encode_fresh: "encode buffer_emit v (fresh_buffer [] None) = (Inr (), fresh_buffer (numbers v) None)"
  by (simp add: encode_emits buffer_emit_all)

lemma encode_limited:
  "limit < length (numbers v) \<Longrightarrow> encode buffer_emit v (fresh_buffer [] (Some limit))
     = (Inl (str ''write failed''), fresh_buffer (take limit (numbers v)) (Some limit))"
  by (simp add: encode_emits buffer_emit_all)

lemma decode_fresh:
  assumes "has_type t v" "countable_variants t"
  shows "\<exists>b. decode buffer_read buffer_error t (fresh_buffer (numbers v) l) = (Inr v, b) \<and> buf_index b = length (numbers v)"
proof -
  obtain b where b: "decode buffer_read buffer_error t (fresh_buffer (numbers v) l) = (Inr v, b)" "buffer_left b = []"
    using legacy.decodesD(1) [OF legacy.decode_numbers [OF assms], of "fresh_buffer (numbers v) l" "[]"] by auto
  moreover have "buffer_ok (numbers v) b"
    using decode_keeps_buffer [of "numbers v" "fresh_buffer (numbers v) l" t] b(1) by (simp add: buffer_ok_def)
  ultimately show ?thesis by (simp add: buffer_index)
qed

lemma decode_short:
  assumes "has_type t v" "countable_variants t" "limit < length (numbers v)"
  shows "fst (decode buffer_read buffer_error t (fresh_buffer (take limit (numbers v)) l)) = Inl (str ''eof'')"
proof -
  have "buffer_left (fresh_buffer (take limit (numbers v)) l) @ numbers v ! limit # drop (Suc limit) (numbers v) = numbers v"
    using assms(3) by (simp add: id_take_nth_drop [symmetric])
  then show ?thesis
    using legacy.decodesD(2) [OF legacy.decode_numbers [OF assms(1,2)]] by fastforce
qed

lemma limits_pass:
  "has_type t v \<Longrightarrow> countable_variants t \<Longrightarrow> list_all (\<lambda>l. l < length (numbers v)) ls \<Longrightarrow>
   limits_checked t v (numbers v) ls = Inr ()"
  by (induction ls) (simp_all add: encode_limited decode_short checked_def)

text \<open>
  C31. The round trip checks of the legacy codec pass for every value of every type that is built
  from integers with derived structs and enums, exactly when the numbers that are expected are the
  fields in their order, each variant's position before its fields; every failing write leaves a prefix
  and every shorter stream ends in \<open>eof\<close>.
\<close>

theorem round_trip_passes:
  assumes "has_type t v" and "countable_variants t"
  shows "round_trip t v expected = Inr () \<longleftrightarrow> expected = numbers v"
proof (cases "expected = numbers v")
  case True
  obtain b where "decode buffer_read buffer_error t (fresh_buffer (numbers v) None) = (Inr v, b)"
    "buf_index b = length (numbers v)"
    using decode_fresh [OF assms] by blast
  then show ?thesis
    using limits_pass [OF assms, of "[0..<length (numbers v)]"]
    by (simp add: True round_trip_def encode_fresh step_unwrap_def checked_def list_all_iff)
qed (simp add: round_trip_def encode_fresh step_unwrap_def checked_def)

lemma round_trip_passes_witness:
  "round_trip choice_ty (Enum_val (str ''Choice'') 1 (str ''Tuple'') (Tuple_data [U8_val 8, U16_val 900])) [1, 8, 900] = Inr () \<and>
   round_trip choice_ty (Enum_val (str ''Choice'') 1 (str ''Tuple'') (Tuple_data [U8_val 8, U16_val 900])) [1, 900, 8] \<noteq> Inr ()"
  using round_trip_passes [of choice_ty "Enum_val (str ''Choice'') 1 (str ''Tuple'') (Tuple_data [U8_val 8, U16_val 900])"]
  by (simp add: choice_ty_def variant_fits_def)

lemma legacy_main_passes: "legacy_main = Inr ()"
  by code_simp

text \<open>
  C33. A derived encoder writes the numbers of the value in their order behind what the buffer holds. When
  it fails, it has written a proper prefix of them, with the message of the failed write, and only
  because the buffer refuses a number at the place it then reached; nothing else of the buffer changes.
\<close>

theorem encode_leaves_prefix:
  assumes "encode buffer_emit v b = (r, b')"
  shows "\<exists>sent rest. numbers v = sent @ rest \<and> b' = b\<lparr>buf_values := buf_values b @ sent\<rparr> \<and>
    (r = Inr () \<and> rest = [] \<or> r = Inl (str ''write failed'') \<and> rest \<noteq> [] \<and> fail_at b = Some (length (buf_values b')))"
proof -
  obtain sent rest where split: "numbers v = sent @ rest" "buf_values b' = buf_values b @ sent" "rest = [] \<longleftrightarrow> r = Inr ()"
    using legacy.encode_outcome [OF assms] by blast
  have run: "emit_all buffer_emit (numbers v) b = (r, b')" using assms by (simp add: encode_emits)
  have "b' = b\<lparr>buf_values := buf_values b'\<rparr>"
    "r = Inr () \<or> r = Inl (str ''write failed'') \<and> fail_at b = Some (length (buf_values b'))"
    using run unfolding buffer_emit_all by (auto split: option.splits if_splits)
  then show ?thesis using split by (intro exI [of _ sent] exI [of _ rest]) auto
qed

lemma encode_leaves_prefix_witness:
  "encode buffer_emit (Struct_val (str ''Tuple'') (Tuple_data [U8_val 7, U16_val 300])) (fresh_buffer [] (Some 1))
     = (Inl (str ''write failed''), fresh_buffer [7] (Some 1)) \<and>
   (\<exists>sent rest. [7, 300] = sent @ rest \<and> [7] = sent)"
proof -
  let ?v = "Struct_val (str ''Tuple'') (Tuple_data [U8_val 7, U16_val 300])"
  have run: "encode buffer_emit ?v (fresh_buffer [] (Some 1)) = (Inl (str ''write failed''), fresh_buffer [7] (Some 1))"
    by (simp add: encode_emits try_then_def buffer_emit_def fresh_buffer_def del: encode.simps)
  then show ?thesis using encode_leaves_prefix [OF run] by auto
qed

text \<open>
  C32. Whatever numbers a buffer holds, a derived decoder returns a value of its type, having taken as
  many numbers off the buffer as the value has, each of them the one the value is encoded as, but for
  high bits an integer has no room for; or it fails with \<open>eof\<close>, at the end of the buffer, or with
  the error for an unknown variant. The numbers themselves are never changed.
\<close>

theorem decode_accounted:
  assumes "decode buffer_read buffer_error t (fresh_buffer vs None) = (r, b)"
  shows "buf_values b = vs \<and> (case r of
      Inr v \<Rightarrow> has_type t v \<and> buf_index b \<le> length vs \<and> list_all2 kept_low (take (buf_index b) vs) (numbers v)
    | Inl e \<Rightarrow> (e = str ''eof'' \<and> buf_index b = length vs) \<or> e = str ''invalid variant'')"
proof -
  have ok: "buffer_ok vs b"
    using decode_keeps_buffer [of vs "fresh_buffer vs None" t] assms by (simp add: buffer_ok_def)
  show ?thesis
  proof (cases r)
    case (Inl e)
    then show ?thesis
      using legacy.accounts_Inl [OF legacy.decode_accounts, of t "fresh_buffer vs None" e b] assms ok buffer_index [OF ok]
      by (auto simp: buffer_ok_def buffer_error_def)
  next
    case (Inr v)
    then obtain ws where "vs = ws @ buffer_left b" "has_type t v" "list_all2 kept_low ws (numbers v)"
      using legacy.accounts_Inr [OF legacy.decode_accounts, of t "fresh_buffer vs None" v b] assms by auto
    moreover have "ws = take (buf_index b) vs"
      using calculation(1) ok by (simp add: buffer_ok_def buffer_left_def) (metis append_same_eq append_take_drop_id)
    ultimately show ?thesis using Inr ok by (simp add: buffer_ok_def)
  qed
qed

lemma decode_accounted_witness:
  "decode buffer_read buffer_error choice_ty (fresh_buffer [2, 265, 7] None)
     = (Inr (Enum_val (str ''Choice'') 2 (str ''Named'') (Struct_data [(str ''value'', U8_val 9)])),
        \<lparr>buf_values = [2, 265, 7], buf_index = 2, fail_at = None\<rparr>) \<and>
   list_all2 kept_low [2, 265] [2, 9]"
proof -
  have run: "decode buffer_read buffer_error choice_ty (fresh_buffer [2, 265, 7] None)
     = (Inr (Enum_val (str ''Choice'') 2 (str ''Named'') (Struct_data [(str ''value'', U8_val 9)])),
        \<lparr>buf_values = [2, 265, 7], buf_index = 2, fail_at = None\<rparr>)"
    by code_simp
  show ?thesis using run decode_accounted [OF run] by simp
qed

end
