(* ===== verification/Receive_Store.thy ===== *)
theory Receive_Store
  imports Serialise Streams
begin

text \<open>
  The reader of \<^verbatim>\<open>lib/proc_macro/src/serialisation.rs\<close> where it runs: its vectors hold trees whose
  groups are handles, and every stream it finishes takes a slot of the store. Theory Serialise has
  the same loop on stream values; here the two are shown to agree, and the store to stay exact.
\<close>

unbundle bit_operations_syntax

section \<open>The reader on the store\<close>

type_synonym store_reader =
  "close \<Rightarrow> hstream token_tree list \<Rightarrow> u8 list \<Rightarrow> receiver \<Rightarrow> store \<Rightarrow> (hstream \<times> receiver \<times> store) received"

definition store_push_and_go :: "store_reader \<Rightarrow> close \<Rightarrow> hstream token_tree list \<Rightarrow> u8 list \<Rightarrow> bool
    \<Rightarrow> receiver \<Rightarrow> store \<Rightarrow> (hstream \<times> receiver \<times> store) received" where
  "store_push_and_go go end_at toks hs open_joined r st =
     (let (toks, hs) = push_joined toks hs open_joined (r_joined r)
      in go end_at toks hs (r\<lparr>r_joined := 0\<rparr>) st)"

definition store_turn :: "std_env \<Rightarrow> bool \<Rightarrow> store_reader \<Rightarrow> store_reader" where
  "store_turn env available go end_at toks hs r st =
     and_then (lifted (read_ent (r_bytes r))) (\<lambda>(t, bs). let r = r\<lparr>r_bytes := bs\<rparr> in
       case t of None \<Rightarrow> recv_panic ''Unexpected EOF'' | Some t \<Rightarrow>
         if closes end_at t then
           and_then (lifted (handle_from_received toks (resize hs (length toks)) st)) (\<lambda>(h, st). Inr (h, r, st))
         else case opens t of
           Some (d, close, frag) \<Rightarrow>
             (let open_sp = r_span r; open_joined = (r_joined r \<noteq> 0) in
              and_then (go close [] [] (r\<lparr>r_joined := 0\<rparr>) st) (\<lambda>(h, r, st).
                store_push_and_go go end_at (toks @ [TGroup (Group d h
                  \<lparr>open_span = open_sp, close_span = r_span r, entire_span = open_sp\<rparr> frag)]) hs open_joined r st))
         | None \<Rightarrow>
           (case t of
             SpanRef i \<Rightarrow> and_then (lifted (from_raw i)) (\<lambda>sp. go end_at toks hs (r\<lparr>r_span := sp\<rparr>) st)
           | Joined kind \<Rightarrow> go end_at toks hs (r\<lparr>r_joined := kind\<rparr>) st
           | SpanDef sd \<Rightarrow> and_then (lifted (define_received sd (r_table r))) (\<lambda>tbl.
               go end_at toks hs (r\<lparr>r_table := tbl\<rparr>) st)
           | EndOfStream \<Rightarrow> recv_panic ''Unexpected end-of-stream marker''
           | CloseInvisible \<Rightarrow> recv_panic ''Unexpected end of an invisible group''
           | Fragment i \<Rightarrow> recv_panic ''Unexpected fragment reference from the compiler''
           | _ \<Rightarrow>
               if t = Symbol [] then recv_panic ''Unexpected end-of-stream marker''
               else and_then (lifted (received_leaf env available (r_span r) t)) (\<lambda>ts.
                 store_push_and_go go end_at (toks @ ts) hs False r st)))"

fun store_subtree :: "std_env \<Rightarrow> bool \<Rightarrow> nat \<Rightarrow> store_reader" where
  "store_subtree env available 0 end_at toks hs r st = Inl RecvFuel"
| "store_subtree env available (Suc n) end_at toks hs r st =
     store_turn env available (store_subtree env available n) end_at toks hs r st"

definition store_recv :: "std_env \<Rightarrow> bool \<Rightarrow> u8 list \<Rightarrow> span_table \<Rightarrow> store
    \<Rightarrow> (hstream \<times> u8 list \<times> span_table \<times> store) received" where
  "store_recv env available bs tbl st =
     and_then (lifted (call_site available)) (\<lambda>sp.
     and_then (store_subtree env available (Suc (length bs)) CloseStream [] []
       \<lparr>r_bytes = bs, r_table = tbl, r_span = sp, r_joined = 0\<rparr> st) (\<lambda>(h, r, st).
     Inr (h, r_bytes r, r_table r, st)))"

section \<open>Trees of both kinds\<close>

text \<open>A token that is no group gives the same trees of both kinds, and at least one of them.\<close>

lemma literal_trees_related:
  "rel_sum (=) (list_all2 (rel_token_tree M)) (and_then m (\<lambda>l. Inr [TLiteral (f l)])) (and_then m (\<lambda>l. Inr [TLiteral (f l)]))"
  by (cases m) simp_all

lemma puncts_related: "list_all2 (rel_token_tree M) (received_puncts val sp) (received_puncts val sp)"
  by (induction val sp rule: received_puncts.induct) simp_all

lemma leaf_related:
  "rel_sum (=) (list_all2 (rel_token_tree M)) (received_leaf env av sp t) (received_leaf env av sp t)"
  by (cases t) (simp_all add: received_leaf_def spanned_def literal_trees_related puncts_related received_ident_def Let_def)

lemma unrelated_children: "list_all2 (rel_token_tree (\<lambda>_ _. False)) ts us \<Longrightarrow> child_handles ts = {#}"
proof (induction rule: list_all2_induct)
  case (Cons t ts u us)
  then have "children t = []" by (cases t; cases u) (auto simp: group.rel_sel)
  then show ?case using Cons by (simp add: child_handles_def)
qed (simp add: child_handles_def)

lemma leaf_children:
  assumes "received_leaf env av sp t = Inr ts"
  shows "child_handles ts = {#}"
proof -
  have "list_all2 (rel_token_tree (\<lambda>_ _. False)) ts ts"
    using leaf_related [where M = "\<lambda>(_ :: hstream) (_ :: hstream). False", of env av sp t] assms by simp
  then show ?thesis by (rule unrelated_children)
qed

lemma puncts_nonempty: "val \<noteq> [] \<Longrightarrow> received_puncts val sp \<noteq> []"
  by (induction val sp rule: received_puncts.induct) simp_all

lemma leaf_nonempty:
  "received_leaf env av sp t = Inr ts \<Longrightarrow> opens t = None \<Longrightarrow> t \<noteq> Symbol [] \<Longrightarrow>
   t \<notin> {EndOfStream, CloseInvisible} \<Longrightarrow> (\<forall>i. t \<noteq> SpanRef i) \<Longrightarrow> (\<forall>i. t \<noteq> Fragment i) \<Longrightarrow> (\<forall>k. t \<noteq> Joined k) \<Longrightarrow>
   (\<forall>sd. t \<noteq> SpanDef sd) \<Longrightarrow> ts \<noteq> []"
  by (cases t) (auto simp: received_leaf_def Let_def opens_def dest: puncts_nonempty)

text \<open>Joining marks the last tree of both kinds in the same way.\<close>

lemma joined_related:
  assumes "list_all2 (rel_token_tree M) toks vs" "toks \<noteq> []"
  shows "list_all2 (rel_token_tree M) (fst (push_joined toks hs oj j)) (fst (push_joined vs hs oj j))"
    and "snd (push_joined toks hs oj j) = snd (push_joined vs hs oj j)"
proof -
  define n where "n = length toks - 1"
  have "n < length toks" using assms(2) by (simp add: n_def)
  then have n: "n < length toks" "length vs = length toks" using list_all2_lengthD [OF assms(1)] by simp_all
  then have "rel_token_tree M (toks ! n) (vs ! n)" using assms(1) by (simp add: list_all2_nthD)
  then show "list_all2 (rel_token_tree M) (fst (push_joined toks hs oj j)) (fst (push_joined vs hs oj j))"
    "snd (push_joined toks hs oj j) = snd (push_joined vs hs oj j)"
    using assms(1) n unfolding push_joined_def Let_def n(2) n_def [symmetric]
    by (cases "toks ! n"; cases "vs ! n"; simp add: list_all2_update_cong)+
qed

lemma joined_children: "toks \<noteq> [] \<Longrightarrow> child_handles (fst (push_joined toks hs oj j)) = child_handles toks"
proof -
  assume "toks \<noteq> []"
  define n where "n = length toks - 1"
  have "n < length toks" using \<open>toks \<noteq> []\<close> by (simp add: n_def)
  then have "map children (toks[n := TPunct p]) = map children toks" if "toks ! n = TPunct q" for p q
    using that by (simp add: map_update list_update_same_conv)
  then show ?thesis
    unfolding push_joined_def Let_def n_def [symmetric] child_handles_def
    by (cases "toks ! n") simp_all
qed

section \<open>What reading leaves in the store\<close>

text \<open>
  The handle means the stream, the counts are exact again with it held too, and no slot that was
  live has changed.
\<close>

definition grown :: "store \<Rightarrow> store \<Rightarrow> bool" where
  "grown st st' \<longleftrightarrow> (\<forall>j sl. slot_at j st = Inr sl \<longrightarrow> slot_at j st' = Inr sl) \<and> (grounded st \<longrightarrow> grounded st')"

definition placed :: "hstream multiset \<Rightarrow> store \<Rightarrow> hstream \<Rightarrow> stream \<Rightarrow> store \<Rightarrow> bool" where
  "placed R st h s st' \<longleftrightarrow> store_inv (add_mset h R) [] st' \<and> means st' h s \<and> grown st st'"

definition reads_as :: "hstream multiset \<Rightarrow> store \<Rightarrow> (hstream \<times> receiver \<times> store) received \<Rightarrow> (stream \<times> receiver) received \<Rightarrow> bool" where
  "reads_as R st a b \<longleftrightarrow> (\<exists>p. a = Inl (RecvPanic p) \<and> exhausted p) \<or>
     (case b of Inl f \<Rightarrow> a = Inl f | Inr (s, r) \<Rightarrow> \<exists>h st'. a = Inr (h, r, st') \<and> placed R st h s st')"

lemma grown_refl [simp]: "grown st st"
  by (simp add: grown_def)

lemma grown_trans: "grown a b \<Longrightarrow> grown b c \<Longrightarrow> grown a c"
  by (simp add: grown_def)

lemma grown_means:
  assumes "grown st st'" "means st k v"
  shows "means st' k v"
  using assms(2) by (rule means_frame [where X = "{}"]) (use assms(1) in \<open>auto simp: grown_def\<close>)

lemma grown_trees: "grown st st' \<Longrightarrow> trees_mean st ts vs \<Longrightarrow> trees_mean st' ts vs"
  by (erule list.rel_mono_strong) (auto elim!: token_tree.rel_mono_strong intro: grown_means)

lemma reads_as_same: "reads_as R st (Inl f) (Inl f)"
  by (simp add: reads_as_def)

lemma placed_grown: "grown st st' \<Longrightarrow> placed R st' h s st'' \<Longrightarrow> placed R st h s st''"
  by (auto simp: placed_def intro: grown_trans)

lemma reads_as_grown: "grown st st' \<Longrightarrow> reads_as R st' a b \<Longrightarrow> reads_as R st a b"
  by (auto simp: reads_as_def split: sum.splits intro: placed_grown)

lemma from_received_placed:
  assumes inv: "store_inv (child_handles ts + R) [] st" and mean: "trees_mean st ts vs"
  shows "fine (handle_from_received ts hs st) (\<lambda>(h, st'). placed R st h (from_received vs hs) st')"
proof (cases "ts = []")
  case True
  then show ?thesis
    using assms means_none [of st] by (simp add: handle_from_received_def from_received_def placed_def)
next
  case False
  then have vs: "vs \<noteq> []" using mean by auto
  have "fine (and_then (allocate_spaced ts hs st) (\<lambda>(h, st). Inr (Some h, st))) (\<lambda>(h, st'). placed R st h (Stream vs hs) st')"
  proof (rule fine_and_then2 [OF allocate_fine [OF inv]])
    fix h st'
    assume a: "store_inv (add_mset (Some h) R) [] st' \<and> slot_at h st' = Inr \<lparr>slot_trees = ts, slot_hidden = hs, slot_handles = 1\<rparr>
      \<and> (\<exists>p. slot_at h st = Inl p) \<and> (\<forall>j. j \<noteq> h \<longrightarrow> slot_at j st' = slot_at j st)"
    then obtain p where p: "slot_at h st = Inl p" and o: "\<forall>j. j \<noteq> h \<longrightarrow> slot_at j st' = slot_at j st" by blast
    have g: "\<And>k v. means st k v \<Longrightarrow> means st' k v" by (rule grow_means [OF p o])
    have "trees_mean st' ts vs"
      using mean by (rule list.rel_mono_strong) (auto elim!: token_tree.rel_mono_strong intro: g)
    then have m: "means st' (Some h) (Stream vs hs)" using means_slot [of h st' _ vs] a by fastforce
    have "slot_at j st' = Inr sl" if "slot_at j st = Inr sl" for j sl using that p o by (cases "j = h") auto
    moreover have "grounded st'" if "grounded st"
      unfolding grounded_def
    proof (intro allI impI)
      fix j sl assume "slot_at j st' = Inr sl"
      then show "\<exists>v. means st' (Some j) v" using m g o that unfolding grounded_def by (cases "j = h") metis+
    qed
    ultimately show "fine (Inr (Some h, st')) (\<lambda>(h, st'). placed R st h (Stream vs hs) st')"
      using a m by (simp add: placed_def grown_def)
  qed
  then show ?thesis using False vs by (simp add: handle_from_received_def from_received_def)
qed

lemma closing_reads_as:
  assumes "store_inv (child_handles ts + R) [] st" "trees_mean st ts vs"
  shows "reads_as R st (and_then (lifted (handle_from_received ts hs st)) (\<lambda>(h, st). Inr (h, r, st))) (Inr (from_received vs hs, r))"
  using from_received_placed [OF assms, of hs]
  by (cases "handle_from_received ts hs st") (auto simp: reads_as_def lifted_def)

lemma lifted_reads_as:
  assumes "\<And>x. m = Inr x \<Longrightarrow> reads_as R st (f x) (g x)"
  shows "reads_as R st (and_then (lifted m) f) (and_then (lifted m) g)"
  using assms by (cases m) (simp_all add: lifted_def reads_as_same)

section \<open>The two readers agree\<close>

text \<open>What a turn asks of the loop on the store it goes on with, and of the loop on values.\<close>

definition readers_agree :: "store_reader \<Rightarrow> subtree_reader \<Rightarrow> bool" where
  "readers_agree go gv \<longleftrightarrow> (\<forall>R st toks vs e hs r. store_inv (child_handles toks + R) [] st \<longrightarrow> trees_mean st toks vs \<longrightarrow>
     reads_as R st (go e toks hs r st) (gv e vs hs r))"

lemma agreeD:
  "readers_agree go gv \<Longrightarrow> store_inv (child_handles toks + R) [] st \<Longrightarrow> trees_mean st toks vs \<Longrightarrow>
   reads_as R st (go e toks hs r st) (gv e vs hs r)"
  unfolding readers_agree_def by blast

lemma push_agree:
  assumes "readers_agree go gv" "store_inv (child_handles toks + R) [] st" "trees_mean st toks vs" "toks \<noteq> []"
  shows "reads_as R st (store_push_and_go go e toks hs oj r st) (push_and_go gv e vs hs oj r)"
proof -
  have "store_inv (child_handles (fst (push_joined toks hs oj (r_joined r))) + R) [] st"
    using assms(2) by (simp add: joined_children [OF assms(4)])
  from agreeD [OF assms(1) this joined_related(1) [OF assms(3,4)]] show ?thesis
    unfolding push_and_go_eq store_push_and_go_def
    by (simp add: joined_related(2) [OF assms(3,4)] case_prod_beta)
qed

lemma leaf_agree:
  assumes ag: "readers_agree go gv" and inv: "store_inv (child_handles toks + R) [] st" and mean: "trees_mean st toks vs"
    and some: "\<And>ts :: hstream token_tree list. received_leaf env av sp t = Inr ts \<Longrightarrow> ts \<noteq> []"
  shows "reads_as R st
    (and_then (lifted (received_leaf env av sp t)) (\<lambda>ts. store_push_and_go go e (toks @ ts) hs False r st))
    (and_then (lifted (received_leaf env av sp t)) (\<lambda>ts. push_and_go gv e (vs @ ts) hs False r))"
proof (cases "received_leaf env av sp t :: hstream token_tree list result")
  case (Inl p)
  then have "(received_leaf env av sp t :: stream token_tree list result) = Inl p"
    using leaf_related [of "means st" env av sp t] by (cases "received_leaf env av sp t :: stream token_tree list result") simp_all
  then show ?thesis using Inl by (simp add: lifted_def reads_as_same)
next
  case (Inr ts)
  then obtain us where us: "received_leaf env av sp t = Inr us" "trees_mean st ts us"
    using leaf_related [of "means st" env av sp t] by (cases "received_leaf env av sp t :: stream token_tree list result") simp_all
  have "child_handles ts = {#}" using Inr by (rule leaf_children)
  then have "store_inv (child_handles (toks @ ts) + R) [] st" using inv by simp
  moreover have "trees_mean st (toks @ ts) (vs @ us)" using mean us(2) by (rule list_all2_appendI)
  ultimately show ?thesis
    using push_agree [OF ag, of "toks @ ts"] some [OF Inr] by (simp add: Inr us(1) lifted_def)
qed

lemma group_agree:
  assumes ag: "readers_agree go gv" and inv: "store_inv (child_handles toks + R) [] st" and mean: "trees_mean st toks vs"
  shows "reads_as R st
    (and_then (go close [] [] r0 st) (\<lambda>(h, r, st).
      store_push_and_go go e (toks @ [TGroup (Group d h (f r) frag)]) hs oj r st))
    (and_then (gv close [] [] r0) (\<lambda>(s, r). push_and_go gv e (vs @ [TGroup (Group d s (f r) frag)]) hs oj r))"
proof -
  have inner: "reads_as (child_handles toks + R) st (go close [] [] r0 st) (gv close [] [] r0)"
    using agreeD [OF ag, of "[]" "child_handles toks + R" st "[]"] inv by (simp add: child_handles_def)
  consider p where "go close [] [] r0 st = Inl (RecvPanic p)" "exhausted p"
    | g where "gv close [] [] r0 = Inl g" "go close [] [] r0 st = Inl g"
    | s r h st' where "gv close [] [] r0 = Inr (s, r)" "go close [] [] r0 st = Inr (h, r, st')"
        "placed (child_handles toks + R) st h s st'"
    using inner by (cases "gv close [] [] r0") (auto simp: reads_as_def split: prod.splits)
  then show ?thesis
  proof cases
    case 1
    then show ?thesis by (auto simp: reads_as_def)
  next
    case 2
    then show ?thesis by (simp add: reads_as_same)
  next
    case 3
    then have g: "grown st st'" and i: "store_inv (add_mset h (child_handles toks + R)) [] st'" and m: "means st' h s"
      by (simp_all add: placed_def)
    have "store_inv (child_handles (toks @ [TGroup (Group d h (f r) frag)]) + R) [] st'"
      using i by (simp add: child_handles_def)
    moreover have "trees_mean st' (toks @ [TGroup (Group d h (f r) frag)]) (vs @ [TGroup (Group d s (f r) frag)])"
      using grown_trees [OF g mean] m by (intro list_all2_appendI) simp_all
    ultimately show ?thesis
      using reads_as_grown [OF g push_agree [OF ag]] by (simp add: 3)
  qed
qed

lemma turn_agrees:
  assumes ag: "readers_agree go gv"
  shows "readers_agree (store_turn env av go) (subtree_turn env av gv)"
  unfolding readers_agree_def
proof (intro allI impI)
  fix R st toks vs e hs r
  assume inv: "store_inv (child_handles toks + R) [] st" and mean: "trees_mean st toks vs"
  note go = agreeD [OF ag inv mean]
  have same: "length vs = length toks" using list_all2_lengthD [OF mean] by simp
  show "reads_as R st (store_turn env av go e toks hs r st) (subtree_turn env av gv e vs hs r)"
  proof (cases "read_ent (r_bytes r)")
    case (Inl p)
    then show ?thesis by (simp add: store_turn_def subtree_turn_def lifted_def reads_as_same)
  next
    case (Inr x)
    obtain o_t bs where x: "x = (o_t, bs)" by (cases x)
    show ?thesis
    proof (cases o_t)
      case None
      then show ?thesis by (simp add: store_turn_def subtree_turn_def lifted_def Inr x recv_panic_def reads_as_same)
    next
      case (Some t)
      note turn = store_turn_def subtree_turn_def Inr x Some
      show ?thesis
      proof (cases "closes e t")
        case True
        then show ?thesis
          using closing_reads_as [OF inv mean] by (simp add: turn lifted_def [of "Inr _"] same)
      next
        case closed: False
        show ?thesis
        proof (cases "opens t")
          case (Some opn)
          obtain d c frag where "opn = (d, c, frag)" by (cases opn)
          then show ?thesis
            using closed Some group_agree [OF ag inv mean] by (simp add: turn lifted_def [of "Inr _"] Let_def)
        next
          case None
          have leaf: "reads_as R st
              (and_then (lifted (received_leaf env av (r_span r) t)) (\<lambda>ts. store_push_and_go go e (toks @ ts) hs False (r\<lparr>r_bytes := bs\<rparr>) st))
              (and_then (lifted (received_leaf env av (r_span r) t)) (\<lambda>ts. push_and_go gv e (vs @ ts) hs False (r\<lparr>r_bytes := bs\<rparr>)))"
            if "t \<noteq> Symbol []" "t \<notin> {EndOfStream, CloseInvisible}" "\<forall>i. t \<noteq> SpanRef i" "\<forall>i. t \<noteq> Fragment i"
              "\<forall>k. t \<noteq> Joined k" "\<forall>sd. t \<noteq> SpanDef sd"
            by (rule leaf_agree [OF ag inv mean]) (rule leaf_nonempty [OF _ None that])
          show ?thesis
            using closed None leaf go
            by (cases t) (auto simp: turn lifted_def [of "Inr _"] Let_def recv_panic_def reads_as_same intro!: lifted_reads_as)
        qed
      qed
    qed
  qed
qed

lemma subtree_agrees: "readers_agree (store_subtree env av n) (get_subtree env av n)"
proof (induction n)
  case 0
  show ?case by (simp add: readers_agree_def reads_as_same)
next
  case (Suc n)
  have "store_subtree env av (Suc n) = store_turn env av (store_subtree env av n)"
    "get_subtree env av (Suc n) = subtree_turn env av (get_subtree env av n)"
    by (simp_all add: fun_eq_iff)
  then show ?case using turn_agrees [OF Suc.IH] by simp
qed

text \<open>Reading a whole stream, with nothing in the vectors yet.\<close>

lemma recv_agrees:
  assumes inv: "store_inv R [] st"
  shows "(\<exists>p. store_recv env av bs tbl st = Inl (RecvPanic p) \<and> exhausted p) \<or>
    (case recv_token_stream env av bs tbl of
       Inl f \<Rightarrow> store_recv env av bs tbl st = Inl f
     | Inr (s, bs', tbl') \<Rightarrow> \<exists>h st'. store_recv env av bs tbl st = Inr (h, bs', tbl', st') \<and> placed R st h s st')"
proof (cases "call_site av")
  case (Inr sp)
  let ?r = "\<lparr>r_bytes = bs, r_table = tbl, r_span = sp, r_joined = 0\<rparr>"
  have "reads_as R st (store_subtree env av (Suc (length bs)) CloseStream [] [] ?r st)
      (get_subtree env av (Suc (length bs)) CloseStream [] [] ?r)"
    by (rule agreeD [OF subtree_agrees]) (simp_all add: inv)
  then show ?thesis
    unfolding store_recv_def recv_token_stream_def Inr
    by (cases "get_subtree env av (Suc (length bs)) CloseStream [] [] ?r")
      (auto simp: lifted_def reads_as_def simp del: get_subtree.simps store_subtree.simps split: prod.splits)
qed (simp add: store_recv_def recv_token_stream_def lifted_def)

section \<open>The property\<close>

text \<open>
  C11. The reader on the store refines the reader on values: with the same input it fails in the same
  way or returns a handle that means the same stream, with the same input left and the same spans;
  the only other outcome is that the slots are used up. The reference counts are exact again,
  no slot that was live has changed, and dropping the handle frees what the stream took: every other
  handle keeps its meaning, and where none was held nothing is live.
\<close>

theorem store_recv_refines:
  assumes "store_inv R [] st" and "grounded st"
  shows "(\<exists>p. store_recv env av bs tbl st = Inl (RecvPanic p) \<and> exhausted p) \<or>
    (case recv_token_stream env av bs tbl of
       Inl f \<Rightarrow> store_recv env av bs tbl st = Inl f
     | Inr (s, bs', tbl') \<Rightarrow> \<exists>h st'. store_recv env av bs tbl st = Inr (h, bs', tbl', st') \<and>
         store_inv (add_mset h R) [] st' \<and> grounded st' \<and> means st' h s \<and>
         (\<forall>j sl. slot_at j st = Inr sl \<longrightarrow> slot_at j st' = Inr sl) \<and>
         (\<exists>st''. drop_stream h st' = Inr st'' \<and> store_inv R [] st'' \<and> (\<forall>k \<in># R. \<forall>u. means st k u \<longrightarrow> means st'' k u) \<and>
           (R = {#} \<longrightarrow> (\<forall>j. \<exists>p. slot_at j st'' = Inl p))))"
proof -
  have "store_inv (add_mset h R) [] st' \<and> grounded st' \<and> means st' h s \<and>
         (\<forall>j sl. slot_at j st = Inr sl \<longrightarrow> slot_at j st' = Inr sl) \<and>
      (\<exists>st''. drop_stream h st' = Inr st'' \<and> store_inv R [] st'' \<and> (\<forall>k \<in># R. \<forall>u. means st k u \<longrightarrow> means st'' k u) \<and>
        (R = {#} \<longrightarrow> (\<forall>j. \<exists>p. slot_at j st'' = Inl p)))" if "placed R st h s st'" for h s st'
  proof -
    have p: "store_inv (add_mset h R) [] st'" "means st' h s" "grown st st'" using that by (simp_all add: placed_def)
    then have g: "grounded st'" using assms(2) by (simp add: grown_def)
    then obtain st'' where d: "drop_stream h st' = Inr st''" "store_inv R [] st''" "kept R st' st''" "grounded st''"
      using drop_stream_grounded [OF p(1)] by blast
    have "R = {#} \<Longrightarrow> \<exists>p. slot_at j st'' = Inl p" for j using unheld_store_dead [of st'' j] d by simp
    moreover have "means st'' k u" if "k \<in># R" "means st k u" for k u
      using d(3) that grown_means [OF p(3)] by (simp add: kept_def)
    ultimately show ?thesis using p d g by (auto simp: grown_def)
  qed
  then show ?thesis
    using recv_agrees [OF assms(1), of env av bs tbl] by (fastforce split: sum.splits prod.splits)
qed

lemma empty_store_inv: "store_inv {#} [] empty_store" "grounded empty_store"
  by (simp_all add: store_inv_def counts_ok_def dead_ok_def refs_def held_def all_refs_def empty_store_def grounded_def slot_at_def)

definition sample_input :: "u8 list" where
  "sample_input = [1, 1, 40, 2, 1, 97, 1, 1, 41, 0, 7]"

theorem store_recv_refines_witness:
  "\<exists>h st' st''. store_recv sample_env True sample_input empty_spans empty_store = Inr (h, [7], empty_spans, st') \<and>
     means st' h (Stream [TGroup (Group Parenthesis (Stream [TIdent \<lparr>id_sym = [97], id_raw = False, id_span = 2\<rparr>] [0])
       \<lparr>open_span = 2, close_span = 2, entire_span = 2\<rparr> 0)] [0]) \<and>
     drop_stream h st' = Inr st'' \<and> (\<forall>j. \<exists>p. slot_at j st'' = Inl p)"
proof -
  have v: "recv_token_stream sample_env True sample_input empty_spans =
    Inr (Stream [TGroup (Group Parenthesis (Stream [TIdent \<lparr>id_sym = [97], id_raw = False, id_span = 2\<rparr>] [0])
      \<lparr>open_span = 2, close_span = 2, entire_span = 2\<rparr> 0)] [0], [7], empty_spans)"
    by code_simp
  have "(case store_recv sample_env True sample_input empty_spans empty_store of Inr _ \<Rightarrow> True | Inl _ \<Rightarrow> False)"
    by code_simp
  then show ?thesis
    using store_recv_refines [OF empty_store_inv, of sample_env True sample_input empty_spans]
    unfolding v by (auto split: sum.splits)
qed

end
