(* ===== verification/Send_Store.thy ===== *)
theory Send_Store
  imports Sending Receive_Store
begin

text \<open>
  The writer of \<^verbatim>\<open>lib/proc_macro/src/serialisation.rs\<close> where it runs: it takes the handle of a
  stream, moves the trees out of its slot, or clones them where the slot is shared, and drops what
  it does not hand on. It writes what theory Sending writes of the stream the handle means.
\<close>

section \<open>The writer on the store\<close>

type_synonym store_sending = "usize \<Rightarrow> store \<Rightarrow> (u8 list \<times> usize \<times> store) result"

definition on_store :: "sending \<Rightarrow> store_sending" where
  "on_store f = (\<lambda>last st. and_then (f last) (\<lambda>(bs, last). Inr (bs, last, st)))"

definition then_store :: "store_sending \<Rightarrow> store_sending \<Rightarrow> store_sending" where
  "then_store f g = (\<lambda>last st. and_then (f last st) (\<lambda>(bs, last, st).
     and_then (g last st) (\<lambda>(bs', last, st). Inr (bs @ bs', last, st))))"

definition dropping :: "hstream \<Rightarrow> store_sending" where
  "dropping h = (\<lambda>last st. and_then (drop_stream h st) (\<lambda>st. Inr ([], last, st)))"

lemma joint_run_shorter: "joint_run chars e j i ts = (chars', e', j', i', ts') \<Longrightarrow> length ts' \<le> length ts"
  by (induction chars e j i ts rule: joint_run.induct) (auto split: if_splits)

text \<open>
  \<open>inner\<close>, for streams nested at most \<open>n\<close> deep: a group that was matched by its fragment is
  dropped at the end of its arm, another one gives its stream to the nested call.
\<close>

function store_inner :: "span_table \<Rightarrow> nat \<Rightarrow> hstream \<Rightarrow> store_sending"
  and store_trees :: "span_table \<Rightarrow> nat \<Rightarrow> u8 list \<Rightarrow> nat \<Rightarrow> hstream token_tree list \<Rightarrow> store_sending" where
  "store_inner tbl 0 h = (\<lambda>last st. Inl (Panic ''stack overflow''))"
| "store_inner tbl (Suc n) h = (\<lambda>last st.
     and_then (hidden_joins h st) (\<lambda>hs.
     and_then (into_trees h st) (\<lambda>(ts, st). store_trees tbl n hs 0 ts last st)))"
| "store_trees tbl n hs i [] = on_store (emit [])"
| "store_trees tbl n hs i (TGroup g # ts) =
     (if delimiter g = NoDelimiter \<and> fragment g \<noteq> 0 then
        then_store (on_store (set_span tbl (open_span (group_spans g))))
        (then_store (on_store (emit (write_ent (Fragment (ucast (fragment g) - 1)))))
        (then_store (dropping (group_stream g))
           (store_trees tbl n hs (i + 1) ts)))
      else
        then_store (on_store (set_span tbl (open_span (group_spans g))))
        (then_store (on_store (joined_if (delimiter g \<noteq> NoDelimiter \<and> open_hidden_at hs i) 2))
        (then_store (on_store (emit (open_char (delimiter g))))
        (then_store (store_inner tbl n (group_stream g))
        (then_store (on_store (set_span tbl (close_span (group_spans g))))
        (then_store (on_store (joined_if (hidden_at hs i) 2))
        (then_store (on_store (emit (close_char (delimiter g))))
           (store_trees tbl n hs (i + 1) ts))))))))"
| "store_trees tbl n hs i (TIdent v # ts) =
     then_store (on_store (set_span tbl (id_span v)))
     (then_store (on_store (joined_if (hidden_at hs i) 2))
     (then_store (on_store (emit (write_ent (Ident ((if id_raw v then str ''r#'' else []) @ id_sym v)))))
        (store_trees tbl n hs (i + 1) ts)))"
| "store_trees tbl n hs i (TPunct p # ts) =
     then_store (on_store (set_span tbl (punct_span p)))
     (if punct_as_char p = c_squote then
        (case ts of
           TIdent v # ts' \<Rightarrow>
             then_store (on_store (joined_if (hidden_at hs (i + 1)) 2))
             (then_store (on_store (emit (write_ent (Lifetime ((if id_raw v then str ''r#'' else []) @ id_sym v)))))
                (store_trees tbl n hs (i + 2) ts'))
         | _ \<Rightarrow> (\<lambda>last st. Inl (Panic ''Punct not followed by an ident'')))
      else if punct_spacing p = Alone then
        then_store (on_store (joined_if (hidden_at hs i) 2))
        (then_store (on_store (emit (write_sym_1 (punct_as_char p))))
           (store_trees tbl n hs (i + 1) ts))
      else
        (case joint_run [punct_as_char p] i True (i + 1) ts of (chars, end_at, end_joint, i', ts') \<Rightarrow>
          then_store (on_store (if hidden_at hs end_at then joined_if True 2 else joined_if end_joint 1))
          (then_store (on_store (emit (write_sym (utf8 chars))))
             (store_trees tbl n hs i' ts'))))"
| "store_trees tbl n hs i (TLiteral v # ts) =
     then_store (on_store (set_span tbl (lit_span v)))
     (then_store (on_store (joined_if (hidden_at hs i) 2))
     (then_store (on_store (emit (write_ent (RawLiteral (literal_display v)))))
        (store_trees tbl n hs (i + 1) ts)))"
  by pat_completeness auto
termination
  by (relation "inv_image (less_than <*lex*> less_than)
      (case_sum (\<lambda>(_, n, _). (n, 0)) (\<lambda>(_, n, _, _, ts). (n, Suc (length ts))))")
    (auto simp: less_Suc_eq_le dest: joint_run_shorter [OF sym])

text \<open>\<open>send_token_stream\<close>, and the store it leaves.\<close>

definition store_send :: "span_table \<Rightarrow> nat \<Rightarrow> hstream \<Rightarrow> store \<Rightarrow> (u8 list \<times> store) result" where
  "store_send tbl n h st =
     and_then (then_store (store_inner tbl n h) (on_store (emit (write_sym []))) 1 st) (\<lambda>(bs, last, st). Inr (bs, st))"

section \<open>The two writers agree\<close>

text \<open>
  Sending takes no slot: every slot that is live afterwards was live before, with the same trees.
\<close>

definition no_new_slots :: "store \<Rightarrow> store \<Rightarrow> bool" where
  "no_new_slots st st' \<longleftrightarrow> (\<forall>j sl'. slot_at j st' = Inr sl' \<longrightarrow>
     (\<exists>sl. slot_at j st = Inr sl \<and> slot_trees sl = slot_trees sl' \<and> slot_hidden sl = slot_hidden sl'))"

lemma no_new_refl [simp]: "no_new_slots st st"
  by (simp add: no_new_slots_def)

lemma no_new_trans: "no_new_slots a b \<Longrightarrow> no_new_slots b c \<Longrightarrow> no_new_slots a c"
  unfolding no_new_slots_def by metis

lemma no_new_drop: "drop_stream h st = Inr st' \<Longrightarrow> no_new_slots st st'"
  unfolding drop_stream_def no_new_slots_def using drop_loop_shrinks by blast

lemma no_new_clone: "clone_stream h st = Inr (k, st') \<Longrightarrow> no_new_slots st st'"
proof (cases h)
  case (Some i)
  assume c: "clone_stream h st = Inr (k, st')"
  then obtain sl where sl: "slot_at i st = Inr sl" by (auto simp: clone_stream_def Some)
  then have st': "st' = set_slot i (Some (sl\<lparr>slot_handles := slot_handles sl + 1\<rparr>)) st"
    using c by (auto simp: clone_stream_def Some split: if_splits)
  show ?thesis
    unfolding no_new_slots_def
  proof (intro allI impI)
    fix j sl' assume "slot_at j st' = Inr sl'"
    then show "\<exists>sl. slot_at j st = Inr sl \<and> slot_trees sl = slot_trees sl' \<and> slot_hidden sl = slot_hidden sl'"
      using slot_at_set_slot [OF sl] sl by (cases "j = i") (auto simp: st')
  qed
qed (simp add: clone_stream_def)

lemma no_new_clones: "clone_trees ts st = Inr (us, st') \<Longrightarrow> no_new_slots st st'"
  by (induction ts st arbitrary: us st' rule: clone_trees.induct) (auto intro: no_new_trans no_new_clone)

lemma no_new_into_trees:
  assumes "into_trees h st = Inr (ts, st')"
  shows "no_new_slots st st'"
proof (cases h)
  case (Some i)
  then obtain sl where sl: "slot_at i st = Inr sl" using assms by (auto simp: into_trees_def)
  show ?thesis
  proof (cases "slot_handles sl = 1")
    case True
    let ?st = "set_slot i (Some (sl\<lparr>slot_trees := []\<rparr>)) st"
    have "slot_at i ?st = Inr (sl\<lparr>slot_trees := []\<rparr>)" by (rule slot_at_set_slot(1) [OF sl])
    then have "st' = (set_slot i None ?st)\<lparr>free := (i - 1) # free (set_slot i None ?st)\<rparr>"
      using assms True sl by (simp add: into_trees_def Some drop_stream_def)
    moreover have "set_slot i None ?st = set_slot i None st" by (simp add: set_slot_def)
    ultimately have st': "slot_at j st' = slot_at j (set_slot i None st)" for j by simp
    show ?thesis
      unfolding no_new_slots_def
    proof (intro allI impI)
      fix j sl' assume "slot_at j st' = Inr sl'"
      then show "\<exists>sl. slot_at j st = Inr sl \<and> slot_trees sl = slot_trees sl' \<and> slot_hidden sl = slot_hidden sl'"
        using slot_at_set_slot(2) [OF sl, of j None] slot_at_set_none [OF sl] st' by (cases "j = i") auto
    qed
  next
    case False
    then show ?thesis
      using assms sl by (auto simp: into_trees_def Some trees_of_def intro: no_new_trans no_new_clones no_new_drop)
  qed
qed (use assms in \<open>simp add: into_trees_def\<close>)

definition settled :: "hstream multiset \<Rightarrow> store \<Rightarrow> store \<Rightarrow> bool" where
  "settled R st st' \<longleftrightarrow> kept R st st' \<and> no_new_slots st st'"

lemma settled_refl [simp]: "settled R st st"
  by (simp add: settled_def)

lemma settled_trans: "settled R a b \<Longrightarrow> settled R b c \<Longrightarrow> settled R a c"
  by (auto simp: settled_def intro: kept_trans no_new_trans)

lemma settled_mono: "settled R st st' \<Longrightarrow> set_mset R' \<subseteq> set_mset R \<Longrightarrow> settled R' st st'"
  by (auto simp: settled_def intro: kept_mono)

text \<open>
  The same bytes or the same panic as on values, and the handles the writer was given are gone
  with exact counts; or a counter of the store is used up.
\<close>

definition sends_as :: "hstream multiset \<Rightarrow> store \<Rightarrow> (u8 list \<times> usize \<times> store) result \<Rightarrow> (u8 list \<times> usize) result \<Rightarrow> bool" where
  "sends_as R st a b \<longleftrightarrow> (\<exists>p. a = Inl p \<and> exhausted p) \<or>
     (case b of Inl p \<Rightarrow> a = Inl p | Inr (bs, l) \<Rightarrow> \<exists>st'. a = Inr (bs, l, st') \<and> store_inv R [] st' \<and> settled R st st')"

lemma sends_as_same: "sends_as R st (Inl p) (Inl p)"
  by (simp add: sends_as_def)

lemma on_store_sends: "store_inv R [] st \<Longrightarrow> sends_as R st (on_store f l st) (f l)"
  by (cases "f l") (auto simp: sends_as_def on_store_def)

lemma sends_as_kept: "settled R st st' \<Longrightarrow> sends_as R st' a b \<Longrightarrow> sends_as R st a b"
  by (auto simp: sends_as_def split: sum.splits intro: settled_trans)

text \<open>One step after another, the first of which may use up handles.\<close>

lemma then_sends:
  assumes f: "sends_as (Q + R) st (f l st) (fv l)"
    and g: "\<And>l st'. store_inv (Q + R) [] st' \<Longrightarrow> settled (Q + R) st st' \<Longrightarrow> sends_as R st' (g l st') (gv l)"
  shows "sends_as R st (then_store f g l st) (then_send fv gv l)"
proof -
  consider p where "f l st = Inl p" "exhausted p" | p where "fv l = Inl p" "f l st = Inl p"
    | bs l2 st' where "fv l = Inr (bs, l2)" "f l st = Inr (bs, l2, st')" "store_inv (Q + R) [] st'" "settled (Q + R) st st'"
    using f by (cases "fv l") (auto simp: sends_as_def)
  then show ?thesis
  proof cases
    case 3
    then have "settled R st st'" using settled_mono [of "Q + R" st st' R] by auto
    from sends_as_kept [OF this g [OF 3(3,4), of l2]] show ?thesis
      unfolding then_store_def then_send_def 3 and_then_simps prod.case
      by (cases "gv l2") (auto simp: sends_as_def)
  qed (simp_all add: sends_as_def then_store_def then_send_def)
qed

text \<open>A step on the table alone, and the rest.\<close>

lemma on_store_then:
  assumes "\<And>l. sends_as R st (g l st) (gv l)"
  shows "sends_as R st (then_store (on_store f) g l st) (then_send f gv l)"
proof (cases "f l")
  case (Inr x)
  obtain bs l2 where x: "x = (bs, l2)" by (cases x)
  show ?thesis
    using assms [of l2] unfolding then_store_def on_store_def then_send_def Inr x
    by (cases "gv l2") (auto simp: sends_as_def)
qed (simp add: then_store_def on_store_def then_send_def sends_as_same)

definition inner_agrees :: "span_table \<Rightarrow> nat \<Rightarrow> bool" where
  "inner_agrees tbl n \<longleftrightarrow> (\<forall>R st h v l. store_inv (add_mset h R) [] st \<longrightarrow> means st h v \<longrightarrow> size v < n \<longrightarrow>
     sends_as R st (store_inner tbl n h l st) (send_trees tbl (hidden v) 0 (trees v) l))"

lemma drop_then:
  assumes "store_inv (add_mset h (Q + R)) [] st"
    and "\<And>st'. store_inv (Q + R) [] st' \<Longrightarrow> settled (Q + R) st st' \<Longrightarrow> sends_as R st' (g l st') b"
  shows "sends_as R st (then_store (dropping h) g l st) b"
proof -
  obtain st' where d: "drop_stream h st = Inr st'" "store_inv (Q + R) [] st'" "settled (Q + R) st st'"
    using drop_stream_ok [OF assms(1)] no_new_drop unfolding settled_def by blast
  then have "settled R st st'" using settled_mono [of "Q + R" st st' R] by auto
  from sends_as_kept [OF this assms(2) [OF d(2,3)]] show ?thesis
    unfolding then_store_def dropping_def d and_then_simps prod.case
    by (cases "g l st'") (auto simp: sends_as_def)
qed

text \<open>A run of joint punctuation is the same in trees of both kinds, and takes no groups.\<close>

lemma joint_run_related:
  "trees_mean st ts vs \<Longrightarrow> joint_run chars e j i ts = (chars', e', j', i', ts') \<Longrightarrow>
   \<exists>vs'. joint_run chars e j i vs = (chars', e', j', i', vs') \<and> trees_mean st ts' vs' \<and>
     child_handles ts' = child_handles ts \<and> trees_size vs' \<le> trees_size vs"
proof (induction chars e j i ts arbitrary: vs rule: joint_run.induct)
  case (1 chars e j i p ts)
  then obtain vs2 where vs: "vs = TPunct p # vs2" "trees_mean st ts vs2"
    by (auto simp: list_all2_Cons1 elim!: token_tree.rel_cases)
  show ?case
  proof (cases "punct_as_char p \<noteq> c_squote \<and> punct_spacing p = Joint")
    case True
    then show ?thesis using "1.IH" [of vs2] "1.prems"(2) vs by force
  next
    case False
    then show ?thesis using "1.prems" vs by (auto split: if_splits)
  qed
qed (auto simp: list_all2_Cons1 elim!: token_tree.rel_cases)

text \<open>What the steps for the trees after the first one need of them.\<close>

lemma tail_kept:
  assumes "store_inv (child_handles ts + R) [] st'" "settled (child_handles ts + R) st st'" "trees_mean st ts vs"
  shows "trees_mean st' ts vs"
  by (rule trees_mean_kept [OF _ _ assms(3)]) (use assms(2) in \<open>auto simp: settled_def\<close>)

lemma trees_agree:
  assumes inner: "inner_agrees tbl n"
  shows "store_inv (child_handles ts + R) [] st \<Longrightarrow> trees_mean st ts vs \<Longrightarrow> trees_size vs \<le> n \<Longrightarrow>
    sends_as R st (store_trees tbl n hs i ts l st) (send_trees tbl hs i vs l)"
proof (induction ts arbitrary: vs i st l rule: measure_induct_rule [where f = length])
  case (less ts)
  note inv = less.prems(1) and mean = less.prems(2) and size = less.prems(3)
  show ?case
  proof (cases ts)
    case Nil
    then show ?thesis using inv mean on_store_sends [of R st "emit []"] by simp
  next
    case (Cons t ts1)
    obtain v vs1 where vs: "vs = v # vs1" "tree_means st t v" "trees_mean st ts1 vs1"
      using mean unfolding Cons by (auto simp: list_all2_Cons1)
    have IH: "sends_as R st' (store_trees tbl n hs j ts1 k st') (send_trees tbl hs j vs1 k)"
      if "store_inv (child_handles ts1 + R) [] st'" "trees_mean st' ts1 vs1" for st' j k
      by (rule less.IH) (use that size in \<open>simp_all add: Cons vs(1)\<close>)
    show ?thesis
    proof (cases t)
      case (TGroup g)
      then obtain g' where g': "v = TGroup g'" "delimiter g' = delimiter g" "group_spans g' = group_spans g"
        "fragment g' = fragment g" "means st (group_stream g) (group_stream g')"
        using vs(2) by (cases v) (auto simp: group.rel_sel)
      have gi: "store_inv (add_mset (group_stream g) (child_handles ts1 + R)) [] st" using inv by (simp add: Cons TGroup)
      have rest: "sends_as R st' (store_trees tbl n hs j ts1 k st') (send_trees tbl hs j vs1 k)"
        if "store_inv (child_handles ts1 + R) [] st'" "settled (child_handles ts1 + R) st st'" for st' j k
        by (rule IH [OF that(1) tail_kept [OF that vs(3)]])
      have nested: "sends_as (child_handles ts1 + R) st (store_inner tbl n (group_stream g) k st)
          (send_trees tbl (hidden (group_stream g')) 0 (trees (group_stream g')) k)" for k
        using inner gi g'(5) size unfolding inner_agrees_def by (simp add: vs(1) g'(1))
      show ?thesis
        unfolding Cons vs(1) TGroup g'(1)
        by (auto simp: g'(2-4) intro!: on_store_then drop_then [OF gi] rest
            then_sends [where f = "store_inner tbl n (group_stream g)" and Q = "child_handles ts1"
              and fv = "send_trees tbl (hidden (group_stream g')) 0 (trees (group_stream g'))", OF nested])
    next
      case (TIdent w)
      then have "v = TIdent w" using vs(2) by (cases v) auto
      then show ?thesis using TIdent inv IH vs(3) by (auto simp: Cons vs(1) intro!: on_store_then)
    next
      case (TLiteral w)
      then have "v = TLiteral w" using vs(2) by (cases v) auto
      then show ?thesis using TLiteral inv IH vs(3) by (auto simp: Cons vs(1) intro!: on_store_then)
    next
      case (TPunct w)
      then have v: "v = TPunct w" using vs(2) by (cases v) auto
      have pinv: "store_inv (child_handles ts1 + R) [] st" using inv by (simp add: Cons TPunct)
      have shorter: "sends_as R st (store_trees tbl n hs j us k st) (send_trees tbl hs j ws k)"
        if "child_handles us = child_handles ts1" "length us \<le> length ts1" "trees_mean st us ws" "trees_size ws \<le> trees_size vs1"
        for us ws j k
        by (rule less.IH) (use that pinv size in \<open>simp_all add: Cons vs(1)\<close>)
      obtain chars e ej j ts2 where run: "joint_run [punct_as_char w] i True (i + 1) ts1 = (chars, e, ej, j, ts2)"
        by (rule prod_cases5)
      then obtain vs2 where run2: "joint_run [punct_as_char w] i True (i + 1) vs1 = (chars, e, ej, j, vs2)"
        "trees_mean st ts2 vs2" "child_handles ts2 = child_handles ts1" "trees_size vs2 \<le> trees_size vs1"
        using joint_run_related [OF vs(3)] by blast
      note joint = shorter [OF run2(3) joint_run_shorter [OF run] run2(2,4)]
      have single: "sends_as R st (store_trees tbl n hs j ts1 k st) (send_trees tbl hs j vs1 k)" for j k
        by (rule shorter) (simp_all add: vs(3))
      show ?thesis
      proof (cases "punct_as_char w = c_squote")
        case True
        show ?thesis
        proof (cases "\<exists>x us. ts1 = TIdent x # us")
          case True
          then obtain x us where us: "ts1 = TIdent x # us" by blast
          then obtain ws where ws: "vs1 = TIdent x # ws" "trees_mean st us ws"
            using vs(3) by (auto simp: list_all2_Cons1 elim!: token_tree.rel_cases)
          have "sends_as R st (store_trees tbl n hs j us k st) (send_trees tbl hs j ws k)" for j k
            by (rule shorter) (simp_all add: us ws)
          then show ?thesis
            using \<open>punct_as_char w = c_squote\<close> by (auto simp: Cons vs(1) TPunct v us ws(1) intro!: on_store_then)
        next
          case False
          then have "\<nexists>x us. vs1 = TIdent x # us" using vs(3) by (auto simp: list_all2_Cons2 elim!: token_tree.rel_cases)
          with False show ?thesis
            using \<open>punct_as_char w = c_squote\<close>
            by (auto simp: Cons vs(1) TPunct v sends_as_same intro!: on_store_then split: list.split token_tree.split)
        qed
      next
        case False
        then show ?thesis
          using joint single
          by (auto simp: Cons vs(1) TPunct v run [simplified] run2(1) [simplified] intro!: on_store_then)
      qed
    qed
  qed
qed

lemma hidden_joins_means: "means st h v \<Longrightarrow> hidden_joins h st = Inr (hidden v)"
  by (cases h) (auto simp: hidden_joins_def empty_stream_def elim: means_Some_slot)

lemma inner_sends: "inner_agrees tbl n"
proof (induction n)
  case (Suc n)
  show ?case
    unfolding inner_agrees_def
  proof (intro allI impI)
    fix R st h v l
    assume inv: "store_inv (add_mset h R) [] st" and mean: "means st h v" and size: "size v < Suc n"
    show "sends_as R st (store_inner tbl (Suc n) h l st) (send_trees tbl (hidden v) 0 (trees v) l)"
    proof (cases "into_trees h st")
      case (Inl p)
      then show ?thesis
        using into_trees_fine [OF inv mean] by (simp add: hidden_joins_means [OF mean] sends_as_def)
    next
      case (Inr x)
      obtain ts st' where x: "x = (ts, st')" by (cases x)
      have c: "store_inv (child_handles ts + R) [] st'" "settled R st st'" "trees_mean st' ts (trees v)"
        using into_trees_fine [OF inv mean] no_new_into_trees [of h st ts st'] by (simp_all add: Inr x consumed_def settled_def)
      have "trees_size (trees v) \<le> n" using trees_smaller [of v] size by simp
      from sends_as_kept [OF c(2) trees_agree [OF Suc.IH c(1,3) this]] show ?thesis
        by (simp add: hidden_joins_means [OF mean] Inr x)
    qed
  qed
qed (simp add: inner_agrees_def)

section \<open>The property\<close>

text \<open>
  C12. The writer on the store refines the writer on values: for a handle and any fuel above the size of
  the stream it means, the bytes sent are those of the stream, or the panic is; the only other
  outcome is that a counter of the store is used up. The handle is gone, the reference counts are
  exact without it, every other handle keeps its meaning, also one that shared a slot with the
  stream sent, and nothing leaks: where no other handle was held, no slot is live.
\<close>

theorem store_send_refines:
  assumes "store_inv (add_mset h R) [] st" and "grounded st" and "means st h s" and "size s < n"
  shows "(\<exists>p. store_send tbl n h st = Inl p \<and> exhausted p) \<or>
    (case send_token_stream tbl s of
       Inl p \<Rightarrow> store_send tbl n h st = Inl p
     | Inr bs \<Rightarrow> \<exists>st'. store_send tbl n h st = Inr (bs, st') \<and> store_inv R [] st' \<and> grounded st' \<and>
         (\<forall>k \<in># R. \<forall>u. means st k u \<longrightarrow> means st' k u) \<and> (R = {#} \<longrightarrow> (\<forall>j. \<exists>p. slot_at j st' = Inl p)))"
proof -
  have "sends_as ({#} + R) st (store_inner tbl n h 1 st) (send_trees tbl (hidden s) 0 (trees s) 1)"
    using inner_sends assms by (simp add: inner_agrees_def)
  then have sent: "sends_as R st (then_store (store_inner tbl n h) (on_store (emit (write_sym []))) 1 st)
      (then_send (send_trees tbl (hidden s) 0 (trees s)) (emit (write_sym [])) 1)"
    by (rule then_sends) (simp add: on_store_sends)
  have "grounded st' \<and> (\<forall>k \<in># R. \<forall>u. means st k u \<longrightarrow> means st' k u) \<and> (R = {#} \<longrightarrow> (\<forall>j. \<exists>p. slot_at j st' = Inl p))"
    if "store_inv R [] st'" "settled R st st'" for st'
  proof -
    have "grounded st'"
      by (rule grounded_shrink [OF assms(2) that(1)]) (use that(2) in \<open>simp add: settled_def no_new_slots_def\<close>)
    then show ?thesis using that unheld_store_dead by (auto simp: settled_def kept_def)
  qed
  then have after: "store_inv R [] st' \<and> settled R st st' \<longrightarrow> grounded st' \<and>
      (\<forall>k \<in># R. \<forall>u. means st k u \<longrightarrow> means st' k u) \<and> (R = {#} \<longrightarrow> (\<forall>j. \<exists>p. slot_at j st' = Inl p))" for st'
    by blast
  show ?thesis
  proof (cases "then_send (send_trees tbl (hidden s) 0 (trees s)) (emit (write_sym [])) 1")
    case (Inl p)
    then show ?thesis using sent by (auto simp: sends_as_def store_send_def send_token_stream_def)
  next
    case (Inr x)
    obtain bs k where x: "x = (bs, k)" by (cases x)
    show ?thesis
      using sent after unfolding sends_as_def store_send_def send_token_stream_def Inr x by (force simp del: split_paired_Ex)
  qed
qed

text \<open>A stream in parentheses whose contents another handle shares.\<close>

definition sent_group :: "'s \<Rightarrow> 's token_tree" where
  "sent_group s = TGroup (Group Parenthesis s (delim_span_from_single 2) 0)"

definition sent_plus :: "'s token_tree" where
  "sent_plus = TPunct \<lparr>punct_ch = 43, punct_joint = False, punct_span = 2\<rparr>"

definition sent_store :: store where
  "sent_store = \<lparr>slots = [Some \<lparr>slot_trees = [sent_plus], slot_hidden = [], slot_handles = 2\<rparr>,
     Some \<lparr>slot_trees = [sent_group (Some 1)], slot_hidden = [], slot_handles = 1\<rparr>], free = []\<rparr>"

lemma sent_slot_at:
  "slot_at h sent_store =
     (if h = 1 then Inr \<lparr>slot_trees = [sent_plus], slot_hidden = [], slot_handles = 2\<rparr>
      else if h = 2 then Inr \<lparr>slot_trees = [sent_group (Some 1)], slot_hidden = [], slot_handles = 1\<rparr>
      else Inl (Panic ''index out of bounds''))"
  using shared_slot_at [of h] by (auto simp: slot_at_def shared_store_def sent_store_def nth_Cons' split: if_splits)

lemma sent_inv: "store_inv {#Some 1, Some 2#} [] sent_store"
proof -
  have "all_refs sent_store = {#Some 1#}"
    by (simp add: all_refs_def sent_store_def slot_refs_def sent_plus_def sent_group_def)
  then show ?thesis
    by (auto simp: store_inv_def counts_ok_def refs_def held_def sent_slot_at dead_ok_def less_Suc_eq split: if_splits)
      (auto simp: sent_store_def less_Suc_eq)
qed

lemma sent_means:
  "means sent_store (Some 1) (Stream [sent_plus] [])"
  "means sent_store (Some 2) (Stream [sent_group (Stream [sent_plus] [])] [])"
proof -
  show 1: "means sent_store (Some 1) (Stream [sent_plus] [])"
    using means_slot [of 1 sent_store _ "[sent_plus]"] by (simp add: sent_slot_at sent_plus_def)
  show "means sent_store (Some 2) (Stream [sent_group (Stream [sent_plus] [])] [])"
    using means_slot [of 2 sent_store _ "[sent_group (Stream [sent_plus] [])]"] 1 by (simp add: sent_slot_at sent_group_def)
qed

lemma sent_grounded: "grounded sent_store"
  using sent_means by (auto simp: grounded_def sent_slot_at split: if_splits)

theorem store_send_refines_witness:
  "\<exists>bs st'. send_token_stream \<lparr>spans = [], spans_complete = True\<rparr> (Stream [sent_group (Stream [sent_plus] [])] []) = Inr bs \<and>
     store_send \<lparr>spans = [], spans_complete = True\<rparr> 20 (Some 2) sent_store = Inr (bs, st') \<and>
     store_inv {#Some 1#} [] st' \<and> means st' (Some 1) (Stream [sent_plus] [])"
proof -
  let ?v = "Stream [sent_group (Stream [sent_plus] [])] []" and ?t = "\<lparr>spans = [], spans_complete = True\<rparr>"
  have v: "case send_token_stream ?t ?v of Inr _ \<Rightarrow> True | Inl _ \<Rightarrow> False" by code_simp
  have s: "case store_send ?t 20 (Some 2) sent_store of Inr _ \<Rightarrow> True | Inl _ \<Rightarrow> False" by code_simp
  have "store_inv (add_mset (Some 2) {#Some 1#}) [] sent_store" "size ?v < 20"
    using sent_inv by (simp_all add: add_mset_commute sent_plus_def sent_group_def)
  from store_send_refines [OF this(1) sent_grounded sent_means(2) this(2), of ?t] v s sent_means(1)
  show ?thesis by (auto split: sum.splits)
qed

end
