(* ===== verification/Spec2Isabelle.thy ===== *)
theory Spec2Isabelle
  imports Symbols Escape LexErrors LexBack Serialise SendBack Streams Host Diagnostics Dump Macros Hosted Relex Unit_Macros Macro_Checks Attributes Legacy_Codec Receive_Store Send_Store
begin

text \<open>
  A verification development of the Rust code of trustme: the library \<^verbatim>\<open>lib/proc_macro\<close>, which
  procedural macros link instead of the compiler's own \<^verbatim>\<open>proc_macro\<close>, its tool
  \<^verbatim>\<open>tools/dump.rs\<close>, and the macros with which the repository's units exercise it.

  \<^bold>\<open>The program.\<close> A macro crate is a process of its own. \<^verbatim>\<open>main\<close> (\<^verbatim>\<open>src/lib.rs\<close>) reads requests
  from standard input: a macro's name, then its input streams in the byte protocol of
  \<^verbatim>\<open>src/protocol.rs\<close>. \<^verbatim>\<open>src/serialisation.rs\<close> turns these tokens into a tree of tokens
  (\<^verbatim>\<open>src/token_tree.rs\<close>) kept in the slots of a stream store (\<^verbatim>\<open>src/lib.rs\<close>), with the positions
  of \<^verbatim>\<open>src/span.rs\<close> and the interned names of \<^verbatim>\<open>src/symbol.rs\<close>. The macro runs on the trees; it may
  lex text of its own (\<^verbatim>\<open>src/lex.rs\<close>), make literals (\<^verbatim>\<open>src/escape.rs\<close> escapes them) and report
  diagnostics (\<^verbatim>\<open>src/diagnostic.rs\<close>). Its result goes back through the writer of
  \<^verbatim>\<open>src/serialisation.rs\<close>, or the text of its panic does.

  \<^bold>\<open>The theories\<close>, bottom up. Definitions carry the names of the functions they translate; a name
  that several files share is qualified by what it works on.
    \<^item> \<^verbatim>\<open>Rust_Base\<close>: machine integers as words, characters and strings as code points, panics as the
      left injection of a sum, sequencing. \<^verbatim>\<open>Unicode_Text\<close>: UTF-8, character classes (the tables
      beyond ASCII are the parameter \<open>unicode\<close>), decimal and hexadecimal digits.
    \<^item> \<^verbatim>\<open>Symbols\<close> (\<^verbatim>\<open>symbol.rs\<close>): the table \<open>NAMES\<close> with its index; handles stay valid and are
      equal exactly when the texts are.
    \<^item> \<^verbatim>\<open>Spans\<close> (\<^verbatim>\<open>span.rs\<close>): the span table with its define, freeze and reset phases, and the
      methods of \<open>Span\<close>; what \<open>located_at\<close>, \<open>start\<close> and \<open>end\<close> give, and that only known spans go back.
    \<^item> \<^verbatim>\<open>Escape\<close> (\<^verbatim>\<open>escape.rs\<close>) and \<^verbatim>\<open>Literals\<close>, \<^verbatim>\<open>Tokens\<close>, \<^verbatim>\<open>Trees\<close> (\<^verbatim>\<open>token_tree.rs\<close>, and the
      \<open>Display\<close> of \<open>TokenStream\<close>): constructors, validation, spelling, printing and reading of tokens.
    \<^item> \<^verbatim>\<open>Wire\<close>, \<^verbatim>\<open>Wire_Reading\<close> (\<^verbatim>\<open>protocol.rs\<close>): the codec. Its contract is the locale \<open>codec\<close>, a
      reader that undoes a writer whatever follows, interpreted for every kind of payload.
    \<^item> \<^verbatim>\<open>Lexer\<close>, \<^verbatim>\<open>Lexing\<close>, \<^verbatim>\<open>Grouping\<close>, \<^verbatim>\<open>LexBack\<close> (\<^verbatim>\<open>lex.rs\<close>): the lexer branch by branch, that the text
      it accepts is blanks, comments and the spellings of its tokens (\<open>text_tokens\<close>, with block comments up
      to exactly the end that closes them), and that it reads back what the constructors of literals print.
    \<^item> \<^verbatim>\<open>Lex_Rejects\<close>, \<^verbatim>\<open>LexErrors\<close>: the texts it refuses, as a grammar on the text alone (\<open>rejects\<close>, one
      rule for each message), and that every failure of the lexer is the one of the text it is stuck at.
    \<^item> \<^verbatim>\<open>Locality\<close>, \<^verbatim>\<open>Relex\<close>: each reader of the lexer looks no further than one character past its
      token, so the text a lexed stream is printed as lexes to the same stream again.
    \<^item> \<^verbatim>\<open>Serialise\<close>, \<^verbatim>\<open>Sending\<close>, \<^verbatim>\<open>SendBack\<close> (\<^verbatim>\<open>serialisation.rs\<close>): receiving and sending a stream,
      that receiving ends on every input, and that what is sent is read back. \<open>settled\<close> is the form the
      notation gives a stream: one join byte per tree and one span per operator run, lifetime and group.
    \<^item> \<^verbatim>\<open>Lex_Typed\<close>, \<^verbatim>\<open>Lex_Send\<close>: what the lexer returns is well formed at every depth, so it can be
      sent and is read back. \<open>padded\<close> is a stream as the reader makes it, one join byte per tree.
    \<^item> \<^verbatim>\<open>Streams\<close> (\<^verbatim>\<open>lib.rs\<close>, \<^verbatim>\<open>mod token_stream\<close>): the slots, handles, clones, drops and copy on
      write. \<open>means\<close> abstracts a handle to a stream value; the reference counts are exact in every
      state (\<open>store_inv\<close>), the operations refine those on values, and nothing leaks. \<^verbatim>\<open>Receive_Store\<close>,
      \<^verbatim>\<open>Send_Store\<close>: the reader and the writer of \<^verbatim>\<open>serialisation.rs\<close> run on the store refine those on
      stream values.
    \<^item> \<^verbatim>\<open>Host\<close> (\<^verbatim>\<open>lib.rs\<close>, \<^verbatim>\<open>main\<close> and \<^verbatim>\<open>run\<close>): the process as a step relation, which implements the
      abstract \<open>session\<close>, answers every request exactly once and ends on every input; a \<open>transcript\<close> ties
      each reply, and the death of the process, to the bytes of its own request. \<^verbatim>\<open>Hosted\<close>: the
      reader, the writer and the host together apply a macro to the streams sent to it, and answer for
      a macro that lexes text; one that prints its input and parses it again gives its bytes back.
    \<^item> \<^verbatim>\<open>Diagnostics\<close> (\<^verbatim>\<open>diagnostic.rs\<close>) and \<^verbatim>\<open>Dump\<close> (\<^verbatim>\<open>tools/dump.rs\<close>): what they print. The tool's match over
      the tokens is not exhaustive, so it does not compile against the current protocol; what a completed
      one would do at the missing arms is the parameter \<open>unarmed\<close>.
    \<^item> \<^verbatim>\<open>Client\<close>, \<^verbatim>\<open>Macros\<close>, \<^verbatim>\<open>Unit_Macros\<close>, \<^verbatim>\<open>Derives\<close>, \<^verbatim>\<open>Attributes\<close>, \<^verbatim>\<open>Macro_Checks\<close> (\<^verbatim>\<open>tst/unit\<close>): the repository's own macros
      on stream values. The repository's assertions about the lexer and the unit tests at the end of
      \<^verbatim>\<open>lex.rs\<close> and \<^verbatim>\<open>serialisation.rs\<close> are evaluated on the model, as lemmas. What the derives write is computed for every
      input by lexing text with a name or a string in it, and recursive counts share the locale
      \<open>counting\<close>.
    \<^item> \<^verbatim>\<open>Legacy_Codec\<close> (\<^verbatim>\<open>tst/unit/aux/rustc_serialize.rs\<close>, \<^verbatim>\<open>test_derive_legacy_serialization.rs\<close>): a
      fallible stream codec and the code two derives of the compiler (\<^verbatim>\<open>bin/rustc/synext_decorator.cpp\<close>)
      write for any struct or enum. What a stream owes its clients are the locales \<open>number_sink\<close> and
      \<open>number_source\<close>, interpreted on the buffer of the test; the test passes for every derived type.

  \<^bold>\<open>Conventions.\<close> Global mutable state (\<open>NAMES\<close>, \<open>SPANS\<close>, \<open>SLOTS\<close>, \<open>IS_AVAILABLE\<close>, a macro's
  statics) is passed explicitly. A panic carries the text of its site without the values formatted
  into it. Arithmetic wraps as in the release build the repository makes (\<^verbatim>\<open>tst/std/build.py\<close>), but for
  the handle counts of \<^verbatim>\<open>Streams\<close>: at the \<open>2 ^ 32\<close>nd handle to one slot the model stops, as a build with overflow
  checks does, and the statements set this case apart. Theories above \<^verbatim>\<open>Symbols\<close> and \<^verbatim>\<open>Streams\<close> use the texts and stream values that these
  theories show the handles to stand for.

  \<^bold>\<open>Fuel and termination.\<close> \<open>get_subtree\<close> takes fuel, one more than the bytes left; every turn
  reads at least one, so it never runs out (\<open>recv_returns\<close>). On the store \<open>store_inner\<close> takes fuel
  for the depth it goes to; more than the size of the stream sent is enough (\<open>store_send_refines\<close>).
  The lexer's only endless loop, a line comment on the last line, is the outcome \<open>LexDiverges\<close>.
  All other loops terminate on a measure.

  \<^bold>\<open>Parameters.\<close> The character tables of the standard library beyond ASCII, how it prints floats
  (\<open>std_env\<close>), the message it makes of a panic, the contents of files, the environment, the
  macros of a host, and \<open>unarmed\<close> for the arms the dump tool lacks.

  \<^bold>\<open>Not modelled.\<close> Short writes to a pipe and errors of it, the environment variables of the debug
  output, field accessors and \<open>From\<close> conversions (record selectors and constructors), the text a
  panic message formats values into. Of the units, the short macros of the remaining files. The
  compiler in C++ but for the two derives of \<open>Legacy_Codec\<close>, the cargo replacement in Go, and the corpora of upstream Rust programs under
  \<^verbatim>\<open>tst\<close> are outside this development.
\<close>

end
